(* ===== verification/Http_Text.thy ===== *)
theory Http_Text
  imports Prelude "HOL-Library.Char_ord" "HOL-Library.List_Lexorder"
begin

unbundle bit_operations_syntax

text \<open>
  The byte-string utilities of \<^verbatim>\<open>src/CPPTools/include/httplib.h\<close> (namespace
  \<open>httplib::detail\<close>) that both the HTTP client and the request parsers are built on:
  case-insensitive comparison and hashing of header names, the character classes of RFC 9110
  fields, hexadecimal digits, UTF-8 and base64 encoding, URL encoding and decoding, path
  validation, trimming and splitting, and query strings.

  An out-parameter that is only written on success is an \<^typ>\<open>'a option\<close> result; a callback
  that a splitter calls once per piece is the list of the pieces, in call order.
\<close>

section \<open>Case-insensitive strings: namespace \<open>case_ignore\<close>\<close>

definition to_lower_table :: "nat list" where
  "to_lower_table = [
     0, 1, 2, 3, 4, 5, 6, 7, 8, 9, 10, 11, 12, 13, 14, 15,
     16, 17, 18, 19, 20, 21, 22, 23, 24, 25, 26, 27, 28, 29, 30, 31,
     32, 33, 34, 35, 36, 37, 38, 39, 40, 41, 42, 43, 44, 45, 46, 47,
     48, 49, 50, 51, 52, 53, 54, 55, 56, 57, 58, 59, 60, 61, 62, 63,
     64, 97, 98, 99, 100, 101, 102, 103, 104, 105, 106, 107, 108, 109, 110, 111,
     112, 113, 114, 115, 116, 117, 118, 119, 120, 121, 122, 91, 92, 93, 94, 95,
     96, 97, 98, 99, 100, 101, 102, 103, 104, 105, 106, 107, 108, 109, 110, 111,
     112, 113, 114, 115, 116, 117, 118, 119, 120, 121, 122, 123, 124, 125, 126, 127,
     128, 129, 130, 131, 132, 133, 134, 135, 136, 137, 138, 139, 140, 141, 142, 143,
     144, 145, 146, 147, 148, 149, 150, 151, 152, 153, 154, 155, 156, 157, 158, 159,
     160, 161, 162, 163, 164, 165, 166, 167, 168, 169, 170, 171, 172, 173, 174, 175,
     176, 177, 178, 179, 180, 181, 182, 183, 184, 185, 186, 187, 188, 189, 190, 191,
     224, 225, 226, 227, 228, 229, 230, 231, 232, 233, 234, 235, 236, 237, 238, 239,
     240, 241, 242, 243, 244, 245, 246, 215, 248, 249, 250, 251, 252, 253, 254, 223,
     224, 225, 226, 227, 228, 229, 230, 231, 232, 233, 234, 235, 236, 237, 238, 239,
     240, 241, 242, 243, 244, 245, 246, 247, 248, 249, 250, 251, 252, 253, 254, 255]"

definition to_lower :: "char \<Rightarrow> nat" where
  "to_lower c = to_lower_table ! byte c"

definition equal_ci :: "string \<Rightarrow> string \<Rightarrow> bool" where
  "equal_ci a b \<longleftrightarrow> length a = length b \<and> list_all2 (\<lambda>ca cb. to_lower ca = to_lower cb) a b"

text \<open>\<open>size_t\<close> is 32 or 64 bits wide on the platforms the tools are built for, so the hash is
  polymorphic in the width.\<close>

fun hash_core :: "string \<Rightarrow> 'w::len word \<Rightarrow> 'w word" where
  "hash_core [] h = h"
| "hash_core (c # s) h =
     hash_core s ((drop_bit 6 (- 1) AND (h * 33)) XOR word_of_nat (to_lower c))"

definition hash_ci :: "string \<Rightarrow> 'w::len word" where
  "hash_ci key = hash_core key 0"

fun str2tag_core :: "string \<Rightarrow> 32 word \<Rightarrow> 32 word" where
  "str2tag_core [] h = h"
| "str2tag_core (c # s) h =
     str2tag_core s ((drop_bit 6 (- 1) AND (h * 33)) XOR word_of_nat (byte c))"

definition str2tag :: "string \<Rightarrow> 32 word" where
  "str2tag s = str2tag_core s 0"

section \<open>Field syntax: namespace \<open>fields\<close>\<close>

definition is_token_char :: "char \<Rightarrow> bool" where
  "is_token_char c \<longleftrightarrow> isalnum c \<or> c \<in> set ''!#$%&*+-.^_`|~'' \<or> c = SQ"

definition is_token :: "string \<Rightarrow> bool" where
  "is_token s \<longleftrightarrow> s \<noteq> [] \<and> list_all is_token_char s"

definition is_field_name :: "string \<Rightarrow> bool" where
  "is_field_name s = is_token s"

definition is_vchar :: "char \<Rightarrow> bool" where
  "is_vchar c \<longleftrightarrow> 33 \<le> byte c \<and> byte c \<le> 126"

definition is_obs_text :: "char \<Rightarrow> bool" where
  "is_obs_text c \<longleftrightarrow> 128 \<le> byte c"

definition is_field_vchar :: "char \<Rightarrow> bool" where
  "is_field_vchar c \<longleftrightarrow> is_vchar c \<or> is_obs_text c"

text \<open>The loop over the inner characters of \<open>is_field_content\<close>, then its last one.\<close>

fun is_field_content_tail :: "string \<Rightarrow> bool" where
  "is_field_content_tail [] = True"
| "is_field_content_tail [c] = is_field_vchar c"
| "is_field_content_tail (c # s) =
     ((c = SP \<or> c = TAB \<or> is_field_vchar c) \<and> is_field_content_tail s)"

definition is_field_content :: "string \<Rightarrow> bool" where
  "is_field_content s =
     (case s of
        [] \<Rightarrow> True
      | [a] \<Rightarrow> is_field_vchar a
      | [a, b] \<Rightarrow> is_field_vchar a \<and> is_field_vchar b
      | a # t \<Rightarrow> is_field_vchar a \<and> is_field_content_tail t)"

definition is_field_value :: "string \<Rightarrow> bool" where
  "is_field_value s = is_field_content s"

section \<open>Numbers in text\<close>

definition is_numeric :: "string \<Rightarrow> bool" where
  "is_numeric str \<longleftrightarrow> str \<noteq> [] \<and> list_all isdigit str"

definition is_hex :: "char \<Rightarrow> nat option" where
  "is_hex c =
     (if 32 \<le> byte c \<and> isdigit c then Some (byte c - 48)
      else if 65 \<le> byte c \<and> byte c \<le> 70 then Some (byte c - 65 + 10)
      else if 97 \<le> byte c \<and> byte c \<le> 102 then Some (byte c - 97 + 10)
      else None)"

text \<open>\<open>s[s.size()]\<close> is a NUL, at which the loop of \<open>from_hex_to_i\<close> stops.\<close>

fun from_hex_loop :: "string \<Rightarrow> nat \<Rightarrow> nat \<Rightarrow> nat option" where
  "from_hex_loop t 0 val = Some val"
| "from_hex_loop [] (Suc cnt) val = None"
| "from_hex_loop (c # t) (Suc cnt) val =
     (if c = NUL then None
      else (case is_hex c of None \<Rightarrow> None | Some v \<Rightarrow> from_hex_loop t cnt (val * 16 + v)))"

definition from_hex_to_i :: "string \<Rightarrow> nat \<Rightarrow> nat \<Rightarrow> nat option" where
  "from_hex_to_i s i cnt = (if length s \<le> i then None else from_hex_loop (drop i s) cnt 0)"

definition hex_charset :: string where
  "hex_charset = ''0123456789abcdef''"

function from_i_to_hex_loop :: "nat \<Rightarrow> string \<Rightarrow> string" where
  "from_i_to_hex_loop n ret =
     (let ret' = hex_charset ! (n AND 15) # ret; n' = drop_bit 4 n
      in if n' > 0 then from_i_to_hex_loop n' ret' else ret')"
  by pat_completeness auto
termination
  by (relation "measure fst") (auto simp: drop_bit_eq_div)

declare from_i_to_hex_loop.simps [simp del]

definition from_i_to_hex :: "nat \<Rightarrow> string" where
  "from_i_to_hex n = from_i_to_hex_loop n []"

text \<open>\<open>to_utf8\<close> fills \<open>buff\<close> and returns the number of bytes; an empty result is the length 0.\<close>

definition to_utf8 :: "nat \<Rightarrow> string" where
  "to_utf8 code =
     (if code < 0x80 then [char_of (code AND 0x7F)]
      else if code < 0x800 then
        [char_of (0xC0 OR (drop_bit 6 code AND 0x1F)), char_of (0x80 OR (code AND 0x3F))]
      else if code < 0xD800 then
        [char_of (0xE0 OR (drop_bit 12 code AND 0xF)),
         char_of (0x80 OR (drop_bit 6 code AND 0x3F)), char_of (0x80 OR (code AND 0x3F))]
      else if code < 0xE000 then []
      else if code < 0x10000 then
        [char_of (0xE0 OR (drop_bit 12 code AND 0xF)),
         char_of (0x80 OR (drop_bit 6 code AND 0x3F)), char_of (0x80 OR (code AND 0x3F))]
      else if code < 0x110000 then
        [char_of (0xF0 OR (drop_bit 18 code AND 0x7)),
         char_of (0x80 OR (drop_bit 12 code AND 0x3F)),
         char_of (0x80 OR (drop_bit 6 code AND 0x3F)), char_of (0x80 OR (code AND 0x3F))]
      else [])"

section \<open>Base64\<close>

definition base64_lookup :: string where
  "base64_lookup = ''ABCDEFGHIJKLMNOPQRSTUVWXYZabcdefghijklmnopqrstuvwxyz0123456789+/''"

text \<open>\<open>val\<close> is a 32-bit \<open>int\<close> whose left shift wraps and whose right shift is arithmetic;
  \<open>valb\<close> stays between \<open>-6\<close> and 7.\<close>

function base64_drain :: "32 word \<Rightarrow> int \<Rightarrow> string \<Rightarrow> int \<times> string" where
  "base64_drain val valb out =
     (if valb \<ge> 0
      then base64_drain val (valb - 6)
             (out @ [base64_lookup ! unat (signed_drop_bit (nat valb) val AND 0x3F)])
      else (valb, out))"
  by pat_completeness auto
termination
  by (relation "measure (\<lambda>(val, valb, out). nat (valb + 6))") auto

declare base64_drain.simps [simp del]

fun base64_loop :: "string \<Rightarrow> 32 word \<Rightarrow> int \<Rightarrow> string \<Rightarrow> 32 word \<times> int \<times> string" where
  "base64_loop [] val valb out = (val, valb, out)"
| "base64_loop (c # s) val valb out =
     (let val' = push_bit 8 val + word_of_nat (byte c);
          (valb', out') = base64_drain val' (valb + 8) out
      in base64_loop s val' valb' out')"

definition base64_pad :: "string \<Rightarrow> string" where
  \<comment> \<open>\<open>while (out.size() % 4) out.push_back('=')\<close>\<close>
  "base64_pad out = out @ replicate ((4 - length out mod 4) mod 4) CHR ''=''"

definition base64_encode :: "string \<Rightarrow> string" where
  "base64_encode s =
     (let (val, valb, out) = base64_loop s 0 (- 6) [];
          out' = (if valb > - 6
                  then out @ [base64_lookup ! unat
                          (signed_drop_bit (nat (valb + 8)) (push_bit 8 val) AND 0x3F)]
                  else out)
      in base64_pad out')"

section \<open>Paths\<close>

fun skip_slash :: "string \<Rightarrow> string" where
  "skip_slash [] = []"
| "skip_slash (c # s) = (if c = CHR ''/'' then skip_slash s else c # s)"

fun read_component :: "string \<Rightarrow> (string \<times> string) option" where
  "read_component [] = Some ([], [])"
| "read_component (c # s) =
     (if c = CHR ''/'' then Some ([], c # s)
      else if c = NUL then None
      else if c = BSL then None
      else (case read_component s of None \<Rightarrow> None | Some (cmp, rest) \<Rightarrow> Some (c # cmp, rest)))"

lemma skip_slash_length [simp]: "length (skip_slash s) \<le> length s"
  by (induction s) auto

lemma read_component_length: "read_component s = Some (cmp, rest) \<Longrightarrow> length cmp + length rest = length s"
  by (induction s arbitrary: cmp) (auto split: if_splits option.splits)

lemma read_component_decreases:
  assumes "read_component s = Some (cmp, rest)" and "cmp \<noteq> []"
  shows "length (skip_slash rest) < length s"
proof -
  have "length cmp + length rest = length s" using assms(1) by (rule read_component_length)
  moreover have "0 < length cmp" using assms(2) by simp
  moreover have "length (skip_slash rest) \<le> length rest" by simp
  ultimately show ?thesis by linarith
qed

function is_valid_path_loop :: "string \<Rightarrow> nat \<Rightarrow> bool" where
  "is_valid_path_loop path level =
     (if path = [] then True
      else (case read_component path of
              None \<Rightarrow> False
            | Some (cmp, rest) \<Rightarrow>
                if cmp = [] then False \<comment> \<open>\<open>assert(len > 0)\<close>\<close>
                else if cmp = ''.'' then is_valid_path_loop (skip_slash rest) level
                else if cmp = ''..'' then
                  (if level = 0 then False else is_valid_path_loop (skip_slash rest) (level - 1))
                else is_valid_path_loop (skip_slash rest) (level + 1)))"
  by pat_completeness auto
termination
  by (relation "measure (\<lambda>(path, level). length path)")
    (auto dest: read_component_decreases)

declare is_valid_path_loop.simps [simp del]

definition is_valid_path :: "string \<Rightarrow> bool" where
  "is_valid_path path = is_valid_path_loop (skip_slash path) 0"

section \<open>URL encoding\<close>

definition hex_upper :: "nat \<Rightarrow> char" where
  "hex_upper n = ''0123456789ABCDEF'' ! n"

definition percent_byte :: "char \<Rightarrow> string" where
  \<comment> \<open>\<open>'%'\<close> and two upper-case hexadecimal digits\<close>
  "percent_byte c = [CHR ''%'', hex_upper (byte c div 16), hex_upper (byte c mod 16)]"

definition query_char_ok :: "char \<Rightarrow> bool" where
  "query_char_ok c \<longleftrightarrow> isalnum c \<or> c \<in> set ''-_.!~*()'' \<or> c = SQ"

fun encode_query_param :: "string \<Rightarrow> string" where
  "encode_query_param [] = []"
| "encode_query_param (c # value) =
     (if query_char_ok c then [c] else percent_byte c) @ encode_query_param value"

definition encode_url_char :: "char \<Rightarrow> string" where
  "encode_url_char c =
     (if c = SP then ''%20''
      else if c = CHR ''+'' then ''%2B''
      else if c = CR then ''%0D''
      else if c = LF then ''%0A''
      else if c = SQ then ''%27''
      else if c = CHR '','' then ''%2C''
      else if c = CHR '';'' then ''%3B''
      else if 0x80 \<le> byte c then percent_byte c
      else [c])"

fun encode_url :: "string \<Rightarrow> string" where
  "encode_url [] = []"
| "encode_url (c # s) = (if c = NUL then [] else encode_url_char c @ encode_url s)"

function decode_url :: "string \<Rightarrow> bool \<Rightarrow> string" where
  "decode_url [] convert_plus_to_space = []"
| "decode_url (c # s) convert_plus_to_space =
     (if c = CHR ''%'' \<and> s \<noteq> [] then
        (if hd s = CHR ''u'' then
           (case from_hex_to_i (c # s) 2 4 of
              Some val \<Rightarrow> to_utf8 val @ decode_url (drop 5 s) convert_plus_to_space
            | None \<Rightarrow> c # decode_url s convert_plus_to_space)
         else
           (case from_hex_to_i (c # s) 1 2 of
              Some val \<Rightarrow> char_of val # decode_url (drop 2 s) convert_plus_to_space
            | None \<Rightarrow> c # decode_url s convert_plus_to_space))
      else if convert_plus_to_space \<and> c = CHR ''+'' then
        SP # decode_url s convert_plus_to_space
      else c # decode_url s convert_plus_to_space)"
  by pat_completeness auto
termination
  by (relation "measure (\<lambda>(s, b). length s)") auto

section \<open>Trimming and splitting\<close>

definition is_space_or_tab :: "char \<Rightarrow> bool" where
  "is_space_or_tab c \<longleftrightarrow> c = SP \<or> c = TAB"

function trim_left :: "string \<Rightarrow> nat \<Rightarrow> nat" where
  "trim_left b left =
     (if left < length b \<and> is_space_or_tab (b ! left) then trim_left b (left + 1) else left)"
  by pat_completeness auto
termination
  by (relation "measure (\<lambda>(b, left). length b - left)") auto

fun trim_right :: "string \<Rightarrow> nat \<Rightarrow> nat" where
  "trim_right b 0 = 0"
| "trim_right b (Suc r) = (if is_space_or_tab (b ! r) then trim_right b r else Suc r)"

declare trim_left.simps [simp del]

definition trim :: "string \<Rightarrow> nat \<Rightarrow> nat \<Rightarrow> nat \<times> nat" where
  "trim b left right = (trim_left b left, trim_right b right)"

definition substr :: "string \<Rightarrow> nat \<Rightarrow> nat \<Rightarrow> string" where
  \<comment> \<open>the bytes from index \<open>i\<close> up to index \<open>j\<close>\<close>
  "substr s i j = take (j - i) (drop i s)"

definition trim_copy :: "string \<Rightarrow> string" where
  "trim_copy s = (let (l, r) = trim s 0 (length s) in substr s l r)"

definition trim_double_quotes_copy :: "string \<Rightarrow> string" where
  "trim_double_quotes_copy s =
     (if 2 \<le> length s \<and> hd s = DQ \<and> last s = DQ then substr s 1 (length s - 1) else s)"

definition divide_at :: "string \<Rightarrow> char \<Rightarrow> string \<times> string" where
  "divide_at s d =
     (let lhs = takeWhile (\<lambda>c. c \<noteq> d) s; found = (if d \<in> set s then 1 else 0)
      in (lhs, drop (length lhs + found) s))"

text \<open>The piece \<open>[beg, i)\<close> is reported after trimming, unless nothing is left of it.\<close>

definition split_piece :: "string \<Rightarrow> nat \<Rightarrow> nat \<Rightarrow> string list" where
  "split_piece b beg i =
     (let (l, r) = trim b beg i in if l < r then [substr b l r] else [])"

text \<open>The limit \<open>m\<close> is \<open>None\<close> where the code passes the largest \<open>size_t\<close>, which no count of
  pieces reaches.\<close>

function split_loop :: "string \<Rightarrow> char \<Rightarrow> nat option \<Rightarrow> nat \<Rightarrow> nat \<Rightarrow> nat \<Rightarrow> string list" where
  "split_loop b d m i beg count =
     (if i < length b then
        (if b ! i = d \<and> (case m of None \<Rightarrow> True | Some k \<Rightarrow> count < k)
         then split_piece b beg i @ split_loop b d m (i + 1) (i + 1) (count + 1)
         else split_loop b d m (i + 1) beg count)
      else if i \<noteq> 0 then split_piece b beg i else [])"
  by pat_completeness auto
termination
  by (relation "measure (\<lambda>(b, d, m, i, beg, count). length b - i)") auto

declare split_loop.simps [simp del]

definition split_max :: "string \<Rightarrow> char \<Rightarrow> nat \<Rightarrow> string list" where
  "split_max s d m = split_loop s d (Some m) 0 0 1"

definition split_at :: "string \<Rightarrow> char \<Rightarrow> string list" where
  "split_at s d = split_loop s d None 0 0 1"

section \<open>Query strings\<close>

text \<open>\<open>Params\<close> is a \<open>std::multimap\<close>: pairs in key order, a new pair after those with an
  equal key.\<close>

type_synonym Params = "(string \<times> string) list"

definition params_emplace :: "string \<Rightarrow> string \<Rightarrow> Params \<Rightarrow> Params" where
  "params_emplace k v ps =
     takeWhile (\<lambda>(k', _). k' \<le> k) ps @ (k, v) # dropWhile (\<lambda>(k', _). k' \<le> k) ps"

fun params_to_query_str :: "Params \<Rightarrow> string" where
  "params_to_query_str [] = []"
| "params_to_query_str [(k, v)] = k @ ''='' @ encode_query_param v"
| "params_to_query_str ((k, v) # ps) =
     k @ ''='' @ encode_query_param v @ ''&'' @ params_to_query_str ps"

fun parse_query_loop :: "string list \<Rightarrow> string set \<Rightarrow> Params \<Rightarrow> Params" where
  "parse_query_loop [] cache params = params"
| "parse_query_loop (kv # kvs) cache params =
     (if kv \<in> cache then parse_query_loop kvs cache params
      else
        let (key, val) = divide_at kv CHR ''='';
            params' = (if key \<noteq> []
                       then params_emplace (decode_url key True) (decode_url val True) params
                       else params)
        in parse_query_loop kvs (insert kv cache) params')"

definition parse_query_text :: "string \<Rightarrow> Params \<Rightarrow> Params" where
  "parse_query_text s params = parse_query_loop (split_at s CHR ''&'') {} params"

section \<open>Facts about case-insensitive strings, tags and percent encoding\<close>

definition lower_nat :: "nat \<Rightarrow> nat" where
  "lower_nat n =
     (if (65 \<le> n \<and> n \<le> 90) \<or> (192 \<le> n \<and> n \<le> 222 \<and> n \<noteq> 215) then n + 32 else n)"

lemma to_lower_table_conv: "to_lower_table = map lower_nat [0..<256]"
  by code_simp

lemma to_lower_conv: "to_lower c = lower_nat (byte c)"
  by (simp add: to_lower_def to_lower_table_conv)

lemma to_lower_less [simp]: "to_lower c < 256"
proof -
  have "n < 256 \<Longrightarrow> lower_nat n < 256" for n by (simp add: lower_nat_def)
  then show ?thesis by (simp add: to_lower_conv)
qed

lemma equal_ci_iff: "equal_ci a b \<longleftrightarrow> map to_lower a = map to_lower b"
  by (auto simp: equal_ci_def list_all2_conv_all_nth list_eq_iff_nth_eq)

lemma hash_core_map_to_lower:
  "map to_lower a = map to_lower b \<Longrightarrow> hash_core a h = hash_core b h"
proof (induction a arbitrary: b h)
  case Nil
  then show ?case by simp
next
  case (Cons c a)
  then obtain d b' where b: "b = d # b'" and "to_lower c = to_lower d" "map to_lower a = map to_lower b'"
    by auto
  with Cons.IH show ?case by simp
qed

lemma str2tag_step_less:
  assumes "unat (h :: 32 word) < 2 ^ 26"
  shows "unat (h * 33) = unat h * 33"
    and "unat ((drop_bit 6 (- 1) AND (h * 33)) XOR word_of_nat (byte c)) < 2 ^ 26"
proof -
  show "unat (h * 33) = unat h * 33"
    using assms by (simp add: unat_word_ariths)
  have m: "(drop_bit 6 (- 1) :: 32 word) = mask 26"
    by (simp add: mask_eq_exp_minus_1) 
  have t: "take_bit 26 (word_of_nat (byte c) :: 32 word) = word_of_nat (byte c)"
  proof -
    have "byte c < 2 ^ 26" by (rule less_trans [OF byte_less]) simp
    then have "take_bit 26 (byte c) = byte c" by (simp add: take_bit_nat_eq_self_iff)
    then show ?thesis by (metis take_bit_of_nat)
  qed
  have a: "drop_bit 6 (- 1) AND (h * 33) = take_bit 26 (h * 33)"
    unfolding m by (simp add: take_bit_eq_mask and.commute)
  have "(drop_bit 6 (- 1) AND (h * 33)) XOR word_of_nat (byte c) =
      take_bit 26 ((h * 33) XOR (word_of_nat (byte c) :: 32 word))"
    unfolding a by (simp only: take_bit_xor t)
  then show "unat ((drop_bit 6 (- 1) AND (h * 33)) XOR word_of_nat (byte c)) < 2 ^ 26"
    by (metis take_bit_nat_less_exp unsigned_take_bit_eq)
qed

lemma percent_byte_hex:
  "n < 16 \<Longrightarrow> is_hex (hex_upper n) = Some n \<and> hex_upper n \<noteq> NUL \<and> hex_upper n \<noteq> CHR ''u''"
proof -
  have "list_all (\<lambda>n. is_hex (hex_upper n) = Some n \<and> hex_upper n \<noteq> NUL \<and> hex_upper n \<noteq> CHR ''u'') [0..<16]"
    by code_simp
  then show "n < 16 \<Longrightarrow> ?thesis" by (simp add: list_all_iff)
qed

lemma decode_percent_byte [simp]:
  "decode_url (percent_byte c @ rest) p = c # decode_url rest p"
proof -
  have "byte c div 16 < 16" using byte_less [of c] by (simp add: less_mult_imp_div_less del: byte_less)
  moreover have "byte c mod 16 < 16" by simp
  moreover have "(byte c div 16) * 16 + byte c mod 16 = byte c" by simp
  ultimately show ?thesis
    using percent_byte_hex [of "byte c div 16"] percent_byte_hex [of "byte c mod 16"]
    by (simp add: percent_byte_def from_hex_to_i_def numeral_2_eq_2)
qed

lemma decode_plain [simp]:
  "\<lbrakk>c \<noteq> CHR ''%''; p \<Longrightarrow> c \<noteq> CHR ''+''\<rbrakk> \<Longrightarrow> decode_url (c # s) p = c # decode_url s p"
  by auto

lemma query_char_ok_plain: "query_char_ok c \<Longrightarrow> c \<noteq> CHR ''%'' \<and> c \<noteq> CHR ''+''"
  by (auto simp: query_char_ok_def isalnum_def isdigit_def isalpha_def byte_def)

declare decode_url.simps(2) [simp del]

lemma decode_encode_query_param: "decode_url (encode_query_param s @ t) p = s @ decode_url t p"
  by (induction s) (auto dest: query_char_ok_plain)

lemma encode_url_char_decode:
  "\<lbrakk>c \<noteq> CHR ''%''; c \<noteq> NUL\<rbrakk> \<Longrightarrow> decode_url (encode_url_char c @ t) False = c # decode_url t False"
proof -
  have p: "encode_url_char c = percent_byte c" if "c \<in> {SP, CHR ''+'', CR, LF, SQ, CHR '','', CHR '';''}"
    using that by (auto simp: encode_url_char_def percent_byte_def hex_upper_def byte_def)
  show "\<lbrakk>c \<noteq> CHR ''%''; c \<noteq> NUL\<rbrakk> \<Longrightarrow> ?thesis"
  proof (cases "c \<in> {SP, CHR ''+'', CR, LF, SQ, CHR '','', CHR '';''}")
    case True
    then show ?thesis by (simp only: p decode_percent_byte)
  next
    case False
    moreover assume "c \<noteq> CHR ''%''" "c \<noteq> NUL"
    ultimately show ?thesis by (auto simp: encode_url_char_def)
  qed
qed

lemma decode_encode_url_c_str:
  "CHR ''%'' \<notin> set (c_str s) \<Longrightarrow> decode_url (encode_url s) False = c_str s"
proof (induction s)
  case Nil
  then show ?case by (simp add: c_str_def)
next
  case (Cons c s)
  then show ?case
    by (cases "c = NUL") (auto simp: c_str_def encode_url_char_decode)
qed

lemma encode_url_no_crlf: "x \<in> set (encode_url s) \<Longrightarrow> x \<noteq> CR \<and> x \<noteq> LF \<and> x \<noteq> SP \<and> byte x < 128"
proof -
  have h: "n < 16 \<Longrightarrow> hex_upper n \<noteq> CR \<and> hex_upper n \<noteq> LF \<and> hex_upper n \<noteq> SP \<and> byte (hex_upper n) < 128" for n
  proof -
    have "list_all (\<lambda>n. hex_upper n \<noteq> CR \<and> hex_upper n \<noteq> LF \<and> hex_upper n \<noteq> SP \<and> byte (hex_upper n) < 128) [0..<16]"
      by code_simp
    then show "n < 16 \<Longrightarrow> ?thesis" by (simp add: list_all_iff)
  qed
  have b: "byte c div 16 < 16" for c
    using byte_less [of c] by (simp add: less_mult_imp_div_less del: byte_less)
  have p: "x \<in> set (percent_byte c) \<Longrightarrow> x \<noteq> CR \<and> x \<noteq> LF \<and> x \<noteq> SP \<and> byte x < 128" for c
    using h [OF b [of c]] h [of "byte c mod 16"] by (auto simp: percent_byte_def byte_def)
  have "x \<in> set (encode_url_char c) \<Longrightarrow> x \<noteq> CR \<and> x \<noteq> LF \<and> x \<noteq> SP \<and> byte x < 128" for c
    using p [of c] by (auto simp: encode_url_char_def byte_def split: if_splits)
  then show "x \<in> set (encode_url s) \<Longrightarrow> ?thesis"
    by (induction s) (auto split: if_splits)
qed

subsection \<open>Trimming and splitting against a reference\<close>

text \<open>The reference: cut at every delimiter, strip blanks at both ends, drop what is empty.\<close>

fun fields_of :: "char \<Rightarrow> string \<Rightarrow> string list" where
  "fields_of d [] = [[]]"
| "fields_of d (c # s) =
     (if c = d then [] # fields_of d s
      else (case fields_of d s of [] \<Rightarrow> [[c]] | f # fs \<Rightarrow> (c # f) # fs))"

definition strip :: "string \<Rightarrow> string" where
  "strip s = rev (dropWhile is_space_or_tab (rev (dropWhile is_space_or_tab s)))"

lemma fields_of_nonempty [simp]: "fields_of d s \<noteq> []"
  by (induction s) (auto split: list.splits)

lemma trim_left_eq: "trim_left b left = left + length (takeWhile is_space_or_tab (drop left b))"
proof (induction b left rule: trim_left.induct)
  case (1 b left)
  show ?case
  proof (cases "left < length b \<and> is_space_or_tab (b ! left)")
    case True
    with 1 show ?thesis by (simp add: trim_left.simps [of b left] Cons_nth_drop_Suc [symmetric])
  next
    case False
    then show ?thesis
      by (cases "left < length b") (simp_all add: trim_left.simps [of b left] Cons_nth_drop_Suc [symmetric])
  qed
qed

lemma trim_right_eq: "r \<le> length b \<Longrightarrow> trim_right b r = length (dropWhile is_space_or_tab (rev (take r b)))"
proof (induction r)
  case 0
  then show ?case by simp
next
  case (Suc r)
  then show ?case by (simp add: take_Suc_conv_app_nth)
qed

lemma strip_decomp:
  assumes "\<not> list_all is_space_or_tab f"
  obtains w1 m w2 where "f = w1 @ m @ w2" "list_all is_space_or_tab w1" "list_all is_space_or_tab w2"
    "m \<noteq> []" "\<not> is_space_or_tab (hd m)" "\<not> is_space_or_tab (last m)"
proof -
  let ?P = is_space_or_tab
  define g where "g = dropWhile ?P f"
  have gne: "g \<noteq> []" using assms by (auto simp: g_def list_all_iff dropWhile_eq_Nil_conv)
  have hg: "\<not> ?P (hd g)" using gne by (simp add: g_def hd_dropWhile)
  define m where "m = rev (dropWhile ?P (rev g))"
  define w2 where "w2 = rev (takeWhile ?P (rev g))"
  have g: "g = m @ w2" unfolding m_def w2_def
    by (metis rev_append rev_rev_ident takeWhile_dropWhile_id)
  have mne: "m \<noteq> []"
    using gne hg by (auto simp: m_def dropWhile_eq_Nil_conv)
  show thesis
  proof (rule that [of "takeWhile ?P f" m w2])
    show "f = takeWhile ?P f @ m @ w2" using g unfolding g_def by (metis takeWhile_dropWhile_id)
    show "list_all ?P (takeWhile ?P f)" by (auto simp: list_all_iff dest: set_takeWhileD)
    show "list_all ?P w2" by (auto simp: w2_def list_all_iff dest: set_takeWhileD)
    show "m \<noteq> []" by (fact mne)
    show "\<not> ?P (hd m)" using hg g mne by simp
    show "\<not> ?P (last m)" using mne by (simp add: m_def last_rev hd_dropWhile)
  qed
qed

lemma strip_middle:
  assumes "list_all is_space_or_tab w1" "list_all is_space_or_tab w2" "m \<noteq> []"
    "\<not> is_space_or_tab (hd m)" "\<not> is_space_or_tab (last m)"
  shows "strip (w1 @ m @ w2) = m"
proof -
  have "dropWhile is_space_or_tab (w1 @ m @ w2) = m @ w2"
    using assms by (cases m) (auto simp: list_all_iff)
  moreover have "dropWhile is_space_or_tab (rev w2 @ rev m) = rev m"
    using assms by (cases m rule: rev_cases) (auto simp: list_all_iff)
  ultimately show ?thesis by (simp add: strip_def)
qed

lemma strip_blank [simp]: "list_all is_space_or_tab s \<Longrightarrow> strip s = []"
proof -
  assume "list_all is_space_or_tab s"
  then have "dropWhile is_space_or_tab s = []" by (simp only: list_all_iff dropWhile_eq_Nil_conv)
  then show ?thesis unfolding strip_def by (simp only: rev.simps dropWhile.simps)
qed

lemma strip_id:
  "\<lbrakk>s \<noteq> []; \<not> is_space_or_tab (hd s); \<not> is_space_or_tab (last s)\<rbrakk> \<Longrightarrow> strip s = s"
  using strip_middle [of "[]" "[]" s] by simp

lemma split_piece_eq:
  assumes "beg \<le> i" "i \<le> length b"
  shows "split_piece b beg i =
    (let f = strip (take (i - beg) (drop beg b)) in if f = [] then [] else [f])"
proof -
  define pre where "pre = take beg b"
  define f where "f = take (i - beg) (drop beg b)"
  define post where "post = drop i b"
  have b: "b = pre @ f @ post"
    unfolding pre_def f_def post_def using assms
    by (metis append_take_drop_id drop_drop le_add_diff_inverse2)
  have lens: "length pre = beg" "length f = i - beg"
    using assms by (simp_all add: pre_def f_def)
  have ti: "take i b = pre @ f" using assms lens by (simp add: b)
  have l: "trim_left b beg = beg + length (takeWhile is_space_or_tab (f @ post))"
    using lens by (simp add: trim_left_eq b)
  have r: "trim_right b i = length (dropWhile is_space_or_tab (rev f @ rev pre))"
    using assms by (simp add: trim_right_eq ti)
  show ?thesis
  proof (cases "list_all is_space_or_tab f")
    case True
    have "length f \<le> length (takeWhile is_space_or_tab (f @ post))"
      using True by (simp add: list_all_iff takeWhile_append2)
    moreover have "dropWhile is_space_or_tab (rev f @ rev pre) = dropWhile is_space_or_tab (rev pre)"
      using True by (intro dropWhile_append2) (simp add: list_all_iff)
    then have "trim_right b i \<le> beg"
      using lens length_dropWhile_le [of is_space_or_tab "rev pre"] by (simp add: r)
    ultimately have "\<not> trim_left b beg < trim_right b i"
      using l lens by simp
    with True show ?thesis by (simp add: split_piece_def trim_def flip: f_def)
  next
    case False
    then obtain w1 m w2 where fd: "f = w1 @ m @ w2" and w: "list_all is_space_or_tab w1"
      "list_all is_space_or_tab w2" "m \<noteq> []" "\<not> is_space_or_tab (hd m)" "\<not> is_space_or_tab (last m)"
      by (rule strip_decomp)
    have "takeWhile is_space_or_tab (f @ post) = w1"
      using w by (cases m) (auto simp: fd list_all_iff)
    then have l': "trim_left b beg = beg + length w1" using l by simp
    have "dropWhile is_space_or_tab (rev f @ rev pre) = rev m @ rev w1 @ rev pre"
      using w by (cases m rule: rev_cases) (auto simp: fd list_all_iff)
    then have r': "trim_right b i = beg + length w1 + length m" using r lens by simp
    have "substr b (trim_left b beg) (trim_right b i) = m"
      unfolding l' r' substr_def using lens by (simp add: b fd)
    moreover have "strip f = m" using w by (simp add: fd strip_middle)
    ultimately show ?thesis
      using w l' r' by (simp add: split_piece_def trim_def flip: f_def)
  qed
qed

text \<open>\<open>trim_copy\<close> is \<open>strip\<close>.\<close>

lemma trim_copy_eq: "trim_copy s = strip s"
proof -
  have "trim_copy s = concat (split_piece s 0 (length s))"
    by (simp add: trim_copy_def split_piece_def trim_def substr_def)
  also have "\<dots> = strip s"
    by (simp add: split_piece_eq Let_def)
  finally show ?thesis .
qed

lemma split_loop_eq:
  assumes "beg \<le> i" "i \<le> length b" "d \<notin> set (take (i - beg) (drop beg b))" "b \<noteq> []"
  shows "split_loop b d None i beg count = filter (\<lambda>f. f \<noteq> []) (map strip (fields_of d (drop beg b)))"
  using assms
proof (induction b d "None :: nat option" i beg count rule: split_loop.induct)
  case (1 b d i beg count)
  define g where "g = take (i - beg) (drop beg b)"
  have sp: "split_piece b beg i = (if strip g = [] then [] else [strip g])"
    using "1.prems"(1,2) by (simp add: split_piece_eq Let_def g_def)
  have lg: "length g = i - beg" using "1.prems"(2) by (simp add: g_def)
  have dg: "drop beg b = g @ drop i b"
    unfolding g_def using "1.prems"(1,2)
    by (metis append_take_drop_id drop_drop le_add_diff_inverse2)
  have fo: "fields_of d (g @ t) = (case fields_of d t of [] \<Rightarrow> [g] | f # fs \<Rightarrow> (g @ f) # fs)" for t
    using "1.prems"(3) unfolding g_def [symmetric]
    by (induction g) (auto split: list.splits)
  show ?case
  proof (cases "i < length b")
    case True
    then have di: "drop i b = b ! i # drop (Suc i) b" by (simp add: Cons_nth_drop_Suc)
    show ?thesis
    proof (cases "b ! i = d")
      case eq: True
      have IH: "split_loop b d None (i + 1) (i + 1) (count + 1)
          = filter (\<lambda>f. f \<noteq> []) (map strip (fields_of d (drop (Suc i) b)))"
        using "1.hyps"(1) [OF True] eq "1.prems" True by simp
      have "split_loop b d None i beg count
          = split_piece b beg i @ split_loop b d None (i + 1) (i + 1) (count + 1)"
        using True eq by (simp add: split_loop.simps [of b d None i beg count])
      then show ?thesis
        using eq IH by (simp add: sp dg di fo)
    next
      case ne: False
      have "d \<notin> set (take (Suc i - beg) (drop beg b))"
      proof -
        have "take (Suc i - beg) (drop beg b) = g @ [b ! i]"
          using "1.prems"(1,2) True
          by (simp add: dg di Suc_diff_le lg)
        then show ?thesis using ne "1.prems"(3) by (simp add: g_def)
      qed
      then show ?thesis
        using "1.hyps"(2) [OF True] ne "1.prems" True
        by (simp add: split_loop.simps [of b d None i beg count])
    qed
  next
    case False
    with "1.prems" have "i = length b" "i \<noteq> 0" by auto
    then have "split_loop b d None i beg count = split_piece b beg i"
      by (subst split_loop.simps) simp
    moreover have "drop beg b = g" using dg \<open>i = length b\<close> by simp
    ultimately show ?thesis using fo [of "[]"] sp by simp
  qed
qed

lemma split_at_eq: "split_at s d = filter (\<lambda>f. f \<noteq> []) (map strip (fields_of d s))"
proof (cases "s = []")
  case True
  then show ?thesis by (simp add: split_at_def split_loop.simps)
next
  case False
  then show ?thesis by (simp add: split_at_def split_loop_eq)
qed

lemma fields_of_no_delim: "d \<notin> set f \<Longrightarrow> fields_of d f = [f]"
  by (induction f) auto

lemma fields_of_append_delim: "d \<notin> set f \<Longrightarrow> fields_of d (f @ d # t) = f # fields_of d t"
  by (induction f) auto

subsection \<open>Query strings\<close>

definition clean_key :: "string \<Rightarrow> bool" where
  \<comment> \<open>a key that is written and read back without any escaping\<close>
  "clean_key k \<longleftrightarrow> k \<noteq> [] \<and> list_all (\<lambda>c. c \<notin> {CHR ''&'', CHR ''='', CHR ''%'', CHR ''+'', SP, TAB}) k"

definition query_pair :: "string \<times> string \<Rightarrow> string" where
  "query_pair kv = fst kv @ ''='' @ encode_query_param (snd kv)"

lemma encode_query_param_chars:
  "x \<in> set (encode_query_param v) \<Longrightarrow> x \<noteq> CHR ''&'' \<and> x \<noteq> CHR ''='' \<and> x \<noteq> SP \<and> x \<noteq> TAB \<and> x \<noteq> CHR ''+''"
proof -
  let ?ok = "\<lambda>x. x \<noteq> CHR ''&'' \<and> x \<noteq> CHR ''='' \<and> x \<noteq> SP \<and> x \<noteq> TAB \<and> x \<noteq> CHR ''+''"
  have "list_all (\<lambda>n. ?ok (hex_upper n)) [0..<16]" by code_simp
  then have h: "n < 16 \<Longrightarrow> ?ok (hex_upper n)" for n by (simp add: list_all_iff)
  have b: "byte c div 16 < 16" for c
    using byte_less [of c] by (simp add: less_mult_imp_div_less del: byte_less)
  have p: "y \<in> set (percent_byte c) \<Longrightarrow> ?ok y" for y c
    using h [OF b [of c]] h [of "byte c mod 16"] by (auto simp: percent_byte_def)
  have q: "query_char_ok c \<Longrightarrow> ?ok c" for c
    by (auto simp: query_char_ok_def isalnum_def isdigit_def isalpha_def byte_def)
  show "x \<in> set (encode_query_param v) \<Longrightarrow> ?ok x"
    using p q by (induction v) (auto split: if_splits)
qed

lemma decode_clean: "clean_key k \<Longrightarrow> decode_url k True = k"
proof -
  have "list_all (\<lambda>c. c \<notin> {CHR ''&'', CHR ''='', CHR ''%'', CHR ''+'', SP, TAB}) k \<Longrightarrow> decode_url k True = k"
    by (induction k) auto
  then show "clean_key k \<Longrightarrow> ?thesis" by (simp add: clean_key_def)
qed

lemma divide_query_pair:
  "clean_key (fst kv) \<Longrightarrow> divide_at (query_pair kv) CHR ''='' = (fst kv, encode_query_param (snd kv))"
  by (auto simp: divide_at_def query_pair_def clean_key_def list_all_iff Let_def)

lemma query_pair_inject:
  "\<lbrakk>clean_key (fst a); clean_key (fst b); query_pair a = query_pair b\<rbrakk> \<Longrightarrow> a = b"
  using divide_query_pair [of a] divide_query_pair [of b] decode_encode_query_param [of "snd a" "[]" False]
    decode_encode_query_param [of "snd b" "[]" False]
  by (auto simp: prod_eq_iff)

lemma strip_query_pair: "clean_key (fst kv) \<Longrightarrow> strip (query_pair kv) = query_pair kv"
proof (rule strip_id)
  assume k: "clean_key (fst kv)"
  show "query_pair kv \<noteq> []" by (simp add: query_pair_def)
  show "\<not> is_space_or_tab (hd (query_pair kv))"
    using k by (cases "fst kv") (auto simp: query_pair_def clean_key_def is_space_or_tab_def)
  show "\<not> is_space_or_tab (last (query_pair kv))"
    using encode_query_param_chars [of "last (encode_query_param (snd kv))" "snd kv"]
    by (auto simp: query_pair_def is_space_or_tab_def)
qed

lemma amp_notin_query_pair: "clean_key (fst kv) \<Longrightarrow> CHR ''&'' \<notin> set (query_pair kv)"
  by (auto simp: query_pair_def clean_key_def list_all_iff dest: encode_query_param_chars)

lemma split_params_to_query_str:
  "\<forall>kv \<in> set ps. clean_key (fst kv) \<Longrightarrow> split_at (params_to_query_str ps) CHR ''&'' = map query_pair ps"
proof -
  have ne: "query_pair kv \<noteq> []" for kv by (simp add: query_pair_def)
  have "\<forall>kv \<in> set ps. clean_key (fst kv) \<Longrightarrow> ps \<noteq> [] \<Longrightarrow>
      fields_of CHR ''&'' (params_to_query_str ps) = map query_pair ps"
  proof (induction ps rule: params_to_query_str.induct)
    case (2 k v)
    then show ?case
      using fields_of_no_delim [OF amp_notin_query_pair, of "(k, v)"] by (simp add: query_pair_def)
  next
    case (3 k v p ps)
    then show ?case
      using fields_of_append_delim [OF amp_notin_query_pair, of "(k, v)"] by (simp add: query_pair_def)
  qed simp
  then show "\<forall>kv \<in> set ps. clean_key (fst kv) \<Longrightarrow> ?thesis"
    by (cases "ps = []")
      (auto simp: split_at_eq strip_query_pair ne filter_map o_def cong: filter_cong)
qed

lemma params_emplace_last:
  "\<forall>kv \<in> set ps. fst kv \<le> k \<Longrightarrow> params_emplace k v ps = ps @ [(k, v)]"
  by (induction ps) (auto simp: params_emplace_def)

lemma parse_query_loop_pairs:
  assumes "\<forall>kv \<in> set ps. clean_key (fst kv)" and "sorted (map fst (acc @ ps))" and "distinct ps"
    and "\<forall>kv \<in> set ps. query_pair kv \<notin> cache"
  shows "parse_query_loop (map query_pair ps) cache acc = acc @ ps"
  using assms
proof (induction ps arbitrary: cache acc)
  case Nil
  then show ?case by simp
next
  case (Cons kv ps)
  obtain k v where kv: "kv = (k, v)" by (cases kv)
  have em: "params_emplace k v acc = acc @ [(k, v)]"
    using Cons.prems(2) by (intro params_emplace_last) (auto simp: kv sorted_append)
  have d: "decode_url (encode_query_param v) True = v"
    using decode_encode_query_param [of v "[]" True] by simp
  have "\<forall>kv' \<in> set ps. query_pair kv' \<notin> insert (query_pair kv) cache"
  proof
    fix kv' assume kv': "kv' \<in> set ps"
    with Cons.prems(3) have "kv' \<noteq> kv" by auto
    with kv' Cons.prems(1) have "query_pair kv' \<noteq> query_pair kv"
      using query_pair_inject [of kv' kv] by auto
    with kv' Cons.prems(4) show "query_pair kv' \<notin> insert (query_pair kv) cache" by simp
  qed
  then have IH: "parse_query_loop (map query_pair ps) (insert (query_pair kv) cache) (acc @ [(k, v)])
      = (acc @ [(k, v)]) @ ps"
    using Cons.prems by (intro Cons.IH) (auto simp: kv sorted_append)
  show ?case
    using Cons.prems(1,4) IH divide_query_pair [of kv]
    by (auto simp: kv em d decode_clean clean_key_def)
qed

subsection \<open>Paths\<close>

text \<open>The components of a path, and what \<open>..\<close> and names do to the depth.\<close>

definition components :: "string \<Rightarrow> string list" where
  "components p = filter (\<lambda>f. f \<noteq> []) (fields_of CHR ''/'' p)"

definition ups :: "string list \<Rightarrow> nat" where
  "ups cs = length (filter (\<lambda>c. c = ''..'') cs)"

definition downs :: "string list \<Rightarrow> nat" where
  "downs cs = length (filter (\<lambda>c. c \<noteq> ''.'' \<and> c \<noteq> ''..'') cs)"

fun stays_inside :: "nat \<Rightarrow> string list \<Rightarrow> bool" where
  "stays_inside level [] = True"
| "stays_inside level (c # cs) =
     (if c = ''.'' then stays_inside level cs
      else if c = ''..'' then level > 0 \<and> stays_inside (level - 1) cs
      else stays_inside (level + 1) cs)"

lemma components_skip_slash [simp]: "components (skip_slash p) = components p"
  by (induction p) (auto simp: components_def)

lemma ups_simps [simp]: "ups [] = 0" "ups (c # cs) = (if c = ''..'' then Suc (ups cs) else ups cs)"
  by (simp_all add: ups_def)

lemma downs_simps [simp]:
  "downs [] = 0" "downs (c # cs) = (if c \<noteq> ''.'' \<and> c \<noteq> ''..'' then Suc (downs cs) else downs cs)"
  by (simp_all add: downs_def)

lemma stays_inside_iff:
  "stays_inside level cs \<longleftrightarrow> (\<forall>n. ups (take n cs) \<le> level + downs (take n cs))"
proof (induction cs arbitrary: level)
  case Nil
  then show ?case by (simp add: ups_def downs_def)
next
  case (Cons c cs)
  have all: "(\<forall>n. P (take n (c # cs))) \<longleftrightarrow> P [] \<and> (\<forall>n. P (c # take n cs))" for P
  proof
    assume a: "\<forall>n. P (take n (c # cs))"
    show "P [] \<and> (\<forall>n. P (c # take n cs))"
      using a [rule_format, of 0] a [rule_format, of "Suc n" for n] by simp
  next
    assume a: "P [] \<and> (\<forall>n. P (c # take n cs))"
    show "\<forall>n. P (take n (c # cs))"
    proof
      fix n show "P (take n (c # cs))" using a by (cases n) auto
    qed
  qed
  show ?case
  proof (cases "c = ''..''")
    case True
    have "0 < level \<and> (\<forall>n. ups (take n cs) \<le> level - 1 + downs (take n cs)) \<longleftrightarrow>
        (\<forall>n. Suc (ups (take n cs)) \<le> level + downs (take n cs))" (is "?L \<longleftrightarrow> ?R")
    proof
      assume L: ?L
      show ?R
      proof
        fix n
        from L have "0 < level" and "ups (take n cs) \<le> level - 1 + downs (take n cs)" by auto
        then show "Suc (ups (take n cs)) \<le> level + downs (take n cs)" by linarith
      qed
    next
      assume R: ?R
      from R [rule_format, of 0] have "0 < level" by simp
      moreover have "ups (take n cs) \<le> level - 1 + downs (take n cs)" for n
        using R [rule_format, of n] \<open>0 < level\<close> by linarith
      ultimately show ?L by simp
    qed
    then show ?thesis
      using Cons.IH all [of "\<lambda>xs. ups xs \<le> level + downs xs"] by (simp add: True)
  next
    case False
    then show ?thesis
      using Cons.IH all [of "\<lambda>xs. ups xs \<le> level + downs xs"] by simp
  qed
qed

lemma read_component_None: "read_component p = None \<Longrightarrow> NUL \<in> set p \<or> BSL \<in> set p"
proof (induction p)
  case (Cons c p)
  then show ?case
    by (cases "c = CHR ''/''"; cases "c = NUL"; cases "c = BSL"; cases "read_component p")
      (simp_all add: case_prod_beta)
qed simp

lemma read_component_Some:
  "read_component p = Some (cmp, rest) \<Longrightarrow>
     p = cmp @ rest \<and> CHR ''/'' \<notin> set cmp \<and> NUL \<notin> set cmp \<and> BSL \<notin> set cmp \<and>
     (rest = [] \<or> hd rest = CHR ''/'')"
proof (induction p arbitrary: cmp)
  case (Cons c p)
  show ?case
  proof (cases "c = CHR ''/'' \<or> c = NUL \<or> c = BSL")
    case True
    with Cons.prems show ?thesis by auto
  next
    case False
    with Cons.prems obtain cmp' where "read_component p = Some (cmp', rest)" "cmp = c # cmp'"
      by (cases "read_component p") auto
    with Cons.IH [of cmp'] False show ?thesis by auto
  qed
qed simp

lemma skip_slash_set: "x \<noteq> CHR ''/'' \<Longrightarrow> x \<in> set (skip_slash p) \<longleftrightarrow> x \<in> set p"
  by (induction p) auto

lemma skip_slash_hd: "skip_slash p \<noteq> [] \<Longrightarrow> hd (skip_slash p) \<noteq> CHR ''/''"
  by (induction p) auto

lemma components_component:
  assumes "CHR ''/'' \<notin> set cmp" "rest = [] \<or> hd rest = CHR ''/''" "cmp \<noteq> []"
  shows "components (cmp @ rest) = cmp # components rest"
  using assms fields_of_append_delim [of "CHR ''/''" cmp "tl rest"]
  by (cases rest) (auto simp: components_def fields_of_no_delim)

lemma is_valid_path_loop_iff:
  assumes "path = [] \<or> hd path \<noteq> CHR ''/''"
  shows "is_valid_path_loop path level \<longleftrightarrow>
    NUL \<notin> set path \<and> BSL \<notin> set path \<and> stays_inside level (components path)"
  using assms
proof (induction path level rule: is_valid_path_loop.induct)
  case (1 path level)
  show ?case
  proof (cases "path = [] \<or> read_component path = None")
    case True
    then show ?thesis
      using read_component_None [of path]
      by (auto simp: is_valid_path_loop.simps [of path] components_def)
  next
    case False
    then obtain cmp rest where rc: "read_component path = Some (cmp, rest)" by auto
    note p = read_component_Some [OF rc]
    have cmp: "cmp \<noteq> []" using p False "1.prems" by (cases cmp) auto
    have comps: "components path = cmp # components rest"
      using p cmp components_component [of cmp rest] by simp
    have hd: "skip_slash rest = [] \<or> hd (skip_slash rest) \<noteq> CHR ''/''"
      using skip_slash_hd by blast
    have sets: "NUL \<notin> set path \<longleftrightarrow> NUL \<notin> set (skip_slash rest)" "BSL \<notin> set path \<longleftrightarrow> BSL \<notin> set (skip_slash rest)"
      using p by (auto simp: skip_slash_set)
    have step: "is_valid_path_loop path level =
        (if cmp = ''.'' then is_valid_path_loop (skip_slash rest) level
         else if cmp = ''..'' then level \<noteq> 0 \<and> is_valid_path_loop (skip_slash rest) (level - 1)
         else is_valid_path_loop (skip_slash rest) (level + 1))"
      using False rc cmp by (subst is_valid_path_loop.simps) simp
    let ?iff = "\<lambda>l. is_valid_path_loop (skip_slash rest) l \<longleftrightarrow>
        NUL \<notin> set (skip_slash rest) \<and> BSL \<notin> set (skip_slash rest) \<and> stays_inside l (components rest)"
    have IH: "cmp = ''.'' \<Longrightarrow> ?iff level" "cmp = ''..'' \<Longrightarrow> level \<noteq> 0 \<Longrightarrow> ?iff (level - 1)"
      "cmp \<noteq> ''.'' \<Longrightarrow> cmp \<noteq> ''..'' \<Longrightarrow> ?iff (level + 1)"
      using 1(1) [OF _ rc refl cmp _ hd] 1(2) [OF _ rc refl cmp _ _ _ hd] 1(3) [OF _ rc refl cmp _ _ hd] False
      by simp_all
    show ?thesis
      unfolding step sets comps using IH by auto
  qed
qed

lemma is_valid_path_iff:
  "is_valid_path p \<longleftrightarrow>
     NUL \<notin> set p \<and> BSL \<notin> set p \<and> (\<forall>n. ups (take n (components p)) \<le> downs (take n (components p)))"
  using skip_slash_hd [of p] is_valid_path_loop_iff [of "skip_slash p" 0]
  by (auto simp: is_valid_path_def skip_slash_set stays_inside_iff)

subsection \<open>Base64 against the grouping of RFC 4648\<close>

abbreviation b64 :: "nat \<Rightarrow> char" where "b64 n \<equiv> base64_lookup ! n"

fun base64_ref :: "string \<Rightarrow> string" where
  "base64_ref [] = []"
| "base64_ref [a] = [b64 (byte a div 4), b64 (byte a mod 4 * 16), CHR ''='', CHR ''='']"
| "base64_ref [a, b] =
     [b64 (byte a div 4), b64 (byte a mod 4 * 16 + byte b div 16), b64 (byte b mod 16 * 4), CHR ''='']"
| "base64_ref (a # b # c # s) =
     [b64 (byte a div 4), b64 (byte a mod 4 * 16 + byte b div 16),
      b64 (byte b mod 16 * 4 + byte c div 64), b64 (byte c mod 64)] @ base64_ref s"

definition sextet :: "nat \<Rightarrow> 32 word \<Rightarrow> nat" where
  "sextet k x = unat (signed_drop_bit k x AND 0x3F)"

definition push_byte :: "32 word \<Rightarrow> char \<Rightarrow> 32 word" where
  "push_byte v c = push_bit 8 v + word_of_nat (byte c)"

lemma sextet_eq:
  assumes "k + 6 \<le> 32"
  shows "sextet k x = (unat x div 2 ^ k) mod 64"
proof -
  have "signed_drop_bit k x AND 0x3F = take_bit 6 (signed_drop_bit k x)"
    by (simp add: take_bit_eq_mask mask_eq_exp_minus_1)
  also have "\<dots> = take_bit 6 (drop_bit k x)"
    using assms by (intro bit_eqI) (auto simp: bit_simps)
  finally have "sextet k x = take_bit 6 (unat (drop_bit k x))"
    by (simp only: sextet_def unsigned_take_bit_eq)
  also have "unat (drop_bit k x) = unat x div 2 ^ k"
    using unat_drop_bit_eq [of k x] drop_bit_eq_div [of k "unat x"] by (rule trans)
  finally show ?thesis by (simp add: take_bit_eq_mod)
qed

lemma unat_push_byte: "unat (push_byte v c) = (unat v * 256 + byte c) mod 2 ^ 32"
proof -
  have b: "unat (word_of_nat (byte c) :: 32 word) = byte c"
  proof -
    have "byte c < 2 ^ 32" by (rule less_trans [OF byte_less]) simp
    then show ?thesis by (simp add: unsigned_of_nat take_bit_nat_eq_self)
  qed
  have "unat (push_bit 8 v) = (unat v * 256) mod 2 ^ 32"
    by (simp add: push_bit_eq_mult unat_word_ariths)
  with b show ?thesis
    by (simp add: push_byte_def unat_word_ariths mod_add_left_eq)
qed

lemma sextet_push:
  assumes "k + 6 \<le> 32"
  shows "sextet k (push_byte v c) = ((unat v * 256 + byte c) div 2 ^ k) mod 64"
proof -
  have "take_bit 6 (drop_bit k (take_bit 32 n)) = take_bit 6 (drop_bit k n)" for n :: nat
    using assms by (simp add: drop_bit_take_bit min_absorb1)
  then have "(n mod 2 ^ 32 div 2 ^ k) mod 2 ^ 6 = (n div 2 ^ k) mod 2 ^ 6" for n :: nat
    by (simp only: take_bit_eq_mod drop_bit_eq_div)
  then have "(n mod 2 ^ 32 div 2 ^ k) mod 64 = (n div 2 ^ k) mod 64" for n :: nat
    by simp
  then show ?thesis by (simp only: sextet_eq [OF assms] unat_push_byte)
qed

lemma base64_drain_step:
  "base64_drain v valb out =
     (if valb \<ge> 0 then base64_drain v (valb - 6) (out @ [b64 (sextet (nat valb) v)]) else (valb, out))"
  unfolding sextet_def by (rule base64_drain.simps)

lemma mod_256_div:
  fixes a :: nat
  assumes "a < 256"
  shows "(V * 256 + a) div 4 mod 64 = a div 4"
    and "(V * 256 + a) mod 4 = a mod 4" and "(V * 256 + a) mod 16 = a mod 16"
    and "(V * 256 + a) div 16 mod 64 = V mod 4 * 16 + a div 16"
    and "(V * 256 + a) div 64 mod 64 = V mod 16 * 4 + a div 64"
    and "(V * 256 + a) mod 64 = a mod 64"
proof -
  have q: "(V * 256 + a) div 4 = V * 64 + a div 4" "(V * 256 + a) div 16 = V * 16 + a div 16"
    "(V * 256 + a) div 64 = V * 4 + a div 64"
    using div_mult_self3 [of 4 "V * 64" a] div_mult_self3 [of 16 "V * 16" a]
      div_mult_self3 [of 64 "V * 4" a] by simp_all
  have y: "a div 16 < 16" "a div 64 < 4" "a div 4 < 64"
    using assms by (simp_all add: less_mult_imp_div_less)
  show "(V * 256 + a) div 4 mod 64 = a div 4"
    using y by (simp add: q)
  show "(V * 256 + a) mod 4 = a mod 4" "(V * 256 + a) mod 16 = a mod 16" "(V * 256 + a) mod 64 = a mod 64"
    using mod_mult_self3 [of "V * 64" 4 a] mod_mult_self3 [of "V * 16" 16 a] mod_mult_self3 [of "V * 4" 64 a]
    by (simp_all add: mult.commute)
  show "(V * 256 + a) div 16 mod 64 = V mod 4 * 16 + a div 16"
    using y mod_mult2_eq [of "V * 16 + a div 16" 16 4] by (simp add: q)
  show "(V * 256 + a) div 64 mod 64 = V mod 16 * 4 + a div 64"
    using y mod_mult2_eq [of "V * 4 + a div 64" 4 16] by (simp add: q)
qed

lemma push_byte_mod: "unat (push_byte v c) mod 4 = byte c mod 4" "unat (push_byte v c) mod 16 = byte c mod 16"
proof -
  have "(n mod 2 ^ 32) mod 4 = n mod 4" "(n mod 2 ^ 32) mod 16 = n mod 16" for n :: nat
    by (simp_all add: mod_mod_cancel)
  then show "unat (push_byte v c) mod 4 = byte c mod 4" "unat (push_byte v c) mod 16 = byte c mod 16"
    by (simp_all only: unat_push_byte mod_256_div [OF byte_less])
qed

lemma base64_step1: "base64_drain (push_byte v a) 2 out = (- 4, out @ [b64 (byte a div 4)])"
  by (simp add: base64_drain_step sextet_push mod_256_div)

lemma base64_step2:
  "base64_drain (push_byte (push_byte v a) b) 4 out = (- 2, out @ [b64 (byte a mod 4 * 16 + byte b div 16)])"
  by (simp add: base64_drain_step sextet_push mod_256_div push_byte_mod)

lemma base64_step3:
  "base64_drain (push_byte (push_byte v b) c) 6 out =
     (- 6, out @ [b64 (byte b mod 16 * 4 + byte c div 64), b64 (byte c mod 64)])"
  by (simp add: base64_drain_step sextet_push mod_256_div push_byte_mod)

lemma base64_tail1: "sextet 4 (push_bit 8 (push_byte v a)) = byte a mod 4 * 16"
proof -
  have "push_bit 8 (push_byte v a) = push_byte (push_byte v a) NUL"
    by (simp add: push_byte_def byte_def)
  moreover have "sextet 4 (push_byte w NUL) = unat w mod 4 * 16 + byte NUL div 16" for w
    by (simp add: sextet_push mod_256_div)
  ultimately show ?thesis by (simp add: push_byte_mod) (simp add: byte_def)
qed

lemma base64_tail2: "sextet 6 (push_bit 8 (push_byte v b)) = byte b mod 16 * 4"
proof -
  have "push_bit 8 (push_byte v b) = push_byte (push_byte v b) NUL"
    by (simp add: push_byte_def byte_def)
  moreover have "sextet 6 (push_byte w NUL) = unat w mod 16 * 4 + byte NUL div 64" for w
    by (simp add: sextet_push mod_256_div)
  ultimately show ?thesis by (simp add: push_byte_mod) (simp add: byte_def)
qed

definition base64_finish :: "32 word \<times> int \<times> string \<Rightarrow> string" where
  "base64_finish = (\<lambda>(val, valb, out). base64_pad
     (if valb > - 6 then out @ [b64 (sextet (nat (valb + 8)) (push_bit 8 val))] else out))"

lemma base64_loop_push:
  "base64_loop (c # s) v valb out =
     (let (valb', out') = base64_drain (push_byte v c) (valb + 8) out
      in base64_loop s (push_byte v c) valb' out')"
  by (simp add: push_byte_def Let_def)

lemma base64_finish_ref:
  "length out mod 4 = 0 \<Longrightarrow> base64_finish (base64_loop s v (- 6) out) = out @ base64_ref s"
proof (induction s arbitrary: v out rule: base64_ref.induct)
  case 1
  then show ?case by (simp add: base64_finish_def base64_pad_def)
next
  case (2 a)
  then show ?case
    by (simp add: base64_loop_push base64_step1 base64_finish_def base64_pad_def base64_tail1 mod_Suc
        del: base64_loop.simps(2)) (simp add: numeral_2_eq_2)
next
  case (3 a b)
  then show ?case
    by (simp add: base64_loop_push base64_step1 base64_step2 base64_finish_def base64_pad_def base64_tail2 mod_Suc
        del: base64_loop.simps(2))
next
  case (4 a b c s)
  have "base64_finish (base64_loop (a # b # c # s) v (- 6) out) =
    base64_finish (base64_loop s (push_byte (push_byte (push_byte v a) b) c) (- 6)
      (out @ [b64 (byte a div 4), b64 (byte a mod 4 * 16 + byte b div 16),
        b64 (byte b mod 16 * 4 + byte c div 64), b64 (byte c mod 64)]))"
    by (simp add: base64_loop_push base64_step1 base64_step2 base64_step3 del: base64_loop.simps(2))
  with "4.IH" "4.prems" show ?case by simp
qed

lemma base64_encode_eq: "base64_encode s = base64_ref s"
  using base64_finish_ref [of "[]" s 0]
  by (simp add: base64_encode_def base64_finish_def case_prod_beta Let_def split: if_splits flip: sextet_def)

section \<open>Hexadecimal numerals\<close>

lemma from_i_to_hex_loop_acc: "from_i_to_hex_loop n ret = from_i_to_hex_loop n [] @ ret"
proof (induction n arbitrary: ret rule: less_induct)
  case (less n)
  show ?case
  proof (cases "drop_bit 4 n > 0")
    case True
    then have "drop_bit 4 n < n" by (auto simp: drop_bit_eq_div)
    from less.IH [OF this, of "hex_charset ! (n AND 15) # ret"] less.IH [OF this, of "[hex_charset ! (n AND 15)]"]
    show ?thesis using True by (simp add: from_i_to_hex_loop.simps [of n] Let_def)
  qed (simp add: from_i_to_hex_loop.simps [of n] Let_def)
qed

lemma from_i_to_hex_step:
  "from_i_to_hex n = (if n < 16 then [hex_charset ! n] else from_i_to_hex (n div 16) @ [hex_charset ! (n mod 16)])"
proof -
  have a: "n AND 15 = n mod 16" using take_bit_eq_mask [of 4 n] by (simp add: take_bit_eq_mod mask_eq_exp_minus_1)
  have d: "drop_bit 4 n = n div 16" by (simp add: drop_bit_eq_div)
  show ?thesis
    using from_i_to_hex_loop_acc [of "n div 16" "[hex_charset ! (n mod 16)]"]
    by (auto simp: from_i_to_hex_def from_i_to_hex_loop.simps [of n] a d Let_def div_eq_0_iff)
qed

lemma hex_charset_is_hex: "n < 16 \<Longrightarrow> is_hex (hex_charset ! n) = Some n \<and> hex_charset ! n \<noteq> NUL"
proof -
  have "list_all (\<lambda>n. is_hex (hex_charset ! n) = Some n \<and> hex_charset ! n \<noteq> NUL) [0..<16]"
    by code_simp
  then show "n < 16 \<Longrightarrow> ?thesis" by (simp add: list_all_iff)
qed

lemma from_hex_loop_append:
  "from_hex_loop (s @ t) (length s + k) val =
     (case from_hex_loop s (length s) val of None \<Rightarrow> None | Some v \<Rightarrow> from_hex_loop t k v)"
  by (induction s arbitrary: val) (auto split: option.splits)

lemma from_i_to_hex_nonempty [simp]: "from_i_to_hex n \<noteq> []"
  by (subst from_i_to_hex_step) simp

lemma from_hex_loop_from_i_to_hex:
  "from_hex_loop (from_i_to_hex n) (length (from_i_to_hex n)) 0 = Some n"
proof (induction n rule: less_induct)
  case (less n)
  show ?case
  proof (cases "n < 16")
    case True
    with hex_charset_is_hex [OF True] show ?thesis by (simp add: from_i_to_hex_step [of n])
  next
    case False
    then have "n div 16 < n" by simp
    note IH = less.IH [OF this]
    have "from_hex_loop (from_i_to_hex (n div 16) @ [hex_charset ! (n mod 16)])
        (length (from_i_to_hex (n div 16)) + 1) 0 = Some n"
      using hex_charset_is_hex [of "n mod 16"] by (simp only: from_hex_loop_append IH) simp
    then show ?thesis using False by (simp add: from_i_to_hex_step [of n])
  qed
qed

section \<open>Properties\<close>

text \<open>A query string written from parameters is read back as the same
  parameters: for any multimap (keys in order) without a repeated pair whose keys are non-empty and
  hold none of the bytes the writer leaves unescaped in a key, whatever the bytes of the values.\<close>

theorem query_string_roundtrip:
  assumes "\<forall>kv \<in> set ps. clean_key (fst kv)" and "sorted (map fst ps)" and "distinct ps"
  shows "parse_query_text (params_to_query_str ps) [] = ps"
  using parse_query_loop_pairs [of ps "[]" "{}"] assms
  by (simp add: parse_query_text_def split_params_to_query_str)

theorem query_string_roundtrip_witness:
  "parse_query_text (params_to_query_str [(''imageName'', ''a&b=c d+%.png''), (''n'', '''')]) [] =
     [(''imageName'', ''a&b=c d+%.png''), (''n'', '''')]"
  by (rule query_string_roundtrip) (simp_all add: clean_key_def)

text \<open>C38 (is_valid_path_contained): the path check accepts a path exactly when it has no NUL and no
  backslash and, read component by component, \<open>..\<close> never leads above the directory it starts in.\<close>

theorem is_valid_path_contained:
  "is_valid_path p \<longleftrightarrow>
     NUL \<notin> set p \<and> BSL \<notin> set p \<and> (\<forall>n. ups (take n (components p)) \<le> downs (take n (components p)))"
  by (rule is_valid_path_iff)

text \<open>C39 (base64_encode_rfc4648): the shift-register encoder, whose 32-bit accumulator overflows on
  inputs of more than four bytes, computes the encoding by groups of three bytes of RFC 4648.\<close>

theorem base64_encode_rfc4648: "base64_encode s = base64_ref s"
  by (rule base64_encode_eq)

text \<open>Header names that compare equal without regard to case hash
  alike, at every width of \<open>size_t\<close>, as the hashed multimap of headers needs.\<close>

theorem header_hash_respects_equality:
  assumes "equal_ci a b"
  shows "(hash_ci a :: 'w::len word) = hash_ci b"
  unfolding hash_ci_def using assms by (intro hash_core_map_to_lower) (simp add: equal_ci_iff)

theorem header_hash_respects_equality_witness:
  "(hash_ci ''Content-Length'' :: 64 word) = hash_ci ''content-LENGTH''"
  by (rule header_hash_respects_equality) code_simp

text \<open>The index-based splitter reports exactly the delimited fields of the
  text, in order, stripped of blanks, without the empty ones.\<close>

theorem split_at_reference: "split_at s d = filter (\<lambda>f. f \<noteq> []) (map strip (fields_of d s))"
  by (rule split_at_eq)

text \<open>The URL that goes into a request line holds no blank, CR or LF and no byte
  above 127, so it cannot end the line early; and decoding it gives back the text up to its first
  NUL, when that has no percent sign of its own.\<close>

theorem encode_url_safe:
  "(\<forall>x \<in> set (encode_url s). x \<noteq> CR \<and> x \<noteq> LF \<and> x \<noteq> SP \<and> byte x < 128) \<and>
   (CHR ''%'' \<notin> set (c_str s) \<longrightarrow> decode_url (encode_url s) False = c_str s)"
  using encode_url_no_crlf decode_encode_url_c_str by blast

theorem encode_url_safe_witness:
  "LF \<notin> set (encode_url ''/a b'') \<and> decode_url (encode_url ''/a b'') False = ''/a b''"
  using encode_url_safe [of "''/a b''"] by auto

end
