(* ===== verification/Http_Stream.thy ===== *)
theory Http_Stream
  imports Http_Status "HOL-Library.Signed_Division"
begin

text \<open>
  Byte streams of \<^verbatim>\<open>src/CPPTools/include/httplib.h\<close>: the abstract class \<open>Stream\<close> as a
  record of its virtual functions over an explicit stream state, its implementations
  \<open>SocketStream\<close> (which reads ahead into a 4096-byte buffer) and \<open>BufferStream\<close>, and the
  \<open>stream_line_reader\<close> that cuts a stream into CRLF lines.

  A \<open>read\<close> that returns a negative number is \<^term>\<open>None\<close>, and one that returns \<open>n\<close> is
  \<^term>\<open>Some bs\<close> with the \<open>n\<close> bytes it stored; \<^term>\<open>Some []\<close> is the end of the stream.
  What the operating system does on a socket (\<open>poll\<close>, \<open>recv\<close>, \<open>send\<close>) is a parameter, the record
  \<open>Os\<close>; the locale \<open>os_socket\<close> states what a connection that works promises.
\<close>

section \<open>The class \<open>Stream\<close>\<close>

record 's Stream =
  strm_is_readable :: "'s \<Rightarrow> bool"
  strm_wait_readable :: "'s \<Rightarrow> bool \<times> 's"
  strm_wait_writable :: "'s \<Rightarrow> bool \<times> 's"
  strm_read :: "'s \<Rightarrow> nat \<Rightarrow> bytes option \<times> 's"
  strm_write :: "'s \<Rightarrow> bytes \<Rightarrow> nat option \<times> 's"

section \<open>Sockets\<close>

text \<open>\<open>os_max\<close> is the bound the platform puts on one transfer (\<open>INT_MAX\<close> or \<open>SSIZE_MAX\<close>).\<close>

record 'k Os =
  os_max :: nat
  os_select_read :: "'k \<Rightarrow> bool \<times> 'k"
  os_select_write :: "'k \<Rightarrow> bool \<times> 'k"
  os_is_socket_alive :: "'k \<Rightarrow> bool"
  os_recv :: "'k \<Rightarrow> nat \<Rightarrow> bytes option \<times> 'k"
  os_send :: "'k \<Rightarrow> bytes \<Rightarrow> nat option \<times> 'k"

definition read_buff_size :: nat where
  "read_buff_size = 1024 * 4"

text \<open>The members of a \<open>SocketStream\<close> that change, and the state of its socket. The valid part of
  the buffer is what \<open>read_buff_\<close> holds up to \<open>read_buff_content_size_\<close>.\<close>

record 'k SocketStream =
  ss_sock :: 'k
  ss_read_buff :: bytes
  ss_read_buff_off :: nat

definition new_SocketStream :: "'k \<Rightarrow> 'k SocketStream" where
  "new_SocketStream sock = \<lparr>ss_sock = sock, ss_read_buff = [], ss_read_buff_off = 0\<rparr>"

definition ss_is_readable :: "'k SocketStream \<Rightarrow> bool" where
  "ss_is_readable s \<longleftrightarrow> ss_read_buff_off s < length (ss_read_buff s)"

definition ss_wait_readable :: "'k Os \<Rightarrow> 'k SocketStream \<Rightarrow> bool \<times> 'k SocketStream" where
  "ss_wait_readable os s =
     (let (ok, k) = os_select_read os (ss_sock s) in (ok, s\<lparr>ss_sock := k\<rparr>))"

definition ss_wait_writable :: "'k Os \<Rightarrow> 'k SocketStream \<Rightarrow> bool \<times> 'k SocketStream" where
  "ss_wait_writable os s =
     (let (ok, k) = os_select_write os (ss_sock s)
      in (ok \<and> os_is_socket_alive os k, s\<lparr>ss_sock := k\<rparr>))"

definition ss_read :: "'k Os \<Rightarrow> 'k SocketStream \<Rightarrow> nat \<Rightarrow> bytes option \<times> 'k SocketStream" where
  "ss_read os s size0 =
     (let size = min size0 (os_max os) in
      if ss_read_buff_off s < length (ss_read_buff s) then
        let remaining = drop (ss_read_buff_off s) (ss_read_buff s) in
        if size \<le> length remaining
        then (Some (take size remaining), s\<lparr>ss_read_buff_off := ss_read_buff_off s + size\<rparr>)
        else (Some remaining, s\<lparr>ss_read_buff_off := ss_read_buff_off s + length remaining\<rparr>)
      else
        let (ready, s) = ss_wait_readable os s in
        if \<not> ready then (None, s)
        else
          let s = s\<lparr>ss_read_buff := [], ss_read_buff_off := 0\<rparr> in
          if size < read_buff_size then
            (case os_recv os (ss_sock s) read_buff_size of
               (None, k) \<Rightarrow> (None, s\<lparr>ss_sock := k\<rparr>)
             | (Some bs, k) \<Rightarrow>
                 if length bs \<le> size then (Some bs, s\<lparr>ss_sock := k\<rparr>)
                 else (Some (take size bs),
                       s\<lparr>ss_sock := k, ss_read_buff := bs, ss_read_buff_off := size\<rparr>))
          else
            (let (r, k) = os_recv os (ss_sock s) size in (r, s\<lparr>ss_sock := k\<rparr>)))"

definition ss_write :: "'k Os \<Rightarrow> 'k SocketStream \<Rightarrow> bytes \<Rightarrow> nat option \<times> 'k SocketStream" where
  "ss_write os s data =
     (let (ready, s) = ss_wait_writable os s in
      if \<not> ready then (None, s)
      else let (r, k) = os_send os (ss_sock s) data in (r, s\<lparr>ss_sock := k\<rparr>))"

definition SocketStream :: "'k Os \<Rightarrow> 'k SocketStream Stream" where
  "SocketStream os =
     \<lparr>strm_is_readable = ss_is_readable,
      strm_wait_readable = ss_wait_readable os,
      strm_wait_writable = ss_wait_writable os,
      strm_read = ss_read os,
      strm_write = ss_write os\<rparr>"

text \<open>How long \<open>wait_readable\<close> may wait when a limit on the whole exchange is set (milliseconds; all
  four arguments are \<open>time_t\<close>).\<close>

definition calc_actual_timeout :: "int \<Rightarrow> int \<Rightarrow> int \<Rightarrow> int \<Rightarrow> int \<times> int" where
  "calc_actual_timeout max_timeout_msec duration_msec timeout_sec timeout_usec =
     (let timeout_msec = timeout_sec * 1000 + timeout_usec sdiv 1000;
          actual = min (max_timeout_msec - duration_msec) timeout_msec;
          actual = (if actual < 0 then 0 else actual)
      in (actual div 1000, (actual mod 1000) * 1000))"

section \<open>Buffer streams\<close>

record BufferStream =
  bs_buffer :: bytes
  bs_position :: nat

definition new_BufferStream :: BufferStream where
  "new_BufferStream = \<lparr>bs_buffer = [], bs_position = 0\<rparr>"

definition bs_read :: "BufferStream \<Rightarrow> nat \<Rightarrow> bytes option \<times> BufferStream" where
  "bs_read s n =
     (let got = take n (drop (bs_position s) (bs_buffer s))
      in (Some got, s\<lparr>bs_position := bs_position s + length got\<rparr>))"

definition bs_write :: "BufferStream \<Rightarrow> bytes \<Rightarrow> nat option \<times> BufferStream" where
  "bs_write s data = (Some (length data), s\<lparr>bs_buffer := bs_buffer s @ data\<rparr>)"

definition BufferStream :: "BufferStream Stream" where
  "BufferStream =
     \<lparr>strm_is_readable = (\<lambda>s. True),
      strm_wait_readable = (\<lambda>s. (True, s)),
      strm_wait_writable = (\<lambda>s. (True, s)),
      strm_read = bs_read,
      strm_write = bs_write\<rparr>"

section \<open>The line reader\<close>

definition MAX_LINE_LENGTH :: nat where
  "MAX_LINE_LENGTH = 32768"

text \<open>\<open>lr_fixed\<close> is the used part of the caller's buffer, \<open>lr_fixed_size\<close> its capacity.\<close>

record stream_line_reader =
  lr_fixed :: bytes
  lr_fixed_size :: nat
  lr_growable :: bytes

definition new_line_reader :: "nat \<Rightarrow> stream_line_reader" where
  "new_line_reader fixed_buffer_size =
     \<lparr>lr_fixed = [], lr_fixed_size = fixed_buffer_size, lr_growable = []\<rparr>"

definition lr_ptr :: "stream_line_reader \<Rightarrow> bytes" where
  "lr_ptr r = (if lr_growable r = [] then lr_fixed r else lr_growable r)"

definition lr_size :: "stream_line_reader \<Rightarrow> nat" where
  "lr_size r = (if lr_growable r = [] then length (lr_fixed r) else length (lr_growable r))"

definition end_with_crlf :: "stream_line_reader \<Rightarrow> bool" where
  "end_with_crlf r \<longleftrightarrow>
     lr_size r \<ge> 2 \<and> lr_ptr r ! (lr_size r - 2) = CR \<and> lr_ptr r ! (lr_size r - 1) = LF"

definition lr_append :: "char \<Rightarrow> stream_line_reader \<Rightarrow> stream_line_reader" where
  "lr_append c r =
     (if length (lr_fixed r) < lr_fixed_size r - 1 then r\<lparr>lr_fixed := lr_fixed r @ [c]\<rparr>
      else
        let g = (if lr_growable r = [] then lr_fixed r else lr_growable r)
        in r\<lparr>lr_growable := g @ [c]\<rparr>)"

function getline_loop ::
  "'s Stream \<Rightarrow> nat \<Rightarrow> char \<Rightarrow> stream_line_reader \<Rightarrow> 's \<Rightarrow> bool \<times> stream_line_reader \<times> 's" where
  "getline_loop strm i prev r s =
     (if lr_size r \<ge> MAX_LINE_LENGTH then (False, r, s)
      else
        (case strm_read strm s 1 of
           (None, s) \<Rightarrow> (False, r, s)
         | (Some [], s) \<Rightarrow> (if i = 0 then (False, r, s) else (True, r, s))
         | (Some (c # _), s) \<Rightarrow>
             let r = lr_append c r in
             if prev = CR \<and> c = LF then (True, r, s)
             else getline_loop strm (i + 1) c r s))"
  by pat_completeness auto
termination
  by (relation "measure (\<lambda>(strm, i, prev, r, s).
        (lr_fixed_size r - 1 - length (lr_fixed r)) + (MAX_LINE_LENGTH - lr_size r))")
    (auto simp: lr_append_def lr_size_def Let_def)

declare getline_loop.simps [simp del]

definition getline :: "'s Stream \<Rightarrow> stream_line_reader \<Rightarrow> 's \<Rightarrow> bool \<times> stream_line_reader \<times> 's" where
  "getline strm r s = getline_loop strm 0 NUL (r\<lparr>lr_fixed := [], lr_growable := []\<rparr>) s"

section \<open>Interfaces\<close>

text \<open>A stream one can read: \<open>pending\<close> is what is still to come before the end, in whatever
  portions \<open>read\<close> hands it out; \<open>good\<close> says that the stream does not fail.\<close>

locale readable_stream =
  fixes strm :: "'s Stream" and good :: "'s \<Rightarrow> bool" and pending :: "'s \<Rightarrow> bytes"
  assumes read_good:
    "\<lbrakk>good s; 0 < n; strm_read strm s n = (r, s')\<rbrakk> \<Longrightarrow>
       \<exists>bs. r = Some bs \<and> good s' \<and> pending s = bs @ pending s' \<and> length bs \<le> n \<and>
            (bs = [] \<longrightarrow> pending s = [])"

text \<open>A stream one can write: \<open>written\<close> is what the other side has been sent.\<close>

locale writable_stream =
  fixes strm :: "'s Stream" and good :: "'s \<Rightarrow> bool" and written :: "'s \<Rightarrow> bytes"
  assumes wait_writable_good:
    "\<lbrakk>good s; strm_wait_writable strm s = (b, s')\<rbrakk> \<Longrightarrow> b \<and> good s' \<and> written s' = written s"
    and write_good:
    "\<lbrakk>good s; bs \<noteq> []; strm_write strm s bs = (r, s')\<rbrakk> \<Longrightarrow>
       \<exists>n. r = Some n \<and> 0 < n \<and> n \<le> length bs \<and> good s' \<and> written s' = written s @ take n bs"

text \<open>A connection: reading and writing do not disturb each other.\<close>

locale duplex_stream = readable_stream strm good pending + writable_stream strm good written
  for strm :: "'s Stream" and good :: "'s \<Rightarrow> bool" and pending :: "'s \<Rightarrow> bytes" and written :: "'s \<Rightarrow> bytes" +
  assumes read_written: "\<lbrakk>good s; strm_read strm s n = (r, s')\<rbrakk> \<Longrightarrow> written s' = written s"
    and write_pending: "\<lbrakk>good s; strm_write strm s bs = (r', s')\<rbrakk> \<Longrightarrow> pending s' = pending s"
    and wait_pending: "\<lbrakk>good s; strm_wait_writable strm s = (b, s')\<rbrakk> \<Longrightarrow> pending s' = pending s"

text \<open>What a connected socket that does not fail promises: \<open>poll\<close> reports it ready, \<open>recv\<close> hands
  out the incoming bytes in order and reports the end only at the end, \<open>send\<close> accepts a non-empty
  prefix, and the two directions are independent.\<close>

locale os_socket =
  fixes os :: "'k Os" and up :: "'k \<Rightarrow> bool" and incoming :: "'k \<Rightarrow> bytes" and outgoing :: "'k \<Rightarrow> bytes"
  assumes os_max: "0 < os_max os"
    and select_read: "\<lbrakk>up k; os_select_read os k = (b, k')\<rbrakk> \<Longrightarrow>
      b \<and> up k' \<and> incoming k' = incoming k \<and> outgoing k' = outgoing k"
    and select_write: "\<lbrakk>up k; os_select_write os k = (b, k')\<rbrakk> \<Longrightarrow>
      b \<and> up k' \<and> os_is_socket_alive os k' \<and> incoming k' = incoming k \<and> outgoing k' = outgoing k"
    and recv: "\<lbrakk>up k; 0 < n; os_recv os k n = (r, k')\<rbrakk> \<Longrightarrow>
      \<exists>bs. r = Some bs \<and> up k' \<and> incoming k = bs @ incoming k' \<and> length bs \<le> n \<and>
           (bs = [] \<longrightarrow> incoming k = []) \<and> outgoing k' = outgoing k"
    and recv_zero: "\<lbrakk>up k; os_recv os k 0 = (r, k')\<rbrakk> \<Longrightarrow> outgoing k' = outgoing k"
    and send: "\<lbrakk>up k; bs \<noteq> []; os_send os k bs = (m, k')\<rbrakk> \<Longrightarrow>
      \<exists>n. m = Some n \<and> 0 < n \<and> n \<le> length bs \<and> up k' \<and> outgoing k' = outgoing k @ take n bs"
    and send_incoming: "\<lbrakk>up k; os_send os k bs = (m, k')\<rbrakk> \<Longrightarrow> incoming k' = incoming k"

section \<open>A socket stream over a working socket\<close>

text \<open>What a socket stream still has to deliver: the unread part of its buffer, then what is to come
  on the socket.\<close>

definition ss_pending :: "('k \<Rightarrow> bytes) \<Rightarrow> 'k SocketStream \<Rightarrow> bytes" where
  "ss_pending incoming s = drop (ss_read_buff_off s) (ss_read_buff s) @ incoming (ss_sock s)"

definition ss_good :: "('k \<Rightarrow> bool) \<Rightarrow> 'k SocketStream \<Rightarrow> bool" where
  "ss_good up s \<longleftrightarrow> up (ss_sock s)"

definition ss_written :: "('k \<Rightarrow> bytes) \<Rightarrow> 'k SocketStream \<Rightarrow> bytes" where
  "ss_written outgoing s = outgoing (ss_sock s)"

lemmas socket_stream_defs = SocketStream_def ss_pending_def ss_good_def ss_written_def

context os_socket
begin

lemma ss_wait_readable_up:
  assumes "up (ss_sock s)" "ss_wait_readable os s = (b, s')"
  shows "b \<and> up (ss_sock s') \<and> incoming (ss_sock s') = incoming (ss_sock s) \<and>
    outgoing (ss_sock s') = outgoing (ss_sock s) \<and> ss_read_buff s' = ss_read_buff s \<and>
    ss_read_buff_off s' = ss_read_buff_off s"
  using assms by (auto simp: ss_wait_readable_def dest: select_read split: prod.splits)

lemma ss_wait_writable_up:
  assumes "up (ss_sock s)" "ss_wait_writable os s = (b, s')"
  shows "b \<and> up (ss_sock s') \<and> incoming (ss_sock s') = incoming (ss_sock s) \<and>
    outgoing (ss_sock s') = outgoing (ss_sock s) \<and> ss_read_buff s' = ss_read_buff s \<and>
    ss_read_buff_off s' = ss_read_buff_off s"
  using assms by (auto simp: ss_wait_writable_def dest: select_write split: prod.splits)

lemma ss_read_buffered:
  assumes "ss_read_buff_off s < length (ss_read_buff s)" "0 < n" "ss_read os s n = (r, s')"
  shows "\<exists>bs. r = Some bs \<and> bs \<noteq> [] \<and> length bs \<le> n \<and> ss_sock s' = ss_sock s \<and>
    ss_pending incoming s = bs @ ss_pending incoming s'"
proof -
  let ?rem = "drop (ss_read_buff_off s) (ss_read_buff s)" and ?n = "min n (os_max os)"
  have n: "0 < ?n" using assms(2) os_max by simp
  show ?thesis
  proof (cases "?n \<le> length ?rem")
    case True
    then have "r = Some (take ?n ?rem)" "s' = s\<lparr>ss_read_buff_off := ss_read_buff_off s + ?n\<rparr>"
      using assms by (auto simp: ss_read_def Let_def)
    moreover have "take ?n ?rem \<noteq> []" using n assms(1) by auto
    moreover have "?rem = take ?n ?rem @ drop (ss_read_buff_off s + ?n) (ss_read_buff s)"
      by (metis append_take_drop_id drop_drop add.commute)
    ultimately show ?thesis by (simp add: ss_pending_def del: take_drop)
  next
    case False
    then have "r = Some ?rem" "s' = s\<lparr>ss_read_buff_off := ss_read_buff_off s + length ?rem\<rparr>"
      using assms by (auto simp: ss_read_def Let_def)
    then show ?thesis using False assms(1) by (simp add: ss_pending_def)
  qed
qed

lemma ss_read_socket:
  assumes "\<not> ss_read_buff_off s < length (ss_read_buff s)" "up (ss_sock s)" "0 < n" "ss_read os s n = (r, s')"
  shows "\<exists>bs. r = Some bs \<and> length bs \<le> n \<and> up (ss_sock s') \<and>
    ss_pending incoming s = bs @ ss_pending incoming s' \<and> (bs = [] \<longrightarrow> ss_pending incoming s = []) \<and>
    outgoing (ss_sock s') = outgoing (ss_sock s)"
proof -
  let ?n = "min n (os_max os)"
  have n: "0 < ?n" using assms(3) os_max by simp
  obtain b s1 where w: "ss_wait_readable os s = (b, s1)" by force
  note w' = ss_wait_readable_up [OF assms(2) w]
  have p: "ss_pending incoming s = incoming (ss_sock s1)"
    using assms(1) w' by (simp add: ss_pending_def)
  show ?thesis
  proof (cases "?n < read_buff_size")
    case True
    obtain r' k where rv: "os_recv os (ss_sock s1) read_buff_size = (r', k)" by force
    have "0 < read_buff_size" by (simp add: read_buff_size_def)
    from recv [OF _ this rv] w' obtain bs where bs: "r' = Some bs" "up k" "incoming (ss_sock s1) = bs @ incoming k"
      "bs = [] \<longrightarrow> incoming (ss_sock s1) = []" "outgoing k = outgoing (ss_sock s1)"
      by blast
    show ?thesis
    proof (cases "length bs \<le> ?n")
      case True
      with assms w w' rv bs \<open>?n < read_buff_size\<close> have "r = Some bs"
        "s' = s1\<lparr>ss_read_buff := [], ss_read_buff_off := 0, ss_sock := k\<rparr>"
        by (auto simp: ss_read_def Let_def)
      then show ?thesis using bs w' p True by (simp add: ss_pending_def)
    next
      case False
      with assms w w' rv bs \<open>?n < read_buff_size\<close> have r: "r = Some (take ?n bs)"
        "s' = s1\<lparr>ss_sock := k, ss_read_buff := bs, ss_read_buff_off := ?n\<rparr>"
        by (auto simp: ss_read_def Let_def)
      have "bs = take ?n bs @ drop ?n bs" by simp
      with r show ?thesis using bs w' p n False by (auto simp: ss_pending_def)
    qed
  next
    case False
    obtain r' k where rv: "os_recv os (ss_sock s1) ?n = (r', k)" by force
    from recv [OF _ n rv] w' obtain bs where bs: "r' = Some bs" "up k" "incoming (ss_sock s1) = bs @ incoming k"
      "length bs \<le> ?n" "bs = [] \<longrightarrow> incoming (ss_sock s1) = []" "outgoing k = outgoing (ss_sock s1)"
      by blast
    with False assms w w' rv have "r = Some bs"
      "s' = s1\<lparr>ss_read_buff := [], ss_read_buff_off := 0, ss_sock := k\<rparr>"
      by (auto simp: ss_read_def Let_def)
    then show ?thesis using bs w' p by (simp add: ss_pending_def)
  qed
qed

lemma ss_read_good:
  assumes "ss_good up s" "0 < n" "ss_read os s n = (r, s')"
  shows "\<exists>bs. r = Some bs \<and> ss_good up s' \<and> ss_pending incoming s = bs @ ss_pending incoming s' \<and>
    length bs \<le> n \<and> (bs = [] \<longrightarrow> ss_pending incoming s = [])"
  using ss_read_buffered [OF _ assms(2,3)] ss_read_socket [OF _ _ assms(2,3)] assms(1)
  by (cases "ss_read_buff_off s < length (ss_read_buff s)") (fastforce simp: ss_good_def)+

lemma ss_read_written:
  assumes "ss_good up s" "ss_read os s n = (r, s')"
  shows "ss_written outgoing s' = ss_written outgoing s"
proof (cases "ss_read_buff_off s < length (ss_read_buff s)")
  case True
  with assms(2) show ?thesis by (auto simp: ss_read_def Let_def ss_written_def split: if_splits)
next
  case False
  obtain b s1 where w: "ss_wait_readable os s = (b, s1)" by force
  note w' = ss_wait_readable_up [OF _ w]
  show ?thesis
  proof (cases "n = 0")
    case True
    then show ?thesis
      using assms(2) False w w' recv [of "ss_sock s1" read_buff_size] assms(1)
      by (fastforce simp: ss_read_def Let_def ss_good_def ss_written_def read_buff_size_def
          split: prod.splits option.splits if_splits)
  next
    case n: False
    then show ?thesis
      using ss_read_socket [OF False _ _ assms(2)] assms(1) by (auto simp: ss_written_def ss_good_def)
  qed
qed

end

sublocale os_socket \<subseteq> ss: duplex_stream "SocketStream os" "ss_good up" "ss_pending incoming" "ss_written outgoing"
proof
  fix s :: "'k SocketStream" and n r s'
  assume s: "ss_good up s"
  {
    assume "0 < n" "strm_read (SocketStream os) s n = (r, s')"
    with s show "\<exists>bs. r = Some bs \<and> ss_good up s' \<and> ss_pending incoming s = bs @ ss_pending incoming s' \<and>
      length bs \<le> n \<and> (bs = [] \<longrightarrow> ss_pending incoming s = [])"
      by (intro ss_read_good) (auto simp: SocketStream_def)
  next
    assume "strm_read (SocketStream os) s n = (r, s')"
    with s show "ss_written outgoing s' = ss_written outgoing s"
      by (intro ss_read_written) (auto simp: SocketStream_def)
  }
next
  fix s :: "'k SocketStream" and b s'
  assume s: "ss_good up s" and w: "strm_wait_writable (SocketStream os) s = (b, s')"
  then have "ss_wait_writable os s = (b, s')" by (simp add: SocketStream_def)
  from ss_wait_writable_up [OF _ this] s
  show "b \<and> ss_good up s' \<and> ss_written outgoing s' = ss_written outgoing s"
    and "ss_pending incoming s' = ss_pending incoming s"
    by (auto simp: socket_stream_defs)
next
  fix s :: "'k SocketStream" and bs :: bytes and r s'
  assume s: "ss_good up s" and w: "strm_write (SocketStream os) s bs = (r, s')"
  obtain b s1 where wt: "ss_wait_writable os s = (b, s1)" by force
  note w' = ss_wait_writable_up [OF _ wt]
  obtain k where k: "os_send os (ss_sock s1) bs = (r, k)" "s' = s1\<lparr>ss_sock := k\<rparr>"
    using w wt w' s by (auto simp: socket_stream_defs ss_write_def split: prod.splits)
  show "bs \<noteq> [] \<Longrightarrow> \<exists>n. r = Some n \<and> 0 < n \<and> n \<le> length bs \<and> ss_good up s' \<and>
      ss_written outgoing s' = ss_written outgoing s @ take n bs"
    using send [OF _ _ k(1)] k(2) w' s by (auto simp: socket_stream_defs)
  show "ss_pending incoming s' = ss_pending incoming s"
    using send_incoming [OF _ k(1)] k(2) w' s by (auto simp: socket_stream_defs)
qed

context os_socket
begin

lemma socket_stream_duplex:
  "duplex_stream (SocketStream os) (ss_good up) (ss_pending incoming) (ss_written outgoing)"
  by (rule ss.duplex_stream_axioms)

end

section \<open>A buffer stream\<close>

definition bs_pending :: "BufferStream \<Rightarrow> bytes" where
  "bs_pending s = drop (bs_position s) (bs_buffer s)"

interpretation bs_in: readable_stream BufferStream "\<lambda>s. True" bs_pending
proof
  fix s :: BufferStream and n r s'
  assume "0 < n" and "strm_read BufferStream s n = (r, s')"
  then have r: "r = Some (take n (bs_pending s))"
    "s' = s\<lparr>bs_position := bs_position s + length (take n (bs_pending s))\<rparr>"
    by (auto simp: BufferStream_def bs_read_def bs_pending_def Let_def)
  have d: "drop (length (take n p)) p = drop n p" for p :: bytes by (simp add: min_def)
  have "bs_pending s' = drop (length (take n (bs_pending s))) (bs_pending s)"
    by (simp add: r bs_pending_def add.commute)
  then have "bs_pending s' = drop n (bs_pending s)" by (simp only: d)
  then show "\<exists>bs. r = Some bs \<and> True \<and> bs_pending s = bs @ bs_pending s' \<and> length bs \<le> n \<and>
      (bs = [] \<longrightarrow> bs_pending s = [])"
    using \<open>0 < n\<close> by (auto simp: r)
qed

interpretation bs_out: writable_stream BufferStream "\<lambda>s. bs_position s = 0" bs_buffer
  by unfold_locales (auto simp: BufferStream_def bs_write_def)

section \<open>A scripted network\<close>

text \<open>A concrete socket, for running the model: the segments that arrive, the bytes sent, and how many
  bytes each \<open>send\<close> accepts (at least one; everything once the script is used up).\<close>

record Net =
  net_in :: "bytes list"
  net_out :: bytes
  net_accept :: "nat list"

definition net_recv :: "Net \<Rightarrow> nat \<Rightarrow> bytes option \<times> Net" where
  "net_recv k n =
     (case dropWhile (\<lambda>seg. seg = []) (net_in k) of
        [] \<Rightarrow> (Some [], k)
      | seg # segs \<Rightarrow> (Some (take n seg), k\<lparr>net_in := drop n seg # segs\<rparr>))"

definition net_send :: "Net \<Rightarrow> bytes \<Rightarrow> nat option \<times> Net" where
  "net_send k bs =
     (let n = (case net_accept k of [] \<Rightarrow> length bs | m # ms \<Rightarrow> min (Suc m) (length bs))
      in (Some n, k\<lparr>net_out := net_out k @ take n bs, net_accept := tl (net_accept k)\<rparr>))"

definition net_os :: "Net Os" where
  "net_os =
     \<lparr>os_max = 2 ^ 31 - 1, os_select_read = (\<lambda>k. (True, k)), os_select_write = (\<lambda>k. (True, k)),
      os_is_socket_alive = (\<lambda>k. True), os_recv = net_recv, os_send = net_send\<rparr>"

definition net_of :: "bytes list \<Rightarrow> Net" where
  "net_of segs = \<lparr>net_in = segs, net_out = [], net_accept = []\<rparr>"

lemma concat_dropWhile_empty: "concat (dropWhile (\<lambda>seg. seg = []) segs) = concat segs"
  by (induction segs) auto

lemma net_recv_incoming:
  assumes "net_recv k n = (r, k')" "0 < n"
  shows "\<exists>bs. r = Some bs \<and> concat (net_in k) = bs @ concat (net_in k') \<and> length bs \<le> n \<and>
    (bs = [] \<longrightarrow> concat (net_in k) = [])"
proof (cases "dropWhile (\<lambda>seg. seg = []) (net_in k)")
  case Nil
  with assms(1) concat_dropWhile_empty [of "net_in k"] show ?thesis by (auto simp: net_recv_def)
next
  case (Cons seg segs)
  then have "seg \<noteq> []" by (auto simp: dropWhile_eq_Cons_conv)
  with assms Cons concat_dropWhile_empty [of "net_in k", symmetric] show ?thesis
    by (auto simp: net_recv_def simp flip: append_assoc)
qed

interpretation net: os_socket net_os "\<lambda>k. True" "\<lambda>k. concat (net_in k)" net_out
proof
  show "0 < os_max net_os" by (simp add: net_os_def)
next
  fix k n r k'
  assume "0 < (n :: nat)" "os_recv net_os k n = (r, k')"
  then have "net_recv k n = (r, k')" by (simp add: net_os_def)
  moreover from this have "net_out k' = net_out k" by (auto simp: net_recv_def split: list.splits)
  ultimately show "\<exists>bs. r = Some bs \<and> True \<and> concat (net_in k) = bs @ concat (net_in k') \<and> length bs \<le> n \<and>
      (bs = [] \<longrightarrow> concat (net_in k) = []) \<and> net_out k' = net_out k"
    using net_recv_incoming [OF _ \<open>0 < n\<close>] by auto
next
  fix k r k'
  assume "os_recv net_os k 0 = (r, k')"
  then show "net_out k' = net_out k" by (auto simp: net_os_def net_recv_def split: list.splits)
next
  fix k bs r k'
  assume "bs \<noteq> []" "os_send net_os k bs = (r, k')"
  then show "\<exists>n. r = Some n \<and> 0 < n \<and> n \<le> length bs \<and> True \<and> net_out k' = net_out k @ take n bs"
    by (auto simp: net_os_def net_send_def Let_def split: list.splits)
qed (auto simp: net_os_def net_send_def Let_def)

section \<open>Facts about the line reader\<close>

text \<open>The reader's buffers hold the line so far; the growable one is in use only when the fixed one
  is full.\<close>

definition lr_inv :: "stream_line_reader \<Rightarrow> bool" where
  "lr_inv r \<longleftrightarrow> (lr_growable r \<noteq> [] \<longrightarrow> lr_fixed_size r - 1 \<le> length (lr_fixed r))"

lemma lr_size_ptr: "lr_size r = length (lr_ptr r)"
  by (simp add: lr_size_def lr_ptr_def)

lemma lr_append_ptr: "lr_inv r \<Longrightarrow> lr_ptr (lr_append c r) = lr_ptr r @ [c] \<and> lr_inv (lr_append c r)"
  by (auto simp: lr_inv_def lr_append_def lr_ptr_def Let_def)

lemma lr_append_fixed_size [simp]: "lr_fixed_size (lr_append c r) = lr_fixed_size r"
  by (simp add: lr_append_def Let_def)

text \<open>The same loop on the bytes alone: what is taken, whether that is a line, and what is left.\<close>

fun scan_line :: "nat \<Rightarrow> char \<Rightarrow> bytes \<Rightarrow> bool \<times> bytes \<times> bytes" where
  "scan_line i prev [] = (0 < i \<and> i < MAX_LINE_LENGTH, [], [])"
| "scan_line i prev (c # bs) =
     (if i \<ge> MAX_LINE_LENGTH then (False, [], c # bs)
      else if prev = CR \<and> c = LF then (True, [c], bs)
      else let (ok, l, rest) = scan_line (i + 1) c bs in (ok, c # l, rest))"

lemma getline_loop_full: "lr_size r \<ge> MAX_LINE_LENGTH \<Longrightarrow> getline_loop strm i prev r s = (False, r, s)"
  by (subst getline_loop.simps) simp

lemma getline_loop_end:
  "\<lbrakk>lr_size r < MAX_LINE_LENGTH; strm_read strm s 1 = (Some [], s')\<rbrakk> \<Longrightarrow>
     getline_loop strm i prev r s = (0 < i, r, s')"
  by (subst getline_loop.simps) simp

lemma getline_loop_byte:
  "\<lbrakk>lr_size r < MAX_LINE_LENGTH; strm_read strm s 1 = (Some [c], s')\<rbrakk> \<Longrightarrow>
     getline_loop strm i prev r s =
       (if prev = CR \<and> c = LF then (True, lr_append c r, s')
        else getline_loop strm (i + 1) c (lr_append c r) s')"
  by (subst getline_loop.simps) (simp add: Let_def)

context readable_stream
begin

lemma read_one:
  assumes "good s"
  shows "\<exists>s'. good s' \<and> strm_read strm s 1 = (Some (take 1 (pending s)), s') \<and> pending s' = drop 1 (pending s)"
proof -
  obtain r s' where rd: "strm_read strm s 1 = (r, s')" by force
  from read_good [OF assms zero_less_one rd] obtain bs where
    bs: "r = Some bs" "good s'" "pending s = bs @ pending s'" "length bs \<le> 1" "bs = [] \<longrightarrow> pending s = []"
    by blast
  show ?thesis
  proof (cases bs)
    case Nil
    then have "pending s = []" "pending s' = []" using bs(3,5) by auto
    then show ?thesis using rd bs(1,2) Nil by auto
  next
    case (Cons c bs')
    then have "pending s = c # pending s'" using bs(3,4) by simp
    then show ?thesis using rd bs(1,2,4) Cons by auto
  qed
qed

lemma getline_loop_scan:
  assumes "good s" "lr_inv r" "lr_size r = i" "scan_line i prev (pending s) = (ok, l, rest)"
  shows "\<exists>r' s'. getline_loop strm i prev r s = (ok, r', s') \<and> good s' \<and>
     lr_fixed_size r' = lr_fixed_size r \<and> lr_ptr r' = lr_ptr r @ l \<and> pending s' = rest"
  using assms
proof (induction "pending s" arbitrary: s r i prev l)
  case Nil
  from read_one [OF \<open>good s\<close>] Nil(1) obtain s' where
    s': "good s'" "strm_read strm s 1 = (Some [], s')" "pending s' = []" by auto
  show ?case
  proof (cases "i < MAX_LINE_LENGTH")
    case True
    with getline_loop_end [OF _ s'(2), of r i prev] s' Nil show ?thesis by auto
  next
    case False
    with getline_loop_full [of r strm i prev s] Nil show ?thesis by auto
  qed
next
  case (Cons c bs)
  from read_one [OF \<open>good s\<close>] obtain s' where
    s': "good s'" "strm_read strm s 1 = (Some [c], s')" "pending s' = bs"
    unfolding Cons(2) [symmetric] by auto
  note app = lr_append_ptr [OF \<open>lr_inv r\<close>, of c]
  have sz: "lr_size (lr_append c r) = i + 1" using app Cons.prems(3) by (simp add: lr_size_ptr)
  consider "i \<ge> MAX_LINE_LENGTH" | "i < MAX_LINE_LENGTH" "prev = CR \<and> c = LF"
    | "i < MAX_LINE_LENGTH" "\<not> (prev = CR \<and> c = LF)" by linarith
  then show ?case
  proof cases
    case 1
    with getline_loop_full [of r strm i prev s] Cons.prems show ?thesis
      by (auto simp flip: Cons(2))
  next
    case 2
    then show ?thesis
      using getline_loop_byte [OF _ s'(2), of r i prev] Cons.prems s' app by (auto simp flip: Cons(2))
  next
    case 3
    obtain l' where sc: "scan_line (i + 1) c bs = (ok, l', rest)" and l: "l = c # l'"
      using Cons.prems(4) 3 by (auto simp flip: Cons(2) split: prod.splits)
    from Cons(1) [OF s'(3) [symmetric] s'(1) _ sz] sc app s'(3)
    obtain r' s'' where "getline_loop strm (i + 1) c (lr_append c r) s' = (ok, r', s'')" "good s''"
      "lr_fixed_size r' = lr_fixed_size r" "lr_ptr r' = lr_ptr (lr_append c r) @ l'" "pending s'' = rest"
      by (metis lr_append_fixed_size)
    then show ?thesis
      using getline_loop_byte [OF _ s'(2), of r i prev] 3 app l Cons.prems(3) by auto
  qed
qed

text \<open>On a stream that works, \<open>getline\<close> is a function of the bytes that are to come, however they are
  cut into portions.\<close>

lemma getline_scan:
  assumes "good s" "scan_line 0 NUL (pending s) = (ok, l, rest)"
  shows "\<exists>r' s'. getline strm r s = (ok, r', s') \<and> good s' \<and> lr_fixed_size r' = lr_fixed_size r \<and>
    lr_ptr r' = l \<and> pending s' = rest"
  unfolding getline_def
  using getline_loop_scan [OF assms(1) _ _ assms(2), of "r\<lparr>lr_fixed := [], lr_growable := []\<rparr>"]
  by (auto simp: lr_inv_def lr_size_def lr_ptr_def)

end

lemma scan_line_text:
  assumes "LF \<notin> set t" "i + length t + 2 \<le> MAX_LINE_LENGTH"
  shows "scan_line i prev (t @ CR # LF # rest) = (True, t @ [CR, LF], rest)"
  using assms by (induction t arbitrary: i prev) auto

lemma scan_line_parts: "scan_line i prev bs = (ok, l, rest) \<Longrightarrow> bs = l @ rest"
  by (induction i prev bs arbitrary: l rule: scan_line.induct) (auto simp: Let_def split: if_splits prod.splits)

lemma scan_line_length: "scan_line i prev bs = (ok, l, rest) \<Longrightarrow> length l \<le> MAX_LINE_LENGTH - i"
  by (induction i prev bs arbitrary: l rule: scan_line.induct) (fastforce simp: Let_def split: if_splits prod.splits)+

lemma end_with_crlf_append: "lr_ptr r = t @ [CR, LF] \<Longrightarrow> end_with_crlf r"
  by (simp add: end_with_crlf_def lr_size_ptr nth_append)

end
