(* ===== verification/Http_Headers.thy ===== *)
theory Http_Headers
  imports Http_Stream "HOL-Library.Monad_Syntax"
begin

text \<open>
  Header fields of \<^verbatim>\<open>src/CPPTools/include/httplib.h\<close>: the case-insensitive multimap
  \<open>Headers\<close>, look-up, the parser of one field line, and reading and writing a whole header section.

  \<open>Headers\<close> is a hashed multimap. It is modelled by the list of its pairs in iteration order, which
  C++ leaves open; insertion order is the one chosen here.

  A loop that the code does not bound returns in the \<^typ>\<open>'a option\<close> type, where \<^term>\<open>None\<close> means
  that it never returns; that it does return on every stream that works and ends is proved.
\<close>

section \<open>The multimap\<close>

type_synonym Headers = "(string \<times> string) list"

definition headers_emplace :: "string \<Rightarrow> string \<Rightarrow> Headers \<Rightarrow> Headers" where
  "headers_emplace k v hs = hs @ [(k, v)]"

text \<open>\<open>equal_range\<close>: the values under a key.\<close>

definition header_values :: "Headers \<Rightarrow> string \<Rightarrow> string list" where
  "header_values hs key = map snd (filter (\<lambda>(k, v). equal_ci key k) hs)"

definition has_header :: "Headers \<Rightarrow> string \<Rightarrow> bool" where
  "has_header hs key \<longleftrightarrow> header_values hs key \<noteq> []"

definition headers_erase :: "string \<Rightarrow> Headers \<Rightarrow> Headers" where
  "headers_erase key hs = filter (\<lambda>(k, v). \<not> equal_ci key k) hs"

text \<open>Going past the end of the range is not defined in C++; every caller passes an \<open>id\<close> up to the
  number of values. A value is returned as a \<open>const char*\<close>.\<close>

definition get_header_value :: "Headers \<Rightarrow> string \<Rightarrow> string \<Rightarrow> nat \<Rightarrow> string" where
  "get_header_value hs key def idx =
     (let vs = header_values hs key in if idx < length vs then c_str (vs ! idx) else def)"

definition get_header_value_count :: "Headers \<Rightarrow> string \<Rightarrow> nat" where
  "get_header_value_count hs key = length (header_values hs key)"

definition UINT64_MAX :: nat where
  "UINT64_MAX = 2 ^ 64 - 1"

definition strtoull_dec :: "string \<Rightarrow> nat" where
  \<comment> \<open>\<open>std::strtoull(s, nullptr, 10)\<close> on a string of digits\<close>
  "strtoull_dec s = min (dec_value s) UINT64_MAX"

text \<open>The value and \<open>is_invalid_value\<close>.\<close>

definition get_header_value_u64 :: "Headers \<Rightarrow> string \<Rightarrow> nat \<Rightarrow> nat \<Rightarrow> nat \<times> bool" where
  "get_header_value_u64 hs key def idx =
     (let vs = header_values hs key in
      if idx < length vs then
        (if is_numeric (vs ! idx) then (strtoull_dec (vs ! idx), False) else (def, True))
      else (def, False))"

definition is_chunked_transfer_encoding :: "Headers \<Rightarrow> bool" where
  "is_chunked_transfer_encoding hs \<longleftrightarrow>
     equal_ci (get_header_value hs ''Transfer-Encoding'' [] 0) ''chunked''"

section \<open>Reading\<close>

definition HEADER_MAX_LENGTH :: nat where "HEADER_MAX_LENGTH = 8192"
definition HEADER_MAX_COUNT :: nat where "HEADER_MAX_COUNT = 100"

text \<open>The call of \<open>fn\<close>, if there is one.\<close>

definition parse_header :: "string \<Rightarrow> (string \<times> string) option" where
  "parse_header line =
     (let l = rev (dropWhile is_space_or_tab (rev line));
          name = takeWhile (\<lambda>c. c \<noteq> CHR '':'') l
      in if \<not> is_field_name name then None
         else if length name = length l then None
         else
           let val = dropWhile is_space_or_tab (drop (length name + 1) l) in
           if \<not> is_field_value val then None
           else if equal_ci name ''Location'' \<or> equal_ci name ''Referer'' then Some (name, val)
           else Some (name, decode_url val False))"

partial_function (option) read_headers_loop ::
  "'s Stream \<Rightarrow> stream_line_reader \<Rightarrow> nat \<Rightarrow> Headers \<Rightarrow> 's \<Rightarrow> (bool \<times> Headers \<times> 's) option" where
  "read_headers_loop strm r header_count hs s =
     (case getline strm r s of (ok, r, s) \<Rightarrow>
        if \<not> ok then Some (False, hs, s)
        else if end_with_crlf r then
          (if lr_size r = 2 then Some (True, hs, s)
           else if lr_size r > HEADER_MAX_LENGTH then Some (False, hs, s)
           else if header_count \<ge> HEADER_MAX_COUNT then Some (False, hs, s)
           else
             (case parse_header (take (lr_size r - 2) (lr_ptr r)) of
                None \<Rightarrow> Some (False, hs, s)
              | Some (key, val) \<Rightarrow>
                  read_headers_loop strm r (header_count + 1) (headers_emplace key val hs) s))
        else read_headers_loop strm r header_count hs s)"

definition read_headers :: "'s Stream \<Rightarrow> Headers \<Rightarrow> 's \<Rightarrow> (bool \<times> Headers \<times> 's) option" where
  "read_headers strm hs s = read_headers_loop strm (new_line_reader 2048) 0 hs s"

section \<open>Writing\<close>

definition write_request_line :: "'s Stream \<Rightarrow> string \<Rightarrow> string \<Rightarrow> 's \<Rightarrow> nat option \<times> 's" where
  "write_request_line strm method path s =
     strm_write strm s (method @ '' '' @ path @ '' HTTP/1.1'' @ crlf)"

definition write_response_line :: "'s Stream \<Rightarrow> int \<Rightarrow> 's \<Rightarrow> nat option \<times> 's" where
  "write_response_line strm status s =
     strm_write strm s (''HTTP/1.1 '' @ to_string_int status @ '' '' @ status_message status @ crlf)"

definition field_line :: "string \<times> string \<Rightarrow> string" where
  "field_line kv = fst kv @ '': '' @ snd kv @ crlf"

fun write_headers_loop :: "'s Stream \<Rightarrow> Headers \<Rightarrow> nat \<Rightarrow> 's \<Rightarrow> nat option \<times> 's" where
  "write_headers_loop strm [] write_len s =
     (case strm_write strm s crlf of
        (None, s) \<Rightarrow> (None, s)
      | (Some len, s) \<Rightarrow> (Some (write_len + len), s))"
| "write_headers_loop strm (x # hs) write_len s =
     (case strm_write strm s (field_line x) of
        (None, s) \<Rightarrow> (None, s)
      | (Some len, s) \<Rightarrow> write_headers_loop strm hs (write_len + len) s)"

definition write_headers :: "'s Stream \<Rightarrow> Headers \<Rightarrow> 's \<Rightarrow> nat option \<times> 's" where
  "write_headers strm hs s = write_headers_loop strm hs 0 s"

section \<open>Facts\<close>

text \<open>A field that can be sent: a token as name, a value that starts and ends in a visible byte and has no
  control byte, and a line within the limit.\<close>

definition visible_field :: "string \<times> string \<Rightarrow> bool" where
  "visible_field kv \<longleftrightarrow> is_field_name (fst kv) \<and> is_field_value (snd kv) \<and> length (field_line kv) \<le> HEADER_MAX_LENGTH"

text \<open>What it is read back as: the writer does not encode values, but the parser decodes all but two.\<close>

definition reread_field :: "string \<times> string \<Rightarrow> string \<times> string" where
  "reread_field kv =
     (fst kv, if equal_ci (fst kv) ''Location'' \<or> equal_ci (fst kv) ''Referer'' then snd kv else decode_url (snd kv) False)"

text \<open>The fields that come back unchanged: those that (unless they are never decoded) have no percent sign.\<close>

definition plain_field :: "string \<times> string \<Rightarrow> bool" where
  "plain_field kv \<longleftrightarrow> is_field_name (fst kv) \<and> is_field_value (snd kv) \<and>
     (equal_ci (fst kv) ''Location'' \<or> equal_ci (fst kv) ''Referer'' \<or> CHR ''%'' \<notin> set (snd kv)) \<and>
     length (field_line kv) \<le> HEADER_MAX_LENGTH"

lemma is_token_char_facts: "is_token_char c \<Longrightarrow> c \<noteq> CHR '':'' \<and> c \<noteq> LF \<and> c \<noteq> CR \<and> \<not> is_space_or_tab c"
  by (auto simp: is_token_char_def is_space_or_tab_def isalnum_def isalpha_def isdigit_def byte_def)

lemma is_field_vchar_facts: "is_field_vchar c \<Longrightarrow> c \<noteq> LF \<and> c \<noteq> CR \<and> \<not> is_space_or_tab c"
  by (auto simp: is_field_vchar_def is_vchar_def is_obs_text_def is_space_or_tab_def byte_def)

lemma field_content_tail_facts:
  "is_field_content_tail t \<Longrightarrow> t \<noteq> [] \<Longrightarrow> is_field_vchar (last t) \<and> (\<forall>c \<in> set t. c \<noteq> LF \<and> c \<noteq> CR)"
  by (induction t rule: is_field_content_tail.induct) (auto dest: is_field_vchar_facts)

lemma field_value_facts:
  assumes "is_field_value v" "v \<noteq> []"
  shows "\<not> is_space_or_tab (hd v)" "\<not> is_space_or_tab (last v)" "LF \<notin> set v" "CR \<notin> set v"
proof -
  have "is_field_vchar (hd v) \<and> is_field_vchar (last v) \<and> (\<forall>c \<in> set v. c \<noteq> LF \<and> c \<noteq> CR)"
  proof (cases v)
    case (Cons a t)
    show ?thesis
    proof (cases t)
      case Nil
      with Cons assms show ?thesis by (auto simp: is_field_value_def is_field_content_def dest: is_field_vchar_facts)
    next
      case (Cons b t')
      then show ?thesis
        using assms \<open>v = a # t\<close> field_content_tail_facts [of t]
        by (cases t') (auto simp: is_field_value_def is_field_content_def dest: is_field_vchar_facts)
    qed
  qed (use assms in simp)
  then show "\<not> is_space_or_tab (hd v)" "\<not> is_space_or_tab (last v)" "LF \<notin> set v" "CR \<notin> set v"
    by (auto dest: is_field_vchar_facts)
qed

lemma decode_url_plain: "CHR ''%'' \<notin> set s \<Longrightarrow> decode_url s False = s"
  by (induction s) auto

lemma dropWhile_rev_last: "\<not> P (last s) \<Longrightarrow> s \<noteq> [] \<Longrightarrow> rev (dropWhile P (rev s)) = s"
  by (metis dropWhile_eq_self_iff hd_rev rev_is_Nil_conv rev_rev_ident)

lemma parse_header_value:
  assumes "is_field_name k" "is_field_value v"
  shows "parse_header (k @ '': '' @ v) =
     Some (k, if equal_ci k ''Location'' \<or> equal_ci k ''Referer'' then v else decode_url v False)"
proof -
  have k: "k \<noteq> []" "CHR '':'' \<notin> set k"
    using assms(1) is_token_char_facts by (auto simp: is_field_name_def is_token_def list_all_iff)
  have tw: "takeWhile (\<lambda>c. c \<noteq> CHR '':'') (k @ CHR '':'' # r) = k" for r
    using k(2) by (intro takeWhile_append_stop) auto
  define l where "l = rev (dropWhile is_space_or_tab (rev (k @ '': '' @ v)))"
  have l: "\<exists>r. l = k @ CHR '':'' # r \<and> dropWhile is_space_or_tab r = v"
  proof (cases "v = []")
    case True
    then have "l = k @ CHR '':'' # []" by (simp add: l_def is_space_or_tab_def)
    then show ?thesis using True by simp
  next
    case False
    have "l = k @ '': '' @ v" unfolding l_def
      using field_value_facts [OF assms(2) False] False by (intro dropWhile_rev_last) auto
    moreover have "dropWhile is_space_or_tab (SP # v) = v"
      using field_value_facts [OF assms(2) False] False by (cases v) (auto simp: is_space_or_tab_def)
    ultimately show ?thesis by auto
  qed
  then obtain r where r: "l = k @ CHR '':'' # r" "dropWhile is_space_or_tab r = v" by blast
  show ?thesis
    using assms unfolding parse_header_def l_def [symmetric] Let_def by (simp add: r tw)
qed

lemma parse_header_plain: "plain_field (k, v) \<Longrightarrow> parse_header (k @ '': '' @ v) = Some (k, v)"
  using parse_header_value [of k v] by (auto simp: plain_field_def decode_url_plain)

lemma plain_visible: "plain_field kv \<Longrightarrow> visible_field kv"
  by (simp add: plain_field_def visible_field_def)

lemma reread_plain: "plain_field kv \<Longrightarrow> reread_field kv = kv"
  by (auto simp: plain_field_def reread_field_def decode_url_plain prod_eq_iff)

lemma map_reread_plain: "\<forall>kv \<in> set hs. plain_field kv \<Longrightarrow> map reread_field hs = hs"
  by (simp add: reread_plain map_idI)

lemma visible_field_line:
  assumes "visible_field kv"
  shows "LF \<notin> set (fst kv @ '': '' @ snd kv)" "length (field_line kv) > 2"
    "length (fst kv @ '': '' @ snd kv) + 2 \<le> HEADER_MAX_LENGTH"
proof -
  have "LF \<notin> set (fst kv)"
    using assms is_token_char_facts by (auto simp: visible_field_def is_field_name_def is_token_def list_all_iff)
  moreover have "LF \<notin> set (snd kv)"
    using assms field_value_facts(3) [of "snd kv"] by (cases "snd kv = []") (auto simp: visible_field_def)
  ultimately show "LF \<notin> set (fst kv @ '': '' @ snd kv)" by simp
  show "length (field_line kv) > 2" by (simp add: field_line_def)
  show "length (fst kv @ '': '' @ snd kv) + 2 \<le> HEADER_MAX_LENGTH"
    using assms by (simp add: visible_field_def field_line_def)
qed

lemmas plain_field_line = visible_field_line [OF plain_visible]

abbreviation header_section :: "Headers \<Rightarrow> bytes" where
  "header_section hs \<equiv> concat (map field_line hs) @ crlf"

context readable_stream
begin

lemma getline_text:
  assumes "good s" "pending s = t @ crlf @ rest" "LF \<notin> set t" "length t + 2 \<le> MAX_LINE_LENGTH"
  shows "\<exists>r' s'. getline strm r s = (True, r', s') \<and> good s' \<and> lr_fixed_size r' = lr_fixed_size r \<and>
    lr_ptr r' = t @ crlf \<and> lr_size r' = length t + 2 \<and> end_with_crlf r' \<and> pending s' = rest"
proof -
  have "scan_line 0 NUL (pending s) = (True, t @ [CR, LF], rest)"
    using scan_line_text [of t 0 NUL rest] assms by simp
  from getline_scan [OF assms(1) this, of r] show ?thesis
    using end_with_crlf_append by (fastforce simp: lr_size_ptr)
qed

lemma read_headers_loop_visible:
  assumes "good s" "pending s = header_section hs @ rest" "\<forall>kv \<in> set hs. visible_field kv"
    "n + length hs \<le> HEADER_MAX_COUNT"
  shows "\<exists>s'. read_headers_loop strm r n acc s = Some (True, acc @ map reread_field hs, s') \<and> good s' \<and> pending s' = rest"
  using assms
proof (induction hs arbitrary: s r n acc)
  case Nil
  then have "pending s = [] @ crlf @ rest" by simp
  from getline_text [OF \<open>good s\<close> this, of r] obtain r' s' where
    g: "getline strm r s = (True, r', s')" "good s'" "lr_size r' = 2" "end_with_crlf r'" "pending s' = rest"
    by (auto simp: MAX_LINE_LENGTH_def)
  then show ?case by (subst read_headers_loop.simps) simp
next
  case (Cons kv hs)
  have kv: "visible_field kv" using Cons.prems(3) by simp
  have "pending s = (fst kv @ '': '' @ snd kv) @ crlf @ (header_section hs @ rest)"
    using Cons.prems(2) by (simp add: field_line_def [of kv])
  from getline_text [OF \<open>good s\<close> this, of r] obtain r' s' where
    g: "getline strm r s = (True, r', s')" "good s'" "lr_ptr r' = (fst kv @ '': '' @ snd kv) @ crlf"
    "lr_size r' = length (fst kv @ '': '' @ snd kv) + 2" "end_with_crlf r'" "pending s' = header_section hs @ rest"
    using visible_field_line [OF kv] by (auto simp: MAX_LINE_LENGTH_def HEADER_MAX_LENGTH_def)
  have ph: "parse_header (take (lr_size r' - 2) (lr_ptr r')) = Some (fst (reread_field kv), snd (reread_field kv))"
    using parse_header_value [of "fst kv" "snd kv"] kv by (simp add: g(3,4) visible_field_def reread_field_def)
  have lim: "\<not> lr_size r' > HEADER_MAX_LENGTH" "lr_size r' \<noteq> 2" "\<not> n \<ge> HEADER_MAX_COUNT"
    using visible_field_line [OF kv] Cons.prems(4) by (simp_all add: g(4))
  have "read_headers_loop strm r n acc s = read_headers_loop strm r' (n + 1) (acc @ [reread_field kv]) s'"
    using g lim ph by (subst read_headers_loop.simps) (simp add: headers_emplace_def)
  then show ?case
    using Cons.IH [OF g(2,6), of "n + 1" r' "acc @ [reread_field kv]"] Cons.prems(3,4) by simp
qed

lemma read_headers_loop_section:
  assumes "good s" "pending s = header_section hs @ rest" "\<forall>kv \<in> set hs. plain_field kv"
    "n + length hs \<le> HEADER_MAX_COUNT"
  shows "\<exists>s'. read_headers_loop strm r n acc s = Some (True, acc @ hs, s') \<and> good s' \<and> pending s' = rest"
  using read_headers_loop_visible [OF assms(1,2) _ assms(4), of r acc] assms(3) plain_visible
  by (simp add: map_reread_plain)

text \<open>On a stream that works and ends, reading the headers returns, whatever the bytes are.\<close>

lemma read_headers_loop_returns:
  "good s \<Longrightarrow> \<exists>ok hs' s' d. read_headers_loop strm r n hs s = Some (ok, hs', s') \<and> good s' \<and> pending s = d @ pending s'"
proof (induction "length (pending s)" arbitrary: s r n hs rule: less_induct)
  case less
  obtain ok l rest where sc: "scan_line 0 NUL (pending s) = (ok, l, rest)" by (metis prod_cases3)
  from getline_scan [OF less.prems sc, of r] obtain r' s' where
    g: "getline strm r s = (ok, r', s')" "good s'" "lr_ptr r' = l" "pending s' = rest" by blast
  have d: "pending s = l @ pending s'" using scan_line_parts [OF sc] g(4) by simp
  have IH: "\<exists>ok hs'' s'' d. read_headers_loop strm r' n' hs' s' = Some (ok, hs'', s'') \<and> good s'' \<and>
      pending s = d @ pending s''" if ok for n' hs'
  proof -
    have "l \<noteq> []" using that sc by (cases "pending s") (auto simp: MAX_LINE_LENGTH_def Let_def split: if_splits prod.splits)
    then have "length (pending s') < length (pending s)" using d by simp
    from less.hyps [OF this g(2), of r' n' hs'] obtain ok' hs'' s'' d' where
      "read_headers_loop strm r' n' hs' s' = Some (ok', hs'', s'')" "good s''" "pending s' = d' @ pending s''" by blast
    then show ?thesis using d by (metis append_assoc)
  qed
  show ?case
  proof (cases "ok \<and> \<not> (end_with_crlf r' \<and> lr_size r' = 2)")
    case False
    then have "\<exists>b. read_headers_loop strm r n hs s = Some (b, hs, s')"
      using g by (subst read_headers_loop.simps) auto
    then show ?thesis using g(2) d by blast
  next
    case True
    show ?thesis
    proof (cases "end_with_crlf r'")
      case False
      then have "read_headers_loop strm r n hs s = read_headers_loop strm r' n hs s'"
        using g True by (subst read_headers_loop.simps) simp
      then show ?thesis using IH True by auto
    next
      case crlf: True
      show ?thesis
      proof (cases "lr_size r' > HEADER_MAX_LENGTH \<or> n \<ge> HEADER_MAX_COUNT \<or>
          parse_header (take (lr_size r' - 2) (lr_ptr r')) = None")
        case fail: True
        then have "read_headers_loop strm r n hs s = Some (False, hs, s')"
          using g crlf True by (subst read_headers_loop.simps) auto
        then show ?thesis using g(2) d by blast
      next
        case False
        then obtain k v where "parse_header (take (lr_size r' - 2) (lr_ptr r')) = Some (k, v)" by auto
        then have "read_headers_loop strm r n hs s = read_headers_loop strm r' (n + 1) (headers_emplace k v hs) s'"
          using g crlf True False by (subst read_headers_loop.simps) simp
        then show ?thesis using IH True by auto
      qed
    qed
  qed
qed

end

lemma read_headers_section:
  assumes "readable_stream strm good pending" "good s" "pending s = header_section hs @ rest"
    "\<forall>kv \<in> set hs. plain_field kv" "length hs \<le> HEADER_MAX_COUNT"
  shows "\<exists>s'. read_headers strm [] s = Some (True, hs, s') \<and> good s' \<and> pending s' = rest"
  using readable_stream.read_headers_loop_section [OF assms(1,2,3,4), of 0 "new_line_reader 2048" "[]"] assms(5)
  by (simp add: read_headers_def)

lemma write_headers_buffer:
  "\<exists>n. write_headers_loop BufferStream hs m s = (Some n, s\<lparr>bs_buffer := bs_buffer s @ header_section hs\<rparr>)"
proof (induction hs arbitrary: m s)
  case Nil
  then show ?case by (simp add: BufferStream_def bs_write_def)
next
  case (Cons kv hs)
  have "write_headers_loop BufferStream (kv # hs) m s =
      write_headers_loop BufferStream hs (m + length (field_line kv)) (s\<lparr>bs_buffer := bs_buffer s @ field_line kv\<rparr>)"
    by (simp add: BufferStream_def bs_write_def)
  also obtain n where "\<dots> = (Some n, s\<lparr>bs_buffer := bs_buffer s @ field_line kv @ header_section hs\<rparr>)"
    using Cons.IH [of "m + length (field_line kv)" "s\<lparr>bs_buffer := bs_buffer s @ field_line kv\<rparr>"] by auto
  finally show ?case by (intro exI [of _ n]) simp
qed

section \<open>Properties\<close>

text \<open>C37 (headers_roundtrip): a header section written to a stream is read back completely, in the same order
  and with nothing left over, for up to 100 fields of visible text with names that are tokens and lines of at most 8192 bytes. The
  names come back unchanged. A value comes back percent-decoded, because the parser decodes what the writer did not encode,
  except under \<open>Location\<close> and \<open>Referer\<close>; so the fields come back unchanged if no other value has a percent sign in it.\<close>

theorem headers_roundtrip:
  assumes "\<forall>kv \<in> set hs. visible_field kv" "length hs \<le> HEADER_MAX_COUNT"
  shows "\<exists>n s s'. write_headers BufferStream hs new_BufferStream = (Some n, s) \<and>
    read_headers BufferStream [] s = Some (True, map reread_field hs, s') \<and> bs_pending s' = [] \<and>
    map fst (map reread_field hs) = map fst hs \<and> ((\<forall>kv \<in> set hs. plain_field kv) \<longrightarrow> map reread_field hs = hs)"
proof -
  obtain n where w: "write_headers BufferStream hs new_BufferStream =
      (Some n, new_BufferStream\<lparr>bs_buffer := bs_buffer new_BufferStream @ header_section hs\<rparr>)"
    using write_headers_buffer unfolding write_headers_def by blast
  have "bs_pending (new_BufferStream\<lparr>bs_buffer := bs_buffer new_BufferStream @ header_section hs\<rparr>) =
      header_section hs @ []"
    by (simp add: bs_pending_def new_BufferStream_def)
  moreover have "map fst (map reread_field hs) = map fst hs" by (simp add: reread_field_def)
  ultimately show ?thesis
    using bs_in.read_headers_loop_visible [OF TrueI _ assms(1), of _ "[]" 0 "new_line_reader 2048" "[]"] assms(2) w
      map_reread_plain [of hs] unfolding read_headers_def by fastforce
qed

theorem headers_roundtrip_witness:
  "\<exists>n s s'. write_headers BufferStream [(''Host'', ''tv:30026''), (''X-A'', ''a%41'')] new_BufferStream = (Some n, s) \<and>
    read_headers BufferStream [] s = Some (True, [(''Host'', ''tv:30026''), (''X-A'', ''aA'')], s') \<and> bs_pending s' = []"
proof -
  let ?hs = "[(''Host'', ''tv:30026''), (''X-A'', ''a%41'')]"
  have "\<forall>kv \<in> set ?hs. visible_field kv"
    by (simp add: visible_field_def is_field_name_def is_token_def is_token_char_def is_field_value_def
        is_field_content_def is_field_vchar_def is_vchar_def isalnum_def isalpha_def isdigit_def byte_def
        field_line_def HEADER_MAX_LENGTH_def)
  moreover have "map reread_field ?hs = [(''Host'', ''tv:30026''), (''X-A'', ''aA'')]" by code_simp
  ultimately show ?thesis using headers_roundtrip [of ?hs] by (auto simp: HEADER_MAX_COUNT_def)
qed

end
