(* ===== verification/Http_Content.thy ===== *)
theory Http_Content
  imports Http_Headers
begin

text \<open>
  Message bodies of \<^verbatim>\<open>src/CPPTools/include/httplib.h\<close>: reading a body of known length, a body that
  ends with the connection and a chunked body with its trailers, and writing data, bodies from a
  content provider, and chunked bodies.

  A callback the code takes (\<open>ContentReceiver\<close>, \<open>DownloadProgress\<close>) is a function that threads a
  state of its own. \<^term>\<open>None\<close> is a call that never returns.  The compression libraries
  (\<open>CPPHTTPLIB_ZLIB_SUPPORT\<close> and its kin) are not part of the build, as in the program.
  \<open>size_t\<close> and \<open>unsigned long\<close> are 64 bits wide.
\<close>

section \<open>Reading\<close>

definition RECV_BUFSIZ :: nat where "RECV_BUFSIZ = 16384"

text \<open>A receiver gets the bytes, the offset and the total length; a progress callback the current and
  the total length. Both may stop the transfer.\<close>

type_synonym 'u receiver = "bytes \<Rightarrow> nat \<Rightarrow> nat \<Rightarrow> 'u \<Rightarrow> bool \<times> 'u"
type_synonym 'u progress = "nat \<Rightarrow> nat \<Rightarrow> 'u \<Rightarrow> bool \<times> 'u"

definition call_progress :: "'u progress option \<Rightarrow> nat \<Rightarrow> nat \<Rightarrow> 'u \<Rightarrow> bool \<times> 'u" where
  "call_progress progress r len u = (case progress of None \<Rightarrow> (True, u) | Some f \<Rightarrow> f r len u)"

function read_with_length_loop ::
  "'s Stream \<Rightarrow> nat \<Rightarrow> 'u progress option \<Rightarrow> 'u receiver \<Rightarrow> nat \<Rightarrow> 's \<Rightarrow> 'u \<Rightarrow> bool \<times> 's \<times> 'u" where
  "read_with_length_loop strm len progress out r s u =
     (if r < len then
        (case strm_read strm s (min (len - r) RECV_BUFSIZ) of
           (None, s) \<Rightarrow> (False, s, u)
         | (Some [], s) \<Rightarrow> (False, s, u)
         | (Some (c # cs), s) \<Rightarrow>
             (case out (c # cs) r len u of
                (False, u) \<Rightarrow> (False, s, u)
              | (True, u) \<Rightarrow>
                  (case call_progress progress (r + length (c # cs)) len u of
                     (False, u) \<Rightarrow> (False, s, u)
                   | (True, u) \<Rightarrow>
                       read_with_length_loop strm len progress out (r + length (c # cs)) s u)))
      else (True, s, u))"
  by pat_completeness auto
termination
  by (relation "measure (\<lambda>(strm, len, progress, out, r, s, u). len - r)") auto

declare read_with_length_loop.simps [simp del]

definition read_content_with_length ::
  "'s Stream \<Rightarrow> nat \<Rightarrow> 'u progress option \<Rightarrow> 'u receiver \<Rightarrow> 's \<Rightarrow> 'u \<Rightarrow> bool \<times> 's \<times> 'u" where
  "read_content_with_length strm len progress out s u = read_with_length_loop strm len progress out 0 s u"

function skip_with_length_loop :: "'s Stream \<Rightarrow> nat \<Rightarrow> nat \<Rightarrow> 's \<Rightarrow> 's" where
  "skip_with_length_loop strm len r s =
     (if r < len then
        (case strm_read strm s (min (len - r) RECV_BUFSIZ) of
           (None, s) \<Rightarrow> s
         | (Some [], s) \<Rightarrow> s
         | (Some (c # cs), s) \<Rightarrow> skip_with_length_loop strm len (r + length (c # cs)) s)
      else s)"
  by pat_completeness auto
termination
  by (relation "measure (\<lambda>(strm, len, r, s). len - r)") auto

declare skip_with_length_loop.simps [simp del]

definition skip_content_with_length :: "'s Stream \<Rightarrow> nat \<Rightarrow> 's \<Rightarrow> 's" where
  "skip_content_with_length strm len s = skip_with_length_loop strm len 0 s"

partial_function (option) read_without_length_loop ::
  "'s Stream \<Rightarrow> 'u receiver \<Rightarrow> nat \<Rightarrow> 's \<Rightarrow> 'u \<Rightarrow> (bool \<times> 's \<times> 'u) option" where
  "read_without_length_loop strm out r s u =
     (case strm_read strm s RECV_BUFSIZ of
        (None, s) \<Rightarrow> Some (False, s, u)
      | (Some bs, s) \<Rightarrow>
          if bs = [] then Some (True, s, u)
          else
            (case out bs r 0 u of (ok, u) \<Rightarrow>
               if \<not> ok then Some (False, s, u)
               else read_without_length_loop strm out (r + length bs) s u))"

definition read_content_without_length ::
  "'s Stream \<Rightarrow> 'u receiver \<Rightarrow> 's \<Rightarrow> 'u \<Rightarrow> (bool \<times> 's \<times> 'u) option" where
  "read_content_without_length strm out s u = read_without_length_loop strm out 0 s u"

subsection \<open>Chunks\<close>

definition ULONG_MAX :: nat where "ULONG_MAX = 2 ^ 64 - 1"

definition hex_value :: "string \<Rightarrow> nat" where
  "hex_value ds = foldl (\<lambda>a c. a * 16 + (case is_hex c of None \<Rightarrow> 0 | Some v \<Rightarrow> v)) 0 ds"

text \<open>\<open>std::strtoul(s, &end, 16)\<close>: the value, and whether anything was converted (\<open>end \<noteq> s\<close>).\<close>

definition strtoul_hex :: "string \<Rightarrow> nat \<times> bool" where
  "strtoul_hex s =
     (let s = dropWhile isspace s;
          neg = (take 1 s = ''-'');
          s = (if neg \<or> take 1 s = ''+'' then drop 1 s else s);
          hexdigit = (\<lambda>c. is_hex c \<noteq> None);
          s = (if (take 2 s = ''0x'' \<or> take 2 s = ''0X'') \<and> list_all hexdigit (take 1 (drop 2 s)) \<and> length s > 2
               then drop 2 s else s);
          ds = takeWhile hexdigit s;
          v = hex_value ds
      in if ds = [] then (0, False)
         else if v > ULONG_MAX then (ULONG_MAX, True)
         else if neg \<and> v > 0 then (2 ^ 64 - v, True)
         else (v, True))"

text \<open>The loop over the chunks: whether the last one (of length 0) was reached.\<close>

partial_function (option) read_chunks ::
  "'s Stream \<Rightarrow> 'u receiver \<Rightarrow> stream_line_reader \<Rightarrow> 's \<Rightarrow> 'u \<Rightarrow>
     (bool \<times> stream_line_reader \<times> 's \<times> 'u) option" where
  "read_chunks strm out r s u =
     (case strtoul_hex (c_str (lr_ptr r)) of (chunk_len, converted) \<Rightarrow>
        if \<not> converted then Some (False, r, s, u)
        else if chunk_len = ULONG_MAX then Some (False, r, s, u)
        else if chunk_len = 0 then Some (True, r, s, u)
        else
          (case read_content_with_length strm chunk_len None out s u of (ok, s, u) \<Rightarrow>
             if \<not> ok then Some (False, r, s, u)
             else
               (case getline strm r s of (ok, r, s) \<Rightarrow>
                  if \<not> ok then Some (False, r, s, u)
                  else if c_str (lr_ptr r) \<noteq> crlf then Some (False, r, s, u)
                  else
                    (case getline strm r s of (ok, r, s) \<Rightarrow>
                       if \<not> ok then Some (False, r, s, u)
                       else read_chunks strm out r s u))))"

function read_trailers ::
  "'s Stream \<Rightarrow> nat \<Rightarrow> stream_line_reader \<Rightarrow> Headers \<Rightarrow> 's \<Rightarrow> bool \<times> Headers \<times> 's" where
  "read_trailers strm trailer_header_count r hs s =
     (if c_str (lr_ptr r) = crlf then (True, hs, s)
      else if lr_size r > HEADER_MAX_LENGTH then (False, hs, s)
      else if trailer_header_count \<ge> HEADER_MAX_COUNT then (False, hs, s)
      else
        let hs = (case parse_header (take (lr_size r - 2) (lr_ptr r)) of
                    None \<Rightarrow> hs | Some (key, val) \<Rightarrow> headers_emplace key val hs)
        in (case getline strm r s of (ok, r, s) \<Rightarrow>
              if \<not> ok then (False, hs, s)
              else read_trailers strm (trailer_header_count + 1) r hs s))"
  by pat_completeness auto
termination
  by (relation "measure (\<lambda>(strm, n, r, hs, s). HEADER_MAX_COUNT - n)") auto

declare read_trailers.simps [simp del]

definition read_content_chunked ::
  "'s Stream \<Rightarrow> Headers \<Rightarrow> 'u receiver \<Rightarrow> 's \<Rightarrow> 'u \<Rightarrow> (bool \<times> Headers \<times> 's \<times> 'u) option" where
  "read_content_chunked strm hs out s u =
     (case getline strm (new_line_reader 16) s of (ok, r, s) \<Rightarrow>
        if \<not> ok then Some (False, hs, s, u)
        else do {
          (ok, r, s, u) \<leftarrow> read_chunks strm out r s u;
          if \<not> ok then Some (False, hs, s, u)
          else
            (case getline strm r s of (ok, r, s) \<Rightarrow>
               if \<not> ok then Some (True, hs, s, u)
               else (case read_trailers strm 0 r hs s of (ok, hs, s) \<Rightarrow> Some (ok, hs, s, u)))
        })"

subsection \<open>Choosing the transfer\<close>

fun contains :: "string \<Rightarrow> string \<Rightarrow> bool" where
  \<comment> \<open>\<open>s.find(t) != npos\<close>\<close>
  "contains t [] = (t = [])"
| "contains t (c # s) = (take (length t) (c # s) = t \<or> contains t s)"

text \<open>The encodings for which \<open>prepare_content_receiver\<close> needs a library that is not in the build.\<close>

definition encoding_unsupported :: "string \<Rightarrow> bool" where
  "encoding_unsupported encoding \<longleftrightarrow>
     encoding = ''gzip'' \<or> encoding = ''deflate'' \<or> contains ''br'' encoding \<or> encoding = ''zstd''"

definition prepare_content_receiver ::
  "Headers \<Rightarrow> int \<Rightarrow> bool \<Rightarrow> 'r \<Rightarrow> (int \<Rightarrow> (bool \<times> int \<times> 'r) option) \<Rightarrow> (bool \<times> int \<times> 'r) option" where
  "prepare_content_receiver hs status decompress unchanged callback =
     (if decompress \<and> encoding_unsupported (get_header_value hs ''Content-Encoding'' [] 0)
      then Some (False, UnsupportedMediaType_415, unchanged)
      else callback status)"

text \<open>The result: whether the body was read, \<open>status\<close>, the headers (with trailers), the stream and the
  receiver's state.\<close>

definition read_content ::
  "'s Stream \<Rightarrow> Headers \<Rightarrow> nat \<Rightarrow> int \<Rightarrow> 'u progress option \<Rightarrow> 'u receiver \<Rightarrow> bool \<Rightarrow> 's \<Rightarrow> 'u \<Rightarrow>
     (bool \<times> int \<times> Headers \<times> 's \<times> 'u) option" where
  "read_content strm hs payload_max_length status progress receiver decompress s u =
     prepare_content_receiver hs status decompress (hs, s, u) (\<lambda>status. do {
       (ret, exceed, hs, s, u) \<leftarrow>
         (if is_chunked_transfer_encoding hs then do {
            (ret, hs, s, u) \<leftarrow> read_content_chunked strm hs receiver s u;
            Some (ret, False, hs, s, u)
          }
          else if \<not> has_header hs ''Content-Length'' then do {
            (ret, s, u) \<leftarrow> read_content_without_length strm receiver s u;
            Some (ret, False, hs, s, u)
          }
          else
            (case get_header_value_u64 hs ''Content-Length'' UINT64_MAX 0 of (len, is_invalid_value) \<Rightarrow>
               if is_invalid_value then Some (False, False, hs, s, u)
               else if len > payload_max_length then
                 Some (False, True, hs, skip_content_with_length strm len s, u)
               else if len > 0 then
                 (case read_content_with_length strm len progress receiver s u of (ret, s, u) \<Rightarrow>
                    Some (ret, False, hs, s, u))
               else Some (True, False, hs, s, u)));
       Some (ret,
         (if ret then status else if exceed then PayloadTooLarge_413 else BadRequest_400),
         hs, s, u)
     })"

section \<open>Writing\<close>

partial_function (option) write_data :: "'s Stream \<Rightarrow> bytes \<Rightarrow> 's \<Rightarrow> (bool \<times> 's) option" where
  "write_data strm d s =
     (if d = [] then Some (True, s)
      else
        (case strm_write strm s d of
           (None, s) \<Rightarrow> Some (False, s)
         | (Some n, s) \<Rightarrow> write_data strm (drop n d) s))"

text \<open>Exceptions: calling a member of the sink that the writer has not set throws
  \<open>std::bad_function_call\<close>; \<open>std::stoi\<close> throws \<open>std::out_of_range\<close>; a constructor may refuse its
  argument, and that of \<open>std::regex\<close> an expression that is not valid.\<close>

datatype exn = Bad_function_call | Out_of_range | Invalid_argument | Regex_error

text \<open>A content provider talks to the \<open>DataSink\<close> it is given: it may write, ask whether the stream is
  writable, and say that it is done (with or without trailers), and acts on the answers; in the end
  it returns a Boolean or throws. All callbacks of a transfer share the state \<open>'u\<close> of the application; a write
  hands it over, because it may call the upload progress callback.\<close>

datatype 'u Provider =
    Return bool 'u
  | SinkWrite bytes 'u "bool \<Rightarrow> 'u \<Rightarrow> 'u Provider"
  | SinkIsWritable "bool \<Rightarrow> 'u Provider"
  | SinkDone "'u Provider"
  | SinkDoneWithTrailer Headers "'u Provider"
  | Throw exn

text \<open>\<open>content_provider(offset, length, sink)\<close>.\<close>

type_synonym 'u provider = "nat \<Rightarrow> nat \<Rightarrow> 'u \<Rightarrow> 'u Provider"

text \<open>The captured variables of the sink and the stream.\<close>

record 's sink_state =
  sk_ok :: bool
  sk_offset :: nat
  sk_data_available :: bool
  sk_strm :: 's

definition new_sink :: "nat \<Rightarrow> 's \<Rightarrow> 's sink_state" where
  "new_sink offset s = \<lparr>sk_ok = True, sk_offset = offset, sk_data_available = True, sk_strm = s\<rparr>"

primrec run_sink_progress ::
  "'s Stream \<Rightarrow> 'u progress option \<Rightarrow> nat \<Rightarrow> nat \<Rightarrow> 'u Provider \<Rightarrow> 's sink_state \<Rightarrow>
     (exn + bool \<times> 'u \<times> 's sink_state) option" where
  "run_sink_progress strm up start len (Return b u) st = Some (Inr (b, u, st))"
| "run_sink_progress strm up start len (SinkWrite d u k) st =
     (if sk_ok st then do {
        (wok, s) \<leftarrow> write_data strm d (sk_strm st);
        (if wok then
           let st = st\<lparr>sk_strm := s, sk_offset := sk_offset st + length d\<rparr> in
           (if len > 0 then
              (case call_progress up (sk_offset st - start) len u of (go, u) \<Rightarrow>
                 run_sink_progress strm up start len (k go u) (st\<lparr>sk_ok := go\<rparr>))
            else run_sink_progress strm up start len (k True u) st)
         else run_sink_progress strm up start len (k False u) (st\<lparr>sk_strm := s, sk_ok := False\<rparr>))
      }
      else run_sink_progress strm up start len (k False u) st)"
| "run_sink_progress strm up start len (SinkIsWritable k) st =
     (case strm_wait_writable strm (sk_strm st) of (b, s) \<Rightarrow>
        run_sink_progress strm up start len (k b) (st\<lparr>sk_strm := s\<rparr>))"
| "run_sink_progress strm up start len (SinkDone k) st = Some (Inl Bad_function_call)"
| "run_sink_progress strm up start len (SinkDoneWithTrailer hs k) st = Some (Inl Bad_function_call)"
| "run_sink_progress strm up start len (Throw e) st = Some (Inl e)"

partial_function (option) write_content_loop ::
  "'s Stream \<Rightarrow> 'u provider \<Rightarrow> nat \<Rightarrow> nat \<Rightarrow> ('u \<Rightarrow> bool \<times> 'u) \<Rightarrow> 'u progress option \<Rightarrow> 'u \<Rightarrow> 's sink_state \<Rightarrow>
     (exn + bool \<times> Error \<times> 'u \<times> 's sink_state) option" where
  "write_content_loop strm content_provider start len is_shutting_down up u st =
     (if \<not> sk_offset st < start + len then Some (Inr (True, Success, u, st))
      else
        (case is_shutting_down u of (down, u) \<Rightarrow>
           if down then Some (Inr (True, Success, u, st))
           else
             (case strm_wait_writable strm (sk_strm st) of (b, s) \<Rightarrow>
                let st = st\<lparr>sk_strm := s\<rparr> in
                if \<not> b then Some (Inr (False, Write, u, st))
                else do {
                  r \<leftarrow> run_sink_progress strm up start len
                        (content_provider (sk_offset st) (start + len - sk_offset st) u) st;
                  (case r of
                     Inl e \<Rightarrow> Some (Inl e)
                   | Inr (b, u, st) \<Rightarrow>
                       if \<not> b then Some (Inr (False, Canceled, u, st))
                       else if \<not> sk_ok st then Some (Inr (False, Write, u, st))
                       else write_content_loop strm content_provider start len is_shutting_down up u st)
                })))"

definition write_content_with_progress ::
  "'s Stream \<Rightarrow> 'u provider \<Rightarrow> nat \<Rightarrow> nat \<Rightarrow> ('u \<Rightarrow> bool \<times> 'u) \<Rightarrow> 'u progress option \<Rightarrow> 's \<Rightarrow> 'u \<Rightarrow>
     (exn + bool \<times> Error \<times> 'u \<times> 's sink_state) option" where
  "write_content_with_progress strm content_provider offset len is_shutting_down up s u =
     write_content_loop strm content_provider offset len is_shutting_down up u (new_sink offset s)"

definition write_content ::
  "'s Stream \<Rightarrow> 'u provider \<Rightarrow> nat \<Rightarrow> nat \<Rightarrow> ('u \<Rightarrow> bool \<times> 'u) \<Rightarrow> 's \<Rightarrow> 'u \<Rightarrow>
     (exn + bool \<times> Error \<times> 'u \<times> 's sink_state) option" where
  "write_content strm content_provider offset len is_shutting_down s u =
     write_content_with_progress strm content_provider offset len is_shutting_down None s u"

subsection \<open>Without a length\<close>

primrec run_sink_plain ::
  "'s Stream \<Rightarrow> 'u Provider \<Rightarrow> 's sink_state \<Rightarrow> (exn + bool \<times> 'u \<times> 's sink_state) option" where
  "run_sink_plain strm (Return b u) st = Some (Inr (b, u, st))"
| "run_sink_plain strm (SinkWrite d u k) st =
     (if sk_ok st then do {
        (wok, s) \<leftarrow> write_data strm d (sk_strm st);
        run_sink_plain strm (k wok u) (st\<lparr>sk_strm := s, sk_offset := sk_offset st + length d, sk_ok := wok\<rparr>)
      }
      else run_sink_plain strm (k False u) st)"
| "run_sink_plain strm (SinkIsWritable k) st =
     (case strm_wait_writable strm (sk_strm st) of (b, s) \<Rightarrow> run_sink_plain strm (k b) (st\<lparr>sk_strm := s\<rparr>))"
| "run_sink_plain strm (SinkDone k) st = run_sink_plain strm k (st\<lparr>sk_data_available := False\<rparr>)"
| "run_sink_plain strm (SinkDoneWithTrailer hs k) st = Some (Inl Bad_function_call)"
| "run_sink_plain strm (Throw e) st = Some (Inl e)"

text \<open>The loop that drives a provider until it says it is done; the three outcomes besides success are
  told apart by the chunked writer only. \<open>run\<close> runs the provider against the writer's sink.\<close>

partial_function (option) provider_loop ::
  "'s Stream \<Rightarrow> ('u Provider \<Rightarrow> 's sink_state \<Rightarrow> (exn + bool \<times> 'u \<times> 's sink_state) option) \<Rightarrow>
     'u provider \<Rightarrow> ('u \<Rightarrow> bool \<times> 'u) \<Rightarrow> 'u \<Rightarrow> 's sink_state \<Rightarrow>
     (exn + bool \<times> Error \<times> 'u \<times> 's sink_state) option" where
  "provider_loop strm run content_provider is_shutting_down u st =
     (if \<not> sk_data_available st then Some (Inr (True, Success, u, st))
      else
        (case is_shutting_down u of (down, u) \<Rightarrow>
           if down then Some (Inr (True, Success, u, st))
           else
             (case strm_wait_writable strm (sk_strm st) of (b, s) \<Rightarrow>
                let st = st\<lparr>sk_strm := s\<rparr> in
                if \<not> b then Some (Inr (False, Write, u, st))
                else do {
                  r \<leftarrow> run (content_provider (sk_offset st) 0 u) st;
                  (case r of
                     Inl e \<Rightarrow> Some (Inl e)
                   | Inr (b, u, st) \<Rightarrow>
                       if \<not> b then Some (Inr (False, Canceled, u, st))
                       else if \<not> sk_ok st then Some (Inr (False, Write, u, st))
                       else provider_loop strm run content_provider is_shutting_down u st)
                })))"

definition write_content_without_length ::
  "'s Stream \<Rightarrow> 'u provider \<Rightarrow> ('u \<Rightarrow> bool \<times> 'u) \<Rightarrow> 's \<Rightarrow> 'u \<Rightarrow>
     (exn + bool \<times> Error \<times> 'u \<times> 's sink_state) option" where
  "write_content_without_length strm content_provider is_shutting_down s u =
     provider_loop strm (run_sink_plain strm) content_provider is_shutting_down u (new_sink 0 s)"

subsection \<open>Chunked\<close>

text \<open>\<open>nocompressor\<close>, the only compressor of the build: what it hands to its callback.\<close>

definition nocompressor_compress :: "bytes \<Rightarrow> bool \<Rightarrow> bytes option" where
  "nocompressor_compress data is_last = Some data"

definition chunk_of :: "bytes \<Rightarrow> bytes" where
  "chunk_of payload = from_i_to_hex (length payload) @ crlf @ payload @ crlf"

text \<open>The trailer fields; a failed write clears \<open>ok\<close> but the loop goes on.\<close>

primrec write_trailer :: "'s Stream \<Rightarrow> Headers \<Rightarrow> bool \<Rightarrow> 's \<Rightarrow> (bool \<times> 's) option" where
  "write_trailer strm [] ok s = Some (ok, s)"
| "write_trailer strm (kv # trailer) ok s = do {
     (wok, s) \<leftarrow> write_data strm (field_line kv) s;
     write_trailer strm trailer (ok \<and> wok) s
   }"

definition done_with_trailer :: "'s Stream \<Rightarrow> Headers \<Rightarrow> 's sink_state \<Rightarrow> 's sink_state option" where
  "done_with_trailer strm trailer st =
     (if \<not> sk_ok st then Some st
      else
        let st = st\<lparr>sk_data_available := False\<rparr> in
        (case nocompressor_compress [] True of
           None \<Rightarrow> Some (st\<lparr>sk_ok := False\<rparr>)
         | Some payload \<Rightarrow> do {
             (wok, s) \<leftarrow> (if payload \<noteq> [] then write_data strm (chunk_of payload) (sk_strm st)
                         else Some (True, sk_strm st));
             (if \<not> wok then Some (st\<lparr>sk_strm := s, sk_ok := False\<rparr>)
              else do {
                (ok1, s) \<leftarrow> write_data strm (''0'' @ crlf) s;
                (ok2, s) \<leftarrow> write_trailer strm trailer ok1 s;
                (ok3, s) \<leftarrow> write_data strm crlf s;
                Some (st\<lparr>sk_strm := s, sk_ok := ok2 \<and> ok3\<rparr>)
              })
           }))"

primrec run_sink_chunked ::
  "'s Stream \<Rightarrow> 'u Provider \<Rightarrow> 's sink_state \<Rightarrow> (exn + bool \<times> 'u \<times> 's sink_state) option" where
  "run_sink_chunked strm (Return b u) st = Some (Inr (b, u, st))"
| "run_sink_chunked strm (SinkWrite d u k) st =
     (if sk_ok st then
        let st = st\<lparr>sk_data_available := length d > 0, sk_offset := sk_offset st + length d\<rparr> in
        (case nocompressor_compress d False of
           None \<Rightarrow> run_sink_chunked strm (k False u) (st\<lparr>sk_ok := False\<rparr>)
         | Some payload \<Rightarrow> do {
             (wok, s) \<leftarrow> (if payload \<noteq> [] then write_data strm (chunk_of payload) (sk_strm st)
                         else Some (True, sk_strm st));
             run_sink_chunked strm (k wok u) (st\<lparr>sk_strm := s, sk_ok := wok\<rparr>)
           })
      else run_sink_chunked strm (k False u) st)"
| "run_sink_chunked strm (SinkIsWritable k) st =
     (case strm_wait_writable strm (sk_strm st) of (b, s) \<Rightarrow> run_sink_chunked strm (k b) (st\<lparr>sk_strm := s\<rparr>))"
| "run_sink_chunked strm (SinkDone k) st = do {
     st \<leftarrow> done_with_trailer strm [] st;
     run_sink_chunked strm k st
   }"
| "run_sink_chunked strm (SinkDoneWithTrailer hs k) st = do {
     st \<leftarrow> done_with_trailer strm hs st;
     run_sink_chunked strm k st
   }"
| "run_sink_chunked strm (Throw e) st = Some (Inl e)"

definition write_content_chunked ::
  "'s Stream \<Rightarrow> 'u provider \<Rightarrow> ('u \<Rightarrow> bool \<times> 'u) \<Rightarrow> 's \<Rightarrow> 'u \<Rightarrow>
     (exn + bool \<times> Error \<times> 'u \<times> 's sink_state) option" where
  "write_content_chunked strm content_provider is_shutting_down s u =
     provider_loop strm (run_sink_chunked strm) content_provider is_shutting_down u (new_sink 0 s)"

section \<open>Facts about writing\<close>

context writable_stream
begin

lemma write_data_good:
  "good s \<Longrightarrow> \<exists>s'. write_data strm d s = Some (True, s') \<and> good s' \<and> written s' = written s @ d"
proof (induction "length d" arbitrary: d s rule: less_induct)
  case less
  show ?case
  proof (cases "d = []")
    case True
    then show ?thesis using less.prems by (subst write_data.simps) simp
  next
    case False
    obtain r s1 where w: "strm_write strm s d = (r, s1)" by force
    from write_good [OF less.prems False w] obtain n where
      n: "r = Some n" "0 < n" "n \<le> length d" "good s1" "written s1 = written s @ take n d" by blast
    have "length (drop n d) < length d" using n(2) False by simp
    from less.hyps [OF this n(4)] obtain s' where
      "write_data strm (drop n d) s1 = Some (True, s')" "good s'" "written s' = written s1 @ drop n d" by blast
    moreover have "write_data strm d s = write_data strm (drop n d) s1"
      using False w n(1) by (subst write_data.simps) simp
    ultimately show ?thesis using n(5) by simp
  qed
qed

end

section \<open>Facts about reading\<close>

text \<open>A receiver that takes everything it is given and only depends on the bytes, not on how they are
  cut into portions: \<open>absorb\<close> is what it does to its state.\<close>

locale content_sink =
  fixes out :: "'u receiver" and absorb :: "'u \<Rightarrow> bytes \<Rightarrow> 'u"
  assumes out_absorbs: "out bs off len u = (True, absorb u bs)"
    and absorb_append: "absorb (absorb u a) b = absorb u (a @ b)"
    and absorb_empty: "absorb u [] = u"

text \<open>A progress callback, or none, that lets the transfer go on and changes nothing.\<close>

definition quiet :: "'u progress option \<Rightarrow> bool" where
  "quiet progress \<longleftrightarrow> (\<forall>r len u. call_progress progress r len u = (True, u))"

lemma quiet_None [simp]: "quiet None"
  by (simp add: quiet_def call_progress_def)

locale body_reader = readable_stream strm good pending + content_sink out absorb
  for strm :: "'s Stream" and good pending and out :: "'u receiver" and absorb
begin

lemma read_with_length_portion:
  assumes "good s" "r < len" "quiet progress"
  shows "\<exists>bs s1. good s1 \<and> pending s = bs @ pending s1 \<and> length bs \<le> len - r \<and> (bs = [] \<longrightarrow> pending s = []) \<and>
    read_with_length_loop strm len progress out r s u =
      (if bs = [] then (False, s1, u) else read_with_length_loop strm len progress out (r + length bs) s1 (absorb u bs))"
proof -
  let ?n = "min (len - r) RECV_BUFSIZ"
  have n: "0 < ?n" using assms(2) by (simp add: RECV_BUFSIZ_def)
  obtain rr s1 where rd: "strm_read strm s ?n = (rr, s1)" by force
  from read_good [OF assms(1) n rd] obtain bs where
    bs: "rr = Some bs" "good s1" "pending s = bs @ pending s1" "length bs \<le> ?n" "bs = [] \<longrightarrow> pending s = []" by blast
  have "read_with_length_loop strm len progress out r s u =
      (if bs = [] then (False, s1, u) else read_with_length_loop strm len progress out (r + length bs) s1 (absorb u bs))"
    using rd bs(1) assms(2,3)
    by (subst read_with_length_loop.simps) (cases bs; simp add: out_absorbs quiet_def)
  then show ?thesis using bs by (intro exI [of _ bs] exI [of _ s1]) simp
qed

text \<open>A body of known length that arrives whole is delivered whole, and nothing after it is touched; one
  that is cut short makes the read fail, after delivering what there was.\<close>

lemma read_with_length_all:
  "\<lbrakk>good s; pending s = d @ rest; length d = len - r; r \<le> len; quiet progress\<rbrakk> \<Longrightarrow>
     \<exists>s'. read_with_length_loop strm len progress out r s u = (True, s', absorb u d) \<and> good s' \<and> pending s' = rest"
proof (induction "len - r" arbitrary: r s u d rule: less_induct)
  case less
  show ?case
  proof (cases "r < len")
    case False
    with less.prems show ?thesis
      by (subst read_with_length_loop.simps) (simp add: absorb_empty)
  next
    case True
    from read_with_length_portion [OF \<open>good s\<close> True \<open>quiet progress\<close>, of u] obtain bs s1 where
      p: "good s1" "pending s = bs @ pending s1" "length bs \<le> len - r" "bs = [] \<longrightarrow> pending s = []"
      "read_with_length_loop strm len progress out r s u =
        (if bs = [] then (False, s1, u) else read_with_length_loop strm len progress out (r + length bs) s1 (absorb u bs))"
      by blast
    have ne: "bs \<noteq> []" using p(4) less.prems(2,3) True by auto
    obtain d' where d': "d = bs @ d'" "pending s1 = d' @ rest"
      using p(2,3) less.prems(2,3) by (metis append_eq_append_conv_if append_take_drop_id append_assoc same_append_eq)
    have "len - (r + length bs) < len - r" using ne True by (cases bs) auto
    from less.hyps [OF this p(1) d'(2), of "absorb u bs"] less.prems(3,5) d'(1) p(3) True
    show ?thesis using ne p(5) by (auto simp: absorb_append)
  qed
qed

lemma read_with_length_short:
  "\<lbrakk>good s; length (pending s) < len - r; quiet progress\<rbrakk> \<Longrightarrow>
     \<exists>s'. read_with_length_loop strm len progress out r s u = (False, s', absorb u (pending s)) \<and> good s' \<and> pending s' = []"
proof (induction "len - r" arbitrary: r s u rule: less_induct)
  case less
  then have True: "r < len" by simp
  from read_with_length_portion [OF \<open>good s\<close> True \<open>quiet progress\<close>, of u] obtain bs s1 where
    p: "good s1" "pending s = bs @ pending s1" "length bs \<le> len - r" "bs = [] \<longrightarrow> pending s = []"
    "read_with_length_loop strm len progress out r s u =
      (if bs = [] then (False, s1, u) else read_with_length_loop strm len progress out (r + length bs) s1 (absorb u bs))"
    by blast
  show ?case
  proof (cases "bs = []")
    case e: True
    with p have "pending s = []" "pending s1 = []" by auto
    then show ?thesis using p e by (auto simp: absorb_empty)
  next
    case False
    have "len - (r + length bs) < len - r" using False True by (cases bs) auto
    from less.hyps [OF this p(1), of "absorb u bs"] less.prems(2,3)
    show ?thesis using False p(5) unfolding p(2) by (auto simp: absorb_append)
  qed
qed

lemma read_without_length_all:
  "good s \<Longrightarrow> \<exists>s'. read_without_length_loop strm out r s u = Some (True, s', absorb u (pending s)) \<and>
     good s' \<and> pending s' = []"
proof (induction "length (pending s)" arbitrary: r s u rule: less_induct)
  case less
  have n: "0 < RECV_BUFSIZ" by (simp add: RECV_BUFSIZ_def)
  obtain rr s1 where rd: "strm_read strm s RECV_BUFSIZ = (rr, s1)" by force
  from read_good [OF less.prems n rd] obtain bs where
    bs: "rr = Some bs" "good s1" "pending s = bs @ pending s1" "bs = [] \<longrightarrow> pending s = []" by blast
  show ?case
  proof (cases "bs = []")
    case True
    then have "pending s = []" "pending s1 = []" using bs by auto
    then show ?thesis
      using rd bs(1,2) True by (subst read_without_length_loop.simps) (simp add: absorb_empty)
  next
    case False
    then have "length (pending s1) < length (pending s)" unfolding bs(3) by simp
    from less.hyps [OF this bs(2), of "r + length bs" "absorb u bs"] obtain s' where
      "read_without_length_loop strm out (r + length bs) s1 (absorb u bs) =
        Some (True, s', absorb (absorb u bs) (pending s1))" "good s'" "pending s' = []" by blast
    moreover have "read_without_length_loop strm out r s u =
        read_without_length_loop strm out (r + length bs) s1 (absorb u bs)"
      using rd bs(1) False by (subst read_without_length_loop.simps) (simp add: out_absorbs)
    ultimately show ?thesis unfolding bs(3) by (simp add: absorb_append)
  qed
qed

end

subsection \<open>Chunk sizes\<close>

lemma hex_charset_facts:
  "n < 16 \<Longrightarrow> is_hex (hex_charset ! n) = Some n \<and> \<not> isspace (hex_charset ! n) \<and>
     hex_charset ! n \<notin> {NUL, CR, LF, CHR ''-'', CHR ''+'', CHR ''x'', CHR ''X''}"
proof -
  have "list_all (\<lambda>n. is_hex (hex_charset ! n) = Some n \<and> \<not> isspace (hex_charset ! n) \<and>
     hex_charset ! n \<notin> {NUL, CR, LF, CHR ''-'', CHR ''+'', CHR ''x'', CHR ''X''}) [0..<16]"
    by code_simp
  then show "n < 16 \<Longrightarrow> ?thesis" by (simp add: list_all_iff)
qed

definition size_digit :: "char \<Rightarrow> bool" where
  "size_digit c \<longleftrightarrow> is_hex c \<noteq> None \<and> \<not> isspace c \<and> c \<notin> {NUL, CR, LF, CHR ''-'', CHR ''+'', CHR ''x'', CHR ''X''}"

lemma hex_value_append: "hex_value (s @ [c]) = hex_value s * 16 + (case is_hex c of None \<Rightarrow> 0 | Some v \<Rightarrow> v)"
  by (simp add: hex_value_def)

lemma from_i_to_hex_facts: "hex_value (from_i_to_hex n) = n \<and> list_all size_digit (from_i_to_hex n)"
proof (induction n rule: less_induct)
  case (less n)
  show ?case
  proof (cases "n < 16")
    case True
    then show ?thesis
      using hex_charset_facts [of n] by (simp add: from_i_to_hex_step [of n] hex_value_def size_digit_def)
  next
    case False
    then have "n div 16 < n" by simp
    from less.IH [OF this] show ?thesis
      using False hex_charset_facts [of "n mod 16"]
      by (simp add: from_i_to_hex_step [of n] hex_value_append size_digit_def)
  qed
qed

lemma from_i_to_hex_length: "n < 16 ^ k \<Longrightarrow> 0 < k \<Longrightarrow> length (from_i_to_hex n) \<le> k"
proof (induction k arbitrary: n)
  case (Suc k)
  show ?case
  proof (cases "n < 16")
    case True
    then show ?thesis by (simp add: from_i_to_hex_step [of n])
  next
    case False
    then have "0 < k" using Suc.prems by (cases k) auto
    moreover have "n div 16 < 16 ^ k" using Suc.prems(1) by (simp add: less_mult_imp_div_less mult.commute)
    ultimately have "length (from_i_to_hex (n div 16)) \<le> k" using Suc.IH by blast
    then show ?thesis using False by (simp add: from_i_to_hex_step [of n])
  qed
qed simp

lemma strtoul_hex_size:
  assumes "n \<le> ULONG_MAX"
  shows "strtoul_hex (c_str (from_i_to_hex n @ crlf)) = (n, True)"
proof -
  let ?h = "from_i_to_hex n" and ?hexdigit = "\<lambda>c. is_hex c \<noteq> None"
  have f: "\<forall>c \<in> set ?h. size_digit c" "hex_value ?h = n" using from_i_to_hex_facts [of n] by (auto simp: list_all_iff)
  obtain c t where ct: "?h = c # t" by (cases ?h) auto
  have c: "size_digit c" using f ct by simp
  have nn: "c_str (?h @ crlf) = ?h @ crlf"
  proof (rule c_str_id)
    show "NUL \<notin> set (?h @ crlf)" using f(1) by (auto simp: size_digit_def)
  qed
  have cr: "is_hex CR = None" by (simp add: is_hex_def isdigit_def byte_def)
  have tw: "takeWhile ?hexdigit (?h @ CR # [LF]) = ?h"
    using f(1) cr by (intro takeWhile_append_stop) (auto simp: size_digit_def)
  have sp: "dropWhile isspace (?h @ crlf) = ?h @ crlf" using c by (simp add: ct size_digit_def)
  have sign: "take 1 (?h @ crlf) \<noteq> ''-''" "take 1 (?h @ crlf) \<noteq> ''+''" using c by (auto simp: ct size_digit_def)
  have "take 2 (?h @ crlf) = [c, hd (t @ crlf)]" by (cases t) (simp_all add: ct)
  moreover have "hd (t @ crlf) \<notin> {CHR ''x'', CHR ''X''}"
    using f(1) by (cases t) (auto simp: ct size_digit_def)
  ultimately have pre: "\<not> (take 2 (?h @ crlf) = ''0x'' \<or> take 2 (?h @ crlf) = ''0X'')" by auto
  show ?thesis
    using assms f(2) tw sp sign pre unfolding strtoul_hex_def nn Let_def by simp
qed

lemma chunk_of_line:
  assumes "length payload \<le> ULONG_MAX"
  shows "LF \<notin> set (from_i_to_hex (length payload))" "length (from_i_to_hex (length payload)) + 2 \<le> MAX_LINE_LENGTH"
proof -
  show "LF \<notin> set (from_i_to_hex (length payload))"
    using from_i_to_hex_facts [of "length payload"] by (auto simp: list_all_iff size_digit_def)
  have "length payload < 16 ^ 16" using assms by (simp add: ULONG_MAX_def)
  from from_i_to_hex_length [OF this]
  show "length (from_i_to_hex (length payload)) + 2 \<le> MAX_LINE_LENGTH" by (simp add: MAX_LINE_LENGTH_def)
qed

definition chunked_body :: "bytes list \<Rightarrow> Headers \<Rightarrow> bytes" where
  "chunked_body ps trailer = concat (map chunk_of ps) @ ''0'' @ crlf @ header_section trailer"

context body_reader
begin

lemma read_chunks_body:
  assumes "good s" "lr_ptr r @ pending s = concat (map chunk_of ps) @ ''0'' @ crlf @ rest"
    "lr_ptr r = (case ps of [] \<Rightarrow> ''0'' | p # _ \<Rightarrow> from_i_to_hex (length p)) @ crlf"
    "\<forall>p \<in> set ps. p \<noteq> [] \<and> length p < ULONG_MAX"
  shows "\<exists>r' s'. read_chunks strm out r s u = Some (True, r', s', absorb u (concat ps)) \<and> good s' \<and> pending s' = rest"
  using assms
proof (induction ps arbitrary: r s u)
  case Nil
  have "from_i_to_hex 0 = ''0''" by (simp add: from_i_to_hex_step [of 0] hex_charset_def)
  then have "strtoul_hex (c_str (lr_ptr r)) = (0, True)" using Nil strtoul_hex_size [of 0] by simp
  then have "read_chunks strm out r s u = Some (True, r, s, u)"
    by (subst read_chunks.simps) (simp add: ULONG_MAX_def)
  then show ?case using Nil by (auto simp: absorb_empty)
next
  case (Cons p ps)
  define nxt where "nxt = (case ps of [] \<Rightarrow> ''0'' | p # _ \<Rightarrow> from_i_to_hex (length p))"
  have p: "p \<noteq> []" "length p < ULONG_MAX" using Cons.prems(4) by auto
  have len: "strtoul_hex (c_str (lr_ptr r)) = (length p, True)"
    using strtoul_hex_size [of "length p"] p Cons.prems(3) by simp
  define rest' where "rest' = concat (map chunk_of ps) @ ''0'' @ crlf @ rest"
  have pend: "pending s = p @ crlf @ rest'"
    using Cons.prems(2,3) by (simp add: chunk_of_def [of p] rest'_def)
  from read_with_length_all [OF \<open>good s\<close> pend, of "length p" 0 None u] obtain s1 where
    s1: "read_content_with_length strm (length p) None out s u = (True, s1, absorb u p)" "good s1" "pending s1 = [] @ crlf @ rest'"
    by (auto simp: read_content_with_length_def)
  from getline_text [OF s1(2,3), of r] obtain r1 s2 where
    s2: "getline strm r s1 = (True, r1, s2)" "good s2" "lr_ptr r1 = crlf" "pending s2 = rest'"
    by (auto simp: MAX_LINE_LENGTH_def)
  obtain tl where tl: "rest' = nxt @ crlf @ tl"
    by (cases ps) (auto simp: rest'_def nxt_def chunk_of_def)
  have nl: "LF \<notin> set nxt" "length nxt + 2 \<le> MAX_LINE_LENGTH"
    using chunk_of_line [of "hd ps"] Cons.prems(4) by (auto simp: nxt_def MAX_LINE_LENGTH_def split: list.splits)
  from getline_text [OF s2(2) _ nl, of tl r1] obtain r2 s3 where
    s3: "getline strm r1 s2 = (True, r2, s3)" "good s3" "lr_ptr r2 = nxt @ crlf" "pending s3 = tl"
    using s2(4) tl by auto
  have "read_chunks strm out r s u = read_chunks strm out r2 s3 (absorb u p)"
    using len p s1(1) s2(1,3) s3(1) by (subst read_chunks.simps) simp
  moreover have "lr_ptr r2 @ pending s3 = concat (map chunk_of ps) @ ''0'' @ crlf @ rest"
    using s3(3,4) tl by (simp add: rest'_def)
  ultimately show ?case
    using Cons.IH [OF s3(2), of r2 "absorb u p"] s3(3) Cons.prems(4) by (simp add: nxt_def absorb_append)
qed

lemma read_trailers_section:
  assumes "good s" "lr_ptr r @ pending s = header_section ts @ rest"
    "lr_ptr r = (case ts of [] \<Rightarrow> crlf | kv # _ \<Rightarrow> field_line kv)"
    "\<forall>kv \<in> set ts. plain_field kv" "n + length ts \<le> HEADER_MAX_COUNT"
  shows "\<exists>s'. read_trailers strm n r hs s = (True, hs @ ts, s') \<and> good s' \<and> pending s' = rest"
  using assms
proof (induction ts arbitrary: r s n hs)
  case Nil
  then show ?case by (subst read_trailers.simps) simp
next
  case (Cons kv ts)
  have kv: "plain_field kv" using Cons.prems(4) by simp
  define t where "t = fst kv @ '': '' @ snd kv"
  have fl: "lr_ptr r = t @ crlf" using Cons.prems(3) by (simp add: t_def field_line_def)
  have notblank: "c_str (lr_ptr r) \<noteq> crlf"
  proof -
    have "hd t \<noteq> CR \<and> t \<noteq> []"
      using kv is_token_char_facts [of "hd (fst kv)"]
      by (cases "fst kv") (auto simp: t_def plain_field_def is_field_name_def is_token_def)
    then show ?thesis by (cases t) (auto simp: fl c_str_def)
  qed
  have lim: "\<not> lr_size r > HEADER_MAX_LENGTH" "\<not> n \<ge> HEADER_MAX_COUNT"
    using plain_field_line(3) [OF kv] Cons.prems(5) by (simp_all add: lr_size_ptr fl t_def)
  have ph: "parse_header (take (lr_size r - 2) (lr_ptr r)) = Some (fst kv, snd kv)"
    using parse_header_plain [of "fst kv" "snd kv"] kv by (simp add: lr_size_ptr fl t_def)
  have pend: "pending s = header_section ts @ rest" using Cons.prems(2,3) by simp
  define nxt where "nxt = (case ts of [] \<Rightarrow> [] | kv # _ \<Rightarrow> fst kv @ '': '' @ snd kv)"
  obtain tl where tl: "header_section ts @ rest = nxt @ crlf @ tl"
    by (cases ts) (auto simp: nxt_def field_line_def)
  have nl: "LF \<notin> set nxt" "length nxt + 2 \<le> MAX_LINE_LENGTH"
    using plain_field_line [of "hd ts"] Cons.prems(4)
    by (auto simp: nxt_def MAX_LINE_LENGTH_def HEADER_MAX_LENGTH_def split: list.splits)
  from getline_text [OF \<open>good s\<close> _ nl, of tl r] obtain r1 s1 where
    g: "getline strm r s = (True, r1, s1)" "good s1" "lr_ptr r1 = nxt @ crlf" "pending s1 = tl"
    using pend tl by auto
  have step: "read_trailers strm n r hs s = read_trailers strm (n + 1) r1 (hs @ [kv]) s1"
    using notblank lim ph g(1) by (subst read_trailers.simps) (simp add: headers_emplace_def)
  have "lr_ptr r1 = (case ts of [] \<Rightarrow> crlf | kv # _ \<Rightarrow> field_line kv)"
    using g(3) by (auto simp: nxt_def field_line_def split: list.splits)
  with Cons.IH [OF g(2), of r1 "n + 1" "hs @ [kv]"] show ?case
    using step g(3,4) tl Cons.prems(4,5) by simp
qed

text \<open>The chunk reader inverts the chunk writer: the payloads are delivered in order, the trailers are
  added to the headers, and the stream is left right after the body.\<close>

lemma read_content_chunked_body:
  assumes "good s" "pending s = chunked_body ps ts @ rest" "\<forall>p \<in> set ps. p \<noteq> [] \<and> length p < ULONG_MAX"
    "\<forall>kv \<in> set ts. plain_field kv" "length ts \<le> HEADER_MAX_COUNT"
  shows "\<exists>s'. read_content_chunked strm hs out s u = Some (True, hs @ ts, s', absorb u (concat ps)) \<and>
    good s' \<and> pending s' = rest"
proof -
  define nxt where "nxt = (case ps of [] \<Rightarrow> ''0'' | p # _ \<Rightarrow> from_i_to_hex (length p))"
  define rest' where "rest' = header_section ts @ rest"
  obtain tl where tl: "pending s = nxt @ crlf @ tl"
    using assms(2) by (cases ps) (auto simp: nxt_def chunk_of_def chunked_body_def)
  have nl: "LF \<notin> set nxt" "length nxt + 2 \<le> MAX_LINE_LENGTH"
    using chunk_of_line [of "hd ps"] assms(3) by (auto simp: nxt_def MAX_LINE_LENGTH_def split: list.splits)
  from getline_text [OF assms(1) tl nl, of "new_line_reader 16"] obtain r1 s1 where
    s1: "getline strm (new_line_reader 16) s = (True, r1, s1)" "good s1" "lr_ptr r1 = nxt @ crlf" "pending s1 = tl" by auto
  have "lr_ptr r1 @ pending s1 = concat (map chunk_of ps) @ ''0'' @ crlf @ rest'"
    using s1(3,4) tl assms(2) by (simp add: rest'_def chunked_body_def)
  from read_chunks_body [OF s1(2) this _ assms(3), of u] s1(3) obtain r2 s2 where
    s2: "read_chunks strm out r1 s1 u = Some (True, r2, s2, absorb u (concat ps))" "good s2" "pending s2 = rest'"
    by (auto simp: nxt_def)
  define t where "t = (case ts of [] \<Rightarrow> [] | kv # _ \<Rightarrow> fst kv @ '': '' @ snd kv)"
  obtain tl' where tl': "rest' = t @ crlf @ tl'"
    by (cases ts) (auto simp: t_def field_line_def rest'_def)
  have nl': "LF \<notin> set t" "length t + 2 \<le> MAX_LINE_LENGTH"
    using plain_field_line [of "hd ts"] assms(4)
    by (auto simp: t_def MAX_LINE_LENGTH_def HEADER_MAX_LENGTH_def split: list.splits)
  from getline_text [OF s2(2) _ nl', of tl' r2] s2(3) tl' obtain r3 s3 where
    s3: "getline strm r2 s2 = (True, r3, s3)" "good s3" "lr_ptr r3 = t @ crlf" "pending s3 = tl'" by auto
  have "lr_ptr r3 = (case ts of [] \<Rightarrow> crlf | kv # _ \<Rightarrow> field_line kv)"
    using s3(3) by (auto simp: t_def field_line_def split: list.splits)
  moreover have "lr_ptr r3 @ pending s3 = header_section ts @ rest"
    using s3(3,4) tl' by (simp add: rest'_def)
  ultimately obtain s4 where
    "read_trailers strm 0 r3 hs s3 = (True, hs @ ts, s4)" "good s4" "pending s4 = rest"
    using read_trailers_section [OF s3(2) _ _ assms(4), of r3 rest 0 hs] assms(5) by auto
  then show ?thesis
    using s1(1) s2(1) s3(1) by (simp add: read_content_chunked_def)
qed

end

subsection \<open>The chunk writer\<close>

text \<open>A provider that hands out a list of payloads, one per call, and ends with trailers.\<close>

fun list_provider :: "Headers \<Rightarrow> bytes list provider" where
  "list_provider ts offset len [] = SinkDoneWithTrailer ts (Return True [])"
| "list_provider ts offset len (p # ps) = SinkWrite p ps (\<lambda>ok ps. Return ok ps)"

definition no_shutdown :: "'u \<Rightarrow> bool \<times> 'u" where
  "no_shutdown u = (False, u)"

context writable_stream
begin

lemma write_trailer_good:
  "good s \<Longrightarrow> \<exists>s'. write_trailer strm ts ok s = Some (ok, s') \<and> good s' \<and>
     written s' = written s @ concat (map field_line ts)"
proof (induction ts arbitrary: s)
  case Nil
  then show ?case by simp
next
  case (Cons kv ts)
  from write_data_good [OF Cons.prems, of "field_line kv"] obtain s1 where
    s1: "write_data strm (field_line kv) s = Some (True, s1)" "good s1" "written s1 = written s @ field_line kv" by blast
  from Cons.IH [OF s1(2)] s1 show ?case by auto
qed

lemma done_with_trailer_good:
  assumes "good (sk_strm st)" "sk_ok st"
  shows "\<exists>st'. done_with_trailer strm ts st = Some st' \<and> sk_ok st' \<and> \<not> sk_data_available st' \<and> good (sk_strm st') \<and>
    written (sk_strm st') = written (sk_strm st) @ ''0'' @ crlf @ header_section ts"
proof -
  from write_data_good [OF assms(1), of "''0'' @ crlf"] obtain s1 where
    s1: "write_data strm (''0'' @ crlf) (sk_strm st) = Some (True, s1)" "good s1"
      "written s1 = written (sk_strm st) @ ''0'' @ crlf" by blast
  from write_trailer_good [OF s1(2), of ts True] obtain s2 where
    s2: "write_trailer strm ts True s1 = Some (True, s2)" "good s2" "written s2 = written s1 @ concat (map field_line ts)" by blast
  from write_data_good [OF s2(2), of crlf] obtain s3 where
    s3: "write_data strm crlf s2 = Some (True, s3)" "good s3" "written s3 = written s2 @ crlf" by blast
  have "done_with_trailer strm ts st = Some (st\<lparr>sk_data_available := False, sk_strm := s3, sk_ok := True\<rparr>)"
    using assms(2) s1(1) s2(1) s3(1)
    by (simp add: done_with_trailer_def nocompressor_compress_def Let_def)
  then show ?thesis using s1(3) s2(3) s3(2,3) by simp
qed

lemma provider_loop_chunks:
  assumes "good (sk_strm st)" "sk_ok st" "sk_data_available st" "\<forall>p \<in> set ps. p \<noteq> []"
  shows "\<exists>st'. provider_loop strm (run_sink_chunked strm) (list_provider ts) no_shutdown ps st =
      Some (Inr (True, Success, [], st')) \<and> good (sk_strm st') \<and>
      written (sk_strm st') = written (sk_strm st) @ chunked_body ps ts"
  using assms
proof (induction ps arbitrary: st)
  case Nil
  obtain b s where w: "strm_wait_writable strm (sk_strm st) = (b, s)" by force
  note w' = wait_writable_good [OF Nil(1) w]
  from done_with_trailer_good [of "st\<lparr>sk_strm := s\<rparr>" ts] w' Nil(2) obtain st' where
    st': "done_with_trailer strm ts (st\<lparr>sk_strm := s\<rparr>) = Some st'" "sk_ok st'" "\<not> sk_data_available st'" "good (sk_strm st')"
      "written (sk_strm st') = written (sk_strm st) @ ''0'' @ crlf @ header_section ts" by auto
  have "provider_loop strm (run_sink_chunked strm) (list_provider ts) no_shutdown [] st =
      provider_loop strm (run_sink_chunked strm) (list_provider ts) no_shutdown [] st'"
    using Nil w w' st' by (subst provider_loop.simps) (simp add: no_shutdown_def)
  also have "\<dots> = Some (Inr (True, Success, [], st'))" using st'(3) by (subst provider_loop.simps) simp
  finally show ?case using st' by (simp add: chunked_body_def)
next
  case (Cons p ps)
  obtain b s where w: "strm_wait_writable strm (sk_strm st) = (b, s)" by force
  note w' = wait_writable_good [OF Cons.prems(1) w]
  from write_data_good [of s "chunk_of p"] w' obtain s1 where
    s1: "write_data strm (chunk_of p) s = Some (True, s1)" "good s1" "written s1 = written (sk_strm st) @ chunk_of p" by auto
  define st1 where "st1 = st\<lparr>sk_data_available := True, sk_offset := sk_offset st + length p, sk_strm := s1, sk_ok := True\<rparr>"
  have "provider_loop strm (run_sink_chunked strm) (list_provider ts) no_shutdown (p # ps) st =
      provider_loop strm (run_sink_chunked strm) (list_provider ts) no_shutdown ps st1"
    using Cons.prems w w' s1 by (subst provider_loop.simps) (simp add: no_shutdown_def nocompressor_compress_def Let_def st1_def)
  with Cons.IH [of st1] Cons.prems(4) s1 show ?case by (simp add: st1_def chunked_body_def)
qed

end

interpretation append_sink: content_sink "\<lambda>bs off len u. (True, u @ bs)" "\<lambda>u bs. u @ bs"
  by unfold_locales auto

interpretation bs_body: body_reader BufferStream "\<lambda>s. True" bs_pending "\<lambda>bs off len u. (True, u @ bs)" "\<lambda>u bs. u @ bs"
  by unfold_locales

section \<open>Every transfer ends on a stream that ends\<close>

text \<open>\<open>s'\<close> is reached from \<open>s\<close> by reading: the stream still works and what is to come is a suffix.\<close>

definition reads_to :: "('s \<Rightarrow> bool) \<Rightarrow> ('s \<Rightarrow> bytes) \<Rightarrow> 's \<Rightarrow> 's \<Rightarrow> bool" where
  "reads_to good pending s s' \<longleftrightarrow> good s' \<and> (\<exists>d. pending s = d @ pending s')"

lemma reads_to_trans: "\<lbrakk>reads_to good pending s s1; reads_to good pending s1 s2\<rbrakk> \<Longrightarrow> reads_to good pending s s2"
  by (auto simp: reads_to_def)

lemma reads_to_length: "reads_to good pending s s' \<Longrightarrow> length (pending s') \<le> length (pending s)"
  by (auto simp: reads_to_def)

context readable_stream
begin

abbreviation later :: "'s \<Rightarrow> 's \<Rightarrow> bool" where
  "later \<equiv> reads_to good pending"

lemma later_refl: "good s \<Longrightarrow> later s s"
  by (simp add: reads_to_def)

lemma getline_later:
  assumes "good s" "getline strm r s = (ok, r', s')"
  shows "later s s' \<and> (ok \<longrightarrow> length (pending s') < length (pending s))"
proof -
  obtain ok' l rest where sc: "scan_line 0 NUL (pending s) = (ok', l, rest)" by (metis prod_cases3)
  from getline_scan [OF assms(1) sc, of r] assms(2) have g: "ok' = ok" "good s'" "pending s' = rest" by auto
  have d: "pending s = l @ pending s'" using scan_line_parts [OF sc] g(3) by simp
  have "l \<noteq> []" if ok
    using that sc g(1) by (cases "pending s") (auto simp: MAX_LINE_LENGTH_def Let_def split: if_splits prod.splits)
  then show ?thesis using d g(2) by (auto simp: reads_to_def)
qed

lemma read_with_length_later:
  "\<lbrakk>good s; read_with_length_loop strm len progress out r s u = (ok, s', u')\<rbrakk> \<Longrightarrow> later s s'"
proof (induction "len - r" arbitrary: r s u rule: less_induct)
  case less
  show ?case
  proof (cases "r < len")
    case False
    with less.prems show ?thesis by (subst (asm) read_with_length_loop.simps) (simp add: later_refl)
  next
    case True
    let ?n = "min (len - r) RECV_BUFSIZ"
    have n: "0 < ?n" using True by (simp add: RECV_BUFSIZ_def)
    obtain rr s1 where rd: "strm_read strm s ?n = (rr, s1)" by force
    from read_good [OF less.prems(1) n rd] obtain bs where bs: "rr = Some bs" "good s1" "pending s = bs @ pending s1" by blast
    have l1: "later s s1" using bs by (auto simp: reads_to_def)
    show ?thesis
    proof (cases "s' = s1")
      case False
      obtain b u1 where o: "out bs r len u = (b, u1)" by force
      obtain b' u2 where p: "call_progress progress (r + length bs) len u1 = (b', u2)" by force
      have "bs \<noteq> []" "read_with_length_loop strm len progress out (r + length bs) s1 u2 = (ok, s', u')"
        using less.prems(2) True rd bs(1) False o p unfolding read_with_length_loop.simps [of strm len progress out r s u]
        by (cases bs; auto split: bool.splits)+
      then have "later s1 s'" using less.hyps [of "r + length bs" s1 u2] bs(2) True by (cases bs) auto
      then show ?thesis using reads_to_trans [OF l1] by blast
    qed (use l1 in simp)
  qed
qed

lemma skip_with_length_later: "good s \<Longrightarrow> later s (skip_with_length_loop strm len r s)"
proof (induction "len - r" arbitrary: r s rule: less_induct)
  case less
  show ?case
  proof (cases "r < len")
    case False
    with less.prems show ?thesis by (subst skip_with_length_loop.simps) (simp add: later_refl)
  next
    case True
    let ?n = "min (len - r) RECV_BUFSIZ"
    have n: "0 < ?n" using True by (simp add: RECV_BUFSIZ_def)
    obtain rr s1 where rd: "strm_read strm s ?n = (rr, s1)" by force
    from read_good [OF less.prems n rd] obtain bs where bs: "rr = Some bs" "good s1" "pending s = bs @ pending s1" by blast
    have l1: "later s s1" using bs by (auto simp: reads_to_def)
    show ?thesis
    proof (cases bs)
      case Nil
      then show ?thesis using True rd bs l1 by (subst skip_with_length_loop.simps) simp
    next
      case (Cons c cs)
      with less.hyps [of "r + length bs" s1] bs True have "later s1 (skip_with_length_loop strm len (r + length bs) s1)" by simp
      then show ?thesis using True rd bs(1) Cons reads_to_trans [OF l1] by (subst skip_with_length_loop.simps) simp
    qed
  qed
qed

lemma read_without_length_returns:
  "good s \<Longrightarrow> \<exists>ok s' u'. read_without_length_loop strm out r s u = Some (ok, s', u') \<and> later s s'"
proof (induction "length (pending s)" arbitrary: r s u rule: less_induct)
  case less
  have n: "0 < RECV_BUFSIZ" by (simp add: RECV_BUFSIZ_def)
  obtain rr s1 where rd: "strm_read strm s RECV_BUFSIZ = (rr, s1)" by force
  from read_good [OF less.prems n rd] obtain bs where bs: "rr = Some bs" "good s1" "pending s = bs @ pending s1" by blast
  have l1: "later s s1" using bs by (auto simp: reads_to_def)
  obtain b u1 where o: "out bs r 0 u = (b, u1)" by force
  show ?case
  proof (cases "bs \<noteq> [] \<and> b")
    case False
    then have "\<exists>ok u'. read_without_length_loop strm out r s u = Some (ok, s1, u')"
      using rd bs(1) o by (subst read_without_length_loop.simps) auto
    then show ?thesis using l1 by blast
  next
    case True
    then have "length (pending s1) < length (pending s)" unfolding bs(3) by simp
    from less.hyps [OF this bs(2), of "r + length bs" u1] True show ?thesis
      using rd bs(1) o reads_to_trans [OF l1] by (subst read_without_length_loop.simps) auto
  qed
qed

lemma read_chunks_returns:
  "good s \<Longrightarrow> \<exists>ok r' s' u'. read_chunks strm out r s u = Some (ok, r', s', u') \<and> later s s'"
proof (induction "length (pending s)" arbitrary: r s u rule: less_induct)
  case less
  obtain n conv where st: "strtoul_hex (c_str (lr_ptr r)) = (n, conv)" by force
  obtain ok1 s1 u1 where b: "read_content_with_length strm n None out s u = (ok1, s1, u1)" by (metis prod_cases3)
  obtain ok2 r2 s2 where g2: "getline strm r s1 = (ok2, r2, s2)" by (metis prod_cases3)
  obtain ok3 r3 s3 where g3: "getline strm r2 s2 = (ok3, r3, s3)" by (metis prod_cases3)
  have l1: "later s s1" using read_with_length_later less.prems b by (simp add: read_content_with_length_def)
  have l2: "later s1 s2" using getline_later [OF _ g2] l1 by (simp add: reads_to_def)
  have l3: "later s2 s3" "ok3 \<longrightarrow> length (pending s3) < length (pending s2)"
    using getline_later [OF _ g3] l2 by (simp_all add: reads_to_def)
  note l12 = reads_to_trans [OF l1 l2] and l13 = reads_to_trans [OF reads_to_trans [OF l1 l2] l3(1)]
  have "(\<exists>ok r' s' u'. read_chunks strm out r s u = Some (ok, r', s', u') \<and> s' \<in> {s, s1, s2, s3}) \<or>
      ok3 \<and> read_chunks strm out r s u = read_chunks strm out r3 s3 u1"
    using st b g2 g3 by (subst (1 2) read_chunks.simps) auto
  then show ?case
  proof
    assume "ok3 \<and> read_chunks strm out r s u = read_chunks strm out r3 s3 u1"
    moreover have "good s3" using l13 by (simp add: reads_to_def)
    moreover have "length (pending s3) < length (pending s)" if ok3
      using l3(2) that reads_to_length [OF l12] by simp
    ultimately show ?thesis using less.hyps [of s3 r3 u1] reads_to_trans [OF l13] by metis
  next
    assume "\<exists>ok r' s' u'. read_chunks strm out r s u = Some (ok, r', s', u') \<and> s' \<in> {s, s1, s2, s3}"
    then show ?thesis using later_refl [OF less.prems] l1 l12 l13 by blast
  qed
qed

lemma read_trailers_later: "\<lbrakk>good s; read_trailers strm n r hs s = (ok, hs', s')\<rbrakk> \<Longrightarrow> later s s'"
proof (induction "HEADER_MAX_COUNT - n" arbitrary: n r hs s rule: less_induct)
  case less
  obtain ok1 r1 s1 where g: "getline strm r s = (ok1, r1, s1)" by (metis prod_cases3)
  have l1: "later s s1" using getline_later [OF less.prems(1) g] by simp
  have good1: "good s1" using l1 by (simp add: reads_to_def)
  consider "s' = s" | "s' = s1" | hs1 where "n < HEADER_MAX_COUNT" "read_trailers strm (n + 1) r1 hs1 s1 = (ok, hs', s')"
    using less.prems(2) g by (subst (asm) read_trailers.simps) (auto simp: Let_def not_le split: if_splits)
  then show ?case
  proof cases
    case 3
    with less.hyps [OF _ good1 3(2)] show ?thesis using reads_to_trans [OF l1] by simp
  qed (use l1 less.prems(1) later_refl in auto)
qed

lemma read_content_chunked_returns:
  assumes "good s"
  shows "\<exists>ok hs' s' u'. read_content_chunked strm hs out s u = Some (ok, hs', s', u') \<and> later s s'"
proof -
  obtain ok1 r1 s1 where g1: "getline strm (new_line_reader 16) s = (ok1, r1, s1)" by (metis prod_cases3)
  have l1: "later s s1" using getline_later [OF assms g1] by simp
  then have "good s1" by (simp add: reads_to_def)
  from read_chunks_returns [OF this, of out r1 u] obtain ok2 r2 s2 u2 where
    c: "read_chunks strm out r1 s1 u = Some (ok2, r2, s2, u2)" and l2: "later s1 s2" by blast
  obtain ok3 r3 s3 where g3: "getline strm r2 s2 = (ok3, r3, s3)" by (metis prod_cases3)
  have l3: "later s2 s3" using getline_later [OF _ g3] l2 by (simp add: reads_to_def)
  obtain ok4 hs4 s4 where t: "read_trailers strm 0 r3 hs s3 = (ok4, hs4, s4)" by (metis prod_cases3)
  have l4: "later s3 s4" using read_trailers_later [OF _ t] l3 by (simp add: reads_to_def)
  note l = l1 reads_to_trans [OF l1 l2] reads_to_trans [OF reads_to_trans [OF l1 l2] l3]
    reads_to_trans [OF reads_to_trans [OF reads_to_trans [OF l1 l2] l3] l4]
  have "\<exists>ok hs' s' u'. read_content_chunked strm hs out s u = Some (ok, hs', s', u') \<and> s' \<in> {s1, s2, s3, s4}"
    using g1 c g3 t by (auto simp: read_content_chunked_def)
  then show ?thesis using l by blast
qed

text \<open>Reading a body returns, for any headers, limits, receiver and progress callback.\<close>

lemma read_content_returns:
  assumes "good s"
  shows "\<exists>ok st' hs' s' u'. read_content strm hs maxlen status progress out decompress s u =
    Some (ok, st', hs', s', u') \<and> later s s'"
proof -
  obtain okc hsc sc uc where c: "read_content_chunked strm hs out s u = Some (okc, hsc, sc, uc)" "later s sc"
    using read_content_chunked_returns [OF assms, of hs out u] by blast
  obtain okw sw uw where w: "read_content_without_length strm out s u = Some (okw, sw, uw)" "later s sw"
    using read_without_length_returns [OF assms, of out 0 u] unfolding read_content_without_length_def by blast
  obtain len inv where n: "get_header_value_u64 hs ''Content-Length'' UINT64_MAX 0 = (len, inv)" by force
  obtain okl sl ul where l: "read_content_with_length strm len progress out s u = (okl, sl, ul)" by (metis prod_cases3)
  have ll: "later s sl" using read_with_length_later [OF assms] l by (simp add: read_content_with_length_def)
  have k: "later s (skip_content_with_length strm len s)"
    using skip_with_length_later [OF assms] by (simp add: skip_content_with_length_def)
  have "\<exists>ok st' hs' s' u'. read_content strm hs maxlen status progress out decompress s u =
      Some (ok, st', hs', s', u') \<and> s' \<in> {s, sc, sw, sl, skip_content_with_length strm len s}"
    using c w n l by (auto simp: read_content_def prepare_content_receiver_def)
  then show ?thesis using c(2) w(2) ll k later_refl [OF assms] by blast
qed

end

section \<open>Invariants of the receiver's state\<close>

text \<open>What every call of the receiver and of the progress callback keeps is kept by the whole transfer.\<close>

definition receiver_keeps :: "('u \<Rightarrow> bool) \<Rightarrow> 'u receiver \<Rightarrow> 'u progress option \<Rightarrow> bool" where
  "receiver_keeps I out progress \<longleftrightarrow>
     (\<forall>bs off len u. I u \<longrightarrow> I (snd (out bs off len u))) \<and>
     (\<forall>r len u. I u \<longrightarrow> I (snd (call_progress progress r len u)))"

lemma receiver_keeps_None: "receiver_keeps I out progress \<Longrightarrow> receiver_keeps I out None"
  by (simp add: receiver_keeps_def call_progress_def)

lemma receiver_keepsD:
  "\<lbrakk>receiver_keeps I out progress; out bs off len u = (b, u'); I u\<rbrakk> \<Longrightarrow> I u'"
  "\<lbrakk>receiver_keeps I out progress; call_progress progress r len u = (b, u'); I u\<rbrakk> \<Longrightarrow> I u'"
  by (metis receiver_keeps_def snd_conv)+

lemma read_with_length_keeps:
  "\<lbrakk>read_with_length_loop strm len progress out r s u = (ok, s', u'); receiver_keeps I out progress; I u\<rbrakk> \<Longrightarrow> I u'"
proof (induction "len - r" arbitrary: r s u rule: less_induct)
  case less
  show ?case
  proof (cases "r < len")
    case False
    with less.prems show ?thesis by (subst (asm) read_with_length_loop.simps) simp
  next
    case True
    obtain rr s1 where rd: "strm_read strm s (min (len - r) RECV_BUFSIZ) = (rr, s1)" by force
    show ?thesis
    proof (cases "rr = None \<or> rr = Some []")
      case True
      with less.prems rd \<open>r < len\<close> show ?thesis by (subst (asm) read_with_length_loop.simps) auto
    next
      case False
      then obtain c cs where cs: "rr = Some (c # cs)" by (metis neq_Nil_conv option.exhaust)
      obtain b u1 where o: "out (c # cs) r len u = (b, u1)" by force
      obtain b' u2 where p: "call_progress progress (r + length (c # cs)) len u1 = (b', u2)" by force
      have I1: "I u1" using receiver_keepsD(1) [OF less.prems(2) o less.prems(3)] .
      have I2: "I u2" using receiver_keepsD(2) [OF less.prems(2) p I1] .
      have "u' = u1 \<or> u' = u2 \<or> read_with_length_loop strm len progress out (r + length (c # cs)) s1 u2 = (ok, s', u')"
        using less.prems(1) rd cs \<open>r < len\<close> o p unfolding read_with_length_loop.simps [of strm len progress out r s u]
        by (auto split: bool.splits)
      then show ?thesis
        using I1 I2 less.hyps [of "r + length (c # cs)" s1 u2] less.prems(2) \<open>r < len\<close> by auto
    qed
  qed
qed

lemma read_without_length_keeps:
  "\<lbrakk>read_without_length_loop strm out r s u = Some y; receiver_keeps I out progress; I u\<rbrakk> \<Longrightarrow> I (snd (snd y))"
proof (induct strm out r s u y rule: read_without_length_loop.raw_induct [rotated, consumes 1, case_names step])
  case (step loop strm out r s u y)
  note 1 = step
  obtain rr s1 where rd: "strm_read strm s RECV_BUFSIZ = (rr, s1)" by force
  show ?case
  proof (cases rr)
    case None
    with 1 rd show ?thesis by auto
  next
    case (Some bs)
    obtain b u1 where o: "out bs r 0 u = (b, u1)" by force
    have "I u1" using receiver_keepsD(1) [OF 1(3) o 1(4)] .
    then show ?thesis using 1 rd Some o by (auto split: if_splits)
  qed
qed

lemma read_chunks_keeps:
  "\<lbrakk>read_chunks strm out r s u = Some y; receiver_keeps I out None; I u\<rbrakk> \<Longrightarrow> I (snd (snd (snd y)))"
proof (induct strm out r s u y rule: read_chunks.raw_induct [rotated, consumes 1, case_names step])
  case (step loop strm out r s u y)
  note 1 = step
  obtain n conv where st: "strtoul_hex (c_str (lr_ptr r)) = (n, conv)" by force
  obtain ok1 s1 u1 where b: "read_content_with_length strm n None out s u = (ok1, s1, u1)" by (metis prod_cases3)
  obtain ok2 r2 s2 where g2: "getline strm r s1 = (ok2, r2, s2)" by (metis prod_cases3)
  obtain ok3 r3 s3 where g3: "getline strm r2 s2 = (ok3, r3, s3)" by (metis prod_cases3)
  have I1: "I u1" using read_with_length_keeps [OF b [unfolded read_content_with_length_def] 1(3,4)] .
  have "snd (snd (snd y)) \<in> {u, u1} \<or> loop strm out r3 s3 u1 = Some y"
    using 1(2) st b g2 g3 by (auto split: if_splits)
  then show ?case using I1 1(1) [of strm out r3 s3 u1 y] 1(3,4) by auto
qed

lemma read_content_keeps:
  assumes "read_content strm hs maxlen status progress out decompress s u = Some (ok, st', hs', s', u')"
    "receiver_keeps I out progress" "I u"
  shows "I u'"
proof -
  have c: "I u2" if c2: "read_content_chunked strm hs out s u = Some (ok2, hs2, s2, u2)" for ok2 hs2 s2 u2
  proof -
    obtain ok1 r1 s1 where g: "getline strm (new_line_reader 16) s = (ok1, r1, s1)" by (metis prod_cases3)
    have "u2 = u \<or> (\<exists>y. read_chunks strm out r1 s1 u = Some y \<and> u2 = snd (snd (snd y)))"
    proof (cases "read_chunks strm out r1 s1 u")
      case None
      with c2 g show ?thesis by (auto simp: read_content_chunked_def split: if_splits)
    next
      case (Some y)
      obtain okc r2 s3 u3 where y: "y = (okc, r2, s3, u3)" by (cases y)
      obtain ok4 r4 s4 where g4: "getline strm r2 s3 = (ok4, r4, s4)" by (metis prod_cases3)
      obtain ok5 hs5 s5 where t5: "read_trailers strm 0 r4 hs s4 = (ok5, hs5, s5)" by (metis prod_cases3)
      show ?thesis using c2 g Some y g4 t5 by (auto simp: read_content_chunked_def split: if_splits)
    qed
    then show ?thesis using read_chunks_keeps [OF _ receiver_keeps_None [OF assms(2)] assms(3)] assms(3) by auto
  qed
  have w: "I u2" if "read_content_without_length strm out s u = Some (ok2, s2, u2)" for ok2 s2 u2
    using read_without_length_keeps [OF that [unfolded read_content_without_length_def] assms(2,3)] by simp
  have l: "I u2" if "read_content_with_length strm n progress out s u = (ok2, s2, u2)" for n ok2 s2 u2
    using read_with_length_keeps [OF that [unfolded read_content_with_length_def] assms(2,3)] .
  show ?thesis
    using assms(1,3) c w l
    by (auto simp: read_content_def prepare_content_receiver_def bind_eq_Some_conv split: if_splits prod.splits)
qed

section \<open>Properties\<close>

text \<open>C27 (chunked_roundtrip): what the chunked writer sends for any sequence of non-empty payloads and
  any trailers is read back by the chunked reader as the concatenated payloads, with the trailers added
  to the headers and nothing left on the stream.\<close>

theorem chunked_roundtrip:
  assumes "\<forall>p \<in> set ps. p \<noteq> [] \<and> length p < ULONG_MAX" "\<forall>kv \<in> set ts. plain_field kv"
    "length ts \<le> HEADER_MAX_COUNT"
  shows "\<exists>st s'. write_content_chunked BufferStream (list_provider ts) no_shutdown new_BufferStream ps =
      Some (Inr (True, Success, [], st)) \<and>
    read_content_chunked BufferStream hs (\<lambda>bs off len u. (True, u @ bs)) (sk_strm st) [] =
      Some (True, hs @ ts, s', concat ps) \<and> bs_pending s' = []"
proof -
  obtain st where
    st: "write_content_chunked BufferStream (list_provider ts) no_shutdown new_BufferStream ps =
      Some (Inr (True, Success, [], st))" "bs_buffer (sk_strm st) = chunked_body ps ts"
      "bs_position (sk_strm st) = 0"
    using bs_out.provider_loop_chunks [of "new_sink 0 new_BufferStream" ps ts] assms(1)
    by (auto simp: write_content_chunked_def new_sink_def new_BufferStream_def)
  then have "bs_pending (sk_strm st) = chunked_body ps ts @ []" by (simp add: bs_pending_def)
  from bs_body.read_content_chunked_body [OF TrueI this assms, of hs "[]"] st(1) show ?thesis by auto
qed

theorem chunked_roundtrip_witness:
  "\<exists>st s'. write_content_chunked BufferStream (list_provider [(''Digest'', ''x'')]) no_shutdown new_BufferStream
      [''hello '', ''world''] = Some (Inr (True, Success, [], st)) \<and>
    read_content_chunked BufferStream [] (\<lambda>bs off len u. (True, u @ bs)) (sk_strm st) [] =
      Some (True, [(''Digest'', ''x'')], s', ''hello world'') \<and> bs_pending s' = []"
  using chunked_roundtrip [of "[''hello '', ''world'']" "[(''Digest'', ''x'')]" "[]"]
  by (simp add: ULONG_MAX_def HEADER_MAX_COUNT_def plain_field_def is_field_name_def is_token_def is_token_char_def
      is_field_value_def is_field_content_def is_field_vchar_def is_vchar_def isalnum_def isalpha_def isdigit_def
      byte_def field_line_def HEADER_MAX_LENGTH_def)

end
