(* ===== verification/Http_Message.thy ===== *)
theory Http_Message
  imports Http_Content
begin

text \<open>
  The messages of \<^verbatim>\<open>src/CPPTools/include/httplib.h\<close>: \<open>Response\<close>, \<open>Request\<close> (with the callbacks of a
  client request), \<open>Result\<close>, the header helpers, the response line and the parts of a URL. Each
  \<open>std::regex\<close> of the source is a parser that yields its groups.
\<close>

section \<open>Responses and requests\<close>

record Response =
  rs_version :: string
  rs_status :: int
  rs_reason :: string
  rs_headers :: Headers
  rs_body :: string
  rs_location :: string

definition new_Response :: Response where
  "new_Response =
     \<lparr>rs_version = [], rs_status = - 1, rs_reason = [], rs_headers = [], rs_body = [], rs_location = []\<rparr>"

definition REDIRECT_MAX_COUNT :: nat where "REDIRECT_MAX_COUNT = 20"

text \<open>The members a client uses. An empty \<open>std::function\<close> is \<^term>\<open>None\<close>; all callbacks act on the state
  \<open>'u\<close> of the application.\<close>

record 'u Request =
  rq_method :: string
  rq_path :: string
  rq_params :: Params
  rq_headers :: Headers
  rq_body :: string
  rq_response_handler :: "(Response \<Rightarrow> 'u \<Rightarrow> bool \<times> 'u) option"
  rq_content_receiver :: "'u receiver option"
  rq_download_progress :: "'u progress option"
  rq_upload_progress :: "'u progress option"
  rq_redirect_count :: nat
  rq_content_length :: nat
  rq_content_provider :: "'u provider option"
  rq_is_chunked_content_provider :: bool

definition new_Request :: "'u Request" where
  "new_Request =
     \<lparr>rq_method = [], rq_path = [], rq_params = [], rq_headers = [], rq_body = [],
      rq_response_handler = None, rq_content_receiver = None, rq_download_progress = None,
      rq_upload_progress = None, rq_redirect_count = REDIRECT_MAX_COUNT, rq_content_length = 0,
      rq_content_provider = None, rq_is_chunked_content_provider = False\<rparr>"

record Result =
  rt_res :: "Response option"
  rt_err :: Error
  rt_request_headers :: Headers

text \<open>\<open>Request::set_header\<close> and \<open>Response::set_header\<close>: an ill-formed field is dropped silently.\<close>

definition set_header :: "string \<Rightarrow> string \<Rightarrow> Headers \<Rightarrow> Headers" where
  "set_header key val hs =
     (if is_field_name key \<and> is_field_value val then headers_emplace key val hs else hs)"

definition rq_set_header :: "string \<Rightarrow> string \<Rightarrow> 'u Request \<Rightarrow> 'u Request" where
  "rq_set_header key val req = req\<lparr>rq_headers := set_header key val (rq_headers req)\<rparr>"

definition rq_has_header :: "'u Request \<Rightarrow> string \<Rightarrow> bool" where
  "rq_has_header req key = has_header (rq_headers req) key"

definition rs_has_header :: "Response \<Rightarrow> string \<Rightarrow> bool" where
  "rs_has_header res key = has_header (rs_headers res) key"

definition rs_get_header_value :: "Response \<Rightarrow> string \<Rightarrow> string" where
  \<comment> \<open>with the default arguments \<open>def = ""\<close> and \<open>id = 0\<close>\<close>
  "rs_get_header_value res key = get_header_value (rs_headers res) key [] 0"

definition rs_get_header_value_u64 :: "Response \<Rightarrow> string \<Rightarrow> nat" where
  "rs_get_header_value_u64 res key = fst (get_header_value_u64 (rs_headers res) key 0 0)"

definition has_request_header :: "Result \<Rightarrow> string \<Rightarrow> bool" where
  "has_request_header r key = has_header (rt_request_headers r) key"

definition get_request_header_value :: "Result \<Rightarrow> string \<Rightarrow> string \<Rightarrow> nat \<Rightarrow> string" where
  "get_request_header_value r key def idx = get_header_value (rt_request_headers r) key def idx"

definition has_param :: "'u Request \<Rightarrow> string \<Rightarrow> bool" where
  "has_param req key \<longleftrightarrow> key \<in> fst ` set (rq_params req)"

definition param_values :: "Params \<Rightarrow> string \<Rightarrow> string list" where
  "param_values ps key = map snd (filter (\<lambda>(k, v). k = key) ps)"

definition get_param_value :: "'u Request \<Rightarrow> string \<Rightarrow> nat \<Rightarrow> string" where
  "get_param_value req key idx =
     (let vs = param_values (rq_params req) key in if idx < length vs then vs ! idx else [])"

definition get_param_value_count :: "'u Request \<Rightarrow> string \<Rightarrow> nat" where
  "get_param_value_count req key = length (param_values (rq_params req) key)"

definition is_multipart_form_data :: "'u Request \<Rightarrow> bool" where
  "is_multipart_form_data req \<longleftrightarrow>
     take 19 (get_header_value (rq_headers req) ''Content-Type'' [] 0) = ''multipart/form-data''"

section \<open>Header and URL helpers\<close>

text \<open>\<open>[^?]+\?.*\<close> matches the whole path: something, a question mark, and no line break after it.\<close>

definition has_query :: "string \<Rightarrow> bool" where
  "has_query path =
     (let a = takeWhile (\<lambda>c. c \<noteq> CHR ''?'') path; b = drop (length a) path
      in a \<noteq> [] \<and> b \<noteq> [] \<and> list_all (\<lambda>c. c \<noteq> CR \<and> c \<noteq> LF) (tl b))"

definition append_query_params :: "string \<Rightarrow> Params \<Rightarrow> string" where
  "append_query_params path params =
     path @ [if has_query path then CHR ''&'' else CHR ''?''] @ params_to_query_str params"

definition make_basic_authentication_header :: "string \<Rightarrow> string \<Rightarrow> bool \<Rightarrow> string \<times> string" where
  "make_basic_authentication_header username password is_proxy =
     (if is_proxy then ''Proxy-Authorization'' else ''Authorization'',
      ''Basic '' @ base64_encode (username @ '':'' @ password))"

definition make_bearer_token_authentication_header :: "string \<Rightarrow> bool \<Rightarrow> string \<times> string" where
  "make_bearer_token_authentication_header token is_proxy =
     (if is_proxy then ''Proxy-Authorization'' else ''Authorization'', ''Bearer '' @ token)"

definition get_bearer_token_auth :: "'u Request \<Rightarrow> exn + string" where
  \<comment> \<open>\<open>substr\<close> throws when the text is shorter than the prefix\<close>
  "get_bearer_token_auth req =
     (if rq_has_header req ''Authorization''
      then (let v = get_header_value (rq_headers req) ''Authorization'' [] 0
            in if length v < 7 then Inl Out_of_range else Inr (drop 7 v))
      else Inr [])"

definition adjust_host_string :: "string \<Rightarrow> string" where
  "adjust_host_string host = (if CHR '':'' \<in> set host then ''['' @ host @ '']'' else host)"

definition escape_abstract_namespace_unix_domain :: "string \<Rightarrow> string" where
  "escape_abstract_namespace_unix_domain s =
     (if length s > 1 \<and> hd s = NUL then CHR ''@'' # tl s else s)"

text \<open>\<open>std::stoi\<close> on a string of digits.\<close>

definition stoi_digits :: "string \<Rightarrow> int option" where
  "stoi_digits s = (if dec_value s \<le> 2 ^ 31 - 1 then Some (int (dec_value s)) else None)"

text \<open>\<open>(?:\[([a-fA-F\d:]+)\]|([^:/?#]+))\<close> at the start of a text: the host (either group) and the rest.\<close>

definition is_hex_or_colon :: "char \<Rightarrow> bool" where
  "is_hex_or_colon c \<longleftrightarrow> is_hex c \<noteq> None \<or> c = CHR '':''"

definition host_candidates :: "string \<Rightarrow> (string \<times> string) list" where
  \<comment> \<open>the bracketed form is tried first\<close>
  "host_candidates s =
     (let h = takeWhile is_hex_or_colon (drop 1 s); n = takeWhile (\<lambda>c. c \<notin> set '':/?#'') s in
      (if take 1 s = ''['' \<and> h \<noteq> [] \<and> take 1 (drop (1 + length h) s) = '']''
       then [(h, drop (2 + length h) s)] else []) @
      (if n = [] then [] else [(n, drop (length n) s)]))"

text \<open>\<open>(?::(\d+))?\<close>.\<close>

definition take_port :: "string \<Rightarrow> string \<times> string" where
  "take_port s =
     (let ds = takeWhile isdigit (drop 1 s) in
      if take 1 s = '':'' \<and> ds \<noteq> [] then (ds, drop (1 + length ds) s) else ([], s))"

text \<open>The groups of the pattern in \<open>ClientImpl::redirect\<close>: scheme, host, port, path and query. Everything
  optional is greedy, and what follows always matches, except that the dot of the fragment excludes line
  breaks; so the first choice is the final one.\<close>

definition parse_location :: "string \<Rightarrow> (string \<times> string \<times> string \<times> string \<times> string) option" where
  "parse_location s =
     (let (scheme, s) =
            (if take 6 s = ''https:'' then (''https'', drop 6 s)
             else if take 5 s = ''http:'' then (''http'', drop 5 s)
             else ([], s));
          (host, port, s) =
            (case (if take 2 s = ''//'' then host_candidates (drop 2 s) else []) of
               [] \<Rightarrow> ([], [], s)
             | (h, r) # _ \<Rightarrow> (case take_port r of (p, r) \<Rightarrow> (h, p, r)));
          path = takeWhile (\<lambda>c. c \<notin> set ''?#'') s;
          s = drop (length path) s;
          query = (if take 1 s = ''?'' then takeWhile (\<lambda>c. c \<noteq> CHR ''#'') s else []);
          s = drop (length query) s
      in if list_all (\<lambda>c. c \<noteq> CR \<and> c \<noteq> LF) s then Some (scheme, host, port, path, query) else None)"

text \<open>The groups of the pattern in \<open>Client::Client\<close>: scheme, host and port of the whole text, the first
  way to match all of it in the order of the pattern's alternatives.\<close>

definition scheme_candidates :: "string \<Rightarrow> (string \<times> string) list" where
  "scheme_candidates s =
     (let sc = takeWhile (\<lambda>c. 97 \<le> byte c \<and> byte c \<le> 122) s; r = drop (length sc) s
      in (if sc \<noteq> [] \<and> take 3 r = ''://'' then [(sc, drop 3 r)] else []) @ [([], s)])"

definition parse_scheme_host_port :: "string \<Rightarrow> (string \<times> string \<times> string) option" where
  "parse_scheme_host_port s =
     (case [(sc, h, fst (take_port r2)). (sc, r1) \<leftarrow> scheme_candidates s, (h, r2) \<leftarrow> host_candidates r1,
            snd (take_port r2) = []]
      of [] \<Rightarrow> None | m # _ \<Rightarrow> Some m)"

section \<open>The response line\<close>

text \<open>\<open>(HTTP/1\.[01]) (\d{3})(?: (.*?))?\r\n\<close> on the whole C string: version, status and reason.\<close>

definition parse_response_line :: "string \<Rightarrow> (string \<times> int \<times> string) option" where
  "parse_response_line l =
     (let ver = take 8 l; code = take 3 (drop 9 l); rest = drop 12 l; n = length rest;
          tail = (if take 1 rest = '' '' then take (n - 3) (drop 1 rest) else [])
      in if (ver = ''HTTP/1.0'' \<or> ver = ''HTTP/1.1'') \<and> take 1 (drop 8 l) = '' '' \<and>
            length code = 3 \<and> list_all isdigit code \<and>
            (rest = crlf \<or> rest = '' '' @ tail @ crlf) \<and> list_all (\<lambda>c. c \<noteq> CR \<and> c \<noteq> LF) tail
         then Some (ver, int (dec_value code), tail) else None)"

definition set_response_line :: "string \<times> int \<times> string \<Rightarrow> Response \<Rightarrow> Response" where
  "set_response_line m res =
     (case m of (ver, code, reason) \<Rightarrow> res\<lparr>rs_version := ver, rs_status := code, rs_reason := reason\<rparr>)"

partial_function (option) skip_continue ::
  "'s Stream \<Rightarrow> stream_line_reader \<Rightarrow> Response \<Rightarrow> 's \<Rightarrow> (bool \<times> Response \<times> 's) option" where
  "skip_continue strm r res s =
     (if rs_status res \<noteq> Continue_100 then Some (True, res, s)
      else
        (case getline strm r s of (ok, r, s) \<Rightarrow>
           if \<not> ok then Some (False, res, s)
           else
             (case getline strm r s of (ok, r, s) \<Rightarrow>
                if \<not> ok then Some (False, res, s)
                else
                  (case parse_response_line (c_str (lr_ptr r)) of
                     None \<Rightarrow> Some (False, res, s)
                   | Some m \<Rightarrow> skip_continue strm r (set_response_line m res) s))))"

definition read_response_line ::
  "'s Stream \<Rightarrow> 'u Request \<Rightarrow> Response \<Rightarrow> 's \<Rightarrow> (bool \<times> Response \<times> 's) option" where
  "read_response_line strm req res s =
     (case getline strm (new_line_reader 2048) s of (ok, r, s) \<Rightarrow>
        if \<not> ok then Some (False, res, s)
        else
          (case parse_response_line (c_str (lr_ptr r)) of
             None \<Rightarrow> Some (rq_method req = ''CONNECT'', res, s)
           | Some m \<Rightarrow> skip_continue strm r (set_response_line m res) s))"

section \<open>Facts: how a body is framed\<close>

text \<open>\<open>wire\<close> carries \<open>body\<close> under the headers \<open>hs\<close>, in one of the three ways of HTTP/1.1; in the last one the
  body ends with the connection, so nothing can follow it.\<close>

definition framed :: "Headers \<Rightarrow> bytes \<Rightarrow> bytes \<Rightarrow> bytes \<Rightarrow> bool" where
  "framed hs body wire rest \<longleftrightarrow>
     (if is_chunked_transfer_encoding hs
      then (\<exists>ps. concat ps = body \<and> (\<forall>p \<in> set ps. p \<noteq> [] \<and> length p < ULONG_MAX) \<and> wire = chunked_body ps [])
      else wire = body \<and>
        (if has_header hs ''Content-Length''
         then hd (header_values hs ''Content-Length'') = to_string_nat (length body)
         else rest = []))"

lemma is_numeric_to_string_nat [simp]: "is_numeric (to_string_nat n)"
  using to_string_nat_digits [of n] by (simp add: is_numeric_def list_all_iff)

lemma content_length_value:
  assumes "has_header hs ''Content-Length''" "hd (header_values hs ''Content-Length'') = to_string_nat n" "n \<le> UINT64_MAX"
  shows "get_header_value_u64 hs ''Content-Length'' d 0 = (n, False)"
  using assms by (cases "header_values hs ''Content-Length''")
    (auto simp: has_header_def get_header_value_u64_def strtoull_dec_def Let_def)

context body_reader
begin

lemma read_content_framed:
  assumes "good s" "pending s = wire @ rest" "framed hs body wire rest" "quiet progress"
    "\<not> (decompress \<and> encoding_unsupported (get_header_value hs ''Content-Encoding'' [] 0))"
    "length body \<le> maxlen" "length body \<le> UINT64_MAX"
  shows "\<exists>s'. read_content strm hs maxlen status progress out decompress s u =
    Some (True, status, hs, s', absorb u body) \<and> good s' \<and> pending s' = rest"
proof -
  have dec: "read_content strm hs maxlen status progress out decompress s u = Some (True, status, hs, s', absorb u body)"
    if "(if is_chunked_transfer_encoding hs
         then read_content_chunked strm hs out s u = Some (True, hs, s', absorb u body)
         else if \<not> has_header hs ''Content-Length''
         then read_content_without_length strm out s u = Some (True, s', absorb u body)
         else body \<noteq> [] \<and> read_content_with_length strm (length body) progress out s u = (True, s', absorb u body) \<or>
              body = [] \<and> s' = s)" for s'
    using that assms(3,5,6) content_length_value [OF _ _ assms(7)]
    by (auto simp: read_content_def prepare_content_receiver_def framed_def absorb_empty split: if_splits)
  show ?thesis
  proof (cases "is_chunked_transfer_encoding hs")
    case True
    then obtain ps where "concat ps = body" "\<forall>p \<in> set ps. p \<noteq> [] \<and> length p < ULONG_MAX" "wire = chunked_body ps []"
      using assms(3) by (auto simp: framed_def)
    with read_content_chunked_body [OF assms(1), of ps "[]" rest hs u] assms(2) obtain s' where
      "read_content_chunked strm hs out s u = Some (True, hs, s', absorb u body)" "good s'" "pending s' = rest" by auto
    then show ?thesis using dec [of s'] True by auto
  next
    case nochunk: False
    then have wire: "wire = body" using assms(3) by (simp add: framed_def)
    show ?thesis
    proof (cases "has_header hs ''Content-Length''")
      case False
      then have "rest = []" using assms(3) nochunk by (simp add: framed_def)
      moreover obtain s' where "read_content_without_length strm out s u = Some (True, s', absorb u (pending s))"
          "good s'" "pending s' = []"
        using read_without_length_all [OF assms(1), of 0 u] unfolding read_content_without_length_def by blast
      ultimately show ?thesis using dec [of s'] nochunk False wire assms(2) by auto
    next
      case True
      obtain s' where "read_content_with_length strm (length body) progress out s u = (True, s', absorb u body)"
          "good s'" "pending s' = rest"
        using read_with_length_all [OF assms(1) assms(2), of "length body" 0 progress u] assms(4) wire
        by (auto simp: read_content_with_length_def)
      moreover have "body = [] \<Longrightarrow> pending s = rest" using assms(2) wire by simp
      ultimately show ?thesis using dec [of s'] dec [of s] nochunk True assms(1) by (cases "body = []") auto
    qed
  qed
qed

text \<open>A body of declared length that the connection cuts short is reported as a failure.\<close>

lemma read_content_cut_short:
  assumes "good s" "\<not> is_chunked_transfer_encoding hs" "has_header hs ''Content-Length''"
    "hd (header_values hs ''Content-Length'') = to_string_nat n" "length (pending s) < n" "n \<le> maxlen" "n \<le> UINT64_MAX"
    "quiet progress" "\<not> (decompress \<and> encoding_unsupported (get_header_value hs ''Content-Encoding'' [] 0))"
  shows "\<exists>s'. read_content strm hs maxlen status progress out decompress s u =
    Some (False, BadRequest_400, hs, s', absorb u (pending s)) \<and> good s' \<and> pending s' = []"
proof -
  obtain s' where "read_content_with_length strm n progress out s u = (False, s', absorb u (pending s))" "good s'" "pending s' = []"
    using read_with_length_short [OF assms(1), of n 0 progress u] assms(5,8) by (auto simp: read_content_with_length_def)
  then show ?thesis
    using assms content_length_value [OF assms(3,4,7)]
    by (auto simp: read_content_def prepare_content_receiver_def)
qed

end

section \<open>Facts: the response line\<close>

definition response_line :: "nat \<Rightarrow> string \<Rightarrow> string" where
  "response_line status reason = ''HTTP/1.1 '' @ to_string_nat status @ '' '' @ reason"

lemma to_string_nat_3:
  assumes "100 \<le> n" "n < 1000"
  shows "length (to_string_nat n) = 3"
proof -
  have "10 \<le> n div 10" using div_le_mono [OF assms(1), of 10] by simp
  moreover have "n div 10 div 10 < 10" using assms(2) by (intro less_mult_imp_div_less) simp
  ultimately show ?thesis using assms
    by (simp add: to_string_nat.simps [of n] to_string_nat.simps [of "n div 10"] to_string_nat.simps [of "n div 10 div 10"])
qed

lemma parse_response_line_ok:
  assumes "100 \<le> status" "status < 1000" "\<forall>c \<in> set reason. c \<noteq> CR \<and> c \<noteq> LF"
  shows "parse_response_line (response_line status reason @ crlf) = Some (''HTTP/1.1'', int status, reason)"
proof -
  have len: "length (to_string_nat status) = 3" using assms(1,2) by (rule to_string_nat_3)
  have dig: "list_all isdigit (to_string_nat status)" using to_string_nat_digits by (simp add: list_all_iff)
  show ?thesis
    using assms(3) len dig
    by (simp add: parse_response_line_def response_line_def Let_def list_all_iff numeral_eq_Suc)
qed

definition plain_reason :: "string \<Rightarrow> bool" where
  "plain_reason reason \<longleftrightarrow> list_all (\<lambda>c. c \<noteq> CR \<and> c \<noteq> LF \<and> c \<noteq> NUL) reason \<and> length reason \<le> 1000"

lemma isdigit_facts: "isdigit c \<Longrightarrow> c \<noteq> CR \<and> c \<noteq> LF \<and> c \<noteq> NUL"
  by (auto simp: isdigit_def byte_def)

lemma response_line_text:
  assumes "100 \<le> status" "status < 1000" "plain_reason reason"
  shows "LF \<notin> set (response_line status reason)" "NUL \<notin> set (response_line status reason @ crlf)"
    "length (response_line status reason) + 2 \<le> MAX_LINE_LENGTH"
  using assms to_string_nat_digits [of status] to_string_nat_3 [OF assms(1,2)]
  by (auto simp: response_line_def plain_reason_def list_all_iff MAX_LINE_LENGTH_def dest: isdigit_facts)

context readable_stream
begin

lemma read_response_line_ok:
  assumes "good s" "pending s = response_line status reason @ crlf @ rest" "100 < status" "status < 1000"
    "plain_reason reason"
  shows "\<exists>s'. read_response_line strm req res s =
      Some (True, res\<lparr>rs_version := ''HTTP/1.1'', rs_status := int status, rs_reason := reason\<rparr>, s') \<and>
    good s' \<and> pending s' = rest"
proof -
  have st: "100 \<le> status" using assms(3) by simp
  note lt = response_line_text [OF st assms(4,5)]
  from getline_text [OF assms(1,2) lt(1,3), of "new_line_reader 2048"] obtain r s' where
    g: "getline strm (new_line_reader 2048) s = (True, r, s')" "good s'" "lr_ptr r = response_line status reason @ crlf"
      "pending s' = rest" by blast
  have m: "parse_response_line (c_str (lr_ptr r)) = Some (''HTTP/1.1'', int status, reason)"
    using parse_response_line_ok [OF st assms(4)] assms(5) c_str_id [OF lt(2)] g(3)
    by (simp add: plain_reason_def list_all_iff)
  show ?thesis
    using g m assms(3) by (simp add: read_response_line_def set_response_line_def skip_continue.simps)
qed

lemma skip_continue_returns:
  "good s \<Longrightarrow> \<exists>ok res' s'. skip_continue strm r res s = Some (ok, res', s') \<and> later s s'"
proof (induction "length (pending s)" arbitrary: s r res rule: less_induct)
  case less
  obtain ok1 r1 s1 where g1: "getline strm r s = (ok1, r1, s1)" by (metis prod_cases3)
  obtain ok2 r2 s2 where g2: "getline strm r1 s1 = (ok2, r2, s2)" by (metis prod_cases3)
  have l1: "later s s1" using getline_later [OF less.prems g1] by simp
  have l2: "later s1 s2" "ok2 \<longrightarrow> length (pending s2) < length (pending s1)"
    using getline_later [OF _ g2] l1 by (simp_all add: reads_to_def)
  note l12 = reads_to_trans [OF l1 l2(1)]
  have "(\<exists>ok res' s'. skip_continue strm r res s = Some (ok, res', s') \<and> s' \<in> {s, s1, s2}) \<or>
      (\<exists>m. ok2 \<and> skip_continue strm r res s = skip_continue strm r2 (set_response_line m res) s2)"
    using g1 g2 by (subst (1 2) skip_continue.simps) (auto split: option.splits; blast)
  then show ?case
  proof
    assume "\<exists>m. ok2 \<and> skip_continue strm r res s = skip_continue strm r2 (set_response_line m res) s2"
    moreover have "good s2" using l12 by (simp add: reads_to_def)
    moreover have "length (pending s2) < length (pending s)" if ok2
      using l2(2) that reads_to_length [OF l1] by simp
    ultimately show ?thesis using less.hyps [of s2 r2] reads_to_trans [OF l12] by metis
  next
    assume "\<exists>ok res' s'. skip_continue strm r res s = Some (ok, res', s') \<and> s' \<in> {s, s1, s2}"
    then show ?thesis using later_refl [OF less.prems] l1 l12 by blast
  qed
qed

lemma read_response_line_returns:
  assumes "good s"
  shows "\<exists>ok res' s'. read_response_line strm req res s = Some (ok, res', s') \<and> later s s'"
proof -
  obtain ok r s1 where g: "getline strm (new_line_reader 2048) s = (ok, r, s1)" by (metis prod_cases3)
  have l: "later s s1" using getline_later [OF assms g] by simp
  then have "good s1" by (simp add: reads_to_def)
  from skip_continue_returns [OF this] show ?thesis
    using g l reads_to_trans [OF l] by (auto simp: read_response_line_def split: option.splits) blast
qed

end

end
