(* ===== verification/Http_Client.thy ===== *)
theory Http_Client
  imports Http_Message
begin

text \<open>
  The HTTP client of \<^verbatim>\<open>src/CPPTools/include/httplib.h\<close>: the class \<open>ClientImpl\<close> with its settings and
  its socket, sending a request and receiving the response, redirects, and the \<open>Get\<close> functions the
  program calls.

  The sockets of the machine are a parameter, the record \<open>World\<close>: connecting (\<open>create_client_socket\<close>
  over the resolver and \<open>connect\<close>), the operations on an open socket, shutting down and closing.
  One thread uses a client at a time, as the request mutex enforces; memory is not exhausted.
  A result in \<^typ>\<open>(exn + 'a) option\<close> is \<^term>\<open>None\<close> for a call that never returns, \<^term>\<open>Some (Inl e)\<close> for one
  that throws and \<^term>\<open>Some (Inr x)\<close> for one that returns.
\<close>

section \<open>The client object\<close>

text \<open>What a connection is opened with.\<close>

record ConnectTo =
  ct_host :: string
  ct_ip :: string
  ct_port :: int
  ct_address_family :: int
  ct_tcp_nodelay :: bool
  ct_ipv6_v6only :: bool
  ct_connection_timeout :: "int \<times> int"
  ct_read_timeout :: "int \<times> int"
  ct_write_timeout :: "int \<times> int"
  ct_interface :: string

record 'w World =
  w_connect :: "ConnectTo \<Rightarrow> 'w \<Rightarrow> (Error + nat) \<times> 'w"
  w_os :: "nat \<Rightarrow> 'w Os"
  w_shutdown :: "nat \<Rightarrow> 'w \<Rightarrow> 'w"
  w_close :: "nat \<Rightarrow> 'w \<Rightarrow> 'w"

record 'u ClientImpl =
  cl_host :: string
  cl_port :: int
  cl_host_and_port :: string
  cl_socket :: "nat option"
  cl_requests_in_flight :: nat
  cl_should_be_closed :: bool
  cl_addr_map :: "string \<rightharpoonup> string"
  cl_default_headers :: Headers
  cl_header_writer :: "Headers \<Rightarrow> BufferStream \<Rightarrow> BufferStream"
  cl_client_cert_path :: string
  cl_client_key_path :: string
  cl_connection_timeout_sec :: int
  cl_connection_timeout_usec :: int
  cl_read_timeout_sec :: int
  cl_read_timeout_usec :: int
  cl_write_timeout_sec :: int
  cl_write_timeout_usec :: int
  cl_max_timeout_msec :: int
  cl_basic_auth_username :: string
  cl_basic_auth_password :: string
  cl_bearer_token_auth_token :: string
  cl_keep_alive :: bool
  cl_follow_location :: bool
  cl_url_encode :: bool
  cl_address_family :: int
  cl_tcp_nodelay :: bool
  cl_ipv6_v6only :: bool
  cl_compress :: bool
  cl_decompress :: bool
  cl_interface :: string
  cl_proxy_host :: string
  cl_proxy_port :: int
  cl_proxy_basic_auth_username :: string
  cl_proxy_basic_auth_password :: string
  cl_proxy_bearer_token_auth_token :: string
  cl_logger :: "('u Request \<Rightarrow> Response \<Rightarrow> 'u \<Rightarrow> 'u) option"

definition AF_UNSPEC :: int where "AF_UNSPEC = 0"

definition new_ClientImpl_cert :: "string \<Rightarrow> int \<Rightarrow> string \<Rightarrow> string \<Rightarrow> 'u ClientImpl" where
  "new_ClientImpl_cert host port client_cert_path client_key_path =
     (let esc_host = escape_abstract_namespace_unix_domain host in
     \<lparr>cl_host = esc_host, cl_port = port,
      cl_host_and_port = adjust_host_string esc_host @ '':'' @ to_string_int port,
      cl_socket = None, cl_requests_in_flight = 0, cl_should_be_closed = False,
      cl_addr_map = Map.empty, cl_default_headers = [],
      cl_header_writer = (\<lambda>hs s. snd (write_headers BufferStream hs s)),
      cl_client_cert_path = client_cert_path, cl_client_key_path = client_key_path,
      cl_connection_timeout_sec = 300, cl_connection_timeout_usec = 0,
      cl_read_timeout_sec = 300, cl_read_timeout_usec = 0,
      cl_write_timeout_sec = 5, cl_write_timeout_usec = 0, cl_max_timeout_msec = 0,
      cl_basic_auth_username = [], cl_basic_auth_password = [], cl_bearer_token_auth_token = [],
      cl_keep_alive = False, cl_follow_location = False, cl_url_encode = True,
      cl_address_family = AF_UNSPEC, cl_tcp_nodelay = False, cl_ipv6_v6only = False,
      cl_compress = False, cl_decompress = True, cl_interface = [],
      cl_proxy_host = [], cl_proxy_port = - 1,
      cl_proxy_basic_auth_username = [], cl_proxy_basic_auth_password = [],
      cl_proxy_bearer_token_auth_token = [], cl_logger = None\<rparr>)"

definition new_ClientImpl :: "string \<Rightarrow> int \<Rightarrow> 'u ClientImpl" where
  "new_ClientImpl host port = new_ClientImpl_cert host port [] []"

text \<open>\<open>Client::Client(scheme_host_port)\<close> in a build without OpenSSL.\<close>

definition new_Client :: "string \<Rightarrow> exn + 'u ClientImpl" where
  "new_Client scheme_host_port =
     (case parse_scheme_host_port scheme_host_port of
        None \<Rightarrow> Inr (new_ClientImpl scheme_host_port 80)
      | Some (scheme, host, port_str) \<Rightarrow>
          if scheme \<noteq> [] \<and> scheme \<noteq> ''http'' then Inl Invalid_argument
          else if port_str = [] then Inr (new_ClientImpl host 80)
          else
            (case stoi_digits port_str of
               None \<Rightarrow> Inl Out_of_range
             | Some port \<Rightarrow> Inr (new_ClientImpl host port)))"

definition copy_settings :: "'u ClientImpl \<Rightarrow> 'u ClientImpl \<Rightarrow> 'u ClientImpl" where
  "copy_settings rhs cl = cl\<lparr>
     cl_client_cert_path := cl_client_cert_path rhs,
     cl_client_key_path := cl_client_key_path rhs,
     cl_connection_timeout_sec := cl_connection_timeout_sec rhs,
     cl_read_timeout_sec := cl_read_timeout_sec rhs,
     cl_read_timeout_usec := cl_read_timeout_usec rhs,
     cl_write_timeout_sec := cl_write_timeout_sec rhs,
     cl_write_timeout_usec := cl_write_timeout_usec rhs,
     cl_max_timeout_msec := cl_max_timeout_msec rhs,
     cl_basic_auth_username := cl_basic_auth_username rhs,
     cl_basic_auth_password := cl_basic_auth_password rhs,
     cl_bearer_token_auth_token := cl_bearer_token_auth_token rhs,
     cl_keep_alive := cl_keep_alive rhs,
     cl_follow_location := cl_follow_location rhs,
     cl_url_encode := cl_url_encode rhs,
     cl_address_family := cl_address_family rhs,
     cl_tcp_nodelay := cl_tcp_nodelay rhs,
     cl_ipv6_v6only := cl_ipv6_v6only rhs,
     cl_compress := cl_compress rhs,
     cl_decompress := cl_decompress rhs,
     cl_interface := cl_interface rhs,
     cl_proxy_host := cl_proxy_host rhs,
     cl_proxy_port := cl_proxy_port rhs,
     cl_proxy_basic_auth_username := cl_proxy_basic_auth_username rhs,
     cl_proxy_basic_auth_password := cl_proxy_basic_auth_password rhs,
     cl_proxy_bearer_token_auth_token := cl_proxy_bearer_token_auth_token rhs,
     cl_logger := cl_logger rhs\<rparr>"

text \<open>Whether requests go through a proxy.\<close>

definition has_proxy :: "'u ClientImpl \<Rightarrow> bool" where
  "has_proxy cl \<longleftrightarrow> cl_proxy_host cl \<noteq> [] \<and> cl_proxy_port cl \<noteq> - 1"

definition create_client_socket :: "'w World \<Rightarrow> 'u ClientImpl \<Rightarrow> 'w \<Rightarrow> (Error + nat) \<times> 'w" where
  "create_client_socket W cl w =
     (let (host, ip, port) =
            (if has_proxy cl then (cl_proxy_host cl, [], cl_proxy_port cl)
             else (cl_host cl, (case cl_addr_map cl (cl_host cl) of None \<Rightarrow> [] | Some ip \<Rightarrow> ip), cl_port cl))
      in w_connect W
           \<lparr>ct_host = host, ct_ip = ip, ct_port = port, ct_address_family = cl_address_family cl,
            ct_tcp_nodelay = cl_tcp_nodelay cl, ct_ipv6_v6only = cl_ipv6_v6only cl,
            ct_connection_timeout = (cl_connection_timeout_sec cl, cl_connection_timeout_usec cl),
            ct_read_timeout = (cl_read_timeout_sec cl, cl_read_timeout_usec cl),
            ct_write_timeout = (cl_write_timeout_sec cl, cl_write_timeout_usec cl),
            ct_interface = cl_interface cl\<rparr> w)"

text \<open>\<open>shutdown_ssl\<close> (which does nothing here), \<open>shutdown_socket\<close> and \<open>close_socket\<close>, always called together.\<close>

definition disconnect :: "'w World \<Rightarrow> 'u ClientImpl \<Rightarrow> 'w \<Rightarrow> 'u ClientImpl \<times> 'w" where
  "disconnect W cl w =
     (case cl_socket cl of
        None \<Rightarrow> (cl, w)
      | Some n \<Rightarrow> (cl\<lparr>cl_socket := None\<rparr>, w_close W n (w_shutdown W n w)))"

section \<open>Writing a request\<close>

definition set_header_if_absent :: "string \<Rightarrow> string \<Rightarrow> 'u Request \<Rightarrow> 'u Request" where
  "set_header_if_absent key val req = (if rq_has_header req key then req else rq_set_header key val req)"

definition insert_header_if_absent :: "string \<times> string \<Rightarrow> 'u Request \<Rightarrow> 'u Request" where
  "insert_header_if_absent kv req =
     (if rq_has_header req (fst kv) then req
      else req\<lparr>rq_headers := headers_emplace (fst kv) (snd kv) (rq_headers req)\<rparr>)"

definition CPPHTTPLIB_VERSION :: string where "CPPHTTPLIB_VERSION = ''0.22.0''"

text \<open>The first part of \<open>write_request\<close>: the headers it adds, in three groups.\<close>

definition general_headers :: "'u ClientImpl \<Rightarrow> bool \<Rightarrow> 'u Request \<Rightarrow> 'u Request" where
  "general_headers cl close_connection req =
     (let req = (if close_connection then set_header_if_absent ''Connection'' ''close'' req else req);
          req = set_header_if_absent ''Host'' (if cl_port cl = 80 then cl_host cl else cl_host_and_port cl) req;
          req = set_header_if_absent ''Accept'' ''*/*'' req
      in (if rq_content_receiver req = None
          then set_header_if_absent ''User-Agent'' (''cpp-httplib/'' @ CPPHTTPLIB_VERSION)
                 (set_header_if_absent ''Accept-Encoding'' [] req)
          else req))"

definition body_headers :: "'u Request \<Rightarrow> 'u Request" where
  "body_headers req =
     (if rq_body req = [] then
        (if rq_content_provider req \<noteq> None then
           (if \<not> rq_is_chunked_content_provider req
            then set_header_if_absent ''Content-Length'' (to_string_nat (rq_content_length req)) req
            else req)
         else if rq_method req \<in> {''POST'', ''PUT'', ''PATCH''}
         then rq_set_header ''Content-Length'' ''0'' req
         else req)
      else
        set_header_if_absent ''Content-Length'' (to_string_nat (length (rq_body req)))
          (set_header_if_absent ''Content-Type'' ''text/plain'' req))"

definition auth_headers :: "'u ClientImpl \<Rightarrow> 'u Request \<Rightarrow> 'u Request" where
  "auth_headers cl req =
     (let req = (if cl_basic_auth_password cl \<noteq> [] \<or> cl_basic_auth_username cl \<noteq> []
                 then insert_header_if_absent (make_basic_authentication_header
                        (cl_basic_auth_username cl) (cl_basic_auth_password cl) False) req
                 else req);
          req = (if cl_proxy_basic_auth_username cl \<noteq> [] \<and> cl_proxy_basic_auth_password cl \<noteq> []
                 then insert_header_if_absent (make_basic_authentication_header
                        (cl_proxy_basic_auth_username cl) (cl_proxy_basic_auth_password cl) True) req
                 else req);
          req = (if cl_bearer_token_auth_token cl \<noteq> []
                 then insert_header_if_absent (make_bearer_token_authentication_header
                        (cl_bearer_token_auth_token cl) False) req
                 else req)
      in (if cl_proxy_bearer_token_auth_token cl \<noteq> []
          then insert_header_if_absent (make_bearer_token_authentication_header
                 (cl_proxy_bearer_token_auth_token cl) True) req
          else req))"

definition prepare_headers :: "'u ClientImpl \<Rightarrow> bool \<Rightarrow> 'u Request \<Rightarrow> 'u Request" where
  "prepare_headers cl close_connection req =
     auth_headers cl (body_headers (general_headers cl close_connection req))"

text \<open>The buffered request line and headers.\<close>

definition request_head :: "'u ClientImpl \<Rightarrow> 'u Request \<Rightarrow> bytes" where
  "request_head cl req =
     (let path_with_query =
            (if rq_params req = [] then rq_path req else append_query_params (rq_path req) (rq_params req));
          path = (if cl_url_encode cl then encode_url path_with_query else path_with_query);
          b = snd (write_request_line BufferStream (rq_method req) path new_BufferStream)
      in bs_buffer (cl_header_writer cl (rq_headers req) b))"

text \<open>Without a provider the length is 0 and the sink is never called, so the provider that stands for an
  empty \<open>std::function\<close> does not matter.\<close>

definition write_content_with_provider ::
  "'s Stream \<Rightarrow> 'u Request \<Rightarrow> 's \<Rightarrow> 'u \<Rightarrow> (exn + bool \<times> Error \<times> 'u \<times> 's sink_state) option" where
  "write_content_with_provider strm req s u =
     (let provider = (case rq_content_provider req of Some f \<Rightarrow> f | None \<Rightarrow> (\<lambda>off len u. Return False u))
      in if rq_is_chunked_content_provider req
         then write_content_chunked strm provider (\<lambda>u. (False, u)) s u
         else write_content_with_progress strm provider 0 (rq_content_length req) (\<lambda>u. (False, u))
                (rq_upload_progress req) s u)"

definition SEND_BUFSIZ :: nat where "SEND_BUFSIZ = 16384"

partial_function (option) write_body_with_progress ::
  "'s Stream \<Rightarrow> 'u progress \<Rightarrow> bytes \<Rightarrow> nat \<Rightarrow> Error \<Rightarrow> 's \<Rightarrow> 'u \<Rightarrow> (bool \<times> Error \<times> 's \<times> 'u) option" where
  "write_body_with_progress strm upload_progress data written error s u =
     (if written < length data then do {
        (ok, s) \<leftarrow> write_data strm (take (min SEND_BUFSIZ (length data - written)) (drop written data)) s;
        (if \<not> ok then Some (False, Write, s, u)
         else
           let written = written + min SEND_BUFSIZ (length data - written) in
           (case upload_progress written (length data) u of (go, u) \<Rightarrow>
              if \<not> go then Some (False, Canceled, s, u)
              else write_body_with_progress strm upload_progress data written error s u))
      }
      else Some (True, error, s, u))"

definition write_request ::
  "'s Stream \<Rightarrow> 'u ClientImpl \<Rightarrow> bool \<Rightarrow> 'u Request \<Rightarrow> Error \<Rightarrow> 's \<Rightarrow> 'u \<Rightarrow>
     (exn + bool \<times> 'u Request \<times> Error \<times> 's \<times> 'u) option" where
  "write_request strm cl close_connection req error s u =
     (let req = prepare_headers cl close_connection req in do {
        (ok, s) \<leftarrow> write_data strm (request_head cl req) s;
        (if \<not> ok then Some (Inr (False, req, Write, s, u))
         else if rq_body req = [] then do {
           r \<leftarrow> write_content_with_provider strm req s u;
           (case r of
              Inl e \<Rightarrow> Some (Inl e)
            | Inr (ok, error, u, st) \<Rightarrow> Some (Inr (ok, req, error, sk_strm st, u)))
         }
         else
           (case rq_upload_progress req of
              Some f \<Rightarrow> do {
                (ok, error, s, u) \<leftarrow> write_body_with_progress strm f (rq_body req) 0 error s u;
                Some (Inr (ok, req, error, s, u))
              }
            | None \<Rightarrow> do {
                (ok, s) \<leftarrow> write_data strm (rq_body req) s;
                Some (Inr (ok, req, if ok then error else Write, s, u))
              }))
      })"

section \<open>Receiving the response: \<open>process_request\<close>\<close>

text \<open>What the two lambdas of \<open>process_request\<close> write to: the body, the error and the state of the
  application's callbacks.\<close>

type_synonym 'u body_state = "string \<times> Error \<times> 'u"

definition response_receiver :: "'u Request \<Rightarrow> bool \<Rightarrow> 'u body_state receiver" where
  "response_receiver req redirect =
     (case rq_content_receiver req of
        Some f \<Rightarrow> (\<lambda>buf off len (body, error, u).
          if redirect then (True, (body, error, u))
          else (case f buf off len u of (ret, u) \<Rightarrow> (ret, (body, if ret then error else Canceled, u))))
      | None \<Rightarrow> (\<lambda>buf off len (body, error, u). (True, (body @ buf, error, u))))"

definition response_progress :: "'u Request \<Rightarrow> bool \<Rightarrow> 'u body_state progress" where
  "response_progress req redirect current tot =
     (\<lambda>(body, error, u).
        case rq_download_progress req of
          None \<Rightarrow> (True, (body, error, u))
        | Some f \<Rightarrow>
            if redirect then (True, (body, error, u))
            else (case f current tot u of (ret, u) \<Rightarrow> (ret, (body, if ret then error else Canceled, u))))"

definition STRING_MAX_SIZE :: nat where
  \<comment> \<open>\<open>res.body.max_size()\<close>\<close>
  "STRING_MAX_SIZE = 2 ^ 63 - 1"

definition SIZE_T_MAX :: nat where "SIZE_T_MAX = 2 ^ 64 - 1"

text \<open>The body part of \<open>process_request\<close>.\<close>

definition receive_body ::
  "'s Stream \<Rightarrow> 'u ClientImpl \<Rightarrow> 'u Request \<Rightarrow> Response \<Rightarrow> Error \<Rightarrow> 's \<Rightarrow> 'u \<Rightarrow>
     (bool \<times> Response \<times> Error \<times> 's \<times> 'u) option" where
  "receive_body strm cl req res error s u =
     (let redirect = (300 < rs_status res \<and> rs_status res < 400 \<and> rs_status res \<noteq> NotModified_304 \<and>
            cl_follow_location cl);
          (go, u) = (case rq_response_handler req of
                       Some h \<Rightarrow> if redirect then (True, u) else h res u
                     | None \<Rightarrow> (True, u))
      in if \<not> go then Some (False, res, Canceled, s, u)
         else if rs_has_header res ''Content-Length'' \<and> rq_content_receiver req = None \<and>
                 rs_get_header_value_u64 res ''Content-Length'' > STRING_MAX_SIZE
         then Some (False, res, Read, s, u)
         else if rs_status res = NotModified_304 then Some (True, res, error, s, u)
         else do {
           (ok, status, hs, s, (body, error, u)) \<leftarrow>
             read_content strm (rs_headers res) SIZE_T_MAX 0 (Some (response_progress req redirect))
               (response_receiver req redirect) (cl_decompress cl) s (rs_body res, error, u);
           let res = res\<lparr>rs_headers := hs, rs_body := body\<rparr>
           in if ok then Some (True, res, error, s, u)
              else Some (False, res, if error \<noteq> Canceled then Read else error, s, u)
         })"

definition process_request ::
  "'s Stream \<Rightarrow> 'u ClientImpl \<Rightarrow> bool \<Rightarrow> 'u Request \<Rightarrow> Response \<Rightarrow> Error \<Rightarrow> 's \<Rightarrow> 'u \<Rightarrow>
     (exn + bool \<times> 'u Request \<times> Response \<times> Error \<times> 's \<times> 'u) option" where
  "process_request strm cl close_connection req res error s u = do {
     r \<leftarrow> write_request strm cl close_connection req error s u;
     (case r of
        Inl e \<Rightarrow> Some (Inl e)
      | Inr (ok, req, error, s, u) \<Rightarrow>
          if \<not> ok then Some (Inr (False, req, res, error, s, u))
          else do {
            (ok, res, s) \<leftarrow> read_response_line strm req res s;
            (if \<not> ok then Some (Inr (False, req, res, Read, s, u))
             else do {
               (ok, hs, s) \<leftarrow> read_headers strm (rs_headers res) s;
               let res = res\<lparr>rs_headers := hs\<rparr>
               in if \<not> ok then Some (Inr (False, req, res, Read, s, u))
                  else do {
                    (ok, res, error, s, u) \<leftarrow>
                      (if rs_status res \<noteq> NoContent_204 \<and> rq_method req \<noteq> ''HEAD'' \<and> rq_method req \<noteq> ''CONNECT''
                       then receive_body strm cl req res error s u
                       else Some (True, res, error, s, u));
                    (if \<not> ok then Some (Inr (False, req, res, error, s, u))
                     else Some (Inr (True, req, res, error, s,
                            case cl_logger cl of None \<Rightarrow> u | Some log \<Rightarrow> log req res u)))
                  }
             })
          })
   }"

section \<open>Sending: \<open>send\<close>, \<open>handle_request\<close>, \<open>redirect\<close>\<close>

text \<open>What a call of \<open>send\<close> works on, by reference or as \<open>*this\<close>.\<close>

record ('u, 'w) Frame =
  f_req :: "'u Request"
  f_res :: Response
  f_err :: Error
  f_cl :: "'u ClientImpl"
  f_w :: 'w
  f_u :: 'u

definition setup_redirect_client :: "'u ClientImpl \<Rightarrow> 'u ClientImpl \<Rightarrow> 'u ClientImpl" where
  "setup_redirect_client this client =
     (let client = client\<lparr>
            cl_connection_timeout_sec := cl_connection_timeout_sec this, cl_connection_timeout_usec := 0,
            cl_read_timeout_sec := cl_read_timeout_sec this, cl_read_timeout_usec := cl_read_timeout_usec this,
            cl_write_timeout_sec := cl_write_timeout_sec this, cl_write_timeout_usec := cl_write_timeout_usec this,
            cl_keep_alive := cl_keep_alive this, cl_follow_location := True,
            cl_url_encode := cl_url_encode this, cl_compress := cl_compress this,
            cl_decompress := cl_decompress this\<rparr>;
          client = (if cl_basic_auth_username this \<noteq> []
                    then client\<lparr>cl_basic_auth_username := cl_basic_auth_username this,
                                cl_basic_auth_password := cl_basic_auth_password this\<rparr> else client);
          client = (if cl_bearer_token_auth_token this \<noteq> []
                    then client\<lparr>cl_bearer_token_auth_token := cl_bearer_token_auth_token this\<rparr> else client);
          client =
            (if has_proxy this then
               let client = client\<lparr>cl_proxy_host := cl_proxy_host this, cl_proxy_port := cl_proxy_port this\<rparr>;
                   client = (if cl_proxy_basic_auth_username this \<noteq> []
                             then client\<lparr>cl_proxy_basic_auth_username := cl_proxy_basic_auth_username this,
                                         cl_proxy_basic_auth_password := cl_proxy_basic_auth_password this\<rparr>
                             else client)
               in (if cl_proxy_bearer_token_auth_token this \<noteq> []
                   then client\<lparr>cl_proxy_bearer_token_auth_token := cl_proxy_bearer_token_auth_token this\<rparr>
                   else client)
             else client);
          client = client\<lparr>cl_address_family := cl_address_family this, cl_tcp_nodelay := cl_tcp_nodelay this,
                          cl_ipv6_v6only := cl_ipv6_v6only this\<rparr>;
          client = (if cl_interface this \<noteq> [] then client\<lparr>cl_interface := cl_interface this\<rparr> else client)
      in (case cl_logger this of None \<Rightarrow> client | Some l \<Rightarrow> client\<lparr>cl_logger := Some l\<rparr>))"

text \<open>\<open>detail::redirect\<close>; \<open>snd_req\<close> is the member function \<open>send\<close>.\<close>

type_synonym ('u, 'w) sender = "('u, 'w) Frame \<Rightarrow> (exn + bool \<times> ('u, 'w) Frame) option"

definition detail_redirect :: "('u, 'w) sender \<Rightarrow> string \<Rightarrow> string \<Rightarrow> ('u, 'w) sender" where
  "detail_redirect snd_req path location fr =
     (let new_req = (f_req fr)\<lparr>rq_path := path, rq_redirect_count := rq_redirect_count (f_req fr) - 1\<rparr>;
          new_req = (if rs_status (f_res fr) = SeeOther_303 \<and> rq_method (f_req fr) \<noteq> ''GET'' \<and>
                        rq_method (f_req fr) \<noteq> ''HEAD''
                     then new_req\<lparr>rq_method := ''GET'', rq_body := [], rq_headers := []\<rparr> else new_req)
      in do {
        r \<leftarrow> snd_req (fr\<lparr>f_req := new_req, f_res := new_Response\<rparr>);
        (case r of
           Inl e \<Rightarrow> Some (Inl e)
         | Inr (ret, fr') \<Rightarrow>
             if ret then
               Some (Inr (True, fr'\<lparr>f_res := (if rs_location (f_res fr') = []
                                             then (f_res fr')\<lparr>rs_location := location\<rparr> else f_res fr')\<rparr>))
             else Some (Inr (False, fr'\<lparr>f_req := f_req fr, f_res := f_res fr\<rparr>)))
      })"

text \<open>The temporary client of a redirect to another host is destroyed at the end, which closes its socket.\<close>

definition create_redirect_client ::
  "'w World \<Rightarrow> ('u, 'w) sender \<Rightarrow> string \<Rightarrow> string \<Rightarrow> int \<Rightarrow> string \<Rightarrow> string \<Rightarrow> ('u, 'w) sender" where
  "create_redirect_client W snd_req scheme host port path location fr =
     (let req = (f_req fr)\<lparr>rq_headers := headers_erase ''Authorization'' (headers_erase ''Proxy-Authorization''
                    (headers_erase ''Host'' (rq_headers (f_req fr))))\<rparr>
      in if scheme = ''https'' then Some (Inr (False, fr\<lparr>f_req := req, f_err := SSLConnection\<rparr>))
         else do {
           r \<leftarrow> detail_redirect snd_req path location
                 (fr\<lparr>f_req := req, f_cl := setup_redirect_client (f_cl fr) (new_ClientImpl host port)\<rparr>);
           (case r of
              Inl e \<Rightarrow> Some (Inl e)
            | Inr (ret, fr') \<Rightarrow>
                Some (Inr (ret, fr'\<lparr>f_cl := f_cl fr, f_w := snd (disconnect W (f_cl fr') (f_w fr'))\<rparr>)))
         })"

text \<open>Where a redirect leads: scheme, host, port and path.\<close>

definition redirect_target ::
  "'u ClientImpl \<Rightarrow> string \<Rightarrow> exn + (string \<times> string \<times> int \<times> string) option" where
  "redirect_target cl location =
     (case parse_location location of
        None \<Rightarrow> Inr None
      | Some (next_scheme, next_host, port_str, next_path, next_query) \<Rightarrow>
          let port = (if port_str \<noteq> [] then stoi_digits port_str
                      else if next_scheme \<noteq> [] then Some (if next_scheme = ''https'' then 443 else 80)
                      else Some (cl_port cl)) in
          (case port of
             None \<Rightarrow> Inl Out_of_range
           | Some next_port \<Rightarrow>
               let next_scheme = (if next_scheme = [] then ''http'' else next_scheme);
                   next_host = (if next_host = [] then cl_host cl else next_host);
                   next_path = (if next_path = [] then ''/'' else next_path)
               in Inr (Some (next_scheme, next_host, next_port, decode_url next_path True @ next_query))))"

definition redirect :: "'w World \<Rightarrow> ('u, 'w) sender \<Rightarrow> ('u, 'w) sender" where
  "redirect W snd_req fr =
     (if rq_redirect_count (f_req fr) = 0 then Some (Inr (False, fr\<lparr>f_err := ExceedRedirectCount\<rparr>))
      else
        let location = rs_get_header_value (f_res fr) ''location'' in
        if location = [] then Some (Inr (False, fr))
        else
          (case redirect_target (f_cl fr) location of
             Inl e \<Rightarrow> Some (Inl e)
           | Inr None \<Rightarrow> Some (Inr (False, fr))
           | Inr (Some (scheme, host, port, path)) \<Rightarrow>
               if scheme = ''http'' \<and> host = cl_host (f_cl fr) \<and> port = cl_port (f_cl fr)
               then detail_redirect snd_req path location fr
               else create_redirect_client W snd_req scheme host port path location fr))"

definition handle_request :: "'w World \<Rightarrow> ('u, 'w) sender \<Rightarrow> bool \<Rightarrow> nat \<Rightarrow> ('u, 'w) sender" where
  "handle_request W snd_req close_connection sock fr =
     (if rq_path (f_req fr) = [] then Some (Inr (False, fr\<lparr>f_err := Connection\<rparr>))
      else
        let req_save = f_req fr;
            cl = f_cl fr;
            req2 = (if has_proxy cl then req_save\<lparr>rq_path := ''http://'' @ cl_host_and_port cl @ rq_path req_save\<rparr>
                    else req_save)
        in do {
          r \<leftarrow> process_request (SocketStream (w_os W sock)) cl close_connection req2 (f_res fr) (f_err fr)
                (new_SocketStream (f_w fr)) (f_u fr);
          (case r of
             Inl e \<Rightarrow> Some (Inl e)
           | Inr (ret, req, res, error, s, u) \<Rightarrow>
               let fr = fr\<lparr>f_req := req\<lparr>rq_path := rq_path req_save\<rparr>, f_res := res, f_err := error,
                          f_w := ss_sock s, f_u := u\<rparr>
               in if \<not> ret then Some (Inr (False, fr))
                  else
                    let (cl, w) =
                          (if rs_get_header_value res ''Connection'' = ''close'' \<or>
                              (rs_version res = ''HTTP/1.0'' \<and> rs_reason res \<noteq> ''Connection established'')
                           then disconnect W (f_cl fr) (f_w fr) else (f_cl fr, f_w fr));
                        fr = fr\<lparr>f_cl := cl, f_w := w\<rparr>
                    in if 300 < rs_status res \<and> rs_status res < 400 \<and> cl_follow_location cl
                       then redirect W snd_req (fr\<lparr>f_req := req_save\<rparr>)
                       else Some (Inr (True, fr)))
        })"

text \<open>The first critical section of \<open>send_\<close>: an open socket that is still alive, or a new one.\<close>

definition acquire_socket :: "'w World \<Rightarrow> ('u, 'w) Frame \<Rightarrow> nat option \<times> ('u, 'w) Frame" where
  "acquire_socket W fr =
     (let cl = (f_cl fr)\<lparr>cl_should_be_closed := False\<rparr>;
          alive = (case cl_socket cl of
                     None \<Rightarrow> None
                   | Some n \<Rightarrow> if os_is_socket_alive (w_os W n) (f_w fr) then Some n else None);
          (cl, w) = (if alive = None then disconnect W cl (f_w fr) else (cl, f_w fr))
      in case alive of
           Some n \<Rightarrow>
             (Some n, fr\<lparr>f_cl := cl\<lparr>cl_requests_in_flight := cl_requests_in_flight cl + 1\<rparr>, f_w := w\<rparr>)
         | None \<Rightarrow>
             (case create_client_socket W cl w of
                (Inl e, w) \<Rightarrow> (None, fr\<lparr>f_cl := cl, f_w := w, f_err := e\<rparr>)
              | (Inr n, w) \<Rightarrow>
                  (Some n, fr\<lparr>f_cl := cl\<lparr>cl_socket := Some n,
                                         cl_requests_in_flight := cl_requests_in_flight cl + 1\<rparr>,
                             f_w := w, f_err := Success\<rparr>)))"

definition add_default_headers :: "'u ClientImpl \<Rightarrow> 'u Request \<Rightarrow> 'u Request" where
  "add_default_headers cl req =
     fold (\<lambda>(k, v) req. if rq_has_header req k then req
                       else req\<lparr>rq_headers := headers_emplace k v (rq_headers req)\<rparr>)
       (cl_default_headers cl) req"

definition send_once :: "'w World \<Rightarrow> ('u, 'w) sender \<Rightarrow> ('u, 'w) sender" where
  \<comment> \<open>\<open>bool send_(Request &, Response &, Error &)\<close>\<close>
  "send_once W snd_req fr =
     (case acquire_socket W fr of
        (None, fr) \<Rightarrow> Some (Inr (False, fr))
      | (Some sock, fr) \<Rightarrow>
          let fr = fr\<lparr>f_req := add_default_headers (f_cl fr) (f_req fr)\<rparr>;
              close_connection = (\<not> cl_keep_alive (f_cl fr))
          in do {
            r \<leftarrow> handle_request W snd_req close_connection sock fr;
            (case r of
               Inl e \<Rightarrow> Some (Inl e)
             | Inr (ret, fr) \<Rightarrow>
                 let fr = fr\<lparr>f_err := (if \<not> ret \<and> f_err fr = Success then Unknown else f_err fr)\<rparr>;
                     cl = (f_cl fr)\<lparr>cl_requests_in_flight := cl_requests_in_flight (f_cl fr) - 1\<rparr>;
                     (cl, w) = (if cl_should_be_closed cl \<or> close_connection \<or> \<not> ret
                                then disconnect W cl (f_w fr) else (cl, f_w fr))
                 in Some (Inr (ret, fr\<lparr>f_cl := cl, f_w := w\<rparr>)))
          })"

definition send_retry :: "'w World \<Rightarrow> ('u, 'w) sender \<Rightarrow> ('u, 'w) sender" where
  \<comment> \<open>\<open>bool send(Request &, Response &, Error &)\<close>\<close>
  "send_retry W snd_req fr = do {
     r \<leftarrow> send_once W snd_req fr;
     (case r of
        Inl e \<Rightarrow> Some (Inl e)
      | Inr (ret, fr) \<Rightarrow>
          if f_err fr = SSLPeerCouldBeClosed then send_once W snd_req fr else Some (Inr (ret, fr)))
   }"

text \<open>A redirect calls \<open>send\<close> again with one redirect less, and with none left it does not: the number of
  redirects left bounds the depth of the calls.\<close>

primrec send_n :: "'w World \<Rightarrow> nat \<Rightarrow> ('u, 'w) sender" where
  "send_n W 0 = send_retry W (\<lambda>fr. None)"
| "send_n W (Suc n) = send_retry W (send_n W n)"

definition send :: "'w World \<Rightarrow> ('u, 'w) sender" where
  "send W fr = send_n W (rq_redirect_count (f_req fr)) fr"

text \<open>\<open>Result send_(Request &&)\<close>.\<close>

definition send_result ::
  "'w World \<Rightarrow> 'u ClientImpl \<Rightarrow> 'u Request \<Rightarrow> 'w \<Rightarrow> 'u \<Rightarrow> (exn + Result \<times> 'u ClientImpl \<times> 'w \<times> 'u) option" where
  "send_result W cl req w u = do {
     r \<leftarrow> send W \<lparr>f_req = req, f_res = new_Response, f_err = Success, f_cl = cl, f_w = w, f_u = u\<rparr>;
     (case r of
        Inl e \<Rightarrow> Some (Inl e)
      | Inr (ret, fr) \<Rightarrow>
          Some (Inr (\<lparr>rt_res = (if ret then Some (f_res fr) else None), rt_err = f_err fr,
                     rt_request_headers = rq_headers (f_req fr)\<rparr>, f_cl fr, f_w fr, f_u fr)))
   }"

section \<open>\<open>Get\<close> and \<open>Head\<close>\<close>

type_synonym ('u, 'w) call = "'w \<Rightarrow> 'u \<Rightarrow> (exn + Result \<times> 'u ClientImpl \<times> 'w \<times> 'u) option"

definition Get_headers ::
  "'w World \<Rightarrow> 'u ClientImpl \<Rightarrow> string \<Rightarrow> Headers \<Rightarrow> 'u progress option \<Rightarrow> ('u, 'w) call" where
  "Get_headers W cl path headers progress =
     send_result W cl (new_Request\<lparr>rq_method := ''GET'', rq_path := path, rq_headers := headers,
       rq_download_progress := progress\<rparr>)"

definition Get :: "'w World \<Rightarrow> 'u ClientImpl \<Rightarrow> string \<Rightarrow> 'u progress option \<Rightarrow> ('u, 'w) call" where
  "Get W cl path progress = Get_headers W cl path [] progress"

definition Get_params ::
  "'w World \<Rightarrow> 'u ClientImpl \<Rightarrow> string \<Rightarrow> Params \<Rightarrow> Headers \<Rightarrow> 'u progress option \<Rightarrow> ('u, 'w) call" where
  "Get_params W cl path params headers progress =
     (if params = [] then Get_headers W cl path headers None
      else Get_headers W cl (append_query_params path params) headers progress)"

text \<open>\<open>ContentReceiver\<close>: a receiver of bytes only.\<close>

definition Get_handler ::
  "'w World \<Rightarrow> 'u ClientImpl \<Rightarrow> string \<Rightarrow> Headers \<Rightarrow> (Response \<Rightarrow> 'u \<Rightarrow> bool \<times> 'u) option \<Rightarrow>
     (bytes \<Rightarrow> 'u \<Rightarrow> bool \<times> 'u) \<Rightarrow> 'u progress option \<Rightarrow> ('u, 'w) call" where
  "Get_handler W cl path headers response_handler content_receiver progress =
     send_result W cl (new_Request\<lparr>rq_method := ''GET'', rq_path := path, rq_headers := headers,
       rq_response_handler := response_handler,
       rq_content_receiver := Some (\<lambda>data off len u. content_receiver data u),
       rq_download_progress := progress\<rparr>)"

definition Get_receiver ::
  "'w World \<Rightarrow> 'u ClientImpl \<Rightarrow> string \<Rightarrow> (bytes \<Rightarrow> 'u \<Rightarrow> bool \<times> 'u) \<Rightarrow> 'u progress option \<Rightarrow> ('u, 'w) call" where
  "Get_receiver W cl path content_receiver progress =
     Get_handler W cl path [] None content_receiver progress"

definition Get_params_handler ::
  "'w World \<Rightarrow> 'u ClientImpl \<Rightarrow> string \<Rightarrow> Params \<Rightarrow> Headers \<Rightarrow> (Response \<Rightarrow> 'u \<Rightarrow> bool \<times> 'u) option \<Rightarrow>
     (bytes \<Rightarrow> 'u \<Rightarrow> bool \<times> 'u) \<Rightarrow> 'u progress option \<Rightarrow> ('u, 'w) call" where
  "Get_params_handler W cl path params headers response_handler content_receiver progress =
     (if params = [] then Get_handler W cl path headers response_handler content_receiver progress
      else Get_handler W cl (append_query_params path params) headers response_handler content_receiver progress)"

definition Head :: "'w World \<Rightarrow> 'u ClientImpl \<Rightarrow> string \<Rightarrow> Headers \<Rightarrow> ('u, 'w) call" where
  "Head W cl path headers =
     send_result W cl (new_Request\<lparr>rq_method := ''HEAD'', rq_headers := headers, rq_path := path\<rparr>)"

section \<open>Facts: preparing and writing a request\<close>

text \<open>Preparing a request changes nothing but its headers.\<close>

definition but_headers :: "'u Request \<Rightarrow> 'u Request \<Rightarrow> bool" where
  "but_headers req req' \<longleftrightarrow> (\<exists>hs. req' = req\<lparr>rq_headers := hs\<rparr>)"

lemma but_headers_refl: "but_headers req req"
  unfolding but_headers_def by (rule exI [of _ "rq_headers req"]) simp

lemma but_headers_update: "but_headers req r \<Longrightarrow> but_headers req (r\<lparr>rq_headers := hs\<rparr>)"
  by (auto simp: but_headers_def)

lemma but_headers_step:
  assumes "but_headers req r"
  shows "but_headers req (rq_set_header k v r)" "but_headers req (set_header_if_absent k v r)"
    "but_headers req (insert_header_if_absent kv r)"
  using assms by (simp_all add: rq_set_header_def set_header_if_absent_def insert_header_if_absent_def but_headers_update)

lemmas but_headers_intros = but_headers_refl but_headers_step

lemma general_headers_but: "but_headers req (general_headers cl cc req)"
  unfolding general_headers_def by (simp add: Let_def but_headers_intros)

lemma body_headers_but: "but_headers req r \<Longrightarrow> but_headers req (body_headers r)"
  unfolding body_headers_def by (simp add: but_headers_intros)

lemma auth_headers_but: "but_headers req r \<Longrightarrow> but_headers req (auth_headers cl r)"
  unfolding auth_headers_def by (simp add: Let_def but_headers_intros)

lemma prepare_headers_but: "but_headers req (prepare_headers cl cc req)"
  unfolding prepare_headers_def by (intro auth_headers_but body_headers_but general_headers_but)

lemma prepare_headers_fields [simp]:
  "rq_body (prepare_headers cl cc req) = rq_body req"
  "rq_content_provider (prepare_headers cl cc req) = rq_content_provider req"
  "rq_is_chunked_content_provider (prepare_headers cl cc req) = rq_is_chunked_content_provider req"
  "rq_content_length (prepare_headers cl cc req) = rq_content_length req"
  "rq_content_receiver (prepare_headers cl cc req) = rq_content_receiver req"
  "rq_method (prepare_headers cl cc req) = rq_method req"
  "rq_path (prepare_headers cl cc req) = rq_path req"
  "rq_response_handler (prepare_headers cl cc req) = rq_response_handler req"
  "rq_download_progress (prepare_headers cl cc req) = rq_download_progress req"
  "rq_redirect_count (prepare_headers cl cc req) = rq_redirect_count req"
  using prepare_headers_but [of req cl cc] by (auto simp: but_headers_def)

text \<open>A request without a body and without a provider, as \<open>Get\<close> and \<open>Head\<close> make it.\<close>

definition bodyless :: "'u Request \<Rightarrow> bool" where
  "bodyless req \<longleftrightarrow> rq_body req = [] \<and> rq_content_provider req = None \<and> \<not> rq_is_chunked_content_provider req \<and>
     rq_content_length req = 0"

lemma bodyless_simps [simp]:
  "bodyless (req\<lparr>rq_path := p\<rparr>) = bodyless req" "bodyless (req\<lparr>rq_redirect_count := n\<rparr>) = bodyless req"
  "bodyless (req\<lparr>rq_headers := hs\<rparr>) = bodyless req" "bodyless (req\<lparr>rq_method := me\<rparr>) = bodyless req"
  "bodyless req \<Longrightarrow> bodyless (req\<lparr>rq_body := []\<rparr>)"
  by (simp_all add: bodyless_def)

lemma bodyless_prepare [simp]: "bodyless (prepare_headers cl cc req) = bodyless req"
  using prepare_headers_but [of req cl cc] by (auto simp: but_headers_def)

context duplex_stream
begin

lemma keeps_written: "readable_stream strm (\<lambda>s. good s \<and> written s = w) pending"
  by unfold_locales (metis read_good read_written)

lemma keeps_pending: "writable_stream strm (\<lambda>s. good s \<and> pending s = p) written"
  by unfold_locales (metis wait_writable_good wait_pending write_good write_pending)+

lemma write_request_bodyless:
  assumes "good s" "bodyless req"
  shows "\<exists>s'. write_request strm cl cc req error s u = Some (Inr (True, prepare_headers cl cc req, Success, s', u)) \<and>
    good s' \<and> pending s' = pending s \<and> written s' = written s @ request_head cl (prepare_headers cl cc req)"
proof -
  from writable_stream.write_data_good [OF keeps_pending, of s "pending s" "request_head cl (prepare_headers cl cc req)"]
  obtain s' where "write_data strm (request_head cl (prepare_headers cl cc req)) s = Some (True, s')" "good s'"
    "pending s' = pending s" "written s' = written s @ request_head cl (prepare_headers cl cc req)"
    using assms(1) by auto
  then show ?thesis
    using assms(2)
    by (simp add: write_request_def bodyless_def write_content_with_provider_def write_content_with_progress_def
        write_content_loop.simps new_sink_def)
qed

end

section \<open>Facts: receiving a response\<close>

definition valid_response :: "nat \<Rightarrow> string \<Rightarrow> Headers \<Rightarrow> bytes \<Rightarrow> bytes \<Rightarrow> bytes \<Rightarrow> bool" where
  "valid_response status reason hs body wire rest \<longleftrightarrow>
     100 < status \<and> status < 1000 \<and> status \<noteq> 204 \<and> status \<noteq> 304 \<and> plain_reason reason \<and>
     (\<forall>kv \<in> set hs. plain_field kv) \<and> length hs \<le> HEADER_MAX_COUNT \<and>
     framed hs body wire rest \<and> length body \<le> STRING_MAX_SIZE \<and>
     (is_chunked_transfer_encoding hs \<longrightarrow> \<not> has_header hs ''Content-Length'') \<and>
     \<not> encoding_unsupported (get_header_value hs ''Content-Encoding'' [] 0)"

definition response_wire :: "nat \<Rightarrow> string \<Rightarrow> Headers \<Rightarrow> bytes \<Rightarrow> bytes" where
  "response_wire status reason hs wire = response_line status reason @ crlf @ header_section hs @ wire"

definition the_response :: "nat \<Rightarrow> string \<Rightarrow> Headers \<Rightarrow> bytes \<Rightarrow> Response" where
  "the_response status reason hs body =
     \<lparr>rs_version = ''HTTP/1.1'', rs_status = int status, rs_reason = reason, rs_headers = hs, rs_body = body,
      rs_location = []\<rparr>"

lemma valid_response_length: "valid_response status reason hs body wire rest \<Longrightarrow>
    \<not> (has_header hs ''Content-Length'' \<and> fst (get_header_value_u64 hs ''Content-Length'' 0 0) > STRING_MAX_SIZE)"
  using content_length_value [of hs "length body" 0]
  by (auto simp: valid_response_def framed_def STRING_MAX_SIZE_def UINT64_MAX_def split: if_splits)

lemma quiet_response_progress: "rq_download_progress req = None \<Longrightarrow> quiet (Some (response_progress req rd))"
  by (simp add: quiet_def call_progress_def response_progress_def)

context duplex_stream
begin

lemma receive_body_ok:
  assumes "good s" "pending s = wire @ rest" "valid_response status reason hs body wire rest"
    "content_sink (response_receiver req False) absorb"
    "rq_response_handler req = None" "rq_download_progress req = None" "\<not> cl_follow_location cl"
    "absorb ([], error, u) body = (b, e, u')"
  shows "\<exists>s'. receive_body strm cl req (the_response status reason hs []) error s u =
      Some (True, the_response status reason hs b, e, s', u') \<and> good s' \<and> pending s' = rest \<and> written s' = written s"
proof -
  note v = assms(3) [unfolded valid_response_def]
  have "body_reader strm (\<lambda>s'. good s' \<and> written s' = written s) pending (response_receiver req False) absorb"
    using keeps_written assms(4) by (simp add: body_reader_def)
  from body_reader.read_content_framed [OF this _ assms(2), where hs = hs and body = body and u = "([], error, u)"
      and progress = "Some (response_progress req False)" and decompress = "cl_decompress cl" and maxlen = SIZE_T_MAX and status = 0]
  obtain s' where
    "read_content strm hs SIZE_T_MAX 0 (Some (response_progress req False)) (response_receiver req False)
        (cl_decompress cl) s ([], error, u) = Some (True, 0, hs, s', absorb ([], error, u) body)"
    "good s'" "written s' = written s" "pending s' = rest"
    using v assms(1) quiet_response_progress [OF assms(6)]
    by (auto simp: SIZE_T_MAX_def UINT64_MAX_def STRING_MAX_SIZE_def)
  then show ?thesis
    using assms(5,7,8) v valid_response_length [OF assms(3)]
    by (auto simp: receive_body_def the_response_def rs_has_header_def rs_get_header_value_u64_def)
qed

text \<open>A well-formed response of any framing is received whole, once the request has been written.\<close>

lemma process_request_sent:
  assumes "write_request strm cl cc req error s u0 = Some (Inr (True, prepare_headers cl cc req, Success, s1, u))"
    "good s1" "pending s1 = response_wire status reason hs wire @ rest"
    "valid_response status reason hs body wire rest"
    "content_sink (response_receiver (prepare_headers cl cc req) False) absorb"
    "rq_response_handler req = None" "rq_download_progress req = None"
    "rq_method req \<noteq> ''HEAD''" "rq_method req \<noteq> ''CONNECT''"
    "\<not> cl_follow_location cl" "cl_logger cl = None" "absorb ([], Success, u) body = (b, e, u')"
  shows "\<exists>s'. process_request strm cl cc req new_Response error s u0 =
      Some (Inr (True, prepare_headers cl cc req, the_response status reason hs b, e, s', u')) \<and>
    good s' \<and> pending s' = rest \<and> written s' = written s1"
proof -
  let ?req = "prepare_headers cl cc req"
  note v = assms(4) [unfolded valid_response_def]
  have p1: "pending s1 = response_line status reason @ crlf @ header_section hs @ wire @ rest"
    using assms(3) by (simp add: response_wire_def)
  obtain s2 where s2: "read_response_line strm ?req new_Response s1 =
      Some (True, new_Response\<lparr>rs_version := ''HTTP/1.1'', rs_status := int status, rs_reason := reason\<rparr>, s2)"
      "good s2" "written s2 = written s1" "pending s2 = header_section hs @ wire @ rest"
    using readable_stream.read_response_line_ok [OF keeps_written, of s1 "written s1", OF _ p1,
        where req = ?req and res = new_Response] v assms(2,9) by auto
  obtain s3 where s3: "read_headers strm [] s2 = Some (True, hs, s3)" "good s3" "written s3 = written s2"
      "pending s3 = wire @ rest"
    using read_headers_section [OF keeps_written, of s2 "written s2", OF _ s2(4)] v s2(2) by auto
  have res: "new_Response\<lparr>rs_version := ''HTTP/1.1'', rs_status := int status, rs_reason := reason, rs_headers := hs\<rparr>
      = the_response status reason hs []"
    by (simp add: new_Response_def the_response_def)
  obtain s4 where s4: "receive_body strm cl ?req (the_response status reason hs []) Success s3 u =
      Some (True, the_response status reason hs b, e, s4, u')" "good s4" "pending s4 = rest" "written s4 = written s3"
    using receive_body_ok [OF s3(2,4) assms(4,5) _ _ assms(10,12)] assms(6,7) by auto
  have "process_request strm cl cc req new_Response error s u0 =
      Some (Inr (True, ?req, the_response status reason hs b, e, s4, u'))"
    using assms(1) s2(1) s3(1) s4(1) v assms(8,9,11) res
    by (simp add: process_request_def) (simp add: new_Response_def the_response_def)
  then show ?thesis using s2(3) s3(3) s4 by auto
qed

end

section \<open>Facts: sending\<close>

text \<open>A client as the program makes it: not connected, no keep-alive, no redirects, no proxy, no logger and
  no headers of its own.\<close>

definition plain_client :: "'u ClientImpl \<Rightarrow> bool" where
  "plain_client cl \<longleftrightarrow> cl_socket cl = None \<and> \<not> cl_keep_alive cl \<and> \<not> cl_follow_location cl \<and> \<not> has_proxy cl \<and>
     cl_logger cl = None \<and> cl_default_headers cl = []"

lemma plain_client_new [simp]: "plain_client (new_ClientImpl host port)"
  by (simp add: plain_client_def new_ClientImpl_def new_ClientImpl_cert_def has_proxy_def Let_def)

lemma create_client_socket_closed [simp]:
  "create_client_socket W (cl\<lparr>cl_should_be_closed := b\<rparr>) w = create_client_socket W cl w"
  by (simp add: create_client_socket_def has_proxy_def)

lemma prepare_headers_client [simp]:
  "general_headers (cl\<lparr>cl_should_be_closed := b, cl_socket := sk, cl_requests_in_flight := k\<rparr>) cc req = general_headers cl cc req"
  "auth_headers (cl\<lparr>cl_should_be_closed := b, cl_socket := sk, cl_requests_in_flight := k\<rparr>) req = auth_headers cl req"
  "prepare_headers (cl\<lparr>cl_should_be_closed := b, cl_socket := sk, cl_requests_in_flight := k\<rparr>) cc req = prepare_headers cl cc req"
  "request_head (cl\<lparr>cl_should_be_closed := b, cl_socket := sk, cl_requests_in_flight := k\<rparr>) req = request_head cl req"
proof -
  show g: "general_headers (cl\<lparr>cl_should_be_closed := b, cl_socket := sk, cl_requests_in_flight := k\<rparr>) cc req = general_headers cl cc req"
    unfolding general_headers_def Let_def by (simp split del: if_split cong: if_cong)
  show a: "auth_headers (cl\<lparr>cl_should_be_closed := b, cl_socket := sk, cl_requests_in_flight := k\<rparr>) req = auth_headers cl req" for req
    unfolding auth_headers_def Let_def by (simp split del: if_split cong: if_cong)
  show "prepare_headers (cl\<lparr>cl_should_be_closed := b, cl_socket := sk, cl_requests_in_flight := k\<rparr>) cc req = prepare_headers cl cc req"
    unfolding prepare_headers_def g a ..
  show "request_head (cl\<lparr>cl_should_be_closed := b, cl_socket := sk, cl_requests_in_flight := k\<rparr>) req = request_head cl req"
    unfolding request_head_def Let_def by (simp split del: if_split cong: if_cong)
qed

text \<open>The connected client during a request.\<close>

abbreviation busy_client :: "nat \<Rightarrow> 'u ClientImpl \<Rightarrow> 'u ClientImpl" where
  "busy_client sock cl \<equiv> cl\<lparr>cl_should_be_closed := False, cl_socket := Some sock,
     cl_requests_in_flight := cl_requests_in_flight cl + 1\<rparr>"

lemma acquire_socket_new:
  assumes "plain_client cl" "create_client_socket W cl w = (Inr sock, w1)"
  shows "acquire_socket W \<lparr>f_req = req, f_res = res, f_err = e, f_cl = cl, f_w = w, f_u = u\<rparr> =
    (Some sock, \<lparr>f_req = req, f_res = res, f_err = Success, f_cl = busy_client sock cl, f_w = w1, f_u = u\<rparr>)"
  using assms by (simp add: acquire_socket_def plain_client_def disconnect_def)

text \<open>A connection that cannot be made is reported with the error of the attempt, and no request is sent.\<close>

lemma send_n_no_connection:
  assumes "plain_client cl" "create_client_socket W cl w = (Inl e, w1)" "e \<noteq> SSLPeerCouldBeClosed"
  shows "send_n W n \<lparr>f_req = req, f_res = res, f_err = e0, f_cl = cl, f_w = w, f_u = u\<rparr> =
    Some (Inr (False, \<lparr>f_req = req, f_res = res, f_err = e, f_cl = cl\<lparr>cl_should_be_closed := False\<rparr>, f_w = w1, f_u = u\<rparr>))"
  using assms by (cases n) (simp_all add: send_retry_def send_once_def acquire_socket_def plain_client_def disconnect_def)

text \<open>What is left to do once \<open>process_request\<close> has returned for a plain client.\<close>

lemma send_n_processed:
  assumes "plain_client cl" "create_client_socket W cl w = (Inr sock, w1)" "rq_path req \<noteq> []"
    "process_request (SocketStream (w_os W sock)) (busy_client sock cl) True req res Success (new_SocketStream w1) u =
       Some (Inr (ret, req', res', e, s, u'))" "rq_path req' = rq_path req" "e \<noteq> SSLPeerCouldBeClosed"
  shows "send_n W n \<lparr>f_req = req, f_res = res, f_err = e0, f_cl = cl, f_w = w, f_u = u\<rparr> =
    Some (Inr (ret, \<lparr>f_req = req', f_res = res', f_err = (if \<not> ret \<and> e = Success then Unknown else e),
      f_cl = cl\<lparr>cl_should_be_closed := False\<rparr>, f_w = w_close W sock (w_shutdown W sock (ss_sock s)), f_u = u'\<rparr>))"
proof -
  have p: "\<not> has_proxy (busy_client sock cl)" using assms(1) by (simp add: plain_client_def has_proxy_def)
  have r: "req'\<lparr>rq_path := rq_path req\<rparr> = req'" using assms(5) by simp
  have cl: "cl\<lparr>cl_should_be_closed := False, cl_socket := None, cl_requests_in_flight := cl_requests_in_flight cl\<rparr> =
      cl\<lparr>cl_should_be_closed := False\<rparr>"
    using assms(1) by (simp add: plain_client_def)
  have "send_once W snd_req \<lparr>f_req = req, f_res = res, f_err = e0, f_cl = cl, f_w = w, f_u = u\<rparr> =
    Some (Inr (ret, \<lparr>f_req = req', f_res = res', f_err = (if \<not> ret \<and> e = Success then Unknown else e),
      f_cl = cl\<lparr>cl_should_be_closed := False\<rparr>, f_w = w_close W sock (w_shutdown W sock (ss_sock s)), f_u = u'\<rparr>))"
    for snd_req
    using assms p r cl
    by (cases "rs_get_header_value res' ''Connection'' = ''close'' \<or>
        (rs_version res' = ''HTTP/1.0'' \<and> rs_reason res' \<noteq> ''Connection established'')")
      (simp_all add: send_once_def acquire_socket_new add_default_headers_def handle_request_def plain_client_def
        disconnect_def Let_def)
  then show ?thesis using assms(6) by (cases n) (simp_all add: send_retry_def)
qed

lemma send_result_processed:
  assumes "plain_client cl" "create_client_socket W cl w = (Inr sock, w1)" "rq_path req \<noteq> []"
    "process_request (SocketStream (w_os W sock)) (busy_client sock cl) True req new_Response Success
       (new_SocketStream w1) u = Some (Inr (ret, req', res', e, s, u'))" "rq_path req' = rq_path req"
    "e \<noteq> SSLPeerCouldBeClosed"
  shows "send_result W cl req w u =
    Some (Inr (\<lparr>rt_res = (if ret then Some res' else None), rt_err = (if \<not> ret \<and> e = Success then Unknown else e),
        rt_request_headers = rq_headers req'\<rparr>,
      cl\<lparr>cl_should_be_closed := False\<rparr>, w_close W sock (w_shutdown W sock (ss_sock s)), u'))"
  using send_n_processed [OF assms] by (simp add: send_result_def send_def)

lemma send_result_sent:
  assumes "os_socket (w_os W sock) up incoming outgoing" "plain_client cl"
    "create_client_socket W cl w = (Inr sock, w1)" "up w1"
    "incoming w1 = response_wire status reason hs wire @ rest" "valid_response status reason hs body wire rest"
    "\<exists>s1. write_request (SocketStream (w_os W sock)) (busy_client sock cl) True req Success (new_SocketStream w1) u0 =
        Some (Inr (True, prepare_headers cl True req, Success, s1, u)) \<and>
      ss_good up s1 \<and> ss_pending incoming s1 = ss_pending incoming (new_SocketStream w1) \<and>
      ss_written outgoing s1 = ss_written outgoing (new_SocketStream w1) @ sent"
    "rq_method req \<noteq> ''HEAD''" "rq_method req \<noteq> ''CONNECT''" "rq_path req \<noteq> []" "rq_response_handler req = None"
    "rq_download_progress req = None" "content_sink (response_receiver (prepare_headers cl True req) False) absorb"
    "absorb ([], Success, u) body = (b, Success, u')"
  shows "\<exists>w2. send_result W cl req w u0 =
    Some (Inr (\<lparr>rt_res = Some (the_response status reason hs b), rt_err = Success,
        rt_request_headers = rq_headers (prepare_headers cl True req)\<rparr>,
      cl\<lparr>cl_should_be_closed := False\<rparr>, w_close W sock (w_shutdown W sock w2), u')) \<and>
    outgoing w2 = outgoing w1 @ sent"
proof -
  have d: "duplex_stream (SocketStream (w_os W sock)) (ss_good up) (ss_pending incoming) (ss_written outgoing)"
    using assms(1) by (rule os_socket.socket_stream_duplex)
  have b: "\<not> cl_follow_location (busy_client sock cl)" "cl_logger (busy_client sock cl) = None"
    using assms(2) by (simp_all add: plain_client_def)
  have pend: "ss_pending incoming (new_SocketStream w1) = response_wire status reason hs wire @ rest"
    using assms(5) by (simp add: ss_pending_def new_SocketStream_def)
  obtain s1 where s1: "write_request (SocketStream (w_os W sock)) (busy_client sock cl) True req Success (new_SocketStream w1) u0 =
        Some (Inr (True, prepare_headers cl True req, Success, s1, u))" "ss_good up s1"
      "ss_pending incoming s1 = response_wire status reason hs wire @ rest"
      "ss_written outgoing s1 = ss_written outgoing (new_SocketStream w1) @ sent"
    using assms(7) pend by auto
  from duplex_stream.process_request_sent [OF d _ s1(2,3) assms(6) _ assms(11,12,8,9) b,
      of True Success "new_SocketStream w1" u0 u absorb b Success u'] s1(1) assms(13,14)
  obtain s where
    "process_request (SocketStream (w_os W sock)) (busy_client sock cl) True req new_Response Success (new_SocketStream w1) u0 =
      Some (Inr (True, prepare_headers cl True req, the_response status reason hs b, Success, s, u'))"
    "ss_written outgoing s = ss_written outgoing (new_SocketStream w1) @ sent"
    using s1(4) by auto
  with send_result_processed [OF assms(2,3,10)] show ?thesis
    by (intro exI [of _ "ss_sock s"]) (simp add: ss_written_def new_SocketStream_def)
qed

lemma send_result_ok:
  assumes "os_socket (w_os W sock) up incoming outgoing" "plain_client cl"
    "create_client_socket W cl w = (Inr sock, w1)" "up w1"
    "incoming w1 = response_wire status reason hs wire @ rest" "valid_response status reason hs body wire rest"
    "bodyless req" "rq_method req = ''GET''" "rq_path req \<noteq> []" "rq_response_handler req = None"
    "rq_download_progress req = None" "content_sink (response_receiver (prepare_headers cl True req) False) absorb"
    "absorb ([], Success, u) body = (b, Success, u')"
  shows "\<exists>w2. send_result W cl req w u =
    Some (Inr (\<lparr>rt_res = Some (the_response status reason hs b), rt_err = Success,
        rt_request_headers = rq_headers (prepare_headers cl True req)\<rparr>,
      cl\<lparr>cl_should_be_closed := False\<rparr>, w_close W sock (w_shutdown W sock w2), u')) \<and>
    outgoing w2 = outgoing w1 @ request_head cl (prepare_headers cl True req)"
proof (rule send_result_sent [OF assms(1-6) _ _ _ assms(9-13)])
  have d: "duplex_stream (SocketStream (w_os W sock)) (ss_good up) (ss_pending incoming) (ss_written outgoing)"
    using assms(1) by (rule os_socket.socket_stream_duplex)
  have "ss_good up (new_SocketStream w1)" using assms(4) by (simp add: ss_good_def new_SocketStream_def)
  from duplex_stream.write_request_bodyless [OF d this assms(7), of "busy_client sock cl" True Success u]
  show "\<exists>s1. write_request (SocketStream (w_os W sock)) (busy_client sock cl) True req Success (new_SocketStream w1) u =
        Some (Inr (True, prepare_headers cl True req, Success, s1, u)) \<and>
      ss_good up s1 \<and> ss_pending incoming s1 = ss_pending incoming (new_SocketStream w1) \<and>
      ss_written outgoing s1 = ss_written outgoing (new_SocketStream w1) @ request_head cl (prepare_headers cl True req)"
    by simp
qed (simp_all add: assms(8))

section \<open>Facts: every exchange ends\<close>

lemma response_keeps_error:
  "receiver_keeps (\<lambda>(body, error, u). error \<noteq> SSLPeerCouldBeClosed) (response_receiver req rd)
     (Some (response_progress req rd))"
  by (auto simp: receiver_keeps_def response_receiver_def call_progress_def response_progress_def split: option.splits prod.splits)

context duplex_stream
begin

lemma receive_body_returns:
  assumes "good s" "error \<noteq> SSLPeerCouldBeClosed"
  shows "\<exists>ok res' e s' u'. receive_body strm cl req res error s u = Some (ok, res', e, s', u') \<and>
    e \<noteq> SSLPeerCouldBeClosed"
proof -
  let ?rd = "300 < rs_status res \<and> rs_status res < 400 \<and> rs_status res \<noteq> NotModified_304 \<and> cl_follow_location cl"
  obtain go u1 where h: "(case rq_response_handler req of Some h \<Rightarrow> if ?rd then (True, u) else h res u | None \<Rightarrow> (True, u)) = (go, u1)"
    by force
  from read_content_returns [OF assms(1), of "rs_headers res" SIZE_T_MAX 0 "Some (response_progress req ?rd)"
      "response_receiver req ?rd" "cl_decompress cl" "(rs_body res, error, u1)"]
  obtain ok st hs s' b e u' where rc:
    "read_content strm (rs_headers res) SIZE_T_MAX 0 (Some (response_progress req ?rd)) (response_receiver req ?rd)
       (cl_decompress cl) s (rs_body res, error, u1) = Some (ok, st, hs, s', (b, e, u'))" by (metis prod_cases3)
  have "e \<noteq> SSLPeerCouldBeClosed"
    using read_content_keeps [OF rc response_keeps_error] assms(2) by simp
  then show ?thesis using assms(2) h rc by (auto simp: receive_body_def Let_def)
qed

lemma process_request_returns:
  assumes "good s" "bodyless req"
  shows "\<exists>ret req' res' e s' u'. process_request strm cl cc req res error s u = Some (Inr (ret, req', res', e, s', u')) \<and>
    rq_path req' = rq_path req \<and> bodyless req' \<and> e \<noteq> SSLPeerCouldBeClosed"
proof -
  let ?req = "prepare_headers cl cc req"
  obtain s1 where s1: "write_request strm cl cc req error s u = Some (Inr (True, ?req, Success, s1, u))" "good s1"
    using write_request_bodyless [OF assms] by blast
  obtain ok2 res2 s2 where s2: "read_response_line strm ?req res s1 = Some (ok2, res2, s2)" "good s2"
    using read_response_line_returns [OF s1(2)] by (metis reads_to_def)
  obtain ok3 hs3 s3 where s3: "read_headers strm (rs_headers res2) s2 = Some (ok3, hs3, s3)" "good s3"
    using read_headers_loop_returns [OF s2(2)] unfolding read_headers_def by blast
  obtain ok4 res4 e4 s4 u4 where s4: "receive_body strm cl ?req (res2\<lparr>rs_headers := hs3\<rparr>) Success s3 u =
      Some (ok4, res4, e4, s4, u4)" "e4 \<noteq> SSLPeerCouldBeClosed"
    using receive_body_returns [OF s3(2)] by (metis Error.distinct)
  show ?thesis
    using s1(1) s2(1) s3(1) s4 assms(2) by (auto simp: process_request_def Let_def)
qed

lemma receive_body_cut_short:
  assumes "good s" "valid_response status reason hs body body []" "\<not> is_chunked_transfer_encoding hs"
    "has_header hs ''Content-Length''" "length (pending s) < length body"
    "content_sink (response_receiver req False) absorb" "\<And>b e u' bs. \<exists>b' u''. absorb (b, e, u') bs = (b', e, u'')"
    "rq_response_handler req = None" "rq_download_progress req = None" "\<not> cl_follow_location cl"
  shows "\<exists>res' s' u'. receive_body strm cl req (the_response status reason hs []) Success s u =
      Some (False, res', Read, s', u')"
proof -
  note v = assms(2) [unfolded valid_response_def]
  have len: "hd (header_values hs ''Content-Length'') = to_string_nat (length body)"
    using v assms(3,4) by (simp add: framed_def)
  have "body_reader strm good pending (response_receiver req False) absorb"
    using readable_stream_axioms assms(6) by (simp add: body_reader_def)
  from body_reader.read_content_cut_short [OF this assms(1,3,4) len assms(5), where u = "([], Success, u)"
      and progress = "Some (response_progress req False)" and decompress = "cl_decompress cl" and maxlen = SIZE_T_MAX and status = 0]
  obtain s' where
    "read_content strm hs SIZE_T_MAX 0 (Some (response_progress req False)) (response_receiver req False)
        (cl_decompress cl) s ([], Success, u) = Some (False, BadRequest_400, hs, s', absorb ([], Success, u) (pending s))"
    using v quiet_response_progress [OF assms(9)] by (auto simp: SIZE_T_MAX_def UINT64_MAX_def STRING_MAX_SIZE_def)
  moreover obtain b' u'' where "absorb ([], Success, u) (pending s) = (b', Success, u'')" using assms(7) by blast
  ultimately show ?thesis
    using assms(8,10) v valid_response_length [OF assms(2)]
    by (auto simp: receive_body_def the_response_def rs_has_header_def rs_get_header_value_u64_def)
qed

end

section \<open>Facts: redirects are bounded\<close>

lemma bind_exn_iff:
  "(Option.bind m (\<lambda>r. case r of Inl e \<Rightarrow> Some (Inl e) | Inr x \<Rightarrow> k x) = Some (Inr y)) \<longleftrightarrow>
     (\<exists>x. m = Some (Inr x) \<and> k x = Some (Inr y))"
  by (cases m) (auto split: sum.splits)

lemma case_exn_iff:
  "((case r of Inl e \<Rightarrow> Some (Inl e) | Inr x \<Rightarrow> k x) = Some (Inr y)) \<longleftrightarrow> (\<exists>x. r = Inr x \<and> k x = Some (Inr y))"
  by (auto split: sum.splits)

abbreviation redirects_left :: "('u, 'w) Frame \<Rightarrow> nat" where
  "redirects_left fr \<equiv> rq_redirect_count (f_req fr)"

text \<open>A sender never returns with more redirects left than it was called with.\<close>

definition shrinks :: "('u, 'w) sender \<Rightarrow> bool" where
  "shrinks f \<longleftrightarrow> (\<forall>fr b fr'. f fr = Some (Inr (b, fr')) \<longrightarrow> redirects_left fr' \<le> redirects_left fr)"

lemma shrinksD: "\<lbrakk>shrinks f; f fr = Some (Inr (b, fr'))\<rbrakk> \<Longrightarrow> redirects_left fr' \<le> redirects_left fr"
  by (auto simp: shrinks_def)

lemma add_default_headers_count [simp]: "rq_redirect_count (add_default_headers cl req) = rq_redirect_count req"
proof -
  have "rq_redirect_count (fold (\<lambda>(k, v) req. if rq_has_header req k then req
      else req\<lparr>rq_headers := headers_emplace k v (rq_headers req)\<rparr>) hs req) = rq_redirect_count req" for hs
    by (induction hs arbitrary: req) auto
  then show ?thesis by (simp add: add_default_headers_def)
qed

lemma acquire_socket_req [simp]: "acquire_socket W fr = (r, fr') \<Longrightarrow> f_req fr' = f_req fr"
  by (auto simp: acquire_socket_def Let_def split: option.splits prod.splits sum.splits if_splits)

lemma write_request_count:
  "write_request strm cl cc req error s u = Some (Inr (ok, req', e, s', u')) \<Longrightarrow> rq_redirect_count req' = rq_redirect_count req"
  by (auto simp: write_request_def Let_def case_exn_iff bind_eq_Some_conv split: if_splits option.splits prod.splits)

lemma process_request_count:
  assumes "process_request strm cl cc req res error s u = Some (Inr (ok, req', res', e, s', u'))"
  shows "rq_redirect_count req' = rq_redirect_count req"
proof -
  obtain ok1 req1 e1 s1 u1 where w: "write_request strm cl cc req error s u = Some (Inr (ok1, req1, e1, s1, u1))"
    using assms unfolding process_request_def bind_exn_iff by auto
  have "req' = req1"
    using assms unfolding process_request_def bind_exn_iff w
    by (auto simp: Let_def bind_eq_Some_conv case_exn_iff split: if_splits prod.splits)
  then show ?thesis using write_request_count [OF w] by simp
qed

lemma detail_redirect_cong:
  assumes "\<And>fr'. redirects_left fr' < redirects_left fr \<Longrightarrow> f fr' = g fr'" "redirects_left fr \<noteq> 0"
  shows "detail_redirect f path loc fr = detail_redirect g path loc fr"
  using assms by (simp add: detail_redirect_def Let_def)

lemma detail_redirect_shrinks:
  assumes "shrinks f"
  shows "shrinks (detail_redirect f path loc)"
  unfolding shrinks_def
proof (intro allI impI)
  fix fr b fr'
  assume "detail_redirect f path loc fr = Some (Inr (b, fr'))"
  then obtain fr0 b1 fr1 where f1: "f fr0 = Some (Inr (b1, fr1))" and "redirects_left fr0 \<le> redirects_left fr"
    and "f_req fr' = f_req fr1 \<or> f_req fr' = f_req fr"
    unfolding detail_redirect_def Let_def bind_exn_iff by (auto split: if_splits)
  moreover have "redirects_left fr1 \<le> redirects_left fr0" using shrinksD [OF assms f1] .
  ultimately show "redirects_left fr' \<le> redirects_left fr" by auto
qed

lemma redirect_cong:
  assumes "\<And>fr'. redirects_left fr' < redirects_left fr \<Longrightarrow> f fr' = g fr'"
  shows "redirect W f fr = redirect W g fr"
proof (cases "redirects_left fr = 0")
  case True
  then show ?thesis by (simp add: redirect_def)
next
  case False
  have d: "detail_redirect f path loc fr' = detail_redirect g path loc fr'"
    if "redirects_left fr' = redirects_left fr" for path loc fr'
    using that assms False by (intro detail_redirect_cong) auto
  then show ?thesis
    by (auto simp: redirect_def create_redirect_client_def Let_def split: option.splits sum.splits)
qed

lemma redirect_shrinks: "shrinks f \<Longrightarrow> shrinks (redirect W f)"
proof -
  assume f: "shrinks f"
  show ?thesis unfolding shrinks_def
  proof (intro allI impI)
    fix fr b fr'
    assume "redirect W f fr = Some (Inr (b, fr'))"
    then consider "f_req fr' = f_req fr"
      | path loc where "detail_redirect f path loc fr = Some (Inr (b, fr'))"
      | scheme host port path loc where "create_redirect_client W f scheme host port path loc fr = Some (Inr (b, fr'))"
      by (auto simp: redirect_def Let_def split: if_splits sum.splits option.splits)
    then show "redirects_left fr' \<le> redirects_left fr"
    proof cases
      case 1
      then show ?thesis by simp
    next
      case 2
      then show ?thesis using shrinksD [OF detail_redirect_shrinks [OF f]] by blast
    next
      case 3
      then show ?thesis
        using shrinksD [OF detail_redirect_shrinks [OF f]]
        by (fastforce simp: create_redirect_client_def Let_def bind_eq_Some_conv case_exn_iff split: if_splits sum.splits prod.splits)
    qed
  qed
qed

lemma handle_request_cong:
  assumes "\<And>fr'. redirects_left fr' < redirects_left fr \<Longrightarrow> f fr' = g fr'"
  shows "handle_request W f cc sock fr = handle_request W g cc sock fr"
proof -
  have "redirect W f fr' = redirect W g fr'" if "f_req fr' = f_req fr" for fr'
    using that assms by (intro redirect_cong) auto
  then show ?thesis by (simp add: handle_request_def Let_def split_def cong: if_cong)
qed

lemma handle_request_shrinks:
  assumes "shrinks f"
  shows "shrinks (handle_request W f cc sock)"
  unfolding shrinks_def
proof (intro allI impI)
  fix fr b fr'
  assume h: "handle_request W f cc sock fr = Some (Inr (b, fr'))"
  show "redirects_left fr' \<le> redirects_left fr"
  proof (cases "rq_path (f_req fr) = []")
    case True
    with h show ?thesis by (auto simp: handle_request_def)
  next
    case False
    let ?req2 = "if has_proxy (f_cl fr) then (f_req fr)\<lparr>rq_path := ''http://'' @ cl_host_and_port (f_cl fr) @ rq_path (f_req fr)\<rparr>
      else f_req fr"
    obtain ret req res e s u where p: "process_request (SocketStream (w_os W sock)) (f_cl fr) cc ?req2 (f_res fr) (f_err fr)
        (new_SocketStream (f_w fr)) (f_u fr) = Some (Inr (ret, req, res, e, s, u))"
      using h False by (auto simp: handle_request_def Let_def bind_eq_Some_conv case_exn_iff)
    have "rq_redirect_count req = redirects_left fr" using process_request_count [OF p] by (simp split: if_splits)
    then have "redirects_left fr' = redirects_left fr \<or>
        (\<exists>fr1. f_req fr1 = f_req fr \<and> redirect W f fr1 = Some (Inr (b, fr')))"
      using h False p by (auto simp: handle_request_def Let_def split: if_splits prod.splits)
    then show ?thesis using shrinksD [OF redirect_shrinks [OF assms]] by fastforce
  qed
qed

lemma send_once_cong:
  assumes "\<And>fr'. redirects_left fr' < redirects_left fr \<Longrightarrow> f fr' = g fr'"
  shows "send_once W f fr = send_once W g fr"
proof -
  obtain sk fr1 where a: "acquire_socket W fr = (sk, fr1)" by force
  have "handle_request W f cc sock (fr1\<lparr>f_req := add_default_headers cl (f_req fr1)\<rparr>) =
      handle_request W g cc sock (fr1\<lparr>f_req := add_default_headers cl (f_req fr1)\<rparr>)" for cc sock cl
    using assms acquire_socket_req [OF a] by (intro handle_request_cong) simp
  then show ?thesis by (simp add: send_once_def a Let_def split: option.splits)
qed

lemma send_once_shrinks:
  assumes "shrinks f"
  shows "shrinks (send_once W f)"
  unfolding shrinks_def
proof (intro allI impI)
  fix fr b fr'
  assume h: "send_once W f fr = Some (Inr (b, fr'))"
  obtain sk fr1 where a: "acquire_socket W fr = (sk, fr1)" by force
  show "redirects_left fr' \<le> redirects_left fr"
  proof (cases sk)
    case None
    with h a acquire_socket_req [OF a] show ?thesis by (simp add: send_once_def)
  next
    case (Some sock)
    let ?fr2 = "fr1\<lparr>f_req := add_default_headers (f_cl fr1) (f_req fr1)\<rparr>"
    obtain b3 fr3 where h3: "handle_request W f (\<not> cl_keep_alive (f_cl fr1)) sock ?fr2 = Some (Inr (b3, fr3))"
      "f_req fr' = f_req fr3"
      using h unfolding send_once_def a Some by (auto simp: Let_def bind_exn_iff split_def)
    from shrinksD [OF handle_request_shrinks [OF assms] h3(1)] show ?thesis
      using h3(2) acquire_socket_req [OF a] by simp
  qed
qed

lemma send_retry_cong:
  assumes "\<And>fr'. redirects_left fr' < redirects_left fr \<Longrightarrow> f fr' = g fr'" "shrinks g"
  shows "send_retry W f fr = send_retry W g fr"
proof -
  have "send_once W f fr1 = send_once W g fr1" if "redirects_left fr1 \<le> redirects_left fr" for fr1
    using that assms(1) by (intro send_once_cong) auto
  moreover have "redirects_left fr1 \<le> redirects_left fr" if "send_once W g fr = Some (Inr (b, fr1))" for b fr1
    using shrinksD [OF send_once_shrinks [OF assms(2)] that] .
  ultimately show ?thesis
    by (cases "send_once W g fr") (auto simp: send_retry_def split: sum.splits)
qed

lemma send_retry_shrinks:
  assumes "shrinks f"
  shows "shrinks (send_retry W f)"
  unfolding shrinks_def
proof (intro allI impI)
  fix fr b fr'
  assume "send_retry W f fr = Some (Inr (b, fr'))"
  then obtain b1 fr1 where s1: "send_once W f fr = Some (Inr (b1, fr1))"
    and s2: "fr' = fr1 \<or> send_once W f fr1 = Some (Inr (b, fr'))"
    unfolding send_retry_def bind_exn_iff by (auto split: if_splits)
  have "redirects_left fr1 \<le> redirects_left fr" using shrinksD [OF send_once_shrinks [OF assms] s1] .
  then show "redirects_left fr' \<le> redirects_left fr"
    using s2 shrinksD [OF send_once_shrinks [OF assms]] by (metis order_trans)
qed

lemma send_n_shrinks: "shrinks (send_n W n)"
  by (induction n) (simp_all add: send_retry_shrinks shrinks_def [of "\<lambda>fr. None"])

lemma send_n_enough: "redirects_left fr \<le> n \<Longrightarrow> send_n W n fr = send W fr"
proof (induction n arbitrary: fr rule: less_induct)
  case (less n)
  show ?case
  proof (cases "redirects_left fr")
    case 0
    have "send_retry W f fr = send_retry W (\<lambda>fr. None) fr" for f
      using 0 by (intro send_retry_cong) (auto simp: shrinks_def)
    then show ?thesis by (cases n) (simp_all add: send_def 0)
  next
    case (Suc m)
    then obtain k where k: "n = Suc k" "m \<le> k" using less.prems by (cases n) auto
    have "send_n W k fr' = send_n W m fr'" if "redirects_left fr' < redirects_left fr" for fr' :: "('a, 'b) Frame"
      using less.IH [of k fr'] less.IH [of m fr'] k Suc that by simp
    then have "send_retry W (send_n W k) fr = send_retry W (send_n W m) fr"
      by (intro send_retry_cong send_n_shrinks) auto
    then show ?thesis by (simp add: send_def Suc k)
  qed
qed

lemma send_shrinks: "shrinks (send W)"
  using send_n_shrinks unfolding shrinks_def send_def by blast

lemma send_rec: "send W fr = send_retry W (send W) fr"
proof -
  have "send W fr = send_n W (Suc (redirects_left fr)) fr" by (simp add: send_n_enough del: send_n.simps)
  also have "\<dots> = send_retry W (send W) fr"
    unfolding send_n.simps
    by (intro send_retry_cong send_shrinks send_n_enough) simp
  finally show ?thesis .
qed

section \<open>Facts: redirects come to an end\<close>

text \<open>What \<open>send\<close> does, seen as the code has it, does not depend on what stands for the calls of \<open>send\<close> at a
  depth that exceeds the number of redirects left.\<close>

lemma send_unrolled: "redirects_left fr \<le> n \<Longrightarrow> (send_retry W ^^ Suc n) f fr = send W fr"
proof (induction n arbitrary: fr)
  case 0
  then have "send_retry W f fr = send_retry W (send W) fr" by (intro send_retry_cong send_shrinks) auto
  then show ?case by (simp add: send_rec [of W fr])
next
  case (Suc n)
  have "(send_retry W ^^ Suc n) f fr' = send W fr'" if "redirects_left fr' < redirects_left fr" for fr' :: "('a, 'b) Frame"
    using Suc.IH [of fr'] Suc.prems that by simp
  then have "send_retry W ((send_retry W ^^ Suc n) f) fr = send_retry W (send W) fr"
    by (intro send_retry_cong send_shrinks)
  then show ?case by (simp add: send_rec [of W fr])
qed

text \<open>A call returns or throws; in the first case its request still has no body.\<close>

definition ends :: "(exn + bool \<times> ('u, 'w) Frame) option \<Rightarrow> bool" where
  "ends r \<longleftrightarrow> (\<exists>e. r = Some (Inl e)) \<or> (\<exists>b fr. r = Some (Inr (b, fr)) \<and> bodyless (f_req fr))"

lemma ends_simps [simp]: "ends (Some (Inl e))" "ends (Some (Inr (b, fr))) \<longleftrightarrow> bodyless (f_req fr)" "\<not> ends None"
  by (auto simp: ends_def)

lemma ends_bind:
  assumes "ends m" "\<And>e. k (Inl e) = Some (Inl e)" "\<And>b fr. m = Some (Inr (b, fr)) \<Longrightarrow> bodyless (f_req fr) \<Longrightarrow> ends (k (Inr (b, fr)))"
  shows "ends (Option.bind m k)"
  using assms(1) unfolding ends_def [of m] by (auto simp: assms(2,3))

definition ends_below :: "nat \<Rightarrow> ('u, 'w) sender \<Rightarrow> bool" where
  "ends_below n f \<longleftrightarrow> (\<forall>fr. redirects_left fr < n \<longrightarrow> bodyless (f_req fr) \<longrightarrow> ends (f fr))"

lemma bodyless_add_default_headers [simp]: "bodyless (add_default_headers cl req) = bodyless req"
proof -
  let ?add = "\<lambda>(k, v) r. if rq_has_header r k then r else r\<lparr>rq_headers := headers_emplace k v (rq_headers r)\<rparr>"
  have step: "bodyless (?add kv r) = bodyless r" for kv r by (simp add: case_prod_beta)
  have "bodyless (fold ?add hs r) = bodyless r" for hs r
  proof (induction hs arbitrary: r)
    case (Cons kv hs)
    show ?case unfolding fold_Cons comp_apply Cons.IH step ..
  qed simp
  then show ?thesis unfolding add_default_headers_def .
qed

lemma detail_redirect_ends:
  assumes "ends_below (redirects_left fr) f" "bodyless (f_req fr)" "redirects_left fr \<noteq> 0"
  shows "ends (detail_redirect f path loc fr)"
proof -
  have f: "ends (f fr')" if "redirects_left fr' < redirects_left fr" "bodyless (f_req fr')" for fr'
    using assms(1) that by (simp add: ends_below_def)
  show ?thesis
    unfolding detail_redirect_def Let_def
    by (intro ends_bind) (use assms(2,3) in \<open>simp_all add: f\<close>)
qed

lemma redirect_ends:
  assumes "ends_below (redirects_left fr) f" "bodyless (f_req fr)"
  shows "ends (redirect W f fr)"
proof (cases "redirects_left fr = 0")
  case True
  then show ?thesis using assms(2) by (simp add: redirect_def)
next
  case False
  have "ends (create_redirect_client W f scheme host port path loc fr)" for scheme host port path loc
    unfolding create_redirect_client_def Let_def using assms False
    by (auto intro!: ends_bind detail_redirect_ends split: prod.splits)
  then show ?thesis
    using assms False detail_redirect_ends [OF assms False] by (auto simp: redirect_def Let_def split: sum.splits option.splits)
qed

lemma handle_request_ends:
  assumes "os_socket (w_os W sock) (\<lambda>w. True) incoming outgoing" "ends_below (redirects_left fr) f" "bodyless (f_req fr)"
  shows "ends (handle_request W f cc sock fr)"
proof (cases "rq_path (f_req fr) = []")
  case True
  then show ?thesis using assms(3) by (simp add: handle_request_def)
next
  case False
  let ?req2 = "if has_proxy (f_cl fr) then (f_req fr)\<lparr>rq_path := ''http://'' @ cl_host_and_port (f_cl fr) @ rq_path (f_req fr)\<rparr>
    else f_req fr"
  have d: "duplex_stream (SocketStream (w_os W sock)) (ss_good (\<lambda>w. True)) (ss_pending incoming) (ss_written outgoing)"
    using assms(1) by (rule os_socket.socket_stream_duplex)
  have "ss_good (\<lambda>w. True) (new_SocketStream (f_w fr))" by (simp add: ss_good_def new_SocketStream_def)
  moreover have "bodyless ?req2" using assms(3) by simp
  ultimately obtain ret req res e s u where p: "process_request (SocketStream (w_os W sock)) (f_cl fr) cc ?req2 (f_res fr) (f_err fr)
      (new_SocketStream (f_w fr)) (f_u fr) = Some (Inr (ret, req, res, e, s, u))" "bodyless req"
    using duplex_stream.process_request_returns [OF d] by metis
  have "ends (redirect W f fr')" if "f_req fr' = f_req fr" for fr'
    using redirect_ends [of fr' f W] that assms(2,3) by simp
  then show ?thesis using p False by (simp add: handle_request_def Let_def split: prod.split)
qed

lemma send_once_ends:
  assumes "\<And>sock. os_socket (w_os W sock) (\<lambda>w. True) (incoming sock) (outgoing sock)" "ends_below (redirects_left fr) f"
    "bodyless (f_req fr)"
  shows "ends (send_once W f fr)"
proof -
  obtain sk fr1 where a: "acquire_socket W fr = (sk, fr1)" by force
  have r: "f_req fr1 = f_req fr" using acquire_socket_req [OF a] .
  have "ends (handle_request W f cc sock (fr1\<lparr>f_req := add_default_headers cl (f_req fr1)\<rparr>))" for cc sock cl
    using assms(2,3) r by (intro handle_request_ends [OF assms(1)]) simp_all
  then show ?thesis
    using assms(3) r unfolding send_once_def a Let_def
    by (auto intro!: ends_bind split: option.split prod.split)
qed

lemma send_ends:
  fixes fr :: "('u, 'w) Frame"
  assumes "\<And>sock. os_socket (w_os W sock) (\<lambda>w. True) (incoming sock) (outgoing sock)"
  shows "bodyless (f_req fr) \<Longrightarrow> ends (send W fr)"
proof (induction "redirects_left fr" arbitrary: fr rule: less_induct)
  case less
  have below: "ends_below n (send W :: ('u, 'w) sender)" if "n \<le> redirects_left fr" for n
    unfolding ends_below_def using less.hyps that by auto
  have "ends (send_retry W (send W) fr)"
    unfolding send_retry_def
  proof (intro ends_bind)
    show "ends (send_once W (send W) fr)" using send_once_ends [OF assms below] less.prems by blast
    fix b fr1
    assume s: "send_once W (send W) fr = Some (Inr (b, fr1))" "bodyless (f_req fr1)"
    then have "redirects_left fr1 \<le> redirects_left fr" using shrinksD [OF send_once_shrinks [OF send_shrinks]] by blast
    then have "ends (send_once W (send W) fr1)" using send_once_ends [OF assms below] s(2) by blast
    then show "ends (case Inr (b, fr1) of Inl e \<Rightarrow> Some (Inl e) | Inr (ret, fr) \<Rightarrow>
        if f_err fr = SSLPeerCouldBeClosed then send_once W (send W) fr else Some (Inr (ret, fr)))"
      using s(2) by simp
  qed simp
  then show ?case by (simp add: send_rec [of W fr])
qed

lemma body_sink_append:
  "rq_content_receiver req = None \<Longrightarrow> content_sink (response_receiver req False) (\<lambda>(body, error, u) bs. (body @ bs, error, u))"
  by unfold_locales (auto simp: response_receiver_def)

context duplex_stream
begin

lemma process_request_cut_short:
  assumes "good s" "pending s = response_wire status reason hs part"
    "valid_response status reason hs body body []" "\<not> is_chunked_transfer_encoding hs"
    "has_header hs ''Content-Length''" "length part < length body" "bodyless req" "rq_content_receiver req = None"
    "rq_response_handler req = None" "rq_download_progress req = None" "rq_method req = ''GET''" "\<not> cl_follow_location cl"
  shows "\<exists>res' s' u'. process_request strm cl cc req new_Response error s u =
      Some (Inr (False, prepare_headers cl cc req, res', Read, s', u'))"
proof -
  let ?req = "prepare_headers cl cc req"
  note v = assms(3) [unfolded valid_response_def]
  obtain s1 where s1: "write_request strm cl cc req error s u = Some (Inr (True, ?req, Success, s1, u))" "good s1"
      "pending s1 = response_line status reason @ crlf @ header_section hs @ part"
    using write_request_bodyless [OF assms(1,7), of cl cc error u] assms(2) by (auto simp: response_wire_def)
  obtain s2 where s2: "read_response_line strm ?req new_Response s1 =
      Some (True, new_Response\<lparr>rs_version := ''HTTP/1.1'', rs_status := int status, rs_reason := reason\<rparr>, s2)"
      "good s2" "pending s2 = header_section hs @ part"
    using read_response_line_ok [OF s1(2,3), where req = ?req and res = new_Response] v by auto
  obtain s3 where s3: "read_headers strm [] s2 = Some (True, hs, s3)" "good s3" "pending s3 = part"
    using read_headers_section [OF readable_stream_axioms s2(2,3)] v by auto
  have sink: "content_sink (response_receiver ?req False) (\<lambda>(body, error, u) bs. (body @ bs, error, u))"
    by (rule body_sink_append) (simp add: assms(8))
  obtain res' s4 u' where s4: "receive_body strm cl ?req (the_response status reason hs []) Success s3 u =
      Some (False, res', Read, s4, u')"
    using receive_body_cut_short [OF s3(2) assms(3,4,5) _ sink _ _ _ assms(12), of u] s3(3) assms(6,9,10) by auto
  have "process_request strm cl cc req new_Response error s u = Some (Inr (False, ?req, res', Read, s4, u'))"
    using s1(1) s2(1) s3(1) s4 v assms(11)
    by (simp add: process_request_def) (simp add: new_Response_def the_response_def)
  then show ?thesis by blast
qed

end

section \<open>Facts: a scripted world\<close>

text \<open>One connection, to a peer that sends the given segments and takes everything; it stays up until it is
  closed. It serves to run the client.\<close>

definition net_world :: "Net World" where
  "net_world =
     \<lparr>w_connect = (\<lambda>to k. (Inr 0, k)), w_os = (\<lambda>sock. net_os), w_shutdown = (\<lambda>sock k. k), w_close = (\<lambda>sock k. k)\<rparr>"

lemma net_world_socket: "os_socket (w_os net_world sock) (\<lambda>k. True) (\<lambda>k. concat (net_in k)) net_out"
  using net.os_socket_axioms by (simp add: net_world_def)

lemma net_world_connect [simp]: "create_client_socket net_world cl k = (Inr 0, k)"
  by (simp add: create_client_socket_def net_world_def)

lemma new_Request_fields [simp]:
  "rq_response_handler new_Request = None" "rq_content_receiver new_Request = None"
  "rq_download_progress new_Request = None" "rq_upload_progress new_Request = None"
  "rq_redirect_count new_Request = REDIRECT_MAX_COUNT" "rq_params new_Request = []"
  by (simp_all add: new_Request_def)

lemma Get_request [simp]:
  "bodyless (new_Request\<lparr>rq_method := m, rq_path := p, rq_headers := hs, rq_download_progress := pr\<rparr>)"
  "bodyless (new_Request\<lparr>rq_method := m, rq_path := p, rq_headers := hs, rq_response_handler := rh,
     rq_content_receiver := cr, rq_download_progress := pr\<rparr>)"
  by (simp_all add: bodyless_def new_Request_def)

text \<open>The bytes of the request that \<open>Get\<close> sends.\<close>

definition get_request_bytes :: "'u ClientImpl \<Rightarrow> string \<Rightarrow> bytes" where
  "get_request_bytes cl path =
     request_head cl (prepare_headers cl True
       (new_Request\<lparr>rq_method := ''GET'', rq_path := path, rq_headers := [], rq_download_progress := None\<rparr>))"

lemma equal_ci_refl [simp]: "equal_ci a a"
  by (simp add: equal_ci_iff)

lemma equal_ci_example:
  "\<not> equal_ci ''Transfer-Encoding'' ''Content-Length''" "\<not> equal_ci ''Content-Encoding'' ''Content-Length''"
  by (simp_all add: equal_ci_def)

lemma valid_response_example:
  "valid_response 200 ''OK'' [(''Content-Length'', ''5'')] ''hello'' ''hello'' []"
proof -
  have n: "to_string_nat (Suc (Suc (Suc (Suc (Suc 0))))) = ''5''" by code_simp
  have c: "\<not> is_chunked_transfer_encoding [(''Content-Length'', ''5'')]"
    by (simp add: is_chunked_transfer_encoding_def get_header_value_def header_values_def equal_ci_example equal_ci_def)
  have h: "header_values [(''Content-Length'', ''5'')] ''Content-Length'' = [''5'']" by (simp add: header_values_def)
  have e: "get_header_value [(''Content-Length'', ''5'')] ''Content-Encoding'' [] 0 = []"
    by (simp add: get_header_value_def header_values_def equal_ci_example)
  have f: "plain_field (''Content-Length'', ''5'')"
    by (simp add: plain_field_def is_field_name_def is_token_def is_token_char_def is_field_value_def is_field_content_def
        is_field_vchar_def is_vchar_def isalnum_def isalpha_def isdigit_def byte_def field_line_def HEADER_MAX_LENGTH_def)
  show ?thesis
    using n c h e f
    by (simp add: valid_response_def plain_reason_def HEADER_MAX_COUNT_def framed_def has_header_def STRING_MAX_SIZE_def
        encoding_unsupported_def)
qed

definition example_segments :: "bytes list" where
  "example_segments = [''HTTP/1.'', ''1 200 OK'' @ [CR], LF # ''Content-Length: 5'' @ crlf @ crlf @ ''he'', ''llo'']"

lemma example_segments: "concat example_segments = response_wire 200 ''OK'' [(''Content-Length'', ''5'')] ''hello'' @ []"
proof -
  have "to_string_nat 200 = ''200''" by code_simp
  then show ?thesis by (simp add: example_segments_def response_wire_def response_line_def field_line_def)
qed

text \<open>With no query parameters, the overload of \<open>Get\<close> that takes them passes on the headers but not the
  progress callback, which is then never called.\<close>

lemma Get_params_drops_progress:
  "Get_params W cl path [] headers progress = Get_params W cl path [] headers None"
  by (simp add: Get_params_def)

section \<open>Facts: calls\<close>

lemma Get_ok:
  fixes cl :: "'u ClientImpl"
  assumes "os_socket (w_os W sock) up incoming outgoing" "plain_client cl" "path \<noteq> []"
    "create_client_socket W cl w = (Inr sock, w1)" "up w1"
    "incoming w1 = response_wire status reason hs wire @ rest" "valid_response status reason hs body wire rest"
  shows "\<exists>r w2. Get W cl path None w u =
      Some (Inr (r, cl\<lparr>cl_should_be_closed := False\<rparr>, w_close W sock (w_shutdown W sock w2), u)) \<and>
    rt_res r = Some (the_response status reason hs body) \<and> rt_err r = Success \<and>
    outgoing w2 = outgoing w1 @ get_request_bytes cl path"
proof -
  let ?req = "new_Request\<lparr>rq_method := ''GET'', rq_path := path, rq_headers := [], rq_download_progress := None\<rparr> :: 'u Request"
  have sink: "content_sink (response_receiver (prepare_headers cl True ?req) False) (\<lambda>(body, error, u) bs. (body @ bs, error, u))"
    by (rule body_sink_append) simp
  have "\<exists>w2. send_result W cl ?req w u =
    Some (Inr (\<lparr>rt_res = Some (the_response status reason hs body), rt_err = Success,
        rt_request_headers = rq_headers (prepare_headers cl True ?req)\<rparr>,
      cl\<lparr>cl_should_be_closed := False\<rparr>, w_close W sock (w_shutdown W sock w2), u)) \<and>
    outgoing w2 = outgoing w1 @ request_head cl (prepare_headers cl True ?req)"
    using assms(3) by (intro send_result_ok [OF assms(1,2,4,5,6,7) _ _ _ _ _ sink]) simp_all
  then show ?thesis unfolding Get_def Get_headers_def get_request_bytes_def by (metis Result.select_convs(1,2))
qed

lemma Get_handler_returns:
  fixes cl :: "'u ClientImpl"
  assumes "os_socket (w_os W sock) up incoming outgoing" "plain_client cl" "path \<noteq> []"
    "create_client_socket W cl w = (Inr sock, w1)" "up w1"
  shows "\<exists>r cl' w' u'. Get_handler W cl path hs handler receiver progress w u = Some (Inr (r, cl', w', u')) \<and>
    \<not> (rt_res r = None \<and> rt_err r = Success)"
proof -
  let ?req = "new_Request\<lparr>rq_method := ''GET'', rq_path := path, rq_headers := hs, rq_response_handler := handler,
    rq_content_receiver := Some (\<lambda>data off len u. receiver data u), rq_download_progress := progress\<rparr> :: 'u Request"
  have d: "duplex_stream (SocketStream (w_os W sock)) (ss_good up) (ss_pending incoming) (ss_written outgoing)"
    using assms(1) by (rule os_socket.socket_stream_duplex)
  have "ss_good up (new_SocketStream w1)" using assms(5) by (simp add: ss_good_def new_SocketStream_def)
  from duplex_stream.process_request_returns [OF d this, of ?req "busy_client sock cl" True new_Response Success u]
  obtain ret req' res' e s' u' where
    "process_request (SocketStream (w_os W sock)) (busy_client sock cl) True ?req new_Response Success (new_SocketStream w1) u =
      Some (Inr (ret, req', res', e, s', u'))" "rq_path req' = path" "e \<noteq> SSLPeerCouldBeClosed" by auto
  from send_result_processed [OF assms(2,4) _ this(1)] this(2,3) assms(3) show ?thesis
    by (simp add: Get_handler_def)
qed

text \<open>A receiver that appends what it is given ends up with the body.\<close>

lemma receiver_sink_append:
  "rq_content_receiver req = Some (\<lambda>data off len u. (True, u @ data)) \<Longrightarrow>
     content_sink (response_receiver req False) (\<lambda>(body, error, u) bs. (body, error, u @ bs))"
  by unfold_locales (auto simp: response_receiver_def)

lemma Get_receiver_ok:
  assumes "os_socket (w_os W sock) up incoming outgoing" "plain_client cl" "path \<noteq> []"
    "create_client_socket W cl w = (Inr sock, w1)" "up w1"
    "incoming w1 = response_wire status reason hs wire @ rest" "valid_response status reason hs body wire rest"
  shows "\<exists>r cl' w'. Get_receiver W cl path (\<lambda>data u. (True, u @ data)) None w u = Some (Inr (r, cl', w', u @ body)) \<and>
    rt_err r = Success"
proof -
  let ?req = "new_Request\<lparr>rq_method := ''GET'', rq_path := path, rq_headers := [], rq_response_handler := None,
    rq_content_receiver := Some (\<lambda>data off len u. (True, u @ data)), rq_download_progress := None\<rparr>"
  have sink: "content_sink (response_receiver (prepare_headers cl True ?req) False) (\<lambda>(body, error, u) bs. (body, error, u @ bs))"
    by (rule receiver_sink_append) simp
  show ?thesis
    using send_result_ok [OF assms(1,2,4,5,6,7) _ _ _ _ _ sink, of u "[]" "u @ body"] assms(3)
    by (auto simp: Get_receiver_def Get_handler_def)
qed

text \<open>A request that fails leaves an error, provided that a failed connection attempt does.\<close>

lemma acquire_socket_failed:
  assumes "\<And>to w w'. w_connect W to w \<noteq> (Inl Success, w')" "acquire_socket W fr = (None, fr')"
  shows "f_err fr' \<noteq> Success"
proof -
  define alive where "alive = (case cl_socket (f_cl fr) of None \<Rightarrow> None
    | Some n \<Rightarrow> if os_is_socket_alive (w_os W n) (f_w fr) then Some n else None)"
  obtain cl w where cw: "disconnect W ((f_cl fr)\<lparr>cl_should_be_closed := False\<rparr>) (f_w fr) = (cl, w)" by fastforce
  have "fst (acquire_socket W fr) = Some n" if "alive = Some n" for n
    using that by (simp add: acquire_socket_def Let_def alive_def [symmetric])
  then have a: "alive = None" using assms(2) by (cases alive) auto
  then have e: "(case create_client_socket W cl w of (Inl e, w) \<Rightarrow> (None, fr\<lparr>f_cl := cl, f_w := w, f_err := e\<rparr>)
      | (Inr n, w) \<Rightarrow> (Some n, fr\<lparr>f_cl := cl\<lparr>cl_socket := Some n, cl_requests_in_flight := cl_requests_in_flight cl + 1\<rparr>,
                             f_w := w, f_err := Success\<rparr>)) = (None, fr')"
    using cw assms(2) by (simp add: acquire_socket_def Let_def alive_def [symmetric])
  obtain e w' where "create_client_socket W cl w = (Inl e, w')" "f_err fr' = e"
    using e by (auto split: prod.splits sum.splits)
  then show ?thesis using assms(1) by (auto simp: create_client_socket_def Let_def split: prod.splits)
qed

lemma send_once_failed:
  assumes "\<And>to w w'. w_connect W to w \<noteq> (Inl Success, w')" "send_once W f fr = Some (Inr (False, fr'))"
  shows "f_err fr' \<noteq> Success"
proof (cases "acquire_socket W fr")
  case (Pair s fr1)
  show ?thesis
  proof (cases s)
    case None
    then have "f_err fr1 \<noteq> Success" using acquire_socket_failed [OF assms(1)] Pair by blast
    then show ?thesis using assms(2) Pair None by (simp add: send_once_def)
  next
    case (Some n)
    let ?fr = "fr1\<lparr>f_req := add_default_headers (f_cl fr1) (f_req fr1)\<rparr>"
    have "f_err fr2 \<noteq> Success"
      if "handle_request W f (\<not> cl_keep_alive (f_cl fr1)) n ?fr = Some (Inr (ret, fr2'))" "\<not> ret"
        "f_err fr2 = (if \<not> ret \<and> f_err fr2' = Success then Unknown else f_err fr2')" for ret fr2 fr2'
      using that by (simp split: if_splits)
    moreover obtain ret fr2' where h: "handle_request W f (\<not> cl_keep_alive (f_cl fr1)) n ?fr = Some (Inr (ret, fr2'))"
      using assms(2) unfolding send_once_def Pair Some prod.case option.case Let_def bind_exn_iff by auto
    moreover have "\<not> ret \<and> f_err fr' = (if \<not> ret \<and> f_err fr2' = Success then Unknown else f_err fr2')"
      using assms(2) h unfolding send_once_def Pair Some
      by (cases "disconnect W ((f_cl fr2')\<lparr>cl_requests_in_flight := cl_requests_in_flight (f_cl fr2') - 1\<rparr>) (f_w fr2')")
        (auto simp: Let_def split: prod.splits if_split_asm)
    ultimately show ?thesis by blast
  qed
qed

lemma send_retry_failed:
  assumes "\<And>to w w'. w_connect W to w \<noteq> (Inl Success, w')" "send_retry W f fr = Some (Inr (False, fr'))"
  shows "f_err fr' \<noteq> Success"
proof -
  obtain ret fr1 where "send_once W f fr = Some (Inr (ret, fr1))"
    "(if f_err fr1 = SSLPeerCouldBeClosed then send_once W f fr1 else Some (Inr (ret, fr1))) = Some (Inr (False, fr'))"
    using assms(2) unfolding send_retry_def bind_exn_iff by auto
  then show ?thesis using send_once_failed [OF assms(1)] by (cases "f_err fr1 = SSLPeerCouldBeClosed") auto
qed

lemma send_result_failed:
  assumes "\<And>to w w'. w_connect W to w \<noteq> (Inl Success, w')" "send_result W cl req w u = Some (Inr (r, cl', w', u'))"
    "rt_res r = None"
  shows "rt_err r \<noteq> Success"
proof -
  obtain fr' where "send W \<lparr>f_req = req, f_res = new_Response, f_err = Success, f_cl = cl, f_w = w, f_u = u\<rparr> =
      Some (Inr (False, fr'))" "rt_err r = f_err fr'"
    using assms(2,3) by (auto simp: send_result_def bind_exn_iff split: if_splits)
  then show ?thesis
    using send_retry_failed [OF assms(1)] send_rec by metis
qed

section \<open>Properties\<close>

text \<open>C1 (Get_delivers): on a connection that works, \<open>Get\<close> returns the status, headers and exact body of the
  response, for each of the three framings of HTTP/1.1 and however the bytes are cut into segments by the
  network; it has sent exactly one request, and it has closed the connection.\<close>

theorem Get_delivers:
  fixes cl :: "'u ClientImpl"
  assumes "os_socket (w_os W sock) up incoming outgoing" "plain_client cl" "path \<noteq> []"
    "create_client_socket W cl w = (Inr sock, w1)" "up w1"
    "incoming w1 = response_wire status reason hs wire @ rest" "valid_response status reason hs body wire rest"
  shows "\<exists>r w2. Get W cl path None w u =
      Some (Inr (r, cl\<lparr>cl_should_be_closed := False\<rparr>, w_close W sock (w_shutdown W sock w2), u)) \<and>
    rt_res r = Some (the_response status reason hs body) \<and> rt_err r = Success \<and>
    outgoing w2 = outgoing w1 @ get_request_bytes cl path"
  by (rule Get_ok [OF assms])

theorem Get_delivers_witness:
  "\<exists>r w2. Get net_world (new_ClientImpl ''tv'' 30026) ''/screensaverIL'' None (net_of example_segments) () =
      Some (Inr (r, (new_ClientImpl ''tv'' 30026)\<lparr>cl_should_be_closed := False\<rparr>, w2, ())) \<and>
    rt_res r = Some (the_response 200 ''OK'' [(''Content-Length'', ''5'')] ''hello'')"
  using Get_delivers [OF net_world_socket plain_client_new _ net_world_connect TrueI _ valid_response_example,
      of "''/screensaverIL''" "net_of example_segments" "''tv''" 30026 "()"] example_segments
  by (auto simp: net_of_def)

text \<open>C20 (Get_cut_short): when the peer closes the connection before the declared length of the body has
  arrived, \<open>Get\<close> reports a read error and no response, whatever part of the body there was.\<close>

theorem Get_cut_short:
  fixes cl :: "'u ClientImpl"
  assumes "os_socket (w_os W sock) up incoming outgoing" "plain_client cl" "path \<noteq> []"
    "create_client_socket W cl w = (Inr sock, w1)" "up w1"
    "incoming w1 = response_wire status reason hs part" "valid_response status reason hs body body []"
    "\<not> is_chunked_transfer_encoding hs" "has_header hs ''Content-Length''" "length part < length body"
  shows "\<exists>r cl' w' u'. Get W cl path None w u = Some (Inr (r, cl', w', u')) \<and> rt_res r = None \<and> rt_err r = Read"
proof -
  let ?req = "new_Request\<lparr>rq_method := ''GET'', rq_path := path, rq_headers := [], rq_download_progress := None\<rparr> :: 'u Request"
  have d: "duplex_stream (SocketStream (w_os W sock)) (ss_good up) (ss_pending incoming) (ss_written outgoing)"
    using assms(1) by (rule os_socket.socket_stream_duplex)
  from duplex_stream.process_request_cut_short [OF d, of "new_SocketStream w1" status reason hs part body ?req "busy_client sock cl" True Success u]
    assms
  obtain req' res' s' u' where
    "process_request (SocketStream (w_os W sock)) (busy_client sock cl) True ?req new_Response Success (new_SocketStream w1) u =
      Some (Inr (False, req', res', Read, s', u'))" "rq_path req' = path"
    by (auto simp: plain_client_def ss_good_def ss_pending_def new_SocketStream_def)
  from send_result_processed [OF assms(2,4) _ this(1)] this(2) assms(3) show ?thesis
    by (simp add: Get_def Get_headers_def)
qed

theorem Get_cut_short_witness:
  "\<exists>r cl' w' u'. Get net_world (new_ClientImpl ''tv'' 30026) ''/a'' None
      (net_of [response_wire 200 ''OK'' [(''Content-Length'', ''5'')] ''hel'']) () = Some (Inr (r, cl', w', u')) \<and>
    rt_res r = None \<and> rt_err r = Read"
proof (rule Get_cut_short [OF net_world_socket plain_client_new _ net_world_connect TrueI _ valid_response_example,
      where part = "''hel''"])
  show "\<not> is_chunked_transfer_encoding [(''Content-Length'', ''5'')]"
    by (simp add: is_chunked_transfer_encoding_def get_header_value_def header_values_def equal_ci_example equal_ci_def)
qed (simp_all add: net_of_def has_header_def header_values_def)

text \<open>C2 (Get_returns): \<open>Get\<close> always returns, and throws nothing, whatever bytes the peer sends before it closes
  the connection and whatever the response handler, the content receiver and the progress callback decide:
  neither a malformed nor an endless-looking response makes it hang.\<close>

theorem Get_returns:
  fixes cl :: "'u ClientImpl"
  assumes "os_socket (w_os W sock) up incoming outgoing" "plain_client cl" "path \<noteq> []"
    "create_client_socket W cl w = (Inr sock, w1)" "up w1"
  shows "\<exists>r cl' w' u'. Get_handler W cl path hs handler receiver progress w u = Some (Inr (r, cl', w', u')) \<and>
    \<not> (rt_res r = None \<and> rt_err r = Success)"
  by (rule Get_handler_returns [OF assms])

theorem Get_returns_witness:
  "\<exists>r cl' w' u'. Get_handler net_world (new_ClientImpl ''tv'' 30026) ''/a'' [] None (\<lambda>bs u. (True, u @ bs)) None
      (net_of [''HTTP/1.1 200 OK'' @ crlf @ ''Transfer-Encoding: chunked'' @ crlf @ crlf @ ''ffffffff'' @ crlf]) [] =
    Some (Inr (r, cl', w', u')) \<and> \<not> (rt_res r = None \<and> rt_err r = Success)"
  by (rule Get_returns [OF net_world_socket plain_client_new _ net_world_connect TrueI]) simp

text \<open>C21 (redirects_end): redirects cannot keep \<open>send\<close> going. Whatever the peers answer and however often they redirect, to
  the same host or to others, and whatever the settings of the client are, a request without a body comes to an end: \<open>send\<close>
  returns or throws. The calls of \<open>send\<close> are nested at most as deep as there are redirects left, and one more: if the recursion of the
  code is unrolled that often, it is irrelevant what a further call would do.\<close>

theorem redirects_end:
  assumes "\<And>sock. os_socket (w_os W sock) (\<lambda>w. True) (incoming sock) (outgoing sock)" "bodyless (f_req fr)"
  shows "(\<exists>r. send W fr = Some r) \<and> (\<forall>deeper. (send_retry W ^^ Suc (redirects_left fr)) deeper fr = send W fr)"
  using send_ends [OF assms] send_unrolled [OF order_refl] by (auto simp: ends_def)

text \<open>Here the peer redirects the client to itself; nothing at all is assumed of what \<open>send\<close> would do after the second redirect.\<close>

theorem redirects_end_witness:
  "\<exists>r. (send_retry net_world ^^ 3) (\<lambda>fr. None)
      \<lparr>f_req = new_Request\<lparr>rq_method := ''GET'', rq_path := ''/a'', rq_redirect_count := 2\<rparr>, f_res = new_Response, f_err = Success,
       f_cl = (new_ClientImpl ''tv'' 80)\<lparr>cl_follow_location := True\<rparr>,
       f_w = net_of [response_wire 302 ''Found'' [(''Location'', ''/a'')] []], f_u = ()\<rparr> = Some r"
proof -
  let ?fr = "\<lparr>f_req = new_Request\<lparr>rq_method := ''GET'', rq_path := ''/a'', rq_redirect_count := 2\<rparr>, f_res = new_Response, f_err = Success,
       f_cl = (new_ClientImpl ''tv'' 80)\<lparr>cl_follow_location := True\<rparr>,
       f_w = net_of [response_wire 302 ''Found'' [(''Location'', ''/a'')] []], f_u = ()\<rparr>"
  have "bodyless (f_req ?fr)" by (simp add: bodyless_def new_Request_def)
  from redirects_end [OF net_world_socket this] show ?thesis by (simp add: eval_nat_numeral)
qed

text \<open>When the connection cannot be made, \<open>Get\<close> reports the error of the attempt and no
  response, and no byte is sent.\<close>

theorem Get_no_connection:
  assumes "plain_client cl" "create_client_socket W cl w = (Inl e, w1)" "e \<noteq> SSLPeerCouldBeClosed"
  shows "\<exists>r. Get W cl path None w u = Some (Inr (r, cl\<lparr>cl_should_be_closed := False\<rparr>, w1, u)) \<and>
    rt_res r = None \<and> rt_err r = e"
  using send_n_no_connection [OF assms] by (simp add: Get_def Get_headers_def send_result_def send_def)

theorem Get_no_connection_witness:
  "\<exists>r. Get (net_world\<lparr>w_connect := (\<lambda>to k. (Inl ConnectionTimeout, k))\<rparr>) (new_ClientImpl ''tv'' 30026) ''/a'' None
      (net_of []) () = Some (Inr (r, (new_ClientImpl ''tv'' 30026)\<lparr>cl_should_be_closed := False\<rparr>, net_of [], ())) \<and>
    rt_res r = None \<and> rt_err r = ConnectionTimeout"
  by (rule Get_no_connection) (simp_all add: create_client_socket_def)

text \<open>A result whose error is \<open>Success\<close> holds a response, so that \<open>resp->body\<close> after
  \<open>resp.error() == Error::Success\<close>, as the program writes it, never dereferences a null pointer, for every
  request and whatever the redirects, provided that a failed connection attempt is reported as an error.\<close>

theorem success_has_response:
  assumes "\<And>to w w'. w_connect W to w \<noteq> (Inl Success, w')"
    "send_result W cl req w u = Some (Inr (r, cl', w', u'))" "rt_err r = Success"
  shows "\<exists>res. rt_res r = Some res"
  using send_result_failed [OF assms(1,2)] assms(3) by (cases "rt_res r") auto

theorem success_has_response_witness:
  "\<exists>r cl' w' u'. Get net_world (new_ClientImpl ''tv'' 30026) ''/screensaverIL'' None (net_of example_segments) () =
      Some (Inr (r, cl', w', u')) \<and> (\<exists>res. rt_res r = Some res)"
proof -
  obtain r w2 where g: "Get net_world (new_ClientImpl ''tv'' 30026) ''/screensaverIL'' None (net_of example_segments) () =
      Some (Inr (r, (new_ClientImpl ''tv'' 30026)\<lparr>cl_should_be_closed := False\<rparr>, w2, ()))" "rt_err r = Success"
    using Get_ok [OF net_world_socket plain_client_new _ net_world_connect TrueI _ valid_response_example,
      of "''/screensaverIL''" "net_of example_segments" "''tv''" 30026 "()"] example_segments
    by (auto simp: net_of_def)
  have "\<exists>res. rt_res r = Some res"
    by (rule success_has_response [OF _ g(1) [unfolded Get_def Get_headers_def] g(2)]) (simp add: net_world_def)
  then show ?thesis using g(1) by blast
qed

end
