(* ===== verification/Json_Float.thy ===== *)
theory Json_Float
  imports Prelude "HOL-Library.Signed_Division"
begin

text \<open>
  Binary to decimal conversion of the JSON library, \<open>nlohmann/detail/conversions/to_chars.hpp\<close>
  (the Grisu2 algorithm), and the \<open>std::strtod\<close> the lexer calls. A \<open>double\<close> is its IEEE-754 bit
  pattern, a \<^typ>\<open>64 word\<close>; the significands of the algorithm are \<^typ>\<open>64 word\<close>s, so that every
  wrap-around of the source is kept, and its \<open>int\<close>s are integers. The character buffer with its
  length is the list of the characters written so far.
\<close>

unbundle bit_operations_syntax

section \<open>Definitions\<close>

subsection \<open>IEEE-754 doubles as bit patterns\<close>

type_synonym double = "64 word"

definition signbit :: "double \<Rightarrow> bool" where
  "signbit x \<longleftrightarrow> bit x 63"

definition isfinite :: "double \<Rightarrow> bool" where
  "isfinite x \<longleftrightarrow> drop_bit 52 x AND 0x7FF \<noteq> 0x7FF"

definition negate_double :: "double \<Rightarrow> double" where
  \<comment> \<open>unary minus\<close>
  "negate_double x = x XOR 0x8000000000000000"

text \<open>
  \<open>std::strtod\<close> in the C locale on the text of a JSON number: sign, digits, fraction and exponent
  are read, and the exact rational value is rounded to nearest, ties to even; a value too large
  gives infinity.
\<close>

fun floor_log2 :: "nat \<Rightarrow> nat" where
  "floor_log2 n = (if n < 2 then 0 else 1 + floor_log2 (n div 2))"

declare floor_log2.simps [simp del]

definition floor_log2_ratio :: "nat \<Rightarrow> nat \<Rightarrow> int" where
  \<comment> \<open>the \<open>k\<close> with \<open>2 ^ k \<le> p / q < 2 ^ (k + 1)\<close>\<close>
  "floor_log2_ratio p q =
     (let k = int (floor_log2 p) - int (floor_log2 q);
          below = (if k \<ge> 0 then p < q * 2 ^ nat k else p * 2 ^ nat (- k) < q)
      in if below then k - 1 else k)"

definition round_half_even :: "nat \<Rightarrow> nat \<Rightarrow> nat" where
  "round_half_even p q =
     (let n = p div q; r = p mod q
      in if 2 * r > q \<or> (2 * r = q \<and> odd n) then n + 1 else n)"

definition double_of_ratio :: "nat \<Rightarrow> nat \<Rightarrow> nat" where
  \<comment> \<open>the bits of the double nearest to \<open>p / q\<close>\<close>
  "double_of_ratio p q =
     (if p = 0 then 0
      else let e = max (floor_log2_ratio p q) (- 1022);
               s = 52 - e;
               n = (if s \<ge> 0 then round_half_even (p * 2 ^ nat s) q
                    else round_half_even p (q * 2 ^ nat (- s)));
               bits = n + nat (e + 1022) * 2 ^ 52
           in min bits 0x7FF0000000000000)"

definition strtod :: "string \<Rightarrow> double" where
  "strtod s =
     (let neg = (s \<noteq> [] \<and> hd s = CHR ''-'');
          s1 = (if neg then tl s else s);
          ip = takeWhile isdigit s1; s2 = dropWhile isdigit s1;
          fp = (if s2 \<noteq> [] \<and> hd s2 = CHR ''.'' then takeWhile isdigit (tl s2) else []);
          s3 = (if s2 \<noteq> [] \<and> hd s2 = CHR ''.'' then dropWhile isdigit (tl s2) else s2);
          ex = (if s3 \<noteq> [] \<and> (hd s3 = CHR ''e'' \<or> hd s3 = CHR ''E'') then tl s3 else []);
          eneg = (ex \<noteq> [] \<and> hd ex = CHR ''-'');
          ed = (if ex \<noteq> [] \<and> (hd ex = CHR ''-'' \<or> hd ex = CHR ''+'') then tl ex else ex);
          ev = int (dec_value (takeWhile isdigit ed));
          e10 = (if eneg then - ev else ev) - int (length fp);
          m = dec_value (ip @ fp);
          bits = (if e10 \<ge> 0 then double_of_ratio (m * 10 ^ nat e10) 1
                  else double_of_ratio m (10 ^ nat (- e10)))
      in (if neg then 0x8000000000000000 else 0) OR word_of_nat bits)"

subsection \<open>\<open>diyfp\<close>\<close>

record diyfp =
  df :: "64 word"
  de :: int

definition diyfp :: "64 word \<Rightarrow> int \<Rightarrow> diyfp" where
  [simp]: "diyfp f e = \<lparr>df = f, de = e\<rparr>"

definition diyfp_sub :: "diyfp \<Rightarrow> diyfp \<Rightarrow> diyfp" where
  "diyfp_sub x y = diyfp (df x - df y) (de x)"

definition diyfp_mul :: "diyfp \<Rightarrow> diyfp \<Rightarrow> diyfp" where
  "diyfp_mul x y =
     (let u_lo = df x AND 0xFFFFFFFF;
          u_hi = drop_bit 32 (df x);
          v_lo = df y AND 0xFFFFFFFF;
          v_hi = drop_bit 32 (df y);
          p0 = u_lo * v_lo;
          p1 = u_lo * v_hi;
          p2 = u_hi * v_lo;
          p3 = u_hi * v_hi;
          p0_hi = drop_bit 32 p0;
          p1_lo = p1 AND 0xFFFFFFFF;
          p1_hi = drop_bit 32 p1;
          p2_lo = p2 AND 0xFFFFFFFF;
          p2_hi = drop_bit 32 p2;
          Q = p0_hi + p1_lo + p2_lo;
          Q' = Q + push_bit (64 - 32 - 1) 1;
          h = p3 + p2_hi + p1_hi + drop_bit 32 Q'
      in diyfp h (de x + de y + 64))"

fun normalize_loop :: "nat \<Rightarrow> 64 word \<Rightarrow> int \<Rightarrow> diyfp" where
  \<comment> \<open>a significand that is not 0 needs at most 63 shifts\<close>
  "normalize_loop 0 f e = diyfp f e"
| "normalize_loop (Suc n) f e =
     (if drop_bit 63 f = 0 then normalize_loop n (push_bit 1 f) (e - 1) else diyfp f e)"

definition diyfp_normalize :: "diyfp \<Rightarrow> diyfp" where
  "diyfp_normalize x = normalize_loop 64 (df x) (de x)"

definition diyfp_normalize_to :: "diyfp \<Rightarrow> int \<Rightarrow> diyfp" where
  "diyfp_normalize_to x target_exponent =
     (let delta = de x - target_exponent
      in diyfp (push_bit (nat delta) (df x)) target_exponent)"

subsection \<open>Boundaries and cached powers\<close>

record boundaries =
  bw :: diyfp
  bminus :: diyfp
  bplus :: diyfp

definition compute_boundaries :: "double \<Rightarrow> boundaries" where
  "compute_boundaries bits =
     (let kPrecision = 53;
          kBias = 1024 - 1 + (kPrecision - 1);
          kMinExp = 1 - kBias;
          kHiddenBit = push_bit 52 1;
          E = drop_bit 52 bits;
          F = bits AND (kHiddenBit - 1);
          is_denormal = (E = 0);
          v = (if is_denormal then diyfp F kMinExp
               else diyfp (F + kHiddenBit) (uint E - kBias));
          lower_boundary_is_closer = (F = 0 \<and> E > 1);
          m_plus = diyfp (2 * df v + 1) (de v - 1);
          m_minus = (if lower_boundary_is_closer then diyfp (4 * df v - 1) (de v - 2)
                     else diyfp (2 * df v - 1) (de v - 1));
          w_plus = diyfp_normalize m_plus;
          w_minus = diyfp_normalize_to m_minus (de w_plus)
      in \<lparr>bw = diyfp_normalize v, bminus = w_minus, bplus = w_plus\<rparr>)"

definition kAlpha :: int where
  "kAlpha = - 60"

definition kGamma :: int where
  "kGamma = - 32"

type_synonym cached_power = "64 word \<times> int \<times> int"

definition kCachedPowers :: "cached_power list" where
  "kCachedPowers =
    [
     (0xAB70FE17C79AC6CA, - 1060, - 300),
     (0xFF77B1FCBEBCDC4F, - 1034, - 292),
     (0xBE5691EF416BD60C, - 1007, - 284),
     (0x8DD01FAD907FFC3C, - 980, - 276),
     (0xD3515C2831559A83, - 954, - 268),
     (0x9D71AC8FADA6C9B5, - 927, - 260),
     (0xEA9C227723EE8BCB, - 901, - 252),
     (0xAECC49914078536D, - 874, - 244),
     (0x823C12795DB6CE57, - 847, - 236),
     (0xC21094364DFB5637, - 821, - 228),
     (0x9096EA6F3848984F, - 794, - 220),
     (0xD77485CB25823AC7, - 768, - 212),
     (0xA086CFCD97BF97F4, - 741, - 204),
     (0xEF340A98172AACE5, - 715, - 196),
     (0xB23867FB2A35B28E, - 688, - 188),
     (0x84C8D4DFD2C63F3B, - 661, - 180),
     (0xC5DD44271AD3CDBA, - 635, - 172),
     (0x936B9FCEBB25C996, - 608, - 164),
     (0xDBAC6C247D62A584, - 582, - 156),
     (0xA3AB66580D5FDAF6, - 555, - 148),
     (0xF3E2F893DEC3F126, - 529, - 140),
     (0xB5B5ADA8AAFF80B8, - 502, - 132),
     (0x87625F056C7C4A8B, - 475, - 124),
     (0xC9BCFF6034C13053, - 449, - 116),
     (0x964E858C91BA2655, - 422, - 108),
     (0xDFF9772470297EBD, - 396, - 100),
     (0xA6DFBD9FB8E5B88F, - 369, - 92),
     (0xF8A95FCF88747D94, - 343, - 84),
     (0xB94470938FA89BCF, - 316, - 76),
     (0x8A08F0F8BF0F156B, - 289, - 68),
     (0xCDB02555653131B6, - 263, - 60),
     (0x993FE2C6D07B7FAC, - 236, - 52),
     (0xE45C10C42A2B3B06, - 210, - 44),
     (0xAA242499697392D3, - 183, - 36),
     (0xFD87B5F28300CA0E, - 157, - 28),
     (0xBCE5086492111AEB, - 130, - 20),
     (0x8CBCCC096F5088CC, - 103, - 12),
     (0xD1B71758E219652C, - 77, - 4),
     (0x9C40000000000000, - 50, 4),
     (0xE8D4A51000000000, - 24, 12),
     (0xAD78EBC5AC620000, 3, 20),
     (0x813F3978F8940984, 30, 28),
     (0xC097CE7BC90715B3, 56, 36),
     (0x8F7E32CE7BEA5C70, 83, 44),
     (0xD5D238A4ABE98068, 109, 52),
     (0x9F4F2726179A2245, 136, 60),
     (0xED63A231D4C4FB27, 162, 68),
     (0xB0DE65388CC8ADA8, 189, 76),
     (0x83C7088E1AAB65DB, 216, 84),
     (0xC45D1DF942711D9A, 242, 92),
     (0x924D692CA61BE758, 269, 100),
     (0xDA01EE641A708DEA, 295, 108),
     (0xA26DA3999AEF774A, 322, 116),
     (0xF209787BB47D6B85, 348, 124),
     (0xB454E4A179DD1877, 375, 132),
     (0x865B86925B9BC5C2, 402, 140),
     (0xC83553C5C8965D3D, 428, 148),
     (0x952AB45CFA97A0B3, 455, 156),
     (0xDE469FBD99A05FE3, 481, 164),
     (0xA59BC234DB398C25, 508, 172),
     (0xF6C69A72A3989F5C, 534, 180),
     (0xB7DCBF5354E9BECE, 561, 188),
     (0x88FCF317F22241E2, 588, 196),
     (0xCC20CE9BD35C78A5, 614, 204),
     (0x98165AF37B2153DF, 641, 212),
     (0xE2A0B5DC971F303A, 667, 220),
     (0xA8D9D1535CE3B396, 694, 228),
     (0xFB9B7CD9A4A7443C, 720, 236),
     (0xBB764C4CA7A44410, 747, 244),
     (0x8BAB8EEFB6409C1A, 774, 252),
     (0xD01FEF10A657842C, 800, 260),
     (0x9B10A4E5E9913129, 827, 268),
     (0xE7109BFBA19C0C9D, 853, 276),
     (0xAC2820D9623BF429, 880, 284),
     (0x80444B5E7AA7CF85, 907, 292),
     (0xBF21E44003ACDD2D, 933, 300),
     (0x8E679C2F5E44FF8F, 960, 308),
     (0xD433179D9C8CB841, 986, 316),
     (0x9E19DB92B4E31BA9, 1013, 324)
    ]"

definition cached_power_index :: "int \<Rightarrow> int" where
  "cached_power_index e =
     (let f = kAlpha - e - 1;
          k = (f * 78913) sdiv 2 ^ 18 + (if f > 0 then 1 else 0)
      in (300 + k + (8 - 1)) sdiv 8)"

definition get_cached_power_for_binary_exponent :: "int \<Rightarrow> cached_power" where
  "get_cached_power_for_binary_exponent e = kCachedPowers ! nat (cached_power_index e)"

subsection \<open>Digit generation\<close>

definition find_largest_pow10 :: "32 word \<Rightarrow> int \<times> 32 word" where
  "find_largest_pow10 n =
     (if n \<ge> 1000000000 then (10, 1000000000)
      else if n \<ge> 100000000 then (9, 100000000)
      else if n \<ge> 10000000 then (8, 10000000)
      else if n \<ge> 1000000 then (7, 1000000)
      else if n \<ge> 100000 then (6, 100000)
      else if n \<ge> 10000 then (5, 10000)
      else if n \<ge> 1000 then (4, 1000)
      else if n \<ge> 100 then (3, 100)
      else if n \<ge> 10 then (2, 10)
      else (1, 1))"

text \<open>
  The source asserts \<open>rest \<le> delta\<close> and \<open>ten_k > 0\<close>, without which the loop need not end; they
  are guards of the recursion here.
\<close>

function grisu2_round ::
  "string \<Rightarrow> 64 word \<Rightarrow> 64 word \<Rightarrow> 64 word \<Rightarrow> 64 word \<Rightarrow> string" where
  "grisu2_round buf dist delta rest ten_k =
     (if rest \<le> delta \<and> 0 < ten_k
         \<and> rest < dist \<and> delta - rest \<ge> ten_k
         \<and> (rest + ten_k < dist \<or> dist - rest > rest + ten_k - dist)
      then grisu2_round (butlast buf @ [char_of (byte (last buf) - 1)]) dist delta (rest + ten_k) ten_k
      else buf)"
  by pat_completeness auto

lemma word_less_add_of_le_diff:
  fixes rest delta t :: "'a::len word"
  assumes "rest \<le> delta" "0 < t" "t \<le> delta - rest"
  shows "unat rest < unat (rest + t)" "rest + t \<le> delta"
proof -
  have le: "unat t \<le> unat delta - unat rest" and "unat rest \<le> unat delta"
    using assms by (simp_all add: word_le_nat_alt unat_sub)
  then have sum: "unat rest + unat t \<le> unat delta" by simp
  then have eq: "unat (rest + t) = unat rest + unat t"
    by (metis le_less_trans unat_add_lem unsigned_less)
  show "unat rest < unat (rest + t)" using eq assms(2) by (simp add: word_less_nat_alt)
  show "rest + t \<le> delta" using eq sum by (simp add: word_le_nat_alt)
qed

termination grisu2_round
proof (relation "measure (\<lambda>(buf, dist, delta, rest, ten_k). 2 ^ 64 - unat rest)")
  fix buf :: string and dist delta rest ten_k :: "64 word"
  assume "rest \<le> delta \<and> 0 < ten_k \<and> rest < dist \<and> delta - rest \<ge> ten_k
         \<and> (rest + ten_k < dist \<or> dist - rest > rest + ten_k - dist)"
  then have "unat rest < unat (rest + ten_k)"
    using word_less_add_of_le_diff(1) by blast
  moreover have "unat (rest + ten_k) < 2 ^ 64"
    using unsigned_less [of "rest + ten_k"] by simp
  ultimately show "((butlast buf @ [char_of (byte (last buf) - 1)], dist, delta, rest + ten_k, ten_k),
      (buf, dist, delta, rest, ten_k))
      \<in> measure (\<lambda>(buf, dist, delta, rest, ten_k). 2 ^ 64 - unat rest)"
    by simp
qed simp

declare grisu2_round.simps [simp del]

text \<open>The digits of the integral part: \<open>Inl\<close> when the loop returns, \<open>Inr\<close> when it runs out.\<close>

fun digit_gen_integral ::
  "nat \<Rightarrow> string \<Rightarrow> 32 word \<Rightarrow> 32 word \<Rightarrow> nat \<Rightarrow> 64 word \<Rightarrow> 64 word \<Rightarrow> 64 word \<Rightarrow> (string \<times> nat) + string"
where
  \<comment> \<open>arguments: \<open>n\<close>, \<open>buffer\<close>, \<open>p1\<close>, \<open>pow10\<close>, \<open>-one.e\<close>, \<open>p2\<close>, \<open>delta\<close>, \<open>dist\<close>\<close>
  "digit_gen_integral 0 buffer p1 pow10 s p2 delta dist = Inr buffer"
| "digit_gen_integral (Suc n) buffer p1 pow10 s p2 delta dist =
     (let d = p1 div pow10;
          r = p1 mod pow10;
          buffer = buffer @ [char_of (48 + unat d)];
          rest = push_bit s (ucast r) + p2
      in if rest \<le> delta
         then Inl (grisu2_round buffer dist delta rest (push_bit s (ucast pow10)), n)
         else digit_gen_integral n buffer r (pow10 div 10) s p2 delta dist)"

text \<open>
  The digits of the fraction. Each round multiplies the fraction by 10 and keeps its lowest
  \<open>-one.e\<close> bits, so that it gains a factor of two and is 0 after 64 rounds at the latest.
\<close>

function digit_gen_fraction ::
  "string \<Rightarrow> nat \<Rightarrow> nat \<Rightarrow> 64 word \<Rightarrow> 64 word \<Rightarrow> 64 word \<Rightarrow> string \<times> nat" where
  \<comment> \<open>arguments: \<open>buffer\<close>, \<open>m\<close>, \<open>-one.e\<close>, \<open>p2\<close>, \<open>delta\<close>, \<open>dist\<close>\<close>
  "digit_gen_fraction buffer m s p2 delta dist =
     (let one_f = push_bit s 1;
          p2 = p2 * 10;
          d = drop_bit s p2;
          r = p2 AND (one_f - 1);
          buffer = buffer @ [char_of (48 + unat d)];
          delta = delta * 10;
          dist = dist * 10
      in if r \<le> delta then (grisu2_round buffer dist delta r one_f, m + 1)
         else digit_gen_fraction buffer (m + 1) s r delta dist)"
  by pat_completeness auto

definition odd_powers :: "64 word \<Rightarrow> nat set" where
  \<comment> \<open>the powers of two that do not divide a word\<close>
  "odd_powers x = {j. j \<le> 64 \<and> \<not> 2 ^ j dvd unat x}"

lemma dvd_times10_mask:
  assumes "2 ^ j dvd unat (x :: 64 word)"
  shows "2 ^ Suc j dvd unat ((x * 10) AND (push_bit s 1 - 1))"
proof -
  have "2 ^ Suc j dvd unat x * 10" using assms by (auto simp: dvd_def)
  then have *: "2 ^ Suc j dvd (unat x * 10) mod 2 ^ k" for k
  proof (cases "Suc j \<le> k")
    case True
    then show ?thesis using \<open>2 ^ Suc j dvd unat x * 10\<close> by (intro dvd_mod le_imp_power_dvd)
  next
    case False
    then have "2 ^ k dvd unat x * 10"
      using \<open>2 ^ Suc j dvd unat x * 10\<close> by (meson dvd_trans le_imp_power_dvd nat_le_linear)
    then show ?thesis by simp
  qed
  have mask: "push_bit s 1 - 1 = (mask s :: 64 word)" by (simp add: mask_eq_exp_minus_1 push_bit_eq_mult)
  have "unat ((x * 10) AND (push_bit s 1 - 1)) = take_bit s (unat (x * 10))"
    unfolding mask take_bit_eq_mask [symmetric] by (rule unsigned_take_bit_eq)
  also have "unat (x * 10) = take_bit 64 (unat x * 10)"
    by (simp add: unat_word_ariths take_bit_eq_mod)
  finally have "unat ((x * 10) AND (push_bit s 1 - 1)) = (unat x * 10) mod 2 ^ min s 64"
    by (simp only: take_bit_take_bit) (simp add: take_bit_eq_mod)
  then show ?thesis using * [of "min s 64"] by simp
qed

lemma odd_powers_psubset:
  assumes "y = (x * 10) AND (push_bit s 1 - 1)" "y \<noteq> 0"
  shows "odd_powers y \<subset> odd_powers x"
proof -
  have x: "x \<noteq> 0" using assms by auto
  have sub: "j \<in> odd_powers x" if "j \<in> odd_powers y" for j
  proof -
    have "\<not> 2 ^ Suc j dvd unat y" using that by (auto simp: odd_powers_def dest: dvd_mult_right)
    then show ?thesis using that dvd_times10_mask [of j x s] assms(1) by (auto simp: odd_powers_def)
  qed
  have "unat x < 2 ^ 64" "0 < unat x" using unsigned_less [of x] x by (simp_all add: unat_gt_0)
  then have nd: "\<not> 2 ^ 64 dvd unat x" using nat_dvd_not_less by blast
  then have ex: "\<exists>j. \<not> 2 ^ j dvd unat x" by blast
  define j where "j = (LEAST j. \<not> 2 ^ j dvd unat x)"
  have j: "\<not> 2 ^ j dvd unat x" "j \<le> 64"
    unfolding j_def using LeastI_ex [OF ex] Least_le [of "\<lambda>j. \<not> 2 ^ j dvd unat x" 64, OF nd]
    by auto
  then obtain i where i: "j = Suc i" by (cases j) auto
  then have "2 ^ i dvd unat x" using not_less_Least [of i "\<lambda>j. \<not> 2 ^ j dvd unat x"] j_def by auto
  then have "2 ^ j dvd unat y" using dvd_times10_mask [of i x s] assms(1) i by simp
  then have "j \<in> odd_powers x - odd_powers y" using j by (auto simp: odd_powers_def)
  with sub show ?thesis by blast
qed

termination digit_gen_fraction
proof (relation "measure (\<lambda>(buffer, m, s, p2, delta, dist). card (odd_powers p2))")
  fix buffer :: string and m s :: nat and p2 delta dist one_f p2' d r :: "64 word"
    and buffer' :: string and delta' dist' :: "64 word"
  assume "one_f = push_bit s 1" "p2' = p2 * 10" "r = p2' AND (one_f - 1)" "\<not> r \<le> delta'"
  moreover from this have "r \<noteq> 0" by auto
  ultimately have "odd_powers r \<subset> odd_powers p2" using odd_powers_psubset by simp
  moreover have "finite (odd_powers p2)" by (simp add: odd_powers_def)
  ultimately show "((buffer', m + 1, s, r, delta', dist'), (buffer, m, s, p2, delta, dist))
      \<in> measure (\<lambda>(buffer, m, s, p2, delta, dist). card (odd_powers p2))"
    by (simp add: psubset_card_mono)
qed simp

declare digit_gen_fraction.simps [simp del]

definition grisu2_digit_gen :: "int \<Rightarrow> diyfp \<Rightarrow> diyfp \<Rightarrow> diyfp \<Rightarrow> string \<times> int" where
  \<comment> \<open>digits and decimal exponent, from \<open>decimal_exponent\<close>, \<open>M_minus\<close>, \<open>w\<close>, \<open>M_plus\<close>\<close>
  "grisu2_digit_gen decimal_exponent M_minus w M_plus =
     (let delta = df (diyfp_sub M_plus M_minus);
          dist = df (diyfp_sub M_plus w);
          s = nat (- de M_plus);
          one_f = push_bit s 1;
          p1 = ucast (drop_bit s (df M_plus));
          p2 = df M_plus AND (one_f - 1);
          (k, pow10) = find_largest_pow10 p1
      in case digit_gen_integral (nat k) [] p1 pow10 s p2 delta dist of
           Inl (buffer, n) \<Rightarrow> (buffer, decimal_exponent + int n)
         | Inr buffer \<Rightarrow>
             (let (buffer', m) = digit_gen_fraction buffer 0 s p2 delta dist
              in (buffer', decimal_exponent - int m)))"

definition grisu2 :: "diyfp \<Rightarrow> diyfp \<Rightarrow> diyfp \<Rightarrow> string \<times> int" where
  "grisu2 m_minus v m_plus =
     (let (cf, ce, ck) = get_cached_power_for_binary_exponent (de m_plus);
          c_minus_k = diyfp cf ce;
          w = diyfp_mul v c_minus_k;
          w_minus = diyfp_mul m_minus c_minus_k;
          w_plus = diyfp_mul m_plus c_minus_k;
          M_minus = diyfp (df w_minus + 1) (de w_minus);
          M_plus = diyfp (df w_plus - 1) (de w_plus)
      in grisu2_digit_gen (- ck) M_minus w M_plus)"

definition grisu2_value :: "double \<Rightarrow> string \<times> int" where
  "grisu2_value value =
     (let w = compute_boundaries value in grisu2 (bminus w) (bw w) (bplus w))"

subsection \<open>Formatting\<close>

definition append_exponent :: "int \<Rightarrow> string" where
  "append_exponent e =
     (let sign = (if e < 0 then CHR ''-'' else CHR ''+''); k = nat \<bar>e\<bar>
      in if k < 10 then [sign, CHR ''0'', char_of (48 + k)]
         else if k < 100 then [sign, char_of (48 + k div 10), char_of (48 + k mod 10)]
         else [sign, char_of (48 + k div 100), char_of (48 + k mod 100 div 10),
               char_of (48 + k mod 100 mod 10)])"

definition format_buffer :: "string \<Rightarrow> int \<Rightarrow> int \<Rightarrow> int \<Rightarrow> string" where
  "format_buffer buf decimal_exponent min_exp max_exp =
     (let k = int (length buf); n = k + decimal_exponent
      in if k \<le> n \<and> n \<le> max_exp then buf @ replicate (nat (n - k)) CHR ''0'' @ ''.0''
         else if 0 < n \<and> n \<le> max_exp then take (nat n) buf @ ''.'' @ drop (nat n) buf
         else if min_exp < n \<and> n \<le> 0 then ''0.'' @ replicate (nat (- n)) CHR ''0'' @ buf
         else (if k = 1 then buf else take 1 buf @ ''.'' @ drop 1 buf)
              @ ''e'' @ append_exponent (n - 1))"

definition to_chars :: "double \<Rightarrow> string" where
  "to_chars value =
     (let sign = (if signbit value then ''-'' else []);
          value = (if signbit value then negate_double value else value)
      in if value = 0 then sign @ ''0.0''
         else let (buf, decimal_exponent) = grisu2_value value
              in sign @ format_buffer buf decimal_exponent (- 4) 15)"

section \<open>Lemmas\<close>

subsection \<open>The 64-bit product rounds correctly\<close>

lemma word64_split:
  fixes x :: "64 word"
  shows "uint (x AND 0xFFFFFFFF) = uint x mod 2 ^ 32" "uint (drop_bit 32 x) = uint x div 2 ^ 32"
    "0 \<le> uint x" "uint x < 2 ^ 64"
proof -
  have "x AND 0xFFFFFFFF = take_bit 32 x" by (simp add: take_bit_eq_mask mask_numeral)
  then show "uint (x AND 0xFFFFFFFF) = uint x mod 2 ^ 32"
    by (metis take_bit_eq_mod unsigned_take_bit_eq)
  show "uint (drop_bit 32 x) = uint x div 2 ^ 32" by (simp add: drop_bit_eq_div uint_div_distrib)
  show "0 \<le> uint x" "uint x < 2 ^ 64" using unsigned_less [of x] by simp_all
qed

lemma uint_mult_small:
  fixes a b :: "64 word"
  assumes "uint a < 2 ^ 32" "uint b < 2 ^ 32"
  shows "uint (a * b) = uint a * uint b" "uint a * uint b \<le> (2 ^ 32 - 1) * (2 ^ 32 - 1)"
proof -
  show le: "uint a * uint b \<le> (2 ^ 32 - 1) * (2 ^ 32 - 1)"
    using assms by (intro mult_mono) auto
  show "uint (a * b) = uint a * uint b" using le by (simp add: uint_word_ariths)
qed

lemma uint_add_small: "uint (a :: 64 word) + uint b < 2 ^ 64 \<Longrightarrow> uint (a + b) = uint a + uint b"
  by (simp add: uint_word_ariths)

lemma uint_add_small4:
  fixes a b c d :: "64 word"
  assumes "uint a + uint b + uint c + uint d < 2 ^ 64"
  shows "uint (a + b + c + d) = uint a + uint b + uint c + uint d"
proof -
  have lt: "uint a + uint b < 2 ^ 64" "uint a + uint b + uint c < 2 ^ 64"
    using assms word64_split(3) [of c] word64_split(3) [of d] by linarith+
  have ab: "uint (a + b) = uint a + uint b" by (rule uint_add_small [OF lt(1)])
  have abc: "uint (a + b + c) = uint a + uint b + uint c"
    using uint_add_small [of "a + b" c] lt(2) by (simp only: ab)
  show ?thesis using uint_add_small [of "a + b + c" d] assms by (simp only: abc)
qed

text \<open>The identity behind the four partial products of the source, on integers.\<close>

lemma long_multiplication:
  fixes uh ul vh vl :: int
  shows "((uh * 2 ^ 32 + ul) * (vh * 2 ^ 32 + vl) + 2 ^ 63) div 2 ^ 64 =
    uh * vh + uh * vl div 2 ^ 32 + ul * vh div 2 ^ 32
    + (ul * vl div 2 ^ 32 + ul * vh mod 2 ^ 32 + uh * vl mod 2 ^ 32 + 2 ^ 31) div 2 ^ 32"
proof -
  have e: "(2 :: int) ^ 31 = 2147483648" "(2 :: int) ^ 32 = 4294967296"
    "(2 :: int) ^ 63 = 9223372036854775808" "(2 :: int) ^ 64 = 18446744073709551616"
    by simp_all
  have dm: "p = 4294967296 * (p div 4294967296) + p mod 4294967296" for p :: int by simp
  have parts: "p0 + 4294967296 * (p1 + p2) + 18446744073709551616 * t + 9223372036854775808 =
      b0 + 4294967296 * (a0 + b1 + b2 + 2147483648) + 18446744073709551616 * (t + a2 + a1)"
    if "p0 = 4294967296 * a0 + b0" "p1 = 4294967296 * a1 + b1" "p2 = 4294967296 * a2 + b2"
    for p0 p1 p2 a0 a1 a2 b0 b1 b2 t :: int
    using that by simp
  have sum2: "t + 4294967296 * q + 18446744073709551616 * h =
      18446744073709551616 * (h + a) + (4294967296 * b + t)"
    if "q = 4294967296 * a + b" for q a b h t :: int
    using that by simp
  define p0 p1 p2 where "p0 = ul * vl" "p1 = ul * vh" "p2 = uh * vl"
  define Q where "Q = p0 div 2 ^ 32 + p1 mod 2 ^ 32 + p2 mod 2 ^ 32 + 2 ^ 31"
  define H where "H = uh * vh + p2 div 2 ^ 32 + p1 div 2 ^ 32"
  have "(uh * 2 ^ 32 + ul) * (vh * 2 ^ 32 + vl) + 2 ^ 63 =
      p0 + 2 ^ 32 * (p1 + p2) + 2 ^ 64 * (uh * vh) + 2 ^ 63"
    by (simp add: p0_p1_p2_def algebra_simps)
  also have "\<dots> = p0 mod 2 ^ 32 + 2 ^ 32 * Q + 2 ^ 64 * H"
    unfolding Q_def H_def e
    by (rule parts [OF dm [of p0] dm [of p1] dm [of p2]])
  also have "\<dots> div 2 ^ 64 = H + Q div 2 ^ 32"
  proof (rule int_div_pos_eq)
    show "p0 mod 2 ^ 32 + 2 ^ 32 * Q + 2 ^ 64 * H =
        2 ^ 64 * (H + Q div 2 ^ 32) + (2 ^ 32 * (Q mod 2 ^ 32) + p0 mod 2 ^ 32)"
      unfolding e by (rule sum2 [OF dm [of Q]])
    show "0 \<le> 2 ^ 32 * (Q mod 2 ^ 32) + p0 mod 2 ^ 32" by simp
    show "2 ^ 32 * (Q mod 2 ^ 32) + p0 mod 2 ^ 32 < 2 ^ 64"
      using pos_mod_bound [of "2 ^ 32" Q] pos_mod_bound [of "2 ^ 32" p0] by simp
  qed
  finally show ?thesis by (simp only: Q_def H_def p0_p1_p2_def)
qed

lemma diyfp_mul_correct:
  "uint (df (diyfp_mul x y)) = (uint (df x) * uint (df y) + 2 ^ 63) div 2 ^ 64"
  "de (diyfp_mul x y) = de x + de y + 64"
proof -
  show "de (diyfp_mul x y) = de x + de y + 64" by (simp add: diyfp_mul_def Let_def)
  define ul uh vl vh where
    "ul = df x AND 0xFFFFFFFF" "uh = drop_bit 32 (df x)"
    "vl = df y AND 0xFFFFFFFF" "vh = drop_bit 32 (df y)"
  note defs = ul_uh_vl_vh_def
  have b: "uint ul < 2 ^ 32" "uint uh < 2 ^ 32" "uint vl < 2 ^ 32" "uint vh < 2 ^ 32"
    using word64_split [of "df x"] word64_split [of "df y"] by (simp_all add: defs)
  note m = uint_mult_small [OF b(1) b(3)] uint_mult_small [OF b(1) b(4)]
    uint_mult_small [OF b(2) b(3)] uint_mult_small [OF b(2) b(4)]
  define Q where "Q = drop_bit 32 (ul * vl) + (ul * vh AND 0xFFFFFFFF) + (uh * vl AND 0xFFFFFFFF)
    + push_bit (64 - 32 - 1) 1"
  have p: "uint (push_bit (64 - 32 - 1) (1 :: 64 word)) = 2 ^ 31" by simp
  have lt: "a mod 2 ^ 32 \<le> 2 ^ 32 - 1" for a :: int by simp
  have dl: "a div 2 ^ 32 \<le> 2 ^ 32 - 2" if "a \<le> (2 ^ 32 - 1) * (2 ^ 32 - 1)" for a :: int
    using zdiv_mono1 [OF that, of "2 ^ 32"] by simp
  have Q: "uint Q = uint ul * uint vl div 2 ^ 32 + uint ul * uint vh mod 2 ^ 32
      + uint uh * uint vl mod 2 ^ 32 + 2 ^ 31"
  proof -
    have bound: "a + b + c + 2 ^ 31 < 2 ^ 64"
      if "a \<le> 2 ^ 32 - 2" "b \<le> 2 ^ 32 - 1" "c \<le> 2 ^ 32 - 1" for a b c :: int
      using that by simp
    have "uint ul * uint vl div 2 ^ 32 + uint ul * uint vh mod 2 ^ 32 + uint uh * uint vl mod 2 ^ 32
        + 2 ^ 31 < 2 ^ 64"
      by (rule bound [OF dl [OF m(2)] lt lt])
    then show ?thesis
      using uint_add_small4 [of "drop_bit 32 (ul * vl)" "ul * vh AND 0xFFFFFFFF" "uh * vl AND 0xFFFFFFFF"
          "push_bit (64 - 32 - 1) 1"]
      by (simp only: Q_def word64_split m p)
  qed
  have sum4: "uint (uh * vh + drop_bit 32 (uh * vl) + drop_bit 32 (ul * vh) + drop_bit 32 Q) =
      uint uh * uint vh + uint uh * uint vl div 2 ^ 32 + uint ul * uint vh div 2 ^ 32 + uint Q div 2 ^ 32"
    if "uint uh * uint vh + uint uh * uint vl div 2 ^ 32 + uint ul * uint vh div 2 ^ 32 + uint Q div 2 ^ 32
      < 2 ^ 64"
    using uint_add_small4 [of "uh * vh" "drop_bit 32 (uh * vl)" "drop_bit 32 (ul * vh)" "drop_bit 32 Q"] that
    by (simp only: word64_split m)
  have U: "uint uh * 2 ^ 32 + uint ul = uint (df x)" and V: "uint vh * 2 ^ 32 + uint vl = uint (df y)"
    using word64_split [of "df x"] word64_split [of "df y"] by (simp_all add: defs)
  have H: "uint uh * uint vh + uint uh * uint vl div 2 ^ 32 + uint ul * uint vh div 2 ^ 32 + uint Q div 2 ^ 32
      = (uint (df x) * uint (df y) + 2 ^ 63) div 2 ^ 64"
    unfolding Q by (simp only: long_multiplication [symmetric] U V)
  have "uint (df x) * uint (df y) \<le> (2 ^ 64 - 1) * (2 ^ 64 - 1)"
    using word64_split(3,4) [of "df x"] word64_split(3,4) [of "df y"] by (intro mult_mono) auto
  then have "(uint (df x) * uint (df y) + 2 ^ 63) div 2 ^ 64 < 2 ^ 64" by simp
  then have "uint (uh * vh + drop_bit 32 (uh * vl) + drop_bit 32 (ul * vh) + drop_bit 32 Q) =
      uint uh * uint vh + uint uh * uint vl div 2 ^ 32 + uint ul * uint vh div 2 ^ 32 + uint Q div 2 ^ 32"
    unfolding H [symmetric] by (rule sum4)
  then show "uint (df (diyfp_mul x y)) = (uint (df x) * uint (df y) + 2 ^ 63) div 2 ^ 64"
    by (simp only: H) (simp add: diyfp_mul_def Let_def Q_def defs)
qed

subsection \<open>The cached power brings the exponent into range\<close>

definition exponent_in_range :: "int \<Rightarrow> bool" where
  "exponent_in_range e =
     (let i = cached_power_index e; (cf, ce, ck) = get_cached_power_for_binary_exponent e
      in 0 \<le> i \<and> i < 79 \<and> kAlpha \<le> ce + e + 64 \<and> ce + e + 64 \<le> - 34)"

text \<open>
  The table index falls as the exponent grows, so that the exponents with one index form an
  interval and it is enough to look at the ends of the 79 intervals.
\<close>

fun range_check :: "int \<Rightarrow> int list \<Rightarrow> bool" where
  "range_check lo [] \<longleftrightarrow> True"
| "range_check lo (b # bs) \<longleftrightarrow>
     exponent_in_range lo \<and> exponent_in_range b \<and> cached_power_index lo = cached_power_index b
     \<and> range_check (b + 1) bs"

lemma sdiv_pos_eq:
  fixes a :: int assumes "0 < d"
  shows "a sdiv d = (if 0 \<le> a then a div d else - (- a div d))"
  using assms by (auto simp: signed_divide_int_def sgn_if)

lemma sdiv_mono:
  fixes a b d :: int
  assumes "0 < d" "a \<le> b"
  shows "a sdiv d \<le> b sdiv d"
proof -
  have nonneg: "0 \<le> x div d" if "0 \<le> x" for x
    using that assms by (simp add: pos_imp_zdiv_nonneg_iff)
  then have "- (- a div d) \<le> b div d" if "a < 0" "0 \<le> b"
    using that nonneg [of "- a"] nonneg [of b] by linarith
  then show ?thesis using assms by (auto simp: sdiv_pos_eq intro: zdiv_mono1)
qed

lemma cached_power_index_antimono: "a \<le> b \<Longrightarrow> cached_power_index b \<le> cached_power_index a"
proof -
  assume "a \<le> b"
  then have "((kAlpha - b - 1) * 78913) sdiv 2 ^ 18 \<le> ((kAlpha - a - 1) * 78913) sdiv 2 ^ 18"
    by (intro sdiv_mono) auto
  then have "300 + (((kAlpha - b - 1) * 78913) sdiv 2 ^ 18 + (if kAlpha - b - 1 > 0 then 1 else 0)) + (8 - 1)
    \<le> 300 + (((kAlpha - a - 1) * 78913) sdiv 2 ^ 18 + (if kAlpha - a - 1 > 0 then 1 else 0)) + (8 - 1 :: int)"
    using \<open>a \<le> b\<close> by auto
  then show ?thesis unfolding cached_power_index_def Let_def by (intro sdiv_mono) auto
qed

lemma exponent_in_range_between:
  assumes "exponent_in_range lo" "exponent_in_range hi" "cached_power_index lo = cached_power_index hi"
    and "lo \<le> e" "e \<le> hi"
  shows "exponent_in_range e"
proof -
  have "cached_power_index e = cached_power_index lo"
    using cached_power_index_antimono [OF assms(4)] cached_power_index_antimono [OF assms(5)] assms(3)
    by simp
  with assms show ?thesis
    by (auto simp: exponent_in_range_def get_cached_power_for_binary_exponent_def Let_def split: prod.splits)
qed

lemma range_check_sound:
  "\<lbrakk>range_check lo bs; bs \<noteq> []; lo \<le> e; e \<le> last bs\<rbrakk> \<Longrightarrow> exponent_in_range e"
proof (induction lo bs rule: range_check.induct)
  case (2 lo b bs)
  then show ?case
    by (cases "e \<le> b") (auto split: if_splits intro: exponent_in_range_between)
qed simp

lemma cached_power_exponent:
  assumes "- 1137 \<le> e" "e \<le> 960"
  shows "exponent_in_range e"
proof -
  have "range_check (- 1137)
      [       - 1111, - 1085, - 1058, - 1032, - 1005, - 978, - 952, - 925, - 899, - 872, - 845, - 819, 
       - 792, - 766, - 739, - 713, - 686, - 659, - 633, - 606, - 580, - 553, - 527, - 500, - 
       473, - 447, - 420, - 394, - 367, - 341, - 314, - 287, - 261, - 234, - 208, - 181, - 155, 
       - 128, - 101, - 75, - 48, - 22, 5, 32, 58, 85, 111, 138, 164, 191, 218, 244, 271, 297, 
       324, 350, 377, 404, 430, 457, 483, 510, 536, 563, 590, 616, 643, 669, 696, 722, 749, 776, 
       802, 829, 855, 882, 909, 935, 960]"
    by code_simp
  from range_check_sound [OF this] assms show ?thesis by simp
qed

subsection \<open>Normalization\<close>

lemma normalize_loop_correct:
  assumes "f \<noteq> 0" "unat f * 2 ^ n \<ge> 2 ^ 63"
  shows "\<exists>k \<le> n. df (normalize_loop n f e) = push_bit k f \<and> unat (push_bit k f) = unat f * 2 ^ k
      \<and> de (normalize_loop n f e) = e - int k \<and> 2 ^ 63 \<le> unat (push_bit k f)"
  using assms
proof (induction n f e rule: normalize_loop.induct)
  case (1 f e)
  then show ?case by simp
next
  case (2 n f e)
  show ?case
  proof (cases "drop_bit 63 f = 0")
    case True
    then have "unat f div 2 ^ 63 = 0"
      by (metis drop_bit_eq_div unat_drop_bit_eq unsigned_0)
    then have lt: "unat f < 2 ^ 63" by (simp add: div_eq_0_iff)
    have p: "unat (push_bit 1 f) = unat f * 2"
      using lt by (simp add: unat_word_ariths)
    then have "push_bit 1 f \<noteq> 0" using 2(2) by (metis mult_eq_0_iff unat_eq_zero unsigned_0 zero_neq_numeral)
    then obtain k where k: "k \<le> n" "df (normalize_loop n (push_bit 1 f) (e - 1)) = push_bit k (push_bit 1 f)"
      "unat (push_bit k (push_bit 1 f)) = unat (push_bit 1 f) * 2 ^ k"
      "de (normalize_loop n (push_bit 1 f) (e - 1)) = e - 1 - int k"
      "2 ^ 63 \<le> unat (push_bit k (push_bit 1 f))"
      using 2(1) [OF True] 2(3) p by (auto simp: mult.assoc)
    then show ?thesis using True p by (intro exI [of _ "Suc k"]) (simp add: algebra_simps)
  next
    case False
    then have "unat f div 2 ^ 63 \<noteq> 0"
      by (metis drop_bit_eq_div unat_drop_bit_eq unat_eq_zero)
    then have "2 ^ 63 \<le> unat f" by (simp add: div_eq_0_iff)
    then show ?thesis using False by (intro exI [of _ 0]) simp
  qed
qed

lemma diyfp_normalize_correct:
  assumes "df x \<noteq> 0"
  shows "\<exists>k \<le> 63. unat (df (diyfp_normalize x)) = unat (df x) * 2 ^ k
    \<and> de (diyfp_normalize x) = de x - int k \<and> 2 ^ 63 \<le> unat (df (diyfp_normalize x))"
proof -
  have pos: "1 \<le> unat (df x)" using assms by (simp add: Suc_leI unat_gt_0)
  then obtain k where k: "k \<le> 64" "df (diyfp_normalize x) = push_bit k (df x)"
    "unat (push_bit k (df x)) = unat (df x) * 2 ^ k" "de (diyfp_normalize x) = de x - int k"
    "2 ^ 63 \<le> unat (push_bit k (df x))"
    using normalize_loop_correct [of "df x" 64 "de x"] assms by (auto simp: diyfp_normalize_def)
  have "unat (push_bit k (df x)) < 2 ^ 64" using unsigned_less [of "push_bit k (df x)"] by simp
  with k(3) pos have "(2 :: nat) ^ k < 2 ^ 64" by (metis le_less_trans mult_le_mono1 nat_mult_1)
  then have "k < 64" by (rule power_less_imp_less_exp [rotated]) simp
  then have "k \<le> 63" by simp
  with k show ?thesis by auto
qed

section \<open>Properties\<close>

text \<open>
  \<open>diyfp::mul\<close>, which assembles the upper half of a 128-bit product from four
  32-bit partial products, gives exactly the product of the significands divided by \<open>2^64\<close> and
  rounded to nearest with ties up; no intermediate sum wraps around.
\<close>

theorem diyfp_mul_rounds:
  "uint (df (diyfp_mul x y)) = (uint (df x) * uint (df y) + 2 ^ 63) div 2 ^ 64
   \<and> de (diyfp_mul x y) = de x + de y + 64"
  by (simp only: diyfp_mul_correct)

text \<open>
  For every binary exponent a normalized double can have, the index into
  the table of cached powers of ten is inside the table, and the power read there brings the
  exponent of the product into \<open>[-60, -34]\<close>, as the source notes and its assertions require.
\<close>

theorem cached_power_in_range:
  assumes "- 1137 \<le> e" "e \<le> 960"
  shows "0 \<le> cached_power_index e \<and> nat (cached_power_index e) < length kCachedPowers \<and>
    kAlpha \<le> fst (snd (get_cached_power_for_binary_exponent e)) + e + 64 \<and>
    fst (snd (get_cached_power_for_binary_exponent e)) + e + 64 \<le> - 34"
proof -
  have "length kCachedPowers = 79" by (simp add: kCachedPowers_def)
  then show ?thesis
    using cached_power_exponent [OF assms]
    by (auto simp: exponent_in_range_def Let_def split: prod.splits)
qed

theorem cached_power_in_range_witness:
  "nat (cached_power_index 0) < length kCachedPowers
   \<and> fst (snd (get_cached_power_for_binary_exponent 0)) + 0 + 64 \<le> - 34"
  using cached_power_in_range [of 0] by simp

end
