(* ===== verification/Json_Value.thy ===== *)
theory Json_Value
  imports Json_Float "HOL-Library.Char_ord" "HOL-Library.List_Lexorder"
begin

text \<open>
  JSON values of \<open>nlohmann::basic_json\<close> (\<open>include/nlohmann/json.hpp\<close>), its exceptions
  (\<open>detail/exceptions.hpp\<close>), the conversions of \<open>detail/conversions/from_json.hpp\<close> the program
  uses, and the member functions for access, lookup, capacity and modification.

  An object is a \<open>std::map\<close> from strings to values: an association list in strictly increasing
  order of the keys, compared byte by byte. A function that throws returns \<open>Inl\<close> of the exception.
  A failed \<open>JSON_ASSERT\<close> is the value \<open>Assertion_failed\<close>: the process aborts, or, when assertions are
  compiled out, behaves in an undefined way; no handler catches it.
\<close>

section \<open>Definitions\<close>

subsection \<open>Values\<close>

datatype json =
    JNull
  | JObject "(string \<times> json) list"
  | JArray "json list"
  | JString string
  | JBoolean bool
  | JInteger "64 word"
  | JUnsigned "64 word"
  | JFloat double
  | JBinary "8 word list" "64 word option"
  | JDiscarded

definition type_name :: "json \<Rightarrow> string" where
  "type_name j = (case j of
       JNull \<Rightarrow> ''null''
     | JObject _ \<Rightarrow> ''object''
     | JArray _ \<Rightarrow> ''array''
     | JString _ \<Rightarrow> ''string''
     | JBoolean _ \<Rightarrow> ''boolean''
     | JBinary _ _ \<Rightarrow> ''binary''
     | JDiscarded \<Rightarrow> ''discarded''
     | _ \<Rightarrow> ''number'')"

definition is_object :: "json \<Rightarrow> bool" where
  "is_object j = (case j of JObject _ \<Rightarrow> True | _ \<Rightarrow> False)"

definition is_array :: "json \<Rightarrow> bool" where
  "is_array j = (case j of JArray _ \<Rightarrow> True | _ \<Rightarrow> False)"

definition is_string :: "json \<Rightarrow> bool" where
  "is_string j = (case j of JString _ \<Rightarrow> True | _ \<Rightarrow> False)"

definition is_discarded :: "json \<Rightarrow> bool" where
  "is_discarded j = (case j of JDiscarded \<Rightarrow> True | _ \<Rightarrow> False)"

subsection \<open>Exceptions\<close>

record position_t =
  chars_read_total :: nat
  chars_read_current_line :: nat
  lines_read :: nat

datatype json_exn =
    Parse_error nat nat string      \<comment> \<open>\<open>id\<close>, \<open>byte\<close>, \<open>what()\<close>\<close>
  | Type_error nat string
  | Json_out_of_range nat string
  | Assertion_failed

definition exception_name :: "string \<Rightarrow> nat \<Rightarrow> string" where
  "exception_name ename i = ''[json.exception.'' @ ename @ ''.'' @ to_string_nat i @ ''] ''"

definition position_string :: "position_t \<Rightarrow> string" where
  "position_string pos =
     '' at line '' @ to_string_nat (lines_read pos + 1) @ '', column '' @
     to_string_nat (chars_read_current_line pos)"

definition parse_error_create :: "nat \<Rightarrow> position_t \<Rightarrow> string \<Rightarrow> json_exn" where
  "parse_error_create i pos what_arg =
     Parse_error i (chars_read_total pos)
       (c_str (exception_name ''parse_error'' i @ ''parse error'' @ position_string pos @ '': '' @ what_arg))"

definition type_error_create :: "nat \<Rightarrow> string \<Rightarrow> json_exn" where
  "type_error_create i what_arg = Type_error i (c_str (exception_name ''type_error'' i @ what_arg))"

definition out_of_range_create :: "nat \<Rightarrow> string \<Rightarrow> json_exn" where
  "out_of_range_create i what_arg =
     Json_out_of_range i (c_str (exception_name ''out_of_range'' i @ what_arg))"

fun what :: "json_exn \<Rightarrow> string" where
  "what (Parse_error i b w) = w"
| "what (Type_error i w) = w"
| "what (Json_out_of_range i w) = w"
| "what Assertion_failed = []"

subsection \<open>Objects: \<open>std::map\<close>\<close>

fun map_assign :: "string \<Rightarrow> 'v \<Rightarrow> (string \<times> 'v) list \<Rightarrow> (string \<times> 'v) list" where
  \<comment> \<open>\<open>m[k] = v\<close>\<close>
  "map_assign k v [] = [(k, v)]"
| "map_assign k v ((a, b) # m) =
     (if k < a then (k, v) # (a, b) # m
      else if k = a then (k, v) # m
      else (a, b) # map_assign k v m)"

fun map_emplace :: "string \<Rightarrow> 'v \<Rightarrow> (string \<times> 'v) list \<Rightarrow> (string \<times> 'v) list" where
  \<comment> \<open>\<open>m.emplace(k, v)\<close>: an existing entry stays\<close>
  "map_emplace k v [] = [(k, v)]"
| "map_emplace k v ((a, b) # m) =
     (if k < a then (k, v) # (a, b) # m
      else if k = a then (a, b) # m
      else (a, b) # map_emplace k v m)"

fun map_erase :: "string \<Rightarrow> (string \<times> 'v) list \<Rightarrow> (string \<times> 'v) list" where
  "map_erase k [] = []"
| "map_erase k ((a, b) # m) = (if k = a then m else (a, b) # map_erase k m)"

subsection \<open>Construction\<close>

definition json_of_strings :: "string list \<Rightarrow> json" where
  \<comment> \<open>\<open>json j = std::vector<std::string>\<close>\<close>
  "json_of_strings ss = JArray (map JString ss)"

definition pair_element :: "json \<Rightarrow> bool" where
  \<comment> \<open>\<open>is_array() && size() == 2 && [0].is_string()\<close>\<close>
  "pair_element j = (case j of JArray [JString k, v] \<Rightarrow> True | _ \<Rightarrow> False)"

definition add_pair :: "(string \<times> json) list \<Rightarrow> json \<Rightarrow> (string \<times> json) list" where
  "add_pair m j = (case j of JArray [JString k, v] \<Rightarrow> map_emplace k v m | _ \<Rightarrow> m)"

definition json_of_init :: "json list \<Rightarrow> json" where
  \<comment> \<open>construction from an initializer list, with type deduction\<close>
  "json_of_init es =
     (if list_all pair_element es then JObject (foldl add_pair [] es) else JArray es)"

subsection \<open>Conversions: \<open>get<T>()\<close>\<close>

definition get_string_value :: "json \<Rightarrow> json_exn + string" where
  \<comment> \<open>\<open>get<std::string>()\<close>\<close>
  "get_string_value j = (case j of
       JString s \<Rightarrow> Inr s
     | _ \<Rightarrow> Inl (type_error_create 302 (''type must be string, but is '' @ type_name j)))"

fun get_strings :: "json list \<Rightarrow> json_exn + string list" where
  "get_strings [] = Inr []"
| "get_strings (j # js) = (case get_string_value j of
       Inl e \<Rightarrow> Inl e
     | Inr s \<Rightarrow> (case get_strings js of Inl e \<Rightarrow> Inl e | Inr ss \<Rightarrow> Inr (s # ss)))"

definition get_string_vector :: "json \<Rightarrow> json_exn + string list" where
  \<comment> \<open>\<open>get<std::vector<std::string>>()\<close>, also as an implicit conversion\<close>
  "get_string_vector j = (case j of
       JArray js \<Rightarrow> get_strings js
     | _ \<Rightarrow> Inl (type_error_create 302 (''type must be array, but is '' @ type_name j)))"

definition elements :: "json \<Rightarrow> json list" where
  \<comment> \<open>the values a range-based \<open>for\<close> visits: a value that is no container is its own only element\<close>
  "elements j = (case j of
       JNull \<Rightarrow> []
     | JObject m \<Rightarrow> map snd m
     | JArray js \<Rightarrow> js
     | _ \<Rightarrow> [j])"

subsection \<open>Element access\<close>

definition json_at_key :: "string \<Rightarrow> json \<Rightarrow> json_exn + json" where
  \<comment> \<open>\<open>at(key)\<close>\<close>
  "json_at_key k j = (case j of
       JObject m \<Rightarrow> (case map_of m k of
           Some v \<Rightarrow> Inr v
         | None \<Rightarrow> Inl (out_of_range_create 403 (''key '' @ [SQ] @ k @ [SQ] @ '' not found'')))
     | _ \<Rightarrow> Inl (type_error_create 304 (''cannot use at() with '' @ type_name j)))"

definition json_index_const :: "nat \<Rightarrow> json \<Rightarrow> json_exn + json" where
  \<comment> \<open>\<open>operator[](idx) const\<close>; the vector is indexed without a check\<close>
  "json_index_const i j = (case j of
       JArray js \<Rightarrow> if i < length js then Inr (js ! i) else Inl Assertion_failed
     | _ \<Rightarrow> Inl (type_error_create 305
              (''cannot use operator[] with a numeric argument with '' @ type_name j)))"

definition json_key_const :: "string \<Rightarrow> json \<Rightarrow> json_exn + json" where
  \<comment> \<open>\<open>operator[](key) const\<close>\<close>
  "json_key_const k j = (case j of
       JObject m \<Rightarrow> (case map_of m k of Some v \<Rightarrow> Inr v | None \<Rightarrow> Inl Assertion_failed)
     | _ \<Rightarrow> Inl (type_error_create 305
              (''cannot use operator[] with a string argument with '' @ type_name j)))"

definition json_index_put :: "nat \<Rightarrow> json \<Rightarrow> json \<Rightarrow> json_exn + json" where
  \<comment> \<open>\<open>j[idx] = v\<close>: null becomes an array, a short array is filled up with nulls\<close>
  "json_index_put i v j =
     (case (case j of JNull \<Rightarrow> JArray [] | _ \<Rightarrow> j) of
        JArray js \<Rightarrow>
          (let js' = (if i \<ge> length js then js @ replicate (i + 1 - length js) JNull else js)
           in Inr (JArray (js'[i := v])))
      | _ \<Rightarrow> Inl (type_error_create 305
              (''cannot use operator[] with a numeric argument with '' @ type_name j)))"

definition json_key_put :: "string \<Rightarrow> json \<Rightarrow> json \<Rightarrow> json_exn + json" where
  \<comment> \<open>\<open>j[key] = v\<close>: null becomes an object\<close>
  "json_key_put k v j =
     (case (case j of JNull \<Rightarrow> JObject [] | _ \<Rightarrow> j) of
        JObject m \<Rightarrow> Inr (JObject (map_assign k v (map_emplace k JNull m)))
      | _ \<Rightarrow> Inl (type_error_create 305
              (''cannot use operator[] with a string argument with '' @ type_name j)))"

definition json_value :: "string \<Rightarrow> string \<Rightarrow> json \<Rightarrow> json_exn + string" where
  \<comment> \<open>\<open>value(key, default)\<close> with a string default\<close>
  "json_value k d j = (case j of
       JObject m \<Rightarrow> (case map_of m k of Some v \<Rightarrow> get_string_value v | None \<Rightarrow> Inr d)
     | _ \<Rightarrow> Inl (type_error_create 306 (''cannot use value() with '' @ type_name j)))"

definition erase_key :: "string \<Rightarrow> json \<Rightarrow> json_exn + (nat \<times> json)" where
  \<comment> \<open>\<open>erase(key)\<close>: the number of removed elements and the new value\<close>
  "erase_key k j = (case j of
       JObject m \<Rightarrow> Inr (if map_of m k = None then 0 else 1, JObject (map_erase k m))
     | _ \<Rightarrow> Inl (type_error_create 307 (''cannot use erase() with '' @ type_name j)))"

definition erase_index :: "nat \<Rightarrow> json \<Rightarrow> json_exn + json" where
  "erase_index i j = (case j of
       JArray js \<Rightarrow>
         if i \<ge> length js
         then Inl (out_of_range_create 401 (''array index '' @ to_string_nat i @ '' is out of range''))
         else Inr (JArray (take i js @ drop (i + 1) js))
     | _ \<Rightarrow> Inl (type_error_create 307 (''cannot use erase() with '' @ type_name j)))"

subsection \<open>Lookup, capacity and modifiers\<close>

definition json_count :: "string \<Rightarrow> json \<Rightarrow> nat" where
  "json_count k j = (case j of JObject m \<Rightarrow> if map_of m k = None then 0 else 1 | _ \<Rightarrow> 0)"

definition json_contains :: "string \<Rightarrow> json \<Rightarrow> bool" where
  "json_contains k j = (case j of JObject m \<Rightarrow> map_of m k \<noteq> None | _ \<Rightarrow> False)"

definition json_empty :: "json \<Rightarrow> bool" where
  "json_empty j = (case j of
       JNull \<Rightarrow> True
     | JArray js \<Rightarrow> js = []
     | JObject m \<Rightarrow> m = []
     | _ \<Rightarrow> False)"

definition json_size :: "json \<Rightarrow> nat" where
  "json_size j = (case j of
       JNull \<Rightarrow> 0
     | JArray js \<Rightarrow> length js
     | JObject m \<Rightarrow> length m
     | _ \<Rightarrow> 1)"

definition clear :: "json \<Rightarrow> json" where
  "clear j = (case j of
       JInteger _ \<Rightarrow> JInteger 0
     | JUnsigned _ \<Rightarrow> JUnsigned 0
     | JFloat _ \<Rightarrow> JFloat 0
     | JBoolean _ \<Rightarrow> JBoolean False
     | JString _ \<Rightarrow> JString []
     | JBinary _ st \<Rightarrow> JBinary [] st
     | JArray _ \<Rightarrow> JArray []
     | JObject _ \<Rightarrow> JObject []
     | _ \<Rightarrow> j)"

definition push_back :: "json \<Rightarrow> json \<Rightarrow> json_exn + json" where
  "push_back v j = (case j of
       JNull \<Rightarrow> Inr (JArray [v])
     | JArray js \<Rightarrow> Inr (JArray (js @ [v]))
     | _ \<Rightarrow> Inl (type_error_create 308 (''cannot use push_back() with '' @ type_name j)))"

definition push_back_pair :: "string \<Rightarrow> json \<Rightarrow> json \<Rightarrow> json_exn + json" where
  "push_back_pair k v j = (case j of
       JNull \<Rightarrow> Inr (JObject [(k, v)])
     | JObject m \<Rightarrow> Inr (JObject (map_emplace k v m))
     | _ \<Rightarrow> Inl (type_error_create 308 (''cannot use push_back() with '' @ type_name j)))"

definition emplace_back :: "json \<Rightarrow> json \<Rightarrow> json_exn + json" where
  "emplace_back v j = (case j of
       JNull \<Rightarrow> Inr (JArray [v])
     | JArray js \<Rightarrow> Inr (JArray (js @ [v]))
     | _ \<Rightarrow> Inl (type_error_create 311 (''cannot use emplace_back() with '' @ type_name j)))"

definition emplace :: "string \<Rightarrow> json \<Rightarrow> json \<Rightarrow> json_exn + (bool \<times> json)" where
  "emplace k v j = (case j of
       JNull \<Rightarrow> Inr (True, JObject [(k, v)])
     | JObject m \<Rightarrow> Inr (map_of m k = None, JObject (map_emplace k v m))
     | _ \<Rightarrow> Inl (type_error_create 311 (''cannot use emplace() with '' @ type_name j)))"

definition insert_at :: "nat \<Rightarrow> json \<Rightarrow> json \<Rightarrow> json_exn + json" where
  \<comment> \<open>\<open>insert(pos, val)\<close> with an iterator at position \<open>i\<close> of the same value\<close>
  "insert_at i v j = (case j of
       JArray js \<Rightarrow> Inr (JArray (take i js @ v # drop i js))
     | _ \<Rightarrow> Inl (type_error_create 309 (''cannot use insert() with '' @ type_name j)))"

text \<open>\<open>update\<close> with the whole of another object (not of the value itself), and \<open>merge_patch\<close>: the loops run over
  the members of the argument. What an exception leaves behind is not part of the result.\<close>

function json_update :: "bool \<Rightarrow> json \<Rightarrow> json \<Rightarrow> json_exn + json"
  and update_members :: "bool \<Rightarrow> (string \<times> json) list \<Rightarrow> (string \<times> json) list \<Rightarrow> json_exn + (string \<times> json) list" where
  "json_update merge_objects j p =
     (case (case j of JNull \<Rightarrow> JObject [] | _ \<Rightarrow> j) of
        JObject m \<Rightarrow>
          (case p of
             JObject ps \<Rightarrow> map_sum id JObject (update_members merge_objects m ps)
           | _ \<Rightarrow> Inl (type_error_create 312 (''cannot use update() with '' @ type_name p)))
      | _ \<Rightarrow> Inl (type_error_create 312 (''cannot use update() with '' @ type_name j)))"
| "update_members merge_objects m [] = Inr m"
| "update_members merge_objects m ((k, v) # ps) =
     (case (if merge_objects \<and> is_object v then map_of m k else None) of
        Some w \<Rightarrow>
          (case json_update True w v of
             Inl e \<Rightarrow> Inl e
           | Inr w' \<Rightarrow> update_members merge_objects (map_assign k w' m) ps)
      | None \<Rightarrow> update_members merge_objects (map_assign k v m) ps)"
  by pat_completeness auto
termination
  by (relation "measure (case_sum (\<lambda>(b, j, p). size p) (\<lambda>(b, m, ps). size_list (size_prod (\<lambda>_. 0) size) ps))") auto

fun merge_patch :: "json \<Rightarrow> json \<Rightarrow> json"
  and merge_members :: "(string \<times> json) list \<Rightarrow> (string \<times> json) list \<Rightarrow> (string \<times> json) list" where
  "merge_patch (JObject ps) j = JObject (merge_members ps (case j of JObject m \<Rightarrow> m | _ \<Rightarrow> []))"
| "merge_patch p j = p"
| "merge_members [] m = m"
| "merge_members ((k, v) # ps) m =
     (if v = JNull then merge_members ps (map_erase k m)
      else
        let m = map_emplace k JNull m
        in merge_members ps (map_assign k (merge_patch v (the (map_of m k))) m))"

subsection \<open>Well-formed values\<close>

definition sorted_keys :: "(string \<times> 'v) list \<Rightarrow> bool" where
  "sorted_keys m \<longleftrightarrow> sorted_wrt (<) (map fst m)"

fun json_ok :: "json \<Rightarrow> bool" where
  \<comment> \<open>the invariant of the object type: every map is in order, at every depth\<close>
  "json_ok (JObject m) \<longleftrightarrow> sorted_keys m \<and> (\<forall>p \<in> set m. json_ok (snd p))"
| "json_ok (JArray js) \<longleftrightarrow> (\<forall>j \<in> set js. json_ok j)"
| "json_ok _ \<longleftrightarrow> True"

section \<open>Lemmas\<close>

subsection \<open>The map operations\<close>

lemma sorted_keys_Nil [simp]: "sorted_keys []"
  by (simp add: sorted_keys_def)

lemma sorted_keys_Cons [simp]:
  "sorted_keys ((a, b) # m) \<longleftrightarrow> (\<forall>k \<in> fst ` set m. a < k) \<and> sorted_keys m"
  by (simp add: sorted_keys_def)

lemma fst_set_map_assign [simp]: "fst ` set (map_assign k v m) = insert k (fst ` set m)"
  by (induction k v m rule: map_assign.induct) auto

lemma fst_set_map_emplace [simp]: "fst ` set (map_emplace k v m) = insert k (fst ` set m)"
  by (induction k v m rule: map_emplace.induct) auto

lemma sorted_keys_map_assign [simp]: "sorted_keys m \<Longrightarrow> sorted_keys (map_assign k v m)"
  by (induction k v m rule: map_assign.induct) (auto intro: less_trans)

lemma sorted_keys_map_emplace [simp]: "sorted_keys m \<Longrightarrow> sorted_keys (map_emplace k v m)"
  by (induction k v m rule: map_emplace.induct) (auto intro: less_trans)

lemma map_of_notin_less:
  "\<forall>k' \<in> fst ` set m. (k :: string) < k' \<Longrightarrow> map_of m k = None"
  by (metis less_irrefl map_of_eq_None_iff)

lemma map_of_map_assign [simp]: "sorted_keys m \<Longrightarrow> map_of (map_assign k v m) = (map_of m)(k \<mapsto> v)"
  by (induction k v m rule: map_assign.induct) (auto simp: fun_eq_iff)

lemma map_of_map_emplace [simp]:
  "sorted_keys m \<Longrightarrow>
   map_of (map_emplace k v m) = (if map_of m k = None then (map_of m)(k \<mapsto> v) else map_of m)"
  by (induction k v m rule: map_emplace.induct)
    (auto simp: fun_eq_iff map_of_notin_less less_trans split: if_splits)

lemma fst_set_map_erase: "sorted_keys m \<Longrightarrow> fst ` set (map_erase k m) = fst ` set m - {k}"
  by (induction k m rule: map_erase.induct) auto

lemma sorted_keys_map_erase [simp]: "sorted_keys m \<Longrightarrow> sorted_keys (map_erase k m)"
  by (induction k m rule: map_erase.induct) (auto simp: fst_set_map_erase)

lemma map_of_map_erase [simp]:
  "sorted_keys m \<Longrightarrow> map_of (map_erase k m) = (map_of m)(k := None)"
  by (induction k m rule: map_erase.induct) (auto simp: fun_eq_iff map_of_notin_less)

lemma snd_set_map_assign: "p \<in> set (map_assign k v m) \<Longrightarrow> p = (k, v) \<or> p \<in> set m"
  by (induction k v m rule: map_assign.induct) (auto split: if_splits)

lemma snd_set_map_emplace: "p \<in> set (map_emplace k v m) \<Longrightarrow> p = (k, v) \<or> p \<in> set m"
  by (induction k v m rule: map_emplace.induct) (auto split: if_splits)

lemma map_assign_append:
  "\<forall>a \<in> fst ` set m. a < k \<Longrightarrow> map_assign k v m = m @ [(k, v)]"
  by (induction k v m rule: map_assign.induct) auto

lemma map_assign_last:
  "\<forall>a \<in> fst ` set m. a < k \<Longrightarrow> map_assign k v (m @ [(k, u)]) = m @ [(k, v)]"
  by (induction m) auto

lemma map_emplace_append:
  "\<forall>a \<in> fst ` set m. a < k \<Longrightarrow> map_emplace k v m = m @ [(k, v)]"
  by (induction k v m rule: map_emplace.induct) auto

lemma map_assign_emplace [simp]: "map_assign k v (map_emplace k u m) = map_assign k v m"
  by (induction k u m rule: map_emplace.induct) auto

lemma sorted_keys_snoc:
  "sorted_keys (m @ [(k, v)]) \<longleftrightarrow> sorted_keys m \<and> (\<forall>a \<in> fst ` set m. a < k)"
  by (auto simp: sorted_keys_def sorted_wrt_append)

subsection \<open>Operations keep the order\<close>

lemma json_ok_map_assign: "json_ok (JObject m) \<Longrightarrow> json_ok v \<Longrightarrow> json_ok (JObject (map_assign k v m))"
  by (auto dest!: snd_set_map_assign)

lemma json_ok_map_emplace: "json_ok (JObject m) \<Longrightarrow> json_ok v \<Longrightarrow> json_ok (JObject (map_emplace k v m))"
  by (auto dest!: snd_set_map_emplace)

lemma snd_set_map_erase: "p \<in> set (map_erase k m) \<Longrightarrow> p \<in> set m"
  by (induction k m rule: map_erase.induct) (auto split: if_splits)

lemma json_ok_map_erase: "json_ok (JObject m) \<Longrightarrow> json_ok (JObject (map_erase k m))"
  by (auto dest: snd_set_map_erase)

lemma json_ok_add_pair: "json_ok (JObject m) \<Longrightarrow> json_ok j \<Longrightarrow> json_ok (JObject (add_pair m j))"
  by (auto simp: add_pair_def simp del: json_ok.simps(1) intro!: json_ok_map_emplace
      split: json.splits list.splits)

lemma json_ok_add_pairs:
  "json_ok (JObject m) \<Longrightarrow> \<forall>j \<in> set es. json_ok j \<Longrightarrow> json_ok (JObject (foldl add_pair m es))"
  by (induction es arbitrary: m) (auto simp del: json_ok.simps(1) intro: json_ok_add_pair)

lemma json_ok_json_of_init: "\<forall>j \<in> set es. json_ok j \<Longrightarrow> json_ok (json_of_init es)"
  using json_ok_add_pairs [of "[]" es] by (simp add: json_of_init_def)

text \<open>Every modifier keeps the objects of a value in key order at every depth.\<close>

lemma modifiers_keep_order:
  assumes "json_ok j" "json_ok v"
    "r \<in> {json_key_put k v j, json_index_put i v j, erase_index i j, map_sum id snd (erase_key k j),
          push_back v j, push_back_pair k v j, emplace_back v j, map_sum id snd (emplace k v j), insert_at i v j}"
    "r = Inr j'"
  shows "json_ok j'"
proof -
  have assign: "json_ok (JObject (map_assign k v m))" if "json_ok (JObject m)" for m
    using json_ok_map_assign [OF that assms(2)] .
  have emp: "json_ok (JObject (map_emplace k v m))" if "json_ok (JObject m)" for m
    using json_ok_map_emplace [OF that assms(2)] .
  have upd: "json_ok (JArray (js[i := v]))" if "json_ok (JArray js)" for js
    using that assms(2) set_update_subset_insert [of js i v] by auto
  have fill: "json_ok (JArray (js @ replicate n JNull))" if "json_ok (JArray js)" for js n
    using that by auto
  have put: "json_ok (JArray ((if i \<ge> length js then js @ replicate (i + 1 - length js) JNull else js)[i := v]))"
    if "json_ok (JArray js)" for js
    using upd fill [OF that] that by presburger
  have "json_key_put k v j = Inr j' \<Longrightarrow> json_ok j'"
    using assms(1,2) assign
    by (auto simp: json_key_put_def simp del: json_ok.simps(1) split: json.splits) simp
  moreover have "json_index_put i v j = Inr j' \<Longrightarrow> json_ok j'"
    using assms(1) put put [of "[]"] json_ok.simps(2) [of "[]"]
    by (cases j) (auto simp: json_index_put_def Let_def simp del: json_ok.simps(2))
  moreover have "erase_index i j = Inr j' \<Longrightarrow> json_ok j'"
    using assms(1) by (auto simp: erase_index_def split: json.splits if_splits dest!: in_set_takeD in_set_dropD)
  moreover have "map_sum id snd (erase_key k j) = Inr j' \<Longrightarrow> json_ok j'"
    using assms(1) json_ok_map_erase by (auto simp: erase_key_def simp del: json_ok.simps(1) split: json.splits)
  moreover have "push_back v j = Inr j' \<Longrightarrow> json_ok j'"
    using assms(1,2) by (auto simp: push_back_def split: json.splits)
  moreover have "push_back_pair k v j = Inr j' \<Longrightarrow> json_ok j'"
    using assms(1,2) emp emp [of "[]"]
    by (auto simp: push_back_pair_def simp del: json_ok.simps(1) split: json.splits) simp
  moreover have "emplace_back v j = Inr j' \<Longrightarrow> json_ok j'"
    using assms(1,2) by (auto simp: emplace_back_def split: json.splits)
  moreover have "map_sum id snd (emplace k v j) = Inr j' \<Longrightarrow> json_ok j'"
    using assms(1,2) emp
    by (auto simp: emplace_def simp del: json_ok.simps(1) split: json.splits) simp
  moreover have "insert_at i v j = Inr j' \<Longrightarrow> json_ok j'"
    using assms(1,2) by (auto simp: insert_at_def split: json.splits dest!: in_set_takeD in_set_dropD)
  ultimately show ?thesis using assms(3,4) by blast
qed

lemma json_ok_lookup: "\<lbrakk>json_ok (JObject m); map_of m k = Some v\<rbrakk> \<Longrightarrow> json_ok v"
  by (drule map_of_SomeD) fastforce

lemma map_sum_id_Inr_iff: "map_sum id g x = Inr y \<longleftrightarrow> (\<exists>z. x = Inr z \<and> y = g z)"
  by (cases x) auto

lemma json_ok_update:
  "\<lbrakk>json_update b j p = Inr j'; json_ok j; json_ok p\<rbrakk> \<Longrightarrow> json_ok j'"
  "\<lbrakk>update_members b m ps = Inr m'; json_ok (JObject m); json_ok (JObject ps)\<rbrakk> \<Longrightarrow> json_ok (JObject m')"
proof (induction b j p and b m ps arbitrary: j' and m' rule: json_update_update_members.induct)
  case (1 b j p)
  obtain m ps m' where "(case j of JNull \<Rightarrow> JObject [] | _ \<Rightarrow> j) = JObject m" "p = JObject ps"
    "update_members b m ps = Inr m'" "j' = JObject m'"
    using "1.prems"(1) by (auto simp: map_sum_id_Inr_iff split: json.splits)
  moreover have "json_ok (JObject m)" using calculation(1) "1.prems"(2) by (auto split: json.splits)
  ultimately show ?case using "1.IH" "1.prems"(3) by blast
next
  case (3 b m k v ps)
  have ps: "json_ok v" "json_ok (JObject ps)" using "3.prems"(3) by auto
  show ?case
  proof (cases "if b \<and> is_object v then map_of m k else None")
    case None
    then show ?thesis
      using "3.prems" "3.IH"(1) [OF None] ps json_ok_map_assign [OF "3.prems"(2) ps(1)] by (simp del: json_ok.simps(1))
  next
    case (Some w)
    then have w: "json_ok w" using json_ok_lookup [OF "3.prems"(2)] by (auto split: if_splits)
    obtain w' where w': "json_update True w v = Inr w'" "update_members b (map_assign k w' m) ps = Inr m'"
      using "3.prems"(1) Some by (auto split: sum.splits)
    have "json_ok w'" using "3.IH"(2) [OF Some w'(1) w ps(1)] .
    then show ?thesis
      using "3.IH"(3) [OF Some w'(1) w'(2)] json_ok_map_assign [OF "3.prems"(2)] ps(2) by blast
  qed
qed simp

lemma json_ok_merge:
  "\<lbrakk>json_ok p; json_ok j\<rbrakk> \<Longrightarrow> json_ok (merge_patch p j)"
  "\<lbrakk>json_ok (JObject ps); json_ok (JObject m)\<rbrakk> \<Longrightarrow> json_ok (JObject (merge_members ps m))"
proof (induction p j and ps m rule: merge_patch_merge_members.induct)
  case (1 ps j)
  then show ?case by (cases j) auto
next
  case (4 k v ps m)
  have v: "json_ok v" "json_ok (JObject ps)" using "4.prems"(1) by auto
  show ?case
  proof (cases "v = JNull")
    case True
    then show ?thesis using 4 v json_ok_map_erase [OF "4.prems"(2), of k] by (simp del: json_ok.simps(1))
  next
    case False
    let ?m = "map_emplace k JNull m"
    have m: "json_ok (JObject ?m)" by (rule json_ok_map_emplace [OF "4.prems"(2)]) simp
    have "map_of ?m k \<noteq> None" using "4.prems"(2) by (simp split: if_splits)
    then have "json_ok (the (map_of ?m k))" using json_ok_lookup [OF m] by auto
    then have "json_ok (JObject (map_assign k (merge_patch v (the (map_of ?m k))) ?m))"
      using "4.IH"(2) [OF False refl v(1)] json_ok_map_assign [OF m] by blast
    then show ?thesis using "4.IH"(3) [OF False refl v(2)] False by (simp add: Let_def del: json_ok.simps(1) map_assign_emplace)
  qed
qed auto

text \<open>An object as a finite map; null stands for the empty object, which the modifiers make of it.\<close>

definition object_map :: "json \<Rightarrow> string \<Rightarrow> json option" where
  "object_map j = (case j of JObject m \<Rightarrow> map_of m | _ \<Rightarrow> Map.empty)"

lemma update_members_lookup:
  assumes "update_members b m ps = Inr m'" "sorted_keys m" "sorted_keys ps"
  shows "map_of m' k =
    (case map_of ps k of
       None \<Rightarrow> map_of m k
     | Some v \<Rightarrow>
         (case map_of m k of
            None \<Rightarrow> Some v
          | Some w \<Rightarrow> if b \<and> is_object v then Some (projr (json_update True w v)) else Some v))"
  using assms
proof (induction ps arbitrary: m)
  case (Cons p ps)
  obtain a v where p: "p = (a, v)" by force
  have a: "map_of ps a = None" "sorted_keys ps" using Cons.prems(3) map_of_notin_less [of ps a] p by auto
  show ?case
  proof (cases "if b \<and> is_object v then map_of m a else None")
    case None
    then have "update_members b (map_assign a v m) ps = Inr m'" using Cons.prems(1) p by simp
    from Cons.IH [OF this] Cons.prems(2) a None p show ?thesis
      by (cases "k = a") (auto split: if_splits option.splits)
  next
    case (Some w)
    then obtain w' where w': "json_update True w v = Inr w'" "update_members b (map_assign a w' m) ps = Inr m'"
      using Cons.prems(1) p by (auto simp del: json_update.simps split: sum.splits)
    from Cons.IH [OF w'(2)] Cons.prems(2) a Some p w'(1) show ?thesis
      by (cases "k = a") (auto simp del: json_update.simps split: if_splits option.splits)
  qed
qed simp

lemma update_members_plain: "\<exists>m'. update_members False m ps = Inr m'"
  by (induction ps arbitrary: m) auto

lemma merge_members_lookup:
  assumes "sorted_keys m" "sorted_keys ps"
  shows "map_of (merge_members ps m) k =
    (case map_of ps k of
       None \<Rightarrow> map_of m k
     | Some v \<Rightarrow> if v = JNull then None else Some (merge_patch v (case map_of m k of None \<Rightarrow> JNull | Some w \<Rightarrow> w)))"
  using assms
proof (induction ps arbitrary: m)
  case (Cons p ps)
  obtain a v where p: "p = (a, v)" by force
  have a: "map_of ps a = None" "sorted_keys ps" using Cons.prems(2) map_of_notin_less [of ps a] p by auto
  show ?case
  proof (cases "v = JNull")
    case True
    then show ?thesis using Cons.IH [of "map_erase a m"] Cons.prems a p by (cases "k = a") (auto split: option.split)
  next
    case False
    let ?w = "the (map_of (map_emplace a JNull m) a)"
    have w: "?w = (case map_of m a of None \<Rightarrow> JNull | Some w \<Rightarrow> w)" using Cons.prems(1) by (auto split: option.splits)
    have "merge_members (p # ps) m = merge_members ps (map_assign a (merge_patch v ?w) m)"
      using False p by (simp add: Let_def)
    then show ?thesis using Cons.IH [of "map_assign a (merge_patch v ?w) m"] Cons.prems a p False w by (cases "k = a") (auto split: option.split)
  qed
qed simp

text \<open>
  On a well-formed object the lookups agree with each other and with
  the modifiers: after \<open>j[k] = v\<close> the key \<open>k\<close> is found with value \<open>v\<close> by \<open>at\<close>, \<open>operator[]\<close>,
  \<open>contains\<close> and \<open>count\<close>, every other key is looked up as before, and erasing \<open>k\<close> leaves it absent.
\<close>

lemma lookup_after_assignment:
  assumes "json_ok (JObject m)" "json_key_put k v (JObject m) = Inr j"
  shows "json_at_key k j = Inr v \<and> json_key_const k j = Inr v \<and> json_contains k j \<and> json_count k j = 1 \<and>
    (\<forall>k'. k' \<noteq> k \<longrightarrow> json_at_key k' j = json_at_key k' (JObject m)) \<and>
    (\<exists>j'. erase_key k j = Inr (1, j') \<and> \<not> json_contains k j' \<and>
      (\<forall>k'. k' \<noteq> k \<longrightarrow> json_contains k' j' = json_contains k' (JObject m)))"
proof -
  have m: "sorted_keys m" using assms(1) by simp
  have j: "j = JObject (map_assign k v m)" using assms(2) by (simp add: json_key_put_def)
  show ?thesis
    using m by (simp add: j json_at_key_def json_key_const_def json_contains_def json_count_def erase_key_def)
qed

section \<open>Properties\<close>

text \<open>
  C40 (modifiers_refine_map): on an object, or on null where the code makes an object of it, the modifiers
  are the operations on finite maps they are named after. Assignment by key replaces the value of this key and no
  other; \<open>emplace\<close> and \<open>push_back\<close> of a pair add it only if the key is new; \<open>erase\<close> removes the key and
  counts it; \<open>clear\<close> removes all; \<open>update\<close> takes every member of its argument, and with \<open>merge_objects\<close>
  updates in turn what both have; \<open>merge_patch\<close> follows RFC 7396: a null deletes, any other value is
  merged into what is there, a patch that is not an object replaces the value. All of them leave the objects in key order at
  every depth.
\<close>

theorem modifiers_refine_map:
  assumes "json_ok j" "json_ok v" "json_ok p" "j = JNull \<or> is_object j" "is_object p" "\<not> is_object q"
  shows
    "(\<exists>j'. json_key_put k v j = Inr j' \<and> json_ok j' \<and> is_object j' \<and> object_map j' = (object_map j)(k \<mapsto> v)) \<and>
     (\<exists>j'. emplace k v j = Inr (object_map j k = None, j') \<and> push_back_pair k v j = Inr j' \<and> json_ok j' \<and> is_object j' \<and>
        object_map j' = (if object_map j k = None then (object_map j)(k \<mapsto> v) else object_map j)) \<and>
     (\<exists>p'. erase_key k p = Inr (if object_map p k = None then 0 else 1, p') \<and> json_ok p' \<and> is_object p' \<and>
        object_map p' = (object_map p)(k := None)) \<and>
     (is_object (clear p) \<and> object_map (clear p) = Map.empty) \<and>
     (\<exists>j'. json_update False j p = Inr j' \<and> json_ok j' \<and> is_object j' \<and> object_map j' = object_map j ++ object_map p) \<and>
     (\<forall>j'. json_update True j p = Inr j' \<longrightarrow> json_ok j' \<and> is_object j' \<and>
        (\<forall>k. object_map j' k =
           (case (object_map j k, object_map p k) of
              (old, None) \<Rightarrow> old
            | (None, Some new) \<Rightarrow> Some new
            | (Some old, Some new) \<Rightarrow> Some (if is_object new then projr (json_update True old new) else new)))) \<and>
     (json_ok (merge_patch p v) \<and> is_object (merge_patch p v) \<and>
        (\<forall>k. object_map (merge_patch p v) k =
           (case object_map p k of
              None \<Rightarrow> object_map v k
            | Some JNull \<Rightarrow> None
            | Some new \<Rightarrow> Some (merge_patch new (case object_map v k of None \<Rightarrow> JNull | Some old \<Rightarrow> old))))) \<and>
     merge_patch q j = q"
proof -
  define m where "m = (case j of JObject m \<Rightarrow> m | _ \<Rightarrow> [])"
  obtain ps where p: "p = JObject ps" using assms(5) by (cases p) (auto simp: is_object_def)
  have m: "object_map j = map_of m" "json_ok (JObject m)" "sorted_keys m"
    and j: "(case j of JNull \<Rightarrow> JObject [] | _ \<Rightarrow> j) = JObject m"
    using assms(1,4) by (auto simp: m_def object_map_def is_object_def split: json.splits)
  have ps: "object_map p = map_of ps" "json_ok (JObject ps)" "sorted_keys ps"
    using assms(3) p by (simp_all add: object_map_def)
  have io: "is_object (JObject x)" for x by (simp add: is_object_def)
  have om: "object_map (JObject x) = map_of x" for x by (simp add: object_map_def)
  have "\<exists>j'. json_key_put k v j = Inr j' \<and> json_ok j' \<and> is_object j' \<and> object_map j' = (object_map j)(k \<mapsto> v)"
    using m json_ok_map_assign [OF m(2) assms(2), of k] by (simp add: json_key_put_def j io om del: json_ok.simps(1))
  moreover have "\<exists>j'. emplace k v j = Inr (object_map j k = None, j') \<and> push_back_pair k v j = Inr j' \<and> json_ok j' \<and>
      is_object j' \<and> object_map j' = (if object_map j k = None then (object_map j)(k \<mapsto> v) else object_map j)"
  proof -
    have "emplace k v j = Inr (map_of m k = None, JObject (map_emplace k v m))"
      "push_back_pair k v j = Inr (JObject (map_emplace k v m))"
      using assms(4) by (auto simp: emplace_def push_back_pair_def m_def is_object_def split: json.splits)
    then show ?thesis using m json_ok_map_emplace [OF m(2) assms(2), of k] by (simp add: io om del: json_ok.simps(1))
  qed
  moreover have "\<exists>p'. erase_key k p = Inr (if object_map p k = None then 0 else 1, p') \<and> json_ok p' \<and> is_object p' \<and>
      object_map p' = (object_map p)(k := None)"
    using ps json_ok_map_erase [OF ps(2), of k] by (simp add: erase_key_def p io om del: json_ok.simps(1))
  moreover have "is_object (clear p) \<and> object_map (clear p) = Map.empty"
    by (simp add: clear_def p io om)
  moreover have upd: "json_update b j p = map_sum id JObject (update_members b m ps)" for b
    by (simp add: j p)
  moreover have "\<exists>j'. json_update False j p = Inr j' \<and> json_ok j' \<and> is_object j' \<and> object_map j' = object_map j ++ object_map p"
  proof -
    obtain m' where u: "update_members False m ps = Inr m'" using update_members_plain by blast
    have "map_of m' = map_of m ++ map_of ps"
      using update_members_lookup [OF u m(3) ps(3)] by (auto simp: fun_eq_iff map_add_def split: option.splits)
    then show ?thesis
      using upd [of False] u m ps json_ok_update(2) [OF u m(2) ps(2)] by (simp add: io om del: json_ok.simps(1) json_update.simps)
  qed
  moreover have "json_ok j' \<and> is_object j' \<and> (\<forall>k. object_map j' k =
           (case (object_map j k, object_map p k) of
              (old, None) \<Rightarrow> old
            | (None, Some new) \<Rightarrow> Some new
            | (Some old, Some new) \<Rightarrow> Some (if is_object new then projr (json_update True old new) else new)))"
    if u0: "json_update True j p = Inr j'" for j'
  proof -
    obtain m' where u: "update_members True m ps = Inr m'" "j' = JObject m'"
      using u0 unfolding upd map_sum_id_Inr_iff by blast
    then show ?thesis
      using update_members_lookup [OF u(1) m(3) ps(3)] m(1) ps(1) json_ok_update(2) [OF u(1) m(2) ps(2)]
      by (simp add: io om del: json_ok.simps(1) json_update.simps split: option.split)
  qed
  moreover have "json_ok (merge_patch p v) \<and> is_object (merge_patch p v) \<and>
        (\<forall>k. object_map (merge_patch p v) k =
           (case object_map p k of
              None \<Rightarrow> object_map v k
            | Some JNull \<Rightarrow> None
            | Some new \<Rightarrow> Some (merge_patch new (case object_map v k of None \<Rightarrow> JNull | Some old \<Rightarrow> old))))"
  proof -
    define m where "m = (case v of JObject m \<Rightarrow> m | _ \<Rightarrow> [])"
    have "sorted_keys m" "object_map v = map_of m"
      using assms(2) by (auto simp: m_def object_map_def split: json.splits)
    then show ?thesis
      using merge_members_lookup [OF _ ps(3), of m] json_ok_merge(1) [OF assms(3,2)] ps(1)
      by (simp add: p io om m_def [symmetric] del: json_ok.simps(1)) (auto split: option.splits json.splits)
  qed
  moreover have "merge_patch q j = q" using assms(6) by (cases q) (simp_all add: is_object_def)
  ultimately show ?thesis by blast
qed

theorem modifiers_refine_map_witness:
  "object_map (merge_patch (JObject [(''b'', JNull), (''c'', JBoolean True)]) (JObject [(''a'', JString ''x''), (''b'', JNull)])) =
     [''a'' \<mapsto> JString ''x'', ''c'' \<mapsto> JBoolean True]"
proof -
  have ok: "json_ok (JObject [(''a'', JString ''x''), (''b'', JNull)])" "json_ok (JObject [(''b'', JNull), (''c'', JBoolean True)])"
    by code_simp+
  from modifiers_refine_map [OF _ ok, of JNull JNull "''k''"]
  show ?thesis
    by (auto simp: is_object_def object_map_def fun_eq_iff split: option.splits json.splits)
qed

end
