(* ===== verification/Json_Dump.thy ===== *)
theory Json_Dump
  imports Json_Value
begin

text \<open>
  The serializer of the JSON library, \<open>nlohmann/detail/output/serializer.hpp\<close>: the decoder for
  UTF-8, the escaping of strings through a buffer of 512 bytes with the three ways to treat a
  string that is not UTF-8, the conversion of integers through a buffer of 64 bytes, and \<open>dump\<close>.

  The output stream is the list of bytes written. The string of blanks that pretty printing reads
  its indentation from grows during a call and is passed along. The lemmas show that the decoder
  accepts exactly the well-formed sequences of the Unicode standard, that a string is written
  without an exception exactly if it is UTF-8, that the buffer is never overrun, and that integers
  come out as their decimal numerals.
\<close>

section \<open>Definitions\<close>

subsection \<open>UTF-8\<close>

definition utf8d_types :: "nat list" where
  \<comment> \<open>the first 256 entries: the class of each byte\<close>
  "utf8d_types =
    [
     0, 0, 0, 0, 0, 0, 0, 0, 0, 0, 0, 0, 0, 0, 0, 0, 0, 0, 0, 0, 0, 0, 0, 0, 0, 0, 0, 0, 0, 0, 0, 0,
     0, 0, 0, 0, 0, 0, 0, 0, 0, 0, 0, 0, 0, 0, 0, 0, 0, 0, 0, 0, 0, 0, 0, 0, 0, 0, 0, 0, 0, 0, 0, 0,
     0, 0, 0, 0, 0, 0, 0, 0, 0, 0, 0, 0, 0, 0, 0, 0, 0, 0, 0, 0, 0, 0, 0, 0, 0, 0, 0, 0, 0, 0, 0, 0,
     0, 0, 0, 0, 0, 0, 0, 0, 0, 0, 0, 0, 0, 0, 0, 0, 0, 0, 0, 0, 0, 0, 0, 0, 0, 0, 0, 0, 0, 0, 0, 0,
     1, 1, 1, 1, 1, 1, 1, 1, 1, 1, 1, 1, 1, 1, 1, 1, 9, 9, 9, 9, 9, 9, 9, 9, 9, 9, 9, 9, 9, 9, 9, 9,
     7, 7, 7, 7, 7, 7, 7, 7, 7, 7, 7, 7, 7, 7, 7, 7, 7, 7, 7, 7, 7, 7, 7, 7, 7, 7, 7, 7, 7, 7, 7, 7,
     8, 8, 2, 2, 2, 2, 2, 2, 2, 2, 2, 2, 2, 2, 2, 2, 2, 2, 2, 2, 2, 2, 2, 2, 2, 2, 2, 2, 2, 2, 2, 2,
     10, 3, 3, 3, 3, 3, 3, 3, 3, 3, 3, 3, 3, 4, 3, 3, 11, 6, 6, 6, 5, 8, 8, 8, 8, 8, 8, 8, 8, 8, 8, 8
    ]"

definition utf8d_states :: "nat list" where
  \<comment> \<open>the other entries: the next state for each state and class\<close>
  "utf8d_states =
    [
     0, 1, 2, 3, 5, 8, 7, 1, 1, 1, 4, 6, 1, 1, 1, 1, 1, 1, 1, 1, 1, 1, 1, 1, 1, 1, 1, 1, 1, 1, 1, 1,
     1, 0, 1, 1, 1, 1, 1, 0, 1, 0, 1, 1, 1, 1, 1, 1, 1, 2, 1, 1, 1, 1, 1, 2, 1, 2, 1, 1, 1, 1, 1, 1,
     1, 1, 1, 1, 1, 1, 1, 2, 1, 1, 1, 1, 1, 1, 1, 1, 1, 2, 1, 1, 1, 1, 1, 1, 1, 2, 1, 1, 1, 1, 1, 1,
     1, 1, 1, 1, 1, 1, 1, 3, 1, 3, 1, 1, 1, 1, 1, 1, 1, 3, 1, 1, 1, 1, 1, 3, 1, 3, 1, 1, 1, 1, 1, 1,
     1, 3, 1, 1, 1, 1, 1, 1, 1, 1, 1, 1, 1, 1, 1, 1
    ]"

definition utf8d :: "nat list" where
  "utf8d = utf8d_types @ utf8d_states"

definition UTF8_ACCEPT :: nat where
  [simp]: "UTF8_ACCEPT = 0"

definition UTF8_REJECT :: nat where
  [simp]: "UTF8_REJECT = 1"

definition decode :: "nat \<Rightarrow> 32 word \<Rightarrow> char \<Rightarrow> nat \<times> 32 word" where
  "decode state codep c =
     (let b = byte c;
          type = utf8d ! b;
          codep' = (if state \<noteq> UTF8_ACCEPT
                    then (word_of_nat b AND 0x3F) OR push_bit 6 codep
                    else drop_bit type 0xFF AND word_of_nat b);
          index = 256 + state * 16 + type
      in (utf8d ! index, codep'))"

subsection \<open>Escaping strings\<close>

datatype error_handler_t = strict | replace | ignore

definition hex_digit_lower :: "nat \<Rightarrow> char" where
  "hex_digit_lower n = (if n < 10 then char_of (48 + n) else char_of (87 + n))"

definition u_escape :: "nat \<Rightarrow> string" where
  \<comment> \<open>\<open>"\\u%04x"\<close>\<close>
  "u_escape n = [BSL, CHR ''u'', hex_digit_lower (n div 4096 mod 16), hex_digit_lower (n div 256 mod 16),
     hex_digit_lower (n div 16 mod 16), hex_digit_lower (n mod 16)]"

definition hex_bytes :: "nat \<Rightarrow> string" where
  "hex_bytes b = (let nibble_to_hex = ''0123456789ABCDEF''
     in [nibble_to_hex ! (b div 16), nibble_to_hex ! (b mod 16)])"

record escape_state =
  es_state :: nat            \<comment> \<open>\<open>state\<close>\<close>
  es_codep :: "32 word"      \<comment> \<open>\<open>codepoint\<close>\<close>
  es_buf :: string           \<comment> \<open>\<open>string_buffer\<close>, the first \<open>bytes\<close> of it\<close>
  es_last :: nat             \<comment> \<open>\<open>bytes_after_last_accept\<close>\<close>
  es_undumped :: nat         \<comment> \<open>\<open>undumped_chars\<close>\<close>
  es_out :: string           \<comment> \<open>what was written to the output\<close>

definition escape_code_point :: "bool \<Rightarrow> 32 word \<Rightarrow> char \<Rightarrow> string" where
  \<comment> \<open>what an accepted code point appends to the buffer; \<open>c\<close> is its last byte\<close>
  "escape_code_point ensure_ascii codepoint c =
     (if codepoint = 0x08 then [BSL, CHR ''b'']
      else if codepoint = 0x09 then [BSL, CHR ''t'']
      else if codepoint = 0x0A then [BSL, CHR ''n'']
      else if codepoint = 0x0C then [BSL, CHR ''f'']
      else if codepoint = 0x0D then [BSL, CHR ''r'']
      else if codepoint = 0x22 then [BSL, DQ]
      else if codepoint = 0x5C then [BSL, BSL]
      else if codepoint \<le> 0x1F \<or> (ensure_ascii \<and> codepoint \<ge> 0x7F) then
        (if codepoint \<le> 0xFFFF then u_escape (unat codepoint)
         else u_escape (unat (ucast (0xD7C0 + drop_bit 10 codepoint) :: 16 word)) @
              u_escape (unat (ucast (0xDC00 + (codepoint AND 0x3FF)) :: 16 word)))
      else [c])"

definition escape_flush :: "escape_state \<Rightarrow> escape_state" where
  \<comment> \<open>write the buffer when fewer than 13 bytes are left\<close>
  "escape_flush st =
     (if 512 - length (es_buf st) < 13 then st\<lparr>es_out := es_out st @ es_buf st, es_buf := []\<rparr> else st)"

definition escape_accept :: "bool \<Rightarrow> char \<Rightarrow> escape_state \<Rightarrow> escape_state" where
  "escape_accept ensure_ascii c st =
     (let st = escape_flush (st\<lparr>es_buf := es_buf st @ escape_code_point ensure_ascii (es_codep st) c\<rparr>)
      in st\<lparr>es_last := length (es_buf st), es_undumped := 0\<rparr>)"

definition replacement :: "bool \<Rightarrow> string" where
  \<comment> \<open>U+FFFD\<close>
  "replacement ensure_ascii = (if ensure_ascii then [BSL] @ ''ufffd'' else [CHR 0xEF, CHR 0xBF, CHR 0xBD])"

definition escape_reject :: "error_handler_t \<Rightarrow> bool \<Rightarrow> escape_state \<Rightarrow> escape_state" where
  \<comment> \<open>the handlers that do not throw\<close>
  "escape_reject eh ensure_ascii st =
     (let st = st\<lparr>es_buf := take (es_last st) (es_buf st)\<rparr>;
          st = (if eh = replace
                then let st = escape_flush (st\<lparr>es_buf := es_buf st @ replacement ensure_ascii\<rparr>)
                     in st\<lparr>es_last := length (es_buf st)\<rparr>
                else st)
      in st\<lparr>es_undumped := 0, es_state := UTF8_ACCEPT\<rparr>)"

definition escape_incomplete :: "bool \<Rightarrow> char \<Rightarrow> escape_state \<Rightarrow> escape_state" where
  "escape_incomplete ensure_ascii c st =
     st\<lparr>es_buf := (if \<not> ensure_ascii then es_buf st @ [c] else es_buf st),
        es_undumped := es_undumped st + 1\<rparr>"

text \<open>
  The loop over the bytes. A rejected byte that ends an incomplete sequence is read again
  (\<open>--i\<close> in the source): the recursive call keeps it.
\<close>

function escape_loop ::
  "error_handler_t \<Rightarrow> bool \<Rightarrow> nat \<Rightarrow> string \<Rightarrow> escape_state \<Rightarrow> json_exn + escape_state" where
  "escape_loop eh ensure_ascii i [] st = Inr st"
| "escape_loop eh ensure_ascii i (c # cs) st =
     (let (state, codep) = decode (es_state st) (es_codep st) c;
          st = st\<lparr>es_state := state, es_codep := codep\<rparr>
      in if state = UTF8_ACCEPT then escape_loop eh ensure_ascii (i + 1) cs (escape_accept ensure_ascii c st)
         else if state = UTF8_REJECT then
           (if eh = strict
            then Inl (type_error_create 316 (''invalid UTF-8 byte at index '' @ to_string_nat i @ '': 0x'' @
                   hex_bytes (byte c)))
            else if es_undumped st > 0
            then escape_loop eh ensure_ascii i (c # cs) (escape_reject eh ensure_ascii st)
            else escape_loop eh ensure_ascii (i + 1) cs (escape_reject eh ensure_ascii st))
         else escape_loop eh ensure_ascii (i + 1) cs (escape_incomplete ensure_ascii c st))"
  by pat_completeness auto

termination escape_loop
  by (relation "measure (\<lambda>(eh, ensure_ascii, i, cs, st). 2 * length cs + (if es_undumped st > 0 then 1 else 0))")
    (auto simp: escape_reject_def Let_def)

definition dump_escaped :: "error_handler_t \<Rightarrow> string \<Rightarrow> bool \<Rightarrow> json_exn + string" where
  "dump_escaped eh s ensure_ascii =
     (case escape_loop eh ensure_ascii 0 s
             \<lparr>es_state = UTF8_ACCEPT, es_codep = 0, es_buf = [], es_last = 0, es_undumped = 0, es_out = []\<rparr> of
        Inl e \<Rightarrow> Inl e
      | Inr st \<Rightarrow>
          if es_state st = UTF8_ACCEPT then Inr (es_out st @ es_buf st)
          else (case eh of
              strict \<Rightarrow> Inl (type_error_create 316
                (''incomplete UTF-8 string; last byte: 0x'' @ hex_bytes (byte (last s))))
            | ignore \<Rightarrow> Inr (es_out st @ take (es_last st) (es_buf st))
            | replace \<Rightarrow> Inr (es_out st @ take (es_last st) (es_buf st) @ replacement ensure_ascii)))"

subsection \<open>Integers\<close>

fun count_digits :: "nat \<Rightarrow> nat \<Rightarrow> nat" where
  \<comment> \<open>arguments: \<open>x\<close>, \<open>n_digits\<close>, which starts as 1\<close>
  "count_digits x n_digits =
     (if x < 10 then n_digits
      else if x < 100 then n_digits + 1
      else if x < 1000 then n_digits + 2
      else if x < 10000 then n_digits + 3
      else count_digits (x div 10000) (n_digits + 4))"

declare count_digits.simps [simp del]

definition digits_to_99 :: "nat \<Rightarrow> char \<times> char" where
  "digits_to_99 i = (digit_char (i div 10), digit_char (i mod 10))"

fun write_digits :: "nat \<Rightarrow> nat \<Rightarrow> string \<Rightarrow> string" where
  \<comment> \<open>arguments: \<open>abs_value\<close>, \<open>buffer_ptr\<close> as an index, the buffer\<close>
  "write_digits abs_value p buf =
     (if abs_value \<ge> 100 then
        (let (d0, d1) = digits_to_99 (abs_value mod 100)
         in write_digits (abs_value div 100) (p - 2) (buf[p - 1 := d1, p - 2 := d0]))
      else if abs_value \<ge> 10 then
        (let (d0, d1) = digits_to_99 abs_value in buf[p - 1 := d1, p - 2 := d0])
      else buf[p - 1 := digit_char abs_value])"

declare write_digits.simps [simp del]

definition remove_sign :: "64 word \<Rightarrow> 64 word" where
  "remove_sign x = - (x + 1) + 1"

definition dump_integer :: "string \<Rightarrow> bool \<Rightarrow> 64 word \<Rightarrow> string" where
  \<comment> \<open>arguments: the buffer, whether the type of \<open>x\<close> is signed, \<open>x\<close>\<close>
  "dump_integer number_buffer is_signed x =
     (if x = 0 then ''0''
      else let neg = (is_signed \<and> sint x < 0);
               abs_value = unat (if neg then remove_sign x else x);
               buf = (if neg then number_buffer[0 := CHR ''-''] else number_buffer);
               n_chars = (if neg then 1 else 0) + count_digits abs_value 1
           in take n_chars (write_digits abs_value n_chars buf))"

definition number_buffer :: string where
  \<comment> \<open>\<open>std::array<char, 64> number_buffer{{}}\<close>\<close>
  "number_buffer = replicate 64 NUL"

definition dump_float :: "double \<Rightarrow> string" where
  "dump_float x = (if \<not> isfinite x then ''null'' else to_chars x)"

subsection \<open>\<open>dump\<close>\<close>

definition widen_indent :: "nat \<Rightarrow> string \<Rightarrow> string" where
  \<comment> \<open>\<open>if (indent_string.size() < new_indent) indent_string.resize(size * 2, ' ')\<close>\<close>
  "widen_indent new_indent ind =
     (if length ind < new_indent then ind @ replicate (length ind) SP else ind)"

definition indentation :: "nat \<Rightarrow> string \<Rightarrow> json_exn + string" where
  \<comment> \<open>\<open>write_characters(indent_string.c_str(), n)\<close>, a read past the end if the string is too short\<close>
  "indentation n ind = (if n \<le> length ind then Inr (take n ind) else Inl Assertion_failed)"

definition dump_bytes :: "string \<Rightarrow> 8 word list \<Rightarrow> string" where
  "dump_bytes sep bs =
     (case bs of [] \<Rightarrow> []
      | _ \<Rightarrow> concat (map (\<lambda>b. dump_integer number_buffer False (ucast b) @ sep) (butlast bs)) @
            dump_integer number_buffer False (ucast (last bs)))"

definition dump_binary :: "bool \<Rightarrow> nat \<Rightarrow> nat \<Rightarrow> 8 word list \<Rightarrow> 64 word option \<Rightarrow> string
    \<Rightarrow> json_exn + (string \<times> string)" where
  "dump_binary pretty_print indent_step current_indent bs subtype ind =
     (let st = (case subtype of Some t \<Rightarrow> dump_integer number_buffer False t | None \<Rightarrow> ''null'')
      in if pretty_print then
           (let new_indent = current_indent + indent_step;
                ind = widen_indent new_indent ind
            in case indentation new_indent ind of Inl e \<Rightarrow> Inl e | Inr is1 \<Rightarrow>
               (case indentation current_indent ind of Inl e \<Rightarrow> Inl e | Inr is0 \<Rightarrow>
                Inr (''{'' @ [LF] @ is1 @ [DQ] @ ''bytes'' @ [DQ] @ '': ['' @ dump_bytes '', '' bs @ ''],'' @ [LF] @
                  is1 @ [DQ] @ ''subtype'' @ [DQ] @ '': '' @ st @ [LF] @ is0 @ ''}'', ind)))
         else Inr (''{'' @ [DQ] @ ''bytes'' @ [DQ] @ '':['' @ dump_bytes '','' bs @ ''],'' @
                [DQ] @ ''subtype'' @ [DQ] @ '':'' @ st @ ''}'', ind))"

type_synonym dump_result = "json_exn + (string \<times> string)"

text \<open>
  The arguments of \<open>dump\<close> beside the value are the error handler, \<open>pretty_print\<close>, \<open>ensure_ascii\<close>,
  \<open>indent_step\<close>, \<open>current_indent\<close> and the string of blanks; the result is the text written and the
  string of blanks after the call.
\<close>

fun dump_value :: "error_handler_t \<Rightarrow> bool \<Rightarrow> bool \<Rightarrow> nat \<Rightarrow> json \<Rightarrow> nat \<Rightarrow> string \<Rightarrow> dump_result"
and dump_members :: "error_handler_t \<Rightarrow> bool \<Rightarrow> bool \<Rightarrow> nat \<Rightarrow> (string \<times> json) list \<Rightarrow> nat \<Rightarrow> string \<Rightarrow> dump_result"
and dump_elements :: "error_handler_t \<Rightarrow> bool \<Rightarrow> bool \<Rightarrow> nat \<Rightarrow> json list \<Rightarrow> nat \<Rightarrow> string \<Rightarrow> dump_result"
where
  "dump_value eh pp ascii step (JObject m) cur ind =
     (if m = [] then Inr (''{}'', ind)
      else if pp then
        (let new_indent = cur + step; ind = widen_indent new_indent ind
         in case dump_members eh pp ascii step m new_indent ind of Inl e \<Rightarrow> Inl e | Inr (t, ind) \<Rightarrow>
            (case indentation cur ind of Inl e \<Rightarrow> Inl e | Inr is0 \<Rightarrow>
             Inr (''{'' @ [LF] @ t @ [LF] @ is0 @ ''}'', ind)))
      else
        (case dump_members eh pp ascii step m cur ind of Inl e \<Rightarrow> Inl e | Inr (t, ind) \<Rightarrow>
         Inr (''{'' @ t @ ''}'', ind)))"
| "dump_value eh pp ascii step (JArray js) cur ind =
     (if js = [] then Inr (''[]'', ind)
      else if pp then
        (let new_indent = cur + step; ind = widen_indent new_indent ind
         in case dump_elements eh pp ascii step js new_indent ind of Inl e \<Rightarrow> Inl e | Inr (t, ind) \<Rightarrow>
            (case indentation cur ind of Inl e \<Rightarrow> Inl e | Inr is0 \<Rightarrow>
             Inr (''['' @ [LF] @ t @ [LF] @ is0 @ '']'', ind)))
      else
        (case dump_elements eh pp ascii step js cur ind of Inl e \<Rightarrow> Inl e | Inr (t, ind) \<Rightarrow>
         Inr (''['' @ t @ '']'', ind)))"
| "dump_value eh pp ascii step (JString s) cur ind =
     (case dump_escaped eh s ascii of Inl e \<Rightarrow> Inl e | Inr t \<Rightarrow> Inr ([DQ] @ t @ [DQ], ind))"
| "dump_value eh pp ascii step (JBinary bs st) cur ind = dump_binary pp step cur bs st ind"
| "dump_value eh pp ascii step (JBoolean b) cur ind = Inr (if b then ''true'' else ''false'', ind)"
| "dump_value eh pp ascii step (JInteger x) cur ind = Inr (dump_integer number_buffer True x, ind)"
| "dump_value eh pp ascii step (JUnsigned x) cur ind = Inr (dump_integer number_buffer False x, ind)"
| "dump_value eh pp ascii step (JFloat x) cur ind = Inr (dump_float x, ind)"
| "dump_value eh pp ascii step JDiscarded cur ind = Inr (''<discarded>'', ind)"
| "dump_value eh pp ascii step JNull cur ind = Inr (''null'', ind)"
| "dump_members eh pp ascii step [] cur ind = Inr ([], ind)"
| "dump_members eh pp ascii step ((k, v) # m) cur ind =
     (case (if pp then indentation cur ind else Inr []) of Inl e \<Rightarrow> Inl e | Inr is1 \<Rightarrow>
      (case dump_escaped eh k ascii of Inl e \<Rightarrow> Inl e | Inr ks \<Rightarrow>
       (case dump_value eh pp ascii step v cur ind of Inl e \<Rightarrow> Inl e | Inr (vs, ind) \<Rightarrow>
        (let t = is1 @ [DQ] @ ks @ [DQ] @ (if pp then '': '' else '':'') @ vs
         in if m = [] then Inr (t, ind)
            else (case dump_members eh pp ascii step m cur ind of Inl e \<Rightarrow> Inl e | Inr (ms, ind) \<Rightarrow>
                  Inr (t @ (if pp then '','' @ [LF] else '','') @ ms, ind))))))"
| "dump_elements eh pp ascii step [] cur ind = Inr ([], ind)"
| "dump_elements eh pp ascii step (j # js) cur ind =
     (case (if pp then indentation cur ind else Inr []) of Inl e \<Rightarrow> Inl e | Inr is1 \<Rightarrow>
      (case dump_value eh pp ascii step j cur ind of Inl e \<Rightarrow> Inl e | Inr (vs, ind) \<Rightarrow>
       (if js = [] then Inr (is1 @ vs, ind)
        else (case dump_elements eh pp ascii step js cur ind of Inl e \<Rightarrow> Inl e | Inr (ts, ind) \<Rightarrow>
              Inr (is1 @ vs @ (if pp then '','' @ [LF] else '','') @ ts, ind)))))"

definition dump :: "int \<Rightarrow> char \<Rightarrow> bool \<Rightarrow> error_handler_t \<Rightarrow> json \<Rightarrow> json_exn + string" where
  \<comment> \<open>arguments: \<open>indent\<close>, \<open>indent_char\<close>, \<open>ensure_ascii\<close>, \<open>error_handler\<close>, the value\<close>
  "dump indent indent_char ensure_ascii eh j =
     (case (if indent \<ge> 0
            then dump_value eh True ensure_ascii (nat indent) j 0 (replicate 512 indent_char)
            else dump_value eh False ensure_ascii 0 j 0 (replicate 512 indent_char)) of
        Inl e \<Rightarrow> Inl e
      | Inr (t, ind) \<Rightarrow> Inr t)"

definition dump_default :: "json \<Rightarrow> json_exn + string" where
  \<comment> \<open>\<open>j.dump()\<close>\<close>
  "dump_default j = dump (- 1) SP False strict j"

subsection \<open>Reference: well-formed UTF-8\<close>

text \<open>
  Table 3-7 of the Unicode standard: the ranges of the bytes that follow a leading byte.
\<close>

type_synonym ranges = "(nat \<times> nat) list"

definition utf8_tail :: "nat \<Rightarrow> ranges option" where
  "utf8_tail b =
     (if b < 0x80 then Some []
      else if b < 0xC2 then None
      else if b < 0xE0 then Some [(0x80, 0xBF)]
      else if b = 0xE0 then Some [(0xA0, 0xBF), (0x80, 0xBF)]
      else if b = 0xED then Some [(0x80, 0x9F), (0x80, 0xBF)]
      else if b < 0xF0 then Some [(0x80, 0xBF), (0x80, 0xBF)]
      else if b = 0xF0 then Some [(0x90, 0xBF), (0x80, 0xBF), (0x80, 0xBF)]
      else if b < 0xF4 then Some [(0x80, 0xBF), (0x80, 0xBF), (0x80, 0xBF)]
      else if b = 0xF4 then Some [(0x80, 0x8F), (0x80, 0xBF), (0x80, 0xBF)]
      else None)"

fun utf8_rest :: "ranges \<Rightarrow> string \<Rightarrow> bool" where
  \<comment> \<open>a string that first has to complete a sequence\<close>
  "utf8_rest [] [] \<longleftrightarrow> True"
| "utf8_rest (r # rs) [] \<longleftrightarrow> False"
| "utf8_rest [] (c # cs) \<longleftrightarrow> (case utf8_tail (byte c) of None \<Rightarrow> False | Some rs \<Rightarrow> utf8_rest rs cs)"
| "utf8_rest ((lo, hi) # rs) (c # cs) \<longleftrightarrow> lo \<le> byte c \<and> byte c \<le> hi \<and> utf8_rest rs cs"

definition utf8 :: "string \<Rightarrow> bool" where
  "utf8 s = utf8_rest [] s"

definition escape_byte :: "char \<Rightarrow> string" where
  \<comment> \<open>what one byte of a UTF-8 string becomes when non-ASCII characters are kept\<close>
  "escape_byte c =
     (if c = CHR 0x08 then [BSL, CHR ''b'']
      else if c = TAB then [BSL, CHR ''t'']
      else if c = LF then [BSL, CHR ''n'']
      else if c = CHR 0x0C then [BSL, CHR ''f'']
      else if c = CR then [BSL, CHR ''r'']
      else if c = DQ then [BSL, DQ]
      else if c = BSL then [BSL, BSL]
      else if byte c < 0x20 then u_escape (byte c)
      else [c])"

section \<open>Lemmas\<close>

subsection \<open>The decoder\<close>

definition utf8_class :: "nat \<Rightarrow> nat" where
  "utf8_class n =
     (if n < 128 then 0 else if n < 144 then 1 else if n < 160 then 9 else if n < 192 then 7
      else if n < 194 then 8 else if n < 224 then 2 else if n = 224 then 10 else if n = 237 then 4
      else if n < 240 then 3 else if n = 240 then 11 else if n < 244 then 6 else if n = 244 then 5 else 8)"

definition pending :: "nat \<Rightarrow> ranges" where
  \<comment> \<open>what a state of the decoder still expects\<close>
  "pending s =
     (if s = 2 then [(0x80, 0xBF)]
      else if s = 3 then [(0x80, 0xBF), (0x80, 0xBF)]
      else if s = 4 then [(0xA0, 0xBF), (0x80, 0xBF)]
      else if s = 5 then [(0x80, 0x9F), (0x80, 0xBF)]
      else if s = 6 then [(0x90, 0xBF), (0x80, 0xBF), (0x80, 0xBF)]
      else if s = 7 then [(0x80, 0xBF), (0x80, 0xBF), (0x80, 0xBF)]
      else if s = 8 then [(0x80, 0x8F), (0x80, 0xBF), (0x80, 0xBF)]
      else [])"


lemma utf8d_types_eq: "utf8d_types = map utf8_class [0..<256]"
  by code_simp

lemma utf8d_class: "utf8d ! byte c = utf8_class (byte c)"
proof -
  have "byte c < length utf8d_types" using byte_less [of c] by (simp add: utf8d_types_eq del: byte_less)
  then show ?thesis using byte_less [of c] by (simp add: utf8d_def nth_append utf8d_types_eq del: byte_less)
qed

lemma utf8_class_bound: "utf8_class n < 12"
  by (simp add: utf8_class_def)

lemma utf8d_state: "utf8d ! (256 + i) = utf8d_states ! i"
proof -
  have "length utf8d_types = 256" by (simp add: utf8d_types_eq)
  then show ?thesis by (simp add: utf8d_def nth_append)
qed

definition next_state :: "nat \<Rightarrow> nat \<Rightarrow> nat" where
  \<comment> \<open>the transition table, by the class of the byte\<close>
  "next_state s k = utf8d_states ! (s * 16 + k)"

lemma decode_next: "fst (decode s cp c) = next_state s (utf8_class (byte c))"
  by (simp add: decode_def Let_def utf8d_class utf8d_state [symmetric] next_state_def add.assoc)

lemma map_upt_nth: "map f [0..<n] = xs \<Longrightarrow> k < n \<Longrightarrow> f k = xs ! k"
  by auto

lemma next_state_rows:
  "map (next_state 0) [0..<12] = [0, 1, 2, 3, 5, 8, 7, 1, 1, 1, 4, 6]"
  "map (next_state 2) [0..<12] = [1, 0, 1, 1, 1, 1, 1, 0, 1, 0, 1, 1]"
  "map (next_state 3) [0..<12] = [1, 2, 1, 1, 1, 1, 1, 2, 1, 2, 1, 1]"
  "map (next_state 4) [0..<12] = [1, 1, 1, 1, 1, 1, 1, 2, 1, 1, 1, 1]"
  "map (next_state 5) [0..<12] = [1, 2, 1, 1, 1, 1, 1, 1, 1, 2, 1, 1]"
  "map (next_state 6) [0..<12] = [1, 1, 1, 1, 1, 1, 1, 3, 1, 3, 1, 1]"
  "map (next_state 7) [0..<12] = [1, 3, 1, 1, 1, 1, 1, 3, 1, 3, 1, 1]"
  "map (next_state 8) [0..<12] = [1, 3, 1, 1, 1, 1, 1, 1, 1, 1, 1, 1]"
  by code_simp+

lemmas next_states = next_state_rows [THEN map_upt_nth]

lemma decode_lead:
  "fst (decode 0 cp c) = (case utf8_tail (byte c) of None \<Rightarrow> 1 | Some rs \<Rightarrow>
     if rs = [] then 0 else if length rs = 1 then 2
     else if rs = pending 4 then 4 else if rs = pending 5 then 5 else if rs = pending 3 then 3
     else if rs = pending 6 then 6 else if rs = pending 7 then 7 else 8)"
  by (simp add: decode_next next_states utf8_class_def utf8_tail_def pending_def)

lemma next_state_continue:
  assumes "b < 256"
  shows "next_state 2 (utf8_class b) = (if 0x80 \<le> b \<and> b \<le> 0xBF then 0 else 1)"
    "next_state 3 (utf8_class b) = (if 0x80 \<le> b \<and> b \<le> 0xBF then 2 else 1)"
    "next_state 4 (utf8_class b) = (if 0xA0 \<le> b \<and> b \<le> 0xBF then 2 else 1)"
    "next_state 5 (utf8_class b) = (if 0x80 \<le> b \<and> b \<le> 0x9F then 2 else 1)"
    "next_state 6 (utf8_class b) = (if 0x90 \<le> b \<and> b \<le> 0xBF then 3 else 1)"
    "next_state 7 (utf8_class b) = (if 0x80 \<le> b \<and> b \<le> 0xBF then 3 else 1)"
    "next_state 8 (utf8_class b) = (if 0x80 \<le> b \<and> b \<le> 0x8F then 3 else 1)"
  using assms by (simp_all add: utf8_class_def next_states)

lemma decode_pending:
  assumes "s \<in> {2, 3, 4, 5, 6, 7, 8}" "pending s = (lo, hi) # rs"
  shows "fst (decode s cp c) =
    (if lo \<le> byte c \<and> byte c \<le> hi then (if rs = [] then 0 else if length rs = 1 then 2 else 3) else 1)"
  using assms by (auto simp: decode_next next_state_continue pending_def simp del: One_nat_def)

subsection \<open>Code points\<close>

definition codep_ok :: "nat \<Rightarrow> 32 word \<Rightarrow> bool" where
  \<comment> \<open>bounds on a partial code point: it cannot overflow, and it will not be an ASCII character\<close>
  "codep_ok s cp =
     (if s = 2 then 2 \<le> cp \<and> cp < 0x100000
      else if s = 3 then 1 \<le> cp \<and> cp < 0x4000
      else if s = 4 \<or> s = 6 then cp < 0x100
      else if s = 5 \<or> s = 7 \<or> s = 8 then 1 \<le> cp \<and> cp < 0x100
      else True)"

lemma unat_and_mask:
  assumes "n \<le> 32"
  shows "unat (mask n AND (word_of_nat b :: 32 word)) = b mod 2 ^ n"
proof -
  have "unat (take_bit n (word_of_nat b :: 32 word)) = take_bit n (unat (word_of_nat b :: 32 word))"
    by (rule unsigned_take_bit_eq)
  also have "\<dots> = take_bit n (take_bit 32 b)" by (simp add: unat_of_nat take_bit_eq_mod)
  also have "\<dots> = b mod 2 ^ n" using assms by (simp only: take_bit_take_bit) (simp add: min_def take_bit_eq_mod)
  finally show ?thesis by (simp add: take_bit_eq_mask and.commute)
qed

lemma mod_block:
  fixes b n k :: nat
  assumes "k * n \<le> b" "b < (k + 1) * n"
  shows "b mod n = b - k * n"
proof -
  have "b = (b - k * n) + k * n" "b - k * n < n" using assms by (simp_all add: algebra_simps)
  then show ?thesis by (metis mod_less mod_mult_self1)
qed

lemma mod_block_bounds:
  fixes b n k lo hi :: nat
  assumes "k * n + lo \<le> b" "b < k * n + hi" "hi \<le> n"
  shows "lo \<le> b mod n" "b mod n < hi"
proof -
  have "b mod n = b - k * n" by (rule mod_block) (use assms in \<open>simp_all add: algebra_simps\<close>)
  then show "lo \<le> b mod n" "b mod n < hi" using assms by simp_all
qed

lemmas codep_lead_bounds =
  mod_block_bounds [of 3 "2 ^ 6" 2 _ 32] mod_block_bounds [of 7 "2 ^ 5" 1 _ 16] mod_block_bounds [of 60 "2 ^ 2" 1 _ 4]

lemma codep_ok_lead: "codep_ok (fst (decode 0 cp c)) (snd (decode 0 cp c))"
proof -
  define b where "b = byte c"
  have b: "b < 256" by (simp add: b_def)
  have class_b: "utf8d ! b = utf8_class b" by (simp add: b_def utf8d_class)
  have snd: "unat (snd (decode 0 cp c)) = b mod 2 ^ (8 - utf8_class b)" if "utf8_class b \<le> 8"
  proof -
    have "drop_bit (utf8_class b) (mask 8) = (mask (8 - utf8_class b) :: 32 word)"
      using that by (auto intro!: bit_word_eqI simp: bit_simps)
    then have "drop_bit (utf8_class b) 0xFF = (mask (8 - utf8_class b) :: 32 word)"
      by (simp add: mask_numeral)
    then show ?thesis
      by (simp add: decode_def Let_def class_b b_def [symmetric] unat_and_mask)
  qed
  have zero: "snd (decode 0 cp c) = 0" if "utf8_class b \<in> {10, 11}"
    using that by (auto simp: decode_def Let_def class_b b_def [symmetric])
  consider "b < 194 \<or> 244 < b" | "194 \<le> b" "b < 224" | "b = 224" | "225 \<le> b" "b < 240" "b \<noteq> 237" | "b = 237"
    | "b = 240" | "241 \<le> b" "b < 244" | "b = 244" by linarith
  then show ?thesis
  proof cases
    case 1
    then have "utf8_tail b = Some [] \<or> utf8_tail b = None"
      by (elim disjE) (simp_all add: utf8_tail_def)
    then have "fst (decode 0 cp c) \<in> {0, 1}" by (elim disjE) (simp_all add: decode_lead b_def [symmetric])
    then show ?thesis by (auto simp: codep_ok_def)
  next
    case 2
    then have cl: "utf8_class b = 2" and "fst (decode 0 cp c) = 2"
      by (simp_all add: utf8_class_def decode_lead utf8_tail_def pending_def b_def [symmetric])
    then show ?thesis using snd codep_lead_bounds(1,2) [of b] 2
      by (simp add: cl codep_ok_def word_le_nat_alt word_less_nat_alt del: One_nat_def)
  next
    case 4
    then have cl: "utf8_class b = 3" and "fst (decode 0 cp c) = 3"
      by (simp_all add: utf8_class_def decode_lead utf8_tail_def pending_def b_def [symmetric])
    then show ?thesis using snd codep_lead_bounds(3,4) [of b] 4
      by (simp add: cl codep_ok_def word_le_nat_alt word_less_nat_alt del: One_nat_def)
  next
    case 7
    then have cl: "utf8_class b = 6" and "fst (decode 0 cp c) = 7"
      by (simp_all add: utf8_class_def decode_lead utf8_tail_def pending_def b_def [symmetric])
    then show ?thesis using snd codep_lead_bounds(5,6) [of b] 7
      by (simp add: cl codep_ok_def word_le_nat_alt word_less_nat_alt del: One_nat_def)
  qed (use snd zero in \<open>simp_all add: decode_lead utf8_tail_def pending_def b_def [symmetric] utf8_class_def
        codep_ok_def word_le_nat_alt word_less_nat_alt\<close>)
qed

lemma codep_shift:
  assumes "cp < 0x4000000"
  shows "unat ((word_of_nat b AND 0x3F) OR push_bit 6 cp) = b mod 64 + 64 * unat (cp :: 32 word)"
proof -
  have m: "(word_of_nat b AND 0x3F :: 32 word) = mask 6 AND word_of_nat b"
    by (simp add: mask_numeral and.commute)
  have "(word_of_nat b AND 0x3F) OR push_bit 6 cp = (mask 6 AND word_of_nat b) + push_bit 6 cp"
    unfolding m by (subst disjunctive_add) (auto simp: bit_simps)
  moreover have "unat (mask 6 AND (word_of_nat b :: 32 word)) = b mod 64"
    using unat_and_mask [of 6 b] by simp
  moreover have "unat (push_bit 6 cp) = 64 * unat cp"
    using assms by (simp add: unsigned_push_bit_eq push_bit_eq_mult take_bit_eq_mod word_less_nat_alt unat_word_ariths)
  moreover have "unat cp < 0x4000000" using assms by (simp add: word_less_nat_alt)
  ultimately show ?thesis by (simp add: unat_word_ariths)
qed

lemma codep_ok_next:
  assumes "s \<in> {2, 3, 4, 5, 6, 7, 8}" "pending s = (lo, hi) # rs" "lo \<le> byte c" "byte c \<le> hi" "codep_ok s cp"
  shows "if rs = [] then 0x80 \<le> snd (decode s cp c) else codep_ok (fst (decode s cp c)) (snd (decode s cp c))"
proof -
  have lt: "cp < 0x4000000" using assms(1,5) by (auto simp: codep_ok_def word_less_nat_alt)
  have snd: "unat (snd (decode s cp c)) = byte c mod 64 + 64 * unat cp"
    using codep_shift [OF lt, of "byte c"] assms(1) by (auto simp: decode_def Let_def)
  have fst: "fst (decode s cp c) = (if rs = [] then 0 else if length rs = 1 then 2 else 3)"
    using decode_pending [OF assms(1,2)] assms(3,4) by simp
  have m: "byte c mod 64 < 64" by simp
  have e: "32 \<le> byte c mod 64" if "0xA0 \<le> byte c" "byte c \<le> 0xBF"
    using mod_block_bounds(1) [of 2 64 32 "byte c" 64] that by simp
  have f: "16 \<le> byte c mod 64" if "0x90 \<le> byte c" "byte c \<le> 0xBF"
    using mod_block_bounds(1) [of 2 64 16 "byte c" 64] that by simp
  show ?thesis
    using assms(1,2,3,4,5) m e f
    by (auto simp: fst snd codep_ok_def pending_def word_le_nat_alt word_less_nat_alt split: if_splits)
qed

subsection \<open>Escaping\<close>

definition text_of :: "escape_state \<Rightarrow> string" where
  \<comment> \<open>written and still buffered\<close>
  "text_of st = es_out st @ es_buf st"

lemma text_of_flush [simp]: "text_of (escape_flush st) = text_of st"
  by (simp add: text_of_def escape_flush_def)

lemma text_of_accept [simp]:
  "text_of (escape_accept ascii c st) = text_of st @ escape_code_point ascii (es_codep st) c"
  "es_state (escape_accept ascii c st) = es_state st"
  by (simp_all add: escape_accept_def Let_def text_of_def escape_flush_def)

lemma text_of_incomplete [simp]:
  "text_of (escape_incomplete False c st) = text_of st @ [c]"
  "es_state (escape_incomplete False c st) = es_state st"
  "es_codep (escape_incomplete False c st) = es_codep st"
  by (simp_all add: escape_incomplete_def text_of_def)

lemma escape_high [simp]: "0x80 \<le> byte c \<Longrightarrow> escape_byte c = [c]"
  by (auto simp: escape_byte_def byte_def)

lemma escape_code_point_high: "0x80 \<le> cp \<Longrightarrow> escape_code_point False cp c = [c]"
  by (auto simp: escape_code_point_def word_le_nat_alt)

lemma escape_code_point_low:
  assumes "byte c < 0x80"
  shows "escape_code_point False (snd (decode 0 cp c)) c = escape_byte c"
proof -
  have "utf8_class (byte c) = 0" using assms by (simp add: utf8_class_def)
  then have "snd (decode 0 cp c) = mask 8 AND word_of_nat (byte c)"
    by (simp add: decode_def Let_def utf8d_class mask_numeral)
  then have "unat (snd (decode 0 cp c)) = byte c" using unat_and_mask [of 8 "byte c"] assms by simp
  moreover have "c = CHR 0x08 \<longleftrightarrow> byte c = 8" "c = TAB \<longleftrightarrow> byte c = 9" "c = LF \<longleftrightarrow> byte c = 10"
    "c = CHR 0x0C \<longleftrightarrow> byte c = 12" "c = CR \<longleftrightarrow> byte c = 13" "c = DQ \<longleftrightarrow> byte c = 34"
    "c = BSL \<longleftrightarrow> byte c = 92"
    using byte_inject [of c "CHR 0x08"] byte_inject [of c TAB] byte_inject [of c LF]
      byte_inject [of c "CHR 0x0C"] byte_inject [of c CR] byte_inject [of c DQ] byte_inject [of c BSL]
    by (simp_all add: byte_def del: byte_inject)
  ultimately show ?thesis
    using assms unfolding escape_code_point_def escape_byte_def word_unat_eq_iff word_le_nat_alt
    by simp
qed

text \<open>What the strict loop owes on the rest of a string, from a given text.\<close>

definition escaped_as :: "string \<Rightarrow> ranges \<Rightarrow> string \<Rightarrow> json_exn + escape_state \<Rightarrow> bool" where
  "escaped_as t rs cs r \<longleftrightarrow> (case r of
      Inl e \<Rightarrow> \<not> utf8_rest rs cs
    | Inr st \<Rightarrow> (es_state st = 0 \<longleftrightarrow> utf8_rest rs cs)
        \<and> (utf8_rest rs cs \<longrightarrow> text_of st = t @ concat (map escape_byte cs)))"

lemma escaped_as_step:
  assumes "escaped_as (t @ escape_byte c) rs' cs r" "utf8_rest rs (c # cs) = utf8_rest rs' cs"
  shows "escaped_as t rs (c # cs) r"
  using assms by (simp add: escaped_as_def split: sum.splits)

lemma pending_simps [simp]: "pending 0 = []"
  by (simp add: pending_def)

lemma lead_pending:
  assumes "utf8_tail (byte c) = Some rs" "rs \<noteq> []"
  shows "fst (decode 0 cp c) \<in> {2, 3, 4, 5, 6, 7, 8}" "pending (fst (decode 0 cp c)) = rs" "0x80 \<le> byte c"
  using assms by (auto simp: decode_lead utf8_tail_def pending_def split: if_splits)

lemma pending_high: "pending s = (lo, hi) # rs \<Longrightarrow> 0x80 \<le> lo"
  by (auto simp: pending_def split: if_splits)

lemma pending_next:
  "pending s = (lo, hi) # rs \<Longrightarrow> rs \<noteq> [] \<Longrightarrow> pending (if length rs = 1 then 2 else 3) = rs"
  by (auto simp: pending_def split: if_splits)

declare escape_loop.simps(2) [simp del]

lemma escape_loop_strict:
  assumes "es_state st \<in> {0, 2, 3, 4, 5, 6, 7, 8}" "codep_ok (es_state st) (es_codep st)"
  shows "escaped_as (text_of st) (pending (es_state st)) cs (escape_loop strict False i cs st)"
  using assms
proof (induction cs arbitrary: i st)
  case Nil
  then show ?case by (auto simp: pending_def escaped_as_def)
next
  case (Cons c cs)
  define s where "s = es_state st"
  define s' cp' where "s' = fst (decode s (es_codep st) c)" "cp' = snd (decode s (es_codep st) c)"
  define st1 where "st1 = st\<lparr>es_state := s', es_codep := cp'\<rparr>"
  have st1: "text_of st1 = text_of st" "es_state st1 = s'" "es_codep st1 = cp'"
    by (simp_all add: st1_def text_of_def)
  have dec: "decode (es_state st) (es_codep st) c = (s', cp')" by (simp add: s'_cp'_def s_def)
  have accept: ?case if "s' = 0" "utf8_rest (pending s) (c # cs) = utf8_rest [] cs"
    "escape_code_point False cp' c = escape_byte c"
  proof -
    have "escape_loop strict False i (c # cs) st = escape_loop strict False (i + 1) cs (escape_accept False c st1)"
      using that(1) by (simp add: escape_loop.simps dec st1_def Let_def)
    moreover have "escaped_as (text_of st @ escape_byte c) [] cs
        (escape_loop strict False (i + 1) cs (escape_accept False c st1))"
      using Cons.IH [of "escape_accept False c st1" "i + 1"] that st1 by (simp add: codep_ok_def)
    ultimately show ?thesis using that(2) unfolding s_def by (simp only:) (rule escaped_as_step)
  qed
  have incomplete: ?case if "s' \<in> {2, 3, 4, 5, 6, 7, 8}" "utf8_rest (pending s) (c # cs) = utf8_rest (pending s') cs"
    "codep_ok s' cp'" "0x80 \<le> byte c"
  proof -
    have "escape_loop strict False i (c # cs) st = escape_loop strict False (i + 1) cs (escape_incomplete False c st1)"
      using that(1) by (auto simp: escape_loop.simps dec st1_def Let_def)
    moreover have "escaped_as (text_of st @ escape_byte c) (pending s') cs
        (escape_loop strict False (i + 1) cs (escape_incomplete False c st1))"
      using Cons.IH [of "escape_incomplete False c st1" "i + 1"] that st1 by simp
    ultimately show ?thesis using that(2) unfolding s_def by (simp only:) (rule escaped_as_step)
  qed
  have reject: ?case if "s' = 1" "\<not> utf8_rest (pending s) (c # cs)"
    using that by (simp add: escape_loop.simps dec Let_def escaped_as_def) (simp add: s_def)
  show ?case
  proof (cases "pending s")
    case Nil
    then have s: "s = 0" using Cons.prems(1) by (auto simp: s_def [symmetric] pending_def split: if_splits)
    show ?thesis
    proof (cases "utf8_tail (byte c)")
      case None
      then show ?thesis using reject s Nil by (simp add: s'_cp'_def decode_lead)
    next
      case (Some rs)
      show ?thesis
      proof (cases "rs = []")
        case True
        then have "byte c < 0x80" using Some by (simp add: utf8_tail_def split: if_splits)
        then show ?thesis
          using accept Some True s Nil escape_code_point_low [of c "es_codep st"] by (simp add: s'_cp'_def decode_lead)
      next
        case False
        have "s' \<in> {2, 3, 4, 5, 6, 7, 8}" "pending s' = rs" "0x80 \<le> byte c"
          using lead_pending [OF Some False] s by (simp_all add: s'_cp'_def)
        moreover have "codep_ok s' cp'" using codep_ok_lead s by (simp add: s'_cp'_def)
        ultimately show ?thesis using incomplete Some Nil by simp
      qed
    qed
  next
    case (Cons r rs)
    obtain lo hi where r: "r = (lo, hi)" by (cases r)
    have s: "s \<in> {2, 3, 4, 5, 6, 7, 8}" using Cons Cons.prems(1) by (auto simp: s_def [symmetric])
    note pend = decode_pending [OF s Cons [unfolded r], of "es_codep st" c]
    show ?thesis
    proof (cases "lo \<le> byte c \<and> byte c \<le> hi")
      case True
      then have rest: "utf8_rest (pending s) (c # cs) = utf8_rest rs cs" using Cons r by simp
      have ok: "if rs = [] then 0x80 \<le> cp' else codep_ok s' cp'"
        using codep_ok_next [OF s Cons [unfolded r] _ _ Cons.prems(2) [folded s_def], of c] True
        by (simp add: s'_cp'_def)
      have high: "0x80 \<le> byte c" using pending_high [OF Cons [unfolded r]] True by simp
      show ?thesis
      proof (cases "rs = []")
        case True
        then show ?thesis using accept rest ok pend \<open>lo \<le> byte c \<and> byte c \<le> hi\<close> high
          by (simp add: s'_cp'_def escape_code_point_high)
      next
        case False
        then have "s' \<in> {2, 3}" "pending s' = rs"
          using pend pending_next [OF Cons [unfolded r] False] True by (auto simp: s'_cp'_def)
        then show ?thesis using incomplete rest ok high False by auto
      qed
    next
      case False
      then have "s' = 1" using pend by (auto simp: s'_cp'_def)
      moreover have "\<not> utf8_rest (pending s) (c # cs)" using False Cons r by auto
      ultimately show ?thesis by (rule reject)
    qed
  qed
qed

lemma dump_escaped_spec:
  "dump_escaped strict s False = Inr t \<longleftrightarrow> utf8 s \<and> t = concat (map escape_byte s)"
proof -
  define st where "st = \<lparr>es_state = 0, es_codep = 0, es_buf = [], es_last = 0, es_undumped = 0, es_out = []\<rparr>"
  have "escaped_as [] [] s (escape_loop strict False 0 s st)"
    using escape_loop_strict [of st s 0] by (simp add: st_def codep_ok_def text_of_def)
  then show ?thesis
    by (auto simp: escaped_as_def dump_escaped_def utf8_def st_def text_of_def split: sum.splits)
qed

subsection \<open>The escape buffer\<close>

definition escape_start :: escape_state where
  "escape_start = \<lparr>es_state = UTF8_ACCEPT, es_codep = 0, es_buf = [], es_last = 0, es_undumped = 0, es_out = []\<rparr>"

inductive escaping :: "error_handler_t \<Rightarrow> bool \<Rightarrow> string \<Rightarrow> string \<Rightarrow> escape_state \<Rightarrow> bool"
  for eh :: error_handler_t and ascii :: bool and s :: string where
  \<comment> \<open>the bytes left and the state at the head of the loop of \<open>dump_escaped\<close> on \<open>s\<close>\<close>
  start: "escaping eh ascii s s escape_start"
| accept: "escaping eh ascii s (c # cs) st \<Longrightarrow> decode (es_state st) (es_codep st) c = (UTF8_ACCEPT, cp) \<Longrightarrow>
    escaping eh ascii s cs (escape_accept ascii c (st\<lparr>es_state := UTF8_ACCEPT, es_codep := cp\<rparr>))"
| reject: "escaping eh ascii s (c # cs) st \<Longrightarrow> decode (es_state st) (es_codep st) c = (UTF8_REJECT, cp) \<Longrightarrow>
    eh \<noteq> strict \<Longrightarrow>
    escaping eh ascii s (if es_undumped st > 0 then c # cs else cs)
      (escape_reject eh ascii (st\<lparr>es_state := UTF8_REJECT, es_codep := cp\<rparr>))"
| incomplete: "escaping eh ascii s (c # cs) st \<Longrightarrow> decode (es_state st) (es_codep st) c = (state, cp) \<Longrightarrow>
    state \<noteq> UTF8_ACCEPT \<Longrightarrow> state \<noteq> UTF8_REJECT \<Longrightarrow>
    escaping eh ascii s cs (escape_incomplete ascii c (st\<lparr>es_state := state, es_codep := cp\<rparr>))"

lemma escaping_loop:
  "escaping eh ascii s cs st \<Longrightarrow> \<exists>i. escape_loop eh ascii 0 s escape_start = escape_loop eh ascii i cs st"
proof (induction rule: escaping.induct)
  case (accept c cs st cp)
  then show ?case by (auto simp: escape_loop.simps(2) Let_def)
next
  case (reject c cs st cp)
  then show ?case by (auto simp: escape_loop.simps(2) [of _ _ _ c cs st] Let_def)
next
  case (incomplete c cs st state cp)
  then show ?case by (auto simp: escape_loop.simps(2) Let_def)
qed auto

definition bytes_written :: "error_handler_t \<Rightarrow> bool \<Rightarrow> char \<Rightarrow> escape_state \<Rightarrow> nat" where
  \<comment> \<open>the part of \<open>string_buffer\<close> that is used when the byte \<open>c\<close> has been treated, before a flush; \<open>snprintf\<close>
    also writes a terminating NUL\<close>
  "bytes_written eh ascii c st =
     (let (state, cp) = decode (es_state st) (es_codep st) c; e = escape_code_point ascii cp c
      in if state = UTF8_ACCEPT then length (es_buf st) + length e + (if length e \<ge> 6 then 1 else 0)
         else if state = UTF8_REJECT
              then (if eh = replace then es_last st + length (replacement ascii) else length (es_buf st))
         else length (es_buf st) + 1)"

definition escape_inv :: "bool \<Rightarrow> escape_state \<Rightarrow> bool" where
  "escape_inv ascii st \<longleftrightarrow>
     es_state st \<in> {0, 2, 3, 4, 5, 6, 7, 8} \<and> codep_ok (es_state st) (es_codep st) \<and>
     es_last st \<le> 499 \<and> es_last st \<le> length (es_buf st) \<and>
     length (es_buf st) \<le> es_last st + (if ascii then 0 else es_undumped st) \<and>
     (if es_state st = 0 then es_undumped st = 0 else es_undumped st + length (pending (es_state st)) \<le> 4)"

lemma decode_facts:
  assumes "s \<in> {0, 2, 3, 4, 5, 6, 7, 8}" "codep_ok s cp" "decode s cp c = (s', cp')"
  shows "s' \<in> {0, 1, 2, 3, 4, 5, 6, 7, 8}"
    "s' = 0 \<Longrightarrow> s \<noteq> 0 \<Longrightarrow> 0x80 \<le> cp'"
    "s' \<notin> {0, 1} \<Longrightarrow> codep_ok s' cp'"
    "s' \<notin> {0, 1} \<Longrightarrow> length (pending s') < (if s = 0 then 4 else length (pending s))"
proof -
  have eq: "s' = fst (decode s cp c)" "cp' = snd (decode s cp c)" using assms(3) by simp_all
  have "s' \<in> {0, 1, 2, 3, 4, 5, 6, 7, 8} \<and> (s' = 0 \<longrightarrow> s \<noteq> 0 \<longrightarrow> 0x80 \<le> cp') \<and> (s' \<notin> {0, 1} \<longrightarrow> codep_ok s' cp') \<and>
    (s' \<notin> {0, 1} \<longrightarrow> length (pending s') < (if s = 0 then 4 else length (pending s)))"
  proof (cases "s = 0")
    case True
    have "length (pending s') < 4" by (simp add: pending_def)
    moreover have "s' \<in> {0, 1, 2, 3, 4, 5, 6, 7, 8}" using True unfolding eq by (auto simp: decode_lead split: option.splits)
    ultimately show ?thesis using True codep_ok_lead [of cp c] unfolding eq by simp
  next
    case False
    then have s: "s \<in> {2, 3, 4, 5, 6, 7, 8}" using assms(1) by simp
    then obtain lo hi rs where p: "pending s = (lo, hi) # rs" by (auto simp: pending_def)
    note d = decode_pending [OF s p, of cp c, folded eq]
    show ?thesis
    proof (cases "lo \<le> byte c \<and> byte c \<le> hi")
      case True
      have n: "if rs = [] then 0x80 \<le> cp' else codep_ok s' cp'"
        using codep_ok_next [OF s p _ _ assms(2), of c] True by (simp add: eq)
      have l: "length (pending (if length rs = 1 then 2 else 3)) = length rs" if "rs \<noteq> []"
        using pending_next [OF p that] by simp
      show ?thesis using d True n l p False by (auto split: if_splits)
    next
      case False
      then show ?thesis using d by auto
    qed
  qed
  then show "s' \<in> {0, 1, 2, 3, 4, 5, 6, 7, 8}"
    "s' = 0 \<Longrightarrow> s \<noteq> 0 \<Longrightarrow> 0x80 \<le> cp'"
    "s' \<notin> {0, 1} \<Longrightarrow> codep_ok s' cp'"
    "s' \<notin> {0, 1} \<Longrightarrow> length (pending s') < (if s = 0 then 4 else length (pending s))"
    by blast+
qed

lemma length_escape_code_point: "length (escape_code_point ascii cp c) \<le> 12"
  by (simp add: escape_code_point_def u_escape_def)

lemma length_replacement: "length (replacement ascii) \<le> 6"
  by (simp add: replacement_def)

lemma pending_nonempty: "s \<in> {2, 3, 4, 5, 6, 7, 8} \<Longrightarrow> 1 \<le> length (pending s)"
  by (auto simp: pending_def)

lemma bytes_written_bound:
  assumes "escape_inv ascii st"
  shows "bytes_written eh ascii c st \<le> 512"
proof -
  obtain s' cp' where d: "decode (es_state st) (es_codep st) c = (s', cp')" by fastforce
  have inv: "es_state st \<in> {0, 2, 3, 4, 5, 6, 7, 8}" "codep_ok (es_state st) (es_codep st)"
    "es_last st \<le> 499" "length (es_buf st) \<le> es_last st + (if ascii then 0 else es_undumped st)"
    "es_state st = 0 \<Longrightarrow> es_undumped st = 0" "es_state st \<noteq> 0 \<Longrightarrow> es_undumped st + length (pending (es_state st)) \<le> 4"
    using assms by (auto simp: escape_inv_def split: if_splits)
  have u: "es_undumped st \<le> 3" using inv(1,5,6) pending_nonempty [of "es_state st"] by (cases "es_state st = 0") auto
  have buf: "length (es_buf st) \<le> 502" using inv(3,4) u by (auto split: if_splits)
  have low: "length (es_buf st) \<le> 499" if "ascii \<or> es_state st = 0" using that inv(3,4,5) by (auto split: if_splits)
  have one: "length (escape_code_point ascii cp' c) = 1" if "\<not> ascii" "es_state st \<noteq> 0" "s' = 0"
    using decode_facts(2) [OF inv(1,2) d that(3,2)] that(1) by (simp add: escape_code_point_high)
  have "length (es_buf st) + length (escape_code_point ascii cp' c) +
      (if length (escape_code_point ascii cp' c) \<ge> 6 then 1 else 0) \<le> 512" if "s' = 0"
    using one that low buf length_escape_code_point [of ascii cp' c] by (cases "ascii \<or> es_state st = 0") auto
  then show ?thesis using d buf inv(3) length_replacement [of ascii] by (simp add: bytes_written_def Let_def)
qed

lemma escape_inv_preserved: "escaping eh ascii s cs st \<Longrightarrow> escape_inv ascii st"
proof (induction rule: escaping.induct)
  case start
  then show ?case by (simp add: escape_inv_def escape_start_def codep_ok_def)
next
  case (accept c cs st cp)
  have "length (es_buf st) + length (escape_code_point ascii cp c) \<le> 512"
    using bytes_written_bound [OF accept.IH, of eh c] accept.hyps(2) by (simp add: bytes_written_def Let_def)
  then show ?case
    by (simp add: escape_inv_def escape_accept_def escape_flush_def Let_def codep_ok_def) arith
next
  case (reject c cs st cp)
  then have "es_last st \<le> 499" "es_last st \<le> length (es_buf st)" by (simp_all add: escape_inv_def)
  then show ?case
    by (simp add: escape_inv_def escape_reject_def escape_flush_def Let_def codep_ok_def min_absorb2) arith
next
  case (incomplete c cs st s' cp)
  have inv: "es_state st \<in> {0, 2, 3, 4, 5, 6, 7, 8}" "codep_ok (es_state st) (es_codep st)"
    using incomplete.IH by (auto simp: escape_inv_def)
  have s': "s' \<notin> {0, 1}" using incomplete.hyps(3,4) by simp
  show ?case using decode_facts(1,3,4) [OF inv incomplete.hyps(2)] s' incomplete.IH
    by (auto simp: escape_inv_def escape_incomplete_def split: if_splits)
qed

subsection \<open>Integers\<close>

lemma to_string_nat_ge10: "10 \<le> x \<Longrightarrow> to_string_nat x = to_string_nat (x div 10) @ [digit_char (x mod 10)]"
  by (subst to_string_nat.simps) simp

lemma to_string_nat_less10: "x < 10 \<Longrightarrow> to_string_nat x = [digit_char x]"
  by (subst to_string_nat.simps) simp

lemma length_to_string_nat_div:
  "10 \<le> x \<Longrightarrow> length (to_string_nat x) = Suc (length (to_string_nat (x div 10)))"
  by (simp add: to_string_nat_ge10)

lemma length_to_string_nat_power:
  "10 ^ k \<le> x \<Longrightarrow> length (to_string_nat x) = k + length (to_string_nat (x div 10 ^ k))"
proof (induction k)
  case (Suc k)
  then have "10 \<le> x div 10 ^ k" by (simp add: less_eq_div_iff_mult_less_eq mult.commute)
  moreover have "10 ^ k \<le> x" using Suc.prems by simp
  ultimately show ?case using Suc.IH length_to_string_nat_div [of "x div 10 ^ k"]
    by (simp add: div_mult2_eq [symmetric] mult.commute)
qed simp

lemma count_digits_correct: "count_digits x n + 1 = n + length (to_string_nat x)"
proof (induction x n rule: count_digits.induct)
  case (1 x n)
  have one: "length (to_string_nat (x div d)) = 1" if "x < 10 * d" for d
    using that by (simp add: to_string_nat_less10 less_mult_imp_div_less)
  consider "x < 10" | "10 \<le> x" "x < 100" | "100 \<le> x" "x < 1000" | "1000 \<le> x" "x < 10000" | "10000 \<le> x"
    by linarith
  then show ?case
  proof cases
    case 5
    then have "length (to_string_nat x) = 4 + length (to_string_nat (x div 10000))"
      using length_to_string_nat_power [of 4 x] by simp
    moreover have "count_digits x n = count_digits (x div 10000) (n + 4)"
      using 5 by (subst count_digits.simps) simp
    moreover have "count_digits (x div 10000) (n + 4) + 1 = n + 4 + length (to_string_nat (x div 10000))"
      using 1 5 by simp
    ultimately show ?thesis by simp
  next
    case 2
    then show ?thesis using length_to_string_nat_power [of 1 x] one [of 10] by (subst count_digits.simps) simp
  next
    case 3
    then show ?thesis using length_to_string_nat_power [of 2 x] one [of 100] by (subst count_digits.simps) simp
  next
    case 4
    then show ?thesis using length_to_string_nat_power [of 3 x] one [of 1000] by (subst count_digits.simps) simp
  qed (simp add: to_string_nat_less10 count_digits.simps)
qed

lemma length_to_string_nat_le: "a < 10 ^ n \<Longrightarrow> 0 < n \<Longrightarrow> length (to_string_nat a) \<le> n"
proof (induction n arbitrary: a)
  case (Suc n)
  show ?case
  proof (cases "a < 10")
    case False
    then have "a div 10 < 10 ^ n" "0 < n" using Suc.prems by (auto simp: less_mult_imp_div_less mult.commute intro: ccontr)
    then show ?thesis using Suc.IH [of "a div 10"] False by (simp add: length_to_string_nat_div)
  qed (simp add: to_string_nat_less10)
qed simp

lemma two_writes:
  assumes "2 \<le> p" "p \<le> length buf"
  shows "take (p - 2) (buf[p - 1 := d1, p - 2 := d0]) = take (p - 2) buf"
    "drop (p - 2) (buf[p - 1 := d1, p - 2 := d0]) = d0 # d1 # drop p buf"
proof -
  obtain q where p: "p = Suc (Suc q)" using assms(1) by (metis add_2_eq_Suc le_Suc_ex)
  show "take (p - 2) (buf[p - 1 := d1, p - 2 := d0]) = take (p - 2) buf" by (simp add: p)
  have "drop q (buf[Suc q := d1, q := d0]) = (drop q buf)[1 := d1, 0 := d0]"
    by (simp add: drop_update_swap)
  also have "drop q buf = buf ! q # buf ! Suc q # drop (Suc (Suc q)) buf"
    using assms(2) p by (simp add: Cons_nth_drop_Suc)
  finally show "drop (p - 2) (buf[p - 1 := d1, p - 2 := d0]) = d0 # d1 # drop p buf" by (simp add: p)
qed

lemma to_string_nat_ge100:
  assumes "100 \<le> a"
  shows "to_string_nat a = to_string_nat (a div 100) @ [digit_char (a mod 100 div 10), digit_char (a mod 100 mod 10)]"
proof -
  have "10 \<le> a div 10" using assms by simp
  moreover have "a div 10 mod 10 = a mod 100 div 10" using mod_mult2_eq [of a 10 10] by simp
  moreover have "a mod 100 mod 10 = a mod 10" by (simp add: mod_mod_cancel)
  ultimately show ?thesis
    using assms by (simp add: to_string_nat_ge10 [of a] to_string_nat_ge10 [of "a div 10"] div_mult2_eq [symmetric])
qed

lemma write_digits_correct:
  assumes "length (to_string_nat a) \<le> p" "p \<le> length buf"
  shows "write_digits a p buf = take (p - length (to_string_nat a)) buf @ to_string_nat a @ drop p buf"
  using assms
proof (induction a p buf rule: write_digits.induct)
  case (1 a p buf)
  consider "a < 10" | "10 \<le> a" "a < 100" | "100 \<le> a" by linarith
  then show ?case
  proof cases
    case 1
    then have s: "to_string_nat a = [digit_char a]" by (rule to_string_nat_less10)
    then obtain q where "p = Suc q" using "1.prems" by (cases p) auto
    with "1.prems" s 1 show ?thesis by (subst write_digits.simps) (simp add: upd_conv_take_nth_drop)
  next
    case 2
    then have s: "to_string_nat a = [digit_char (a div 10), digit_char (a mod 10)]"
      by (simp add: to_string_nat_ge10 to_string_nat_less10)
    then have p: "2 \<le> p" "p \<le> length buf" using "1.prems" by simp_all
    have "write_digits a p buf = buf[p - 1 := digit_char (a mod 10), p - 2 := digit_char (a div 10)]"
      using 2 by (subst write_digits.simps) (simp add: digits_to_99_def)
    also have "\<dots> = take (p - 2) \<dots> @ drop (p - 2) \<dots>" by (rule append_take_drop_id [symmetric])
    finally show ?thesis using two_writes [OF p] s by (simp add: numeral_2_eq_2)
  next
    case 3
    note s = to_string_nat_ge100 [OF 3]
    then have p: "2 \<le> p" "p \<le> length buf" using "1.prems" by simp_all
    define buf1 where "buf1 = buf[p - 1 := digit_char (a mod 100 mod 10), p - 2 := digit_char (a mod 100 div 10)]"
    note t = two_writes [OF p, of "digit_char (a mod 100 mod 10)" "digit_char (a mod 100 div 10)", folded buf1_def]
    have "write_digits a p buf = write_digits (a div 100) (p - 2) buf1"
      using 3 by (subst write_digits.simps) (simp add: digits_to_99_def buf1_def)
    also have "\<dots> = take (p - 2 - length (to_string_nat (a div 100))) buf1 @ to_string_nat (a div 100) @ drop (p - 2) buf1"
      using "1.IH" 3 "1.prems" s p by (simp add: digits_to_99_def buf1_def)
    also have "take (p - 2 - length (to_string_nat (a div 100))) buf1 =
        take (p - 2 - length (to_string_nat (a div 100))) buf"
      using arg_cong [OF t(1), of "take (p - 2 - length (to_string_nat (a div 100)))"] by simp
    finally show ?thesis using s t(2) by (simp add: numeral_2_eq_2)
  qed
qed

lemma unat_remove_sign:
  fixes x :: "64 word"
  assumes "sint x < 0"
  shows "unat (remove_sign x) = nat (- sint x)"
proof -
  have "remove_sign x = word_of_int (- sint x)" by (simp add: remove_sign_def)
  then have "uint (remove_sign x) = (- sint x) mod 2 ^ 64" by (simp only: uint_word_of_int) simp
  moreover have "- sint x \<le> 2 ^ 63" using sint_ge [of x] by simp
  ultimately have "uint (remove_sign x) = - sint x" using assms by simp
  then show ?thesis by (metis nat_uint_eq)
qed

lemma uint_eq_sint:
  fixes x :: "64 word"
  assumes "\<not> sint x < 0"
  shows "uint x = sint x"
proof -
  have "uint (word_of_int (sint x) :: 64 word) = sint x mod 2 ^ 64" by (simp only: uint_word_of_int) simp
  then have "uint x = sint x mod 2 ^ 64" by simp
  then show ?thesis using assms sint_lt [of x] by simp
qed

lemma dump_integer_correct:
  assumes "length buf = 64"
  shows "dump_integer buf is_signed x = to_string_int (if is_signed then sint x else uint x)"
proof (cases "x = 0")
  case True
  moreover have "digit_char 0 = CHR ''0''" by code_simp
  ultimately show ?thesis by (simp add: dump_integer_def to_string_int_def to_string_nat_less10)
next
  case False
  define neg where "neg = (is_signed \<and> sint x < 0)"
  define a where "a = unat (if neg then remove_sign x else x)"
  have "a < 2 ^ 64" using unsigned_less [of "if neg then remove_sign x else x"] by (simp add: a_def)
  then have len: "length (to_string_nat a) \<le> 20" by (intro length_to_string_nat_le) auto
  have pos: "1 \<le> length (to_string_nat a)" by (cases "to_string_nat a") simp_all
  have cd: "count_digits a 1 = length (to_string_nat a)" using count_digits_correct [of a 1] by simp
  have out: "dump_integer buf is_signed x = (if neg then CHR ''-'' # to_string_nat a else to_string_nat a)"
  proof (cases neg)
    case True
    let ?n = "1 + length (to_string_nat a)"
    have "write_digits a ?n (buf[0 := CHR ''-'']) = take 1 (buf[0 := CHR ''-'']) @ to_string_nat a @ drop ?n (buf[0 := CHR ''-''])"
      using write_digits_correct [of a ?n "buf[0 := CHR ''-'']"] assms len by simp
    moreover have "take 1 (buf[0 := CHR ''-'']) = ''-''" using assms by (cases buf) auto
    moreover have "unat (remove_sign x) = a" using True by (simp add: a_def)
    ultimately show ?thesis
      using False True by (simp add: dump_integer_def Let_def neg_def [symmetric] cd del: One_nat_def) simp
  next
    case False
    have "write_digits a (length (to_string_nat a)) buf = to_string_nat a @ drop (length (to_string_nat a)) buf"
      using write_digits_correct [of a "length (to_string_nat a)" buf] assms len by simp
    moreover have "unat x = a" using False by (simp add: a_def)
    ultimately show ?thesis
      using False \<open>x \<noteq> 0\<close> by (simp add: dump_integer_def Let_def neg_def [symmetric] cd del: One_nat_def)
  qed
  show ?thesis
  proof (cases neg)
    case True
    then show ?thesis using out by (simp add: a_def neg_def unat_remove_sign to_string_int_def)
  next
    case False
    then show ?thesis using out uint_eq_sint [of x] by (auto simp: a_def neg_def to_string_int_def simp flip: nat_uint_eq)
  qed
qed

subsection \<open>Compact output\<close>

text \<open>The text of a value, by recursion on the value.\<close>

fun commas :: "string list \<Rightarrow> string" where
  "commas [] = []"
| "commas [s] = s"
| "commas (s # t # ts) = s @ '','' @ commas (t # ts)"

definition quoted :: "string \<Rightarrow> string" where
  "quoted s = [DQ] @ concat (map escape_byte s) @ [DQ]"

fun dump_text :: "json \<Rightarrow> string" where
  "dump_text (JObject m) = ''{'' @ commas (map (\<lambda>p. quoted (fst p) @ '':'' @ dump_text (snd p)) m) @ ''}''"
| "dump_text (JArray js) = ''['' @ commas (map dump_text js) @ '']''"
| "dump_text (JString s) = quoted s"
| "dump_text (JBinary bs st) =
     ''{'' @ [DQ] @ ''bytes'' @ [DQ] @ '':['' @ dump_bytes '','' bs @ ''],'' @ [DQ] @ ''subtype'' @ [DQ] @ '':'' @
     (case st of Some t \<Rightarrow> to_string_int (uint t) | None \<Rightarrow> ''null'') @ ''}''"
| "dump_text (JBoolean b) = (if b then ''true'' else ''false'')"
| "dump_text (JInteger x) = to_string_int (sint x)"
| "dump_text (JUnsigned x) = to_string_int (uint x)"
| "dump_text (JFloat x) = dump_float x"
| "dump_text JDiscarded = ''<discarded>''"
| "dump_text JNull = ''null''"

fun utf8_strings :: "json \<Rightarrow> bool" where
  "utf8_strings (JObject m) \<longleftrightarrow> (\<forall>p \<in> set m. utf8 (fst p) \<and> utf8_strings (snd p))"
| "utf8_strings (JArray js) \<longleftrightarrow> (\<forall>j \<in> set js. utf8_strings j)"
| "utf8_strings (JString s) \<longleftrightarrow> utf8 s"
| "utf8_strings _ \<longleftrightarrow> True"

lemma dump_integer_number_buffer [simp]:
  "dump_integer number_buffer is_signed x = to_string_int (if is_signed then sint x else uint x)"
  by (simp add: dump_integer_correct number_buffer_def)

lemma commas_Cons: "commas (s # ts) = (if ts = [] then s else s @ '','' @ commas ts)"
  by (cases ts) auto

lemma dump_escaped_utf8 [simp]: "utf8 s \<Longrightarrow> dump_escaped strict s False = Inr (concat (map escape_byte s))"
  by (simp add: dump_escaped_spec)

lemma dump_value_compact:
  shows "utf8_strings j \<Longrightarrow> dump_value strict False False step j cur ind = Inr (dump_text j, ind)"
    and "\<forall>p \<in> set m. utf8 (fst p) \<and> utf8_strings (snd p) \<Longrightarrow>
      dump_members strict False False step m cur ind =
      Inr (commas (map (\<lambda>p. quoted (fst p) @ '':'' @ dump_text (snd p)) m), ind)"
    and "\<forall>j \<in> set js. utf8_strings j \<Longrightarrow>
      dump_elements strict False False step js cur ind = Inr (commas (map dump_text js), ind)"
  by (induction strict False False step j cur ind and strict False False step m cur ind and strict False False step js cur ind
      rule: dump_value_dump_members_dump_elements.induct)
    (auto simp: commas_Cons quoted_def dump_binary_def split: option.splits)

lemma dump_value_only_utf8:
  shows "dump_value strict False False step j cur ind = Inr r \<Longrightarrow> utf8_strings j"
    and "dump_members strict False False step m cur ind = Inr r \<Longrightarrow>
      \<forall>p \<in> set m. utf8 (fst p) \<and> utf8_strings (snd p)"
    and "dump_elements strict False False step js cur ind = Inr r \<Longrightarrow> \<forall>j \<in> set js. utf8_strings j"
  by (induction strict False False step j cur ind and strict False False step m cur ind and strict False False step js cur ind
      arbitrary: r and r and r rule: dump_value_dump_members_dump_elements.induct)
    (auto simp: dump_escaped_spec Let_def split: sum.splits if_splits, fastforce+)

lemma dump_default_iff: "dump_default j = Inr t \<longleftrightarrow> utf8_strings j \<and> t = dump_text j"
proof (cases "utf8_strings j")
  case True
  then show ?thesis by (auto simp: dump_default_def dump_def dump_value_compact)
next
  case False
  then have "\<not> (\<exists>r. dump_value strict False False 0 j 0 (replicate 512 SP) = Inr r)"
    using dump_value_only_utf8(1) by blast
  with False show ?thesis by (auto simp: dump_default_def dump_def split: sum.splits)
qed

section \<open>Properties\<close>

text \<open>
  C15 (dump_is_reference_text): \<open>dump()\<close> with its default arguments writes the compact text of the
  value, as the recursive definition \<open>dump_text\<close> gives it, and it throws exactly if some string or
  key of the value is not valid UTF-8. The output buffering, the automaton of the UTF-8 decoder and
  the number buffer do not show.
\<close>

theorem dump_is_reference_text: "dump_default j = Inr t \<longleftrightarrow> utf8_strings j \<and> t = dump_text j"
  by (rule dump_default_iff)

text \<open>
  C33 (escape_accepts_utf8): the table-driven decoder used by \<open>dump_escaped\<close> accepts exactly the byte
  sequences of table 3-7 of the Unicode standard (no overlong forms, no surrogates, nothing above
  U+10FFFF, nothing truncated), and for these the result is the string with each byte escaped on its
  own.
\<close>

theorem escape_accepts_utf8:
  "dump_escaped strict s False = Inr t \<longleftrightarrow> utf8 s \<and> t = concat (map escape_byte s)"
  by (rule dump_escaped_spec)

text \<open>
  C16 (escape_stays_in_buffer): \<open>dump_escaped\<close> never writes past the 512 bytes of \<open>string_buffer\<close>. This
  holds at every byte of every string, with every error handler, with and without \<open>ensure_ascii\<close>,
  for the bytes of incomplete sequences, replacement characters and the NUL of \<open>snprintf\<close>.
\<close>

theorem escape_stays_in_buffer:
  assumes "escaping eh ascii s (c # cs) st"
  shows "bytes_written eh ascii c st \<le> 512"
  using assms by (intro bytes_written_bound escape_inv_preserved)

theorem escape_stays_in_buffer_witness:
  "bytes_written replace True (CHR 0xC3) escape_start \<le> 512"
proof -
  have "escaping replace True [CHR 0xC3, CHR 0x41] [CHR 0xC3, CHR 0x41] escape_start" by (rule escaping.start)
  then show ?thesis by (rule escape_stays_in_buffer)
qed

text \<open>
  C34 (dump_integer_is_decimal): the integer printer, which counts the digits and then fills its
  buffer from the back two digits at a time, writes the decimal numeral of every 64-bit number,
  signed or unsigned, including the least signed one.
\<close>

theorem dump_integer_is_decimal:
  "dump_integer number_buffer is_signed x = to_string_int (if is_signed then sint x else uint x)"
  by (rule dump_integer_correct) (simp add: number_buffer_def)

end
