(* ===== verification/Json_Lexer.thy ===== *)
theory Json_Lexer
  imports Json_Dump
begin

text \<open>
  The lexer of the JSON library, \<open>nlohmann/detail/input/lexer.hpp\<close>, with its state as a record and
  one definition per scanning function. The input adapter is the list of bytes still to be read;
  the end of the input is \<open>None\<close>. The program never sets a locale, so the decimal point is a full
  stop. Positions and the text of the current token are kept because error messages quote them.

  Every loop of the lexer reads a byte in each round or stops: the measure of the termination proofs
  is the number of bytes that can still be read.
\<close>

section \<open>Definitions\<close>

subsection \<open>State\<close>

datatype token_type =
    uninitialized
  | literal_true
  | literal_false
  | literal_null
  | value_string
  | value_unsigned
  | value_integer
  | value_float
  | begin_array
  | begin_object
  | end_array
  | end_object
  | name_separator
  | value_separator
  | parse_error
  | end_of_input
  | literal_or_value

definition token_type_name :: "token_type \<Rightarrow> string" where
  "token_type_name t = (case t of
       uninitialized \<Rightarrow> ''<uninitialized>''
     | literal_true \<Rightarrow> ''true literal''
     | literal_false \<Rightarrow> ''false literal''
     | literal_null \<Rightarrow> ''null literal''
     | value_string \<Rightarrow> ''string literal''
     | value_unsigned \<Rightarrow> ''number literal''
     | value_integer \<Rightarrow> ''number literal''
     | value_float \<Rightarrow> ''number literal''
     | begin_array \<Rightarrow> [SQ] @ ''['' @ [SQ]
     | begin_object \<Rightarrow> [SQ] @ ''{'' @ [SQ]
     | end_array \<Rightarrow> [SQ] @ '']'' @ [SQ]
     | end_object \<Rightarrow> [SQ] @ ''}'' @ [SQ]
     | name_separator \<Rightarrow> [SQ] @ '':'' @ [SQ]
     | value_separator \<Rightarrow> [SQ] @ '','' @ [SQ]
     | parse_error \<Rightarrow> ''<parse error>''
     | end_of_input \<Rightarrow> ''end of input''
     | literal_or_value \<Rightarrow> [SQ] @ ''['' @ [SQ] @ '', '' @ [SQ] @ ''{'' @ [SQ] @ '', or a literal'')"

record lexer =
  ia :: string
  ignore_comments :: bool
  current :: "char option"
  next_unget :: bool
  position :: position_t
  token_string :: string
  token_buffer :: string
  error_message :: string
  integer_value :: "64 word"
  unsigned_value :: "64 word"
  float_value :: double

definition new_lexer :: "string \<Rightarrow> bool \<Rightarrow> lexer" where
  "new_lexer input comments =
     \<lparr>ia = input, ignore_comments = comments, current = None, next_unget = False,
      position = \<lparr>chars_read_total = 0, chars_read_current_line = 0, lines_read = 0\<rparr>,
      token_string = [], token_buffer = [], error_message = [],
      integer_value = 0, unsigned_value = 0, float_value = 0\<rparr>"

subsection \<open>Input management\<close>

definition reset :: "lexer \<Rightarrow> lexer" where
  "reset L = L\<lparr>token_buffer := [],
     token_string := [case current L of None \<Rightarrow> CHR 0xFF | Some c \<Rightarrow> c]\<rparr>"

definition read_char :: "lexer \<Rightarrow> lexer" where
  \<comment> \<open>\<open>current = ia.get_character()\<close>\<close>
  "read_char L = (case ia L of [] \<Rightarrow> L\<lparr>current := None\<rparr> | c # cs \<Rightarrow> L\<lparr>current := Some c, ia := cs\<rparr>)"

definition get :: "lexer \<Rightarrow> lexer" where
  "get L =
     (let pos = position L;
          pos = pos\<lparr>chars_read_total := chars_read_total pos + 1,
                    chars_read_current_line := chars_read_current_line pos + 1\<rparr>;
          L = (if next_unget L then L\<lparr>next_unget := False\<rparr> else read_char L);
          L = (case current L of None \<Rightarrow> L | Some c \<Rightarrow> L\<lparr>token_string := token_string L @ [c]\<rparr>);
          pos = (if current L = Some LF then pos\<lparr>lines_read := lines_read pos + 1, chars_read_current_line := 0\<rparr>
                 else pos)
      in L\<lparr>position := pos\<rparr>)"

definition unget :: "lexer \<Rightarrow> lexer" where
  "unget L =
     (let pos = position L;
          pos = pos\<lparr>chars_read_total := chars_read_total pos - 1\<rparr>;
          pos = (if chars_read_current_line pos = 0
                 then (if lines_read pos > 0 then pos\<lparr>lines_read := lines_read pos - 1\<rparr> else pos)
                 else pos\<lparr>chars_read_current_line := chars_read_current_line pos - 1\<rparr>)
      in L\<lparr>next_unget := True, position := pos,
           token_string := (if current L \<noteq> None then butlast (token_string L) else token_string L)\<rparr>)"

definition add :: "char \<Rightarrow> lexer \<Rightarrow> lexer" where
  "add c L = L\<lparr>token_buffer := token_buffer L @ [c]\<rparr>"

definition add_current :: "lexer \<Rightarrow> lexer" where
  \<comment> \<open>\<open>add(current)\<close>, only called after a byte was read\<close>
  "add_current L = (case current L of None \<Rightarrow> add (CHR 0xFF) L | Some c \<Rightarrow> add c L)"

definition fail :: "string \<Rightarrow> lexer \<Rightarrow> token_type \<times> lexer" where
  \<comment> \<open>\<open>error_message = msg; return token_type::parse_error;\<close>\<close>
  "fail msg L = (parse_error, L\<lparr>error_message := msg\<rparr>)"

text \<open>The bytes a lexer can still deliver, and their number.\<close>

definition rest :: "lexer \<Rightarrow> string" where
  "rest L = (if next_unget L then (case current L of None \<Rightarrow> ia L | Some c \<Rightarrow> c # ia L) else ia L)"

definition avail :: "lexer \<Rightarrow> nat" where
  "avail L = length (rest L)"

lemma current_get:
  "current (get L) = (if next_unget L then current L else case ia L of [] \<Rightarrow> None | c # cs \<Rightarrow> Some c)"
  by (auto simp: get_def read_char_def Let_def split: option.splits list.splits)

lemma next_unget_get [simp]: "next_unget (get L) = (if next_unget L then False else next_unget L)"
  by (auto simp: get_def read_char_def Let_def split: option.splits list.splits)

lemma get_Some: "current (get L) = Some c \<Longrightarrow> rest L = c # rest (get L)"
  by (auto simp: get_def read_char_def Let_def rest_def split: option.splits list.splits if_splits)

lemma get_None: "current (get L) = None \<Longrightarrow> rest (get L) = rest L"
  by (auto simp: get_def read_char_def Let_def rest_def split: option.splits list.splits if_splits)

lemma avail_get_Some: "current (get L) = Some c \<Longrightarrow> avail (get L) < avail L"
  using get_Some [of L c] by (simp add: avail_def)

lemma avail_get: "avail (get L) \<le> avail L"
  by (cases "current (get L)") (auto simp: avail_def get_None dest: get_Some)

lemma rest_unget [simp]:
  "\<not> next_unget L \<Longrightarrow> rest (unget L) = (case current L of None \<Rightarrow> rest L | Some c \<Rightarrow> c # rest L)"
  by (auto simp: unget_def rest_def Let_def split: option.splits)

lemma lexer_frame [simp]:
  "rest (add c L) = rest L" "rest (add_current L) = rest L" "rest (reset L) = rest L"
  "rest (snd (fail msg L)) = rest L"
  "current (add c L) = current L" "current (add_current L) = current L" "current (reset L) = current L"
  "next_unget (add c L) = next_unget L" "next_unget (add_current L) = next_unget L"
  "next_unget (reset L) = next_unget L"
  by (simp_all add: add_def add_current_def reset_def fail_def rest_def split: option.splits)

lemma avail_frame [simp]:
  "avail (add c L) = avail L" "avail (add_current L) = avail L" "avail (reset L) = avail L"
  "avail (snd (fail msg L)) = avail L"
  by (simp_all add: avail_def)

subsection \<open>Strings\<close>

definition hex_digit_value :: "char \<Rightarrow> nat option" where
  \<comment> \<open>the three offsets of \<open>get_codepoint\<close>\<close>
  "hex_digit_value c =
     (if 48 \<le> byte c \<and> byte c \<le> 57 then Some (byte c - 0x30)
      else if 65 \<le> byte c \<and> byte c \<le> 70 then Some (byte c - 0x37)
      else if 97 \<le> byte c \<and> byte c \<le> 102 then Some (byte c - 0x57)
      else None)"

fun get_codepoint_loop :: "nat list \<Rightarrow> nat \<Rightarrow> lexer \<Rightarrow> nat option \<times> lexer" where
  \<comment> \<open>over the remaining factors; \<open>None\<close> is the result -1\<close>
  "get_codepoint_loop [] codepoint L = (Some codepoint, L)"
| "get_codepoint_loop (factor # factors) codepoint L =
     (let L = get L
      in case (case current L of None \<Rightarrow> None | Some c \<Rightarrow> hex_digit_value c) of
           None \<Rightarrow> (None, L)
         | Some v \<Rightarrow> get_codepoint_loop factors (codepoint + push_bit factor v) L)"

definition get_codepoint :: "lexer \<Rightarrow> nat option \<times> lexer" where
  "get_codepoint L = get_codepoint_loop [12, 8, 4, 0] 0 L"

fun next_bytes_loop :: "ranges \<Rightarrow> lexer \<Rightarrow> bool \<times> lexer" where
  "next_bytes_loop [] L = (True, L)"
| "next_bytes_loop ((lo, hi) # ranges) L =
     (let L = get L
      in case current L of
           None \<Rightarrow> (False, L\<lparr>error_message := ''invalid string: ill-formed UTF-8 byte''\<rparr>)
         | Some c \<Rightarrow>
             if lo \<le> byte c \<and> byte c \<le> hi then next_bytes_loop ranges (add_current L)
             else (False, L\<lparr>error_message := ''invalid string: ill-formed UTF-8 byte''\<rparr>))"

definition next_byte_in_range :: "ranges \<Rightarrow> lexer \<Rightarrow> bool \<times> lexer" where
  "next_byte_in_range ranges L = next_bytes_loop ranges (add_current L)"

definition control_names :: "string list" where
  "control_names =
     [''NUL'', ''SOH'', ''STX'', ''ETX'', ''EOT'', ''ENQ'', ''ACK'', ''BEL'', ''BS'', ''HT'', ''LF'', ''VT'',
      ''FF'', ''CR'', ''SO'', ''SI'', ''DLE'', ''DC1'', ''DC2'', ''DC3'', ''DC4'', ''NAK'', ''SYN'', ''ETB'',
      ''CAN'', ''EM'', ''SUB'', ''ESC'', ''FS'', ''GS'', ''RS'', ''US'']"

definition control_message :: "nat \<Rightarrow> string" where
  \<comment> \<open>the 32 messages for control characters\<close>
  "control_message n =
     (let code = ''00'' @ hex_bytes n
      in ''invalid string: control character U+'' @ code @ '' ('' @ (control_names ! n) @ '') must be escaped to '' @
         [BSL] @ ''u'' @ code @
         (if n = 8 then '' or '' @ [BSL] @ ''b''
          else if n = 9 then '' or '' @ [BSL] @ ''t''
          else if n = 10 then '' or '' @ [BSL] @ ''n''
          else if n = 12 then '' or '' @ [BSL] @ ''f''
          else if n = 13 then '' or '' @ [BSL] @ ''r''
          else []))"

definition utf8_encode :: "nat \<Rightarrow> string" where
  \<comment> \<open>translate a code point into bytes\<close>
  "utf8_encode codepoint =
     (if codepoint < 0x80 then [char_of codepoint]
      else if codepoint \<le> 0x7FF then
        [char_of (0xC0 OR drop_bit 6 codepoint), char_of (0x80 OR (codepoint AND 0x3F))]
      else if codepoint \<le> 0xFFFF then
        [char_of (0xE0 OR drop_bit 12 codepoint), char_of (0x80 OR (drop_bit 6 codepoint AND 0x3F)),
         char_of (0x80 OR (codepoint AND 0x3F))]
      else
        [char_of (0xF0 OR drop_bit 18 codepoint), char_of (0x80 OR (drop_bit 12 codepoint AND 0x3F)),
         char_of (0x80 OR (drop_bit 6 codepoint AND 0x3F)), char_of (0x80 OR (codepoint AND 0x3F))])"

definition four_hex_message :: string where
  "four_hex_message = ''invalid string: '' @ [SQ, BSL] @ ''u'' @ [SQ] @ '' must be followed by 4 hex digits''"

definition high_surrogate_message :: string where
  "high_surrogate_message =
     ''invalid string: surrogate U+D800..U+DBFF must be followed by U+DC00..U+DFFF''"

definition scan_low_surrogate :: "nat \<Rightarrow> lexer \<Rightarrow> bool \<times> lexer" where
  \<comment> \<open>the second half of a surrogate pair, after \<open>\u\<close>\<close>
  "scan_low_surrogate codepoint1 L =
     (case get_codepoint L of
        (None, L) \<Rightarrow> (False, L\<lparr>error_message := four_hex_message\<rparr>)
      | (Some codepoint2, L) \<Rightarrow>
          if 0xDC00 \<le> codepoint2 \<and> codepoint2 \<le> 0xDFFF
          then (True, L\<lparr>token_buffer := token_buffer L @
                  utf8_encode (push_bit 10 codepoint1 + codepoint2 - 0x35FDC00)\<rparr>)
          else (False, L\<lparr>error_message := high_surrogate_message\<rparr>))"

definition scan_surrogate :: "nat \<Rightarrow> lexer \<Rightarrow> bool \<times> lexer" where
  \<comment> \<open>after a high surrogate: \<open>get() == '\\' && get() == 'u'\<close>\<close>
  "scan_surrogate codepoint1 L =
     (let L = get L
      in if current L \<noteq> Some BSL then (False, L\<lparr>error_message := high_surrogate_message\<rparr>)
         else let L = get L
              in if current L \<noteq> Some (CHR ''u'') then (False, L\<lparr>error_message := high_surrogate_message\<rparr>)
                 else scan_low_surrogate codepoint1 L)"

definition scan_unicode_escape :: "lexer \<Rightarrow> bool \<times> lexer" where
  \<comment> \<open>\<open>case 'u'\<close> of the escapes\<close>
  "scan_unicode_escape L =
     (case get_codepoint L of
        (None, L) \<Rightarrow> (False, L\<lparr>error_message := four_hex_message\<rparr>)
      | (Some codepoint1, L) \<Rightarrow>
          if 0xD800 \<le> codepoint1 \<and> codepoint1 \<le> 0xDBFF then scan_surrogate codepoint1 L
          else if 0xDC00 \<le> codepoint1 \<and> codepoint1 \<le> 0xDFFF then
            (False, L\<lparr>error_message :=
               ''invalid string: surrogate U+DC00..U+DFFF must follow U+D800..U+DBFF''\<rparr>)
          else (True, L\<lparr>token_buffer := token_buffer L @ utf8_encode codepoint1\<rparr>))"

definition scan_escape :: "lexer \<Rightarrow> bool \<times> lexer" where
  \<comment> \<open>\<open>case '\\'\<close>: the inner switch\<close>
  "scan_escape L =
     (let L = get L
      in if current L = Some DQ then (True, add DQ L)
         else if current L = Some BSL then (True, add BSL L)
         else if current L = Some (CHR ''/'') then (True, add (CHR ''/'') L)
         else if current L = Some (CHR ''b'') then (True, add (CHR 0x08) L)
         else if current L = Some (CHR ''f'') then (True, add (CHR 0x0C) L)
         else if current L = Some (CHR ''n'') then (True, add LF L)
         else if current L = Some (CHR ''r'') then (True, add CR L)
         else if current L = Some (CHR ''t'') then (True, add TAB L)
         else if current L = Some (CHR ''u'') then scan_unicode_escape L
         else (False, L\<lparr>error_message := ''invalid string: forbidden character after backslash''\<rparr>))"

definition scan_utf8 :: "char \<Rightarrow> lexer \<Rightarrow> bool \<times> lexer" where
  \<comment> \<open>the cases for bytes from 0x20 on, by the leading byte\<close>
  "scan_utf8 c L =
     (let b = byte c
      in if b < 0x80 then (True, add_current L)
         else if 0xC2 \<le> b \<and> b \<le> 0xDF then next_byte_in_range [(0x80, 0xBF)] L
         else if b = 0xE0 then next_byte_in_range [(0xA0, 0xBF), (0x80, 0xBF)] L
         else if (0xE1 \<le> b \<and> b \<le> 0xEC) \<or> b = 0xEE \<or> b = 0xEF
              then next_byte_in_range [(0x80, 0xBF), (0x80, 0xBF)] L
         else if b = 0xED then next_byte_in_range [(0x80, 0x9F), (0x80, 0xBF)] L
         else if b = 0xF0 then next_byte_in_range [(0x90, 0xBF), (0x80, 0xBF), (0x80, 0xBF)] L
         else if 0xF1 \<le> b \<and> b \<le> 0xF3 then next_byte_in_range [(0x80, 0xBF), (0x80, 0xBF), (0x80, 0xBF)] L
         else if b = 0xF4 then next_byte_in_range [(0x80, 0x8F), (0x80, 0xBF), (0x80, 0xBF)] L
         else (False, L\<lparr>error_message := ''invalid string: ill-formed UTF-8 byte''\<rparr>))"

text \<open>None of the functions called in a round gives bytes back.\<close>

lemma avail_get_codepoint_loop: "get_codepoint_loop fs cp L = (r, L') \<Longrightarrow> avail L' \<le> avail L"
proof (induction fs cp L rule: get_codepoint_loop.induct)
  case (2 f fs cp L)
  then show ?case using avail_get [of L]
    by (auto simp: Let_def split: option.splits intro: order_trans)
qed simp

lemma avail_get_codepoint: "get_codepoint L = (r, L') \<Longrightarrow> avail L' \<le> avail L"
  unfolding get_codepoint_def by (rule avail_get_codepoint_loop)

lemma avail_update [simp]:
  "avail (L\<lparr>error_message := m\<rparr>) = avail L" "avail (L\<lparr>token_buffer := b\<rparr>) = avail L"
  "rest (L\<lparr>error_message := m\<rparr>) = rest L" "rest (L\<lparr>token_buffer := b\<rparr>) = rest L"
  "avail (L\<lparr>unsigned_value := u\<rparr>) = avail L" "avail (L\<lparr>integer_value := u\<rparr>) = avail L"
  "avail (L\<lparr>float_value := u\<rparr>) = avail L" "rest (L\<lparr>unsigned_value := u\<rparr>) = rest L"
  "rest (L\<lparr>integer_value := u\<rparr>) = rest L" "rest (L\<lparr>float_value := u\<rparr>) = rest L"
  by (simp_all add: avail_def rest_def split: option.splits)

lemma avail_next_bytes_loop: "next_bytes_loop rs L = (r, L') \<Longrightarrow> avail L' \<le> avail L"
proof (induction rs L rule: next_bytes_loop.induct)
  case (2 lo hi rs L)
  then show ?case using avail_get [of L]
    by (auto simp: Let_def split: option.splits if_splits intro: order_trans)
qed simp

lemma avail_next_byte_in_range: "next_byte_in_range rs L = (r, L') \<Longrightarrow> avail L' \<le> avail L"
  unfolding next_byte_in_range_def by (drule avail_next_bytes_loop) simp

lemma avail_scan_low_surrogate: "scan_low_surrogate cp L = (r, L') \<Longrightarrow> avail L' \<le> avail L"
  by (auto simp: scan_low_surrogate_def split: prod.splits option.splits if_splits dest: avail_get_codepoint)

lemma avail_scan_surrogate: "scan_surrogate cp L = (r, L') \<Longrightarrow> avail L' \<le> avail L"
  using avail_get [of L] avail_get [of "get L"]
  by (auto simp: scan_surrogate_def Let_def split: if_splits dest!: avail_scan_low_surrogate)

lemma avail_scan_unicode_escape: "scan_unicode_escape L = (r, L') \<Longrightarrow> avail L' \<le> avail L"
  by (auto simp: scan_unicode_escape_def split: prod.splits option.splits if_splits
      dest!: avail_get_codepoint avail_scan_surrogate)

lemma avail_scan_escape: "scan_escape L = (r, L') \<Longrightarrow> avail L' \<le> avail L"
  using avail_get [of L]
  by (auto simp: scan_escape_def Let_def split: if_splits dest: avail_scan_unicode_escape intro: order_trans)

lemma avail_scan_utf8: "scan_utf8 c L = (r, L') \<Longrightarrow> avail L' \<le> avail L"
  by (auto simp: scan_utf8_def Let_def split: if_splits dest: avail_next_byte_in_range)

function scan_string_loop :: "lexer \<Rightarrow> token_type \<times> lexer" where
  "scan_string_loop L =
     (let L = get L
      in case current L of
           None \<Rightarrow> fail ''invalid string: missing closing quote'' L
         | Some c \<Rightarrow>
             if c = DQ then (value_string, L)
             else if c = BSL then
               (case scan_escape L of
                  (False, L) \<Rightarrow> (parse_error, L)
                | (True, L) \<Rightarrow> scan_string_loop L)
             else if byte c < 0x20 then fail (control_message (byte c)) L
             else
               (case scan_utf8 c L of
                  (False, L) \<Rightarrow> (parse_error, L)
                | (True, L) \<Rightarrow> scan_string_loop L))"
  by pat_completeness auto

termination scan_string_loop
  by (relation "measure avail")
    (auto dest!: avail_get_Some avail_scan_escape [OF sym] avail_scan_utf8 [OF sym])

declare scan_string_loop.simps [simp del]

definition scan_string :: "lexer \<Rightarrow> token_type \<times> lexer" where
  "scan_string L = scan_string_loop (reset L)"

subsection \<open>Comments\<close>

function skip_line_comment :: "lexer \<Rightarrow> lexer" where
  "skip_line_comment L =
     (let L = get L
      in case current L of
           None \<Rightarrow> L
         | Some c \<Rightarrow> if c = LF \<or> c = CR \<or> c = NUL then L else skip_line_comment L)"
  by pat_completeness auto

termination skip_line_comment
  by (relation "measure avail") (auto dest!: avail_get_Some)

declare skip_line_comment.simps [simp del]

lemma avail_unget_get: "current (get L) = Some c \<Longrightarrow> avail (unget (get L)) = avail L"
  by (simp add: avail_def get_Some)

lemma avail_unget_le: "avail (unget (get L)) \<le> avail L"
  by (cases "current (get L)") (auto simp: avail_def get_None get_Some)

function skip_block_comment :: "lexer \<Rightarrow> bool \<times> lexer" where
  "skip_block_comment L =
     (let L = get L
      in case current L of
           None \<Rightarrow> (False, L\<lparr>error_message := ''invalid comment; missing closing '' @ [SQ] @ ''*/'' @ [SQ]\<rparr>)
         | Some c \<Rightarrow>
             if c = NUL then (False, L\<lparr>error_message := ''invalid comment; missing closing '' @ [SQ] @ ''*/'' @ [SQ]\<rparr>)
             else if c = CHR ''*'' then
               (let L = get L
                in if current L = Some (CHR ''/'') then (True, L) else skip_block_comment (unget L))
             else skip_block_comment L)"
  by pat_completeness auto

termination skip_block_comment
proof (relation "measure avail")
  fix L L1 L2 :: lexer and c
  assume "L1 = get L" "current L1 = Some c" "L2 = get L1"
  then have "avail (unget L2) < avail L"
    using avail_get_Some [of L c] avail_unget_le [of L1] by simp
  then show "(unget L2, L) \<in> measure avail" by simp
qed (auto dest!: avail_get_Some)

declare skip_block_comment.simps [simp del]

definition scan_comment :: "lexer \<Rightarrow> bool \<times> lexer" where
  "scan_comment L =
     (let L = get L
      in if current L = Some (CHR ''/'') then (True, skip_line_comment L)
         else if current L = Some (CHR ''*'') then skip_block_comment L
         else (False, L\<lparr>error_message := ''invalid comment; expecting '' @ [SQ] @ ''/'' @ [SQ] @ '' or '' @
                         [SQ] @ ''*'' @ [SQ] @ '' after '' @ [SQ] @ ''/'' @ [SQ]\<rparr>))"

subsection \<open>Numbers\<close>

text \<open>One definition per label of the state machine; the argument is \<open>number_type\<close>.\<close>

definition scan_number_done :: "token_type \<Rightarrow> lexer \<Rightarrow> token_type \<times> lexer" where
  "scan_number_done number_type L =
     (let L = unget L; t = token_buffer L
      in if number_type = value_unsigned \<and> dec_value t < 2 ^ 64
         then (value_unsigned, L\<lparr>unsigned_value := word_of_nat (dec_value t)\<rparr>)
         else if number_type = value_integer \<and> dec_value (tl t) \<le> 2 ^ 63
         then (value_integer, L\<lparr>integer_value := word_of_int (- int (dec_value (tl t)))\<rparr>)
         else (value_float, L\<lparr>float_value := strtod t\<rparr>))"

definition digit_read :: "lexer \<Rightarrow> bool" where
  "digit_read L = (case current L of None \<Rightarrow> False | Some c \<Rightarrow> isdigit c)"

definition exponent_read :: "lexer \<Rightarrow> bool" where
  "exponent_read L = (current L = Some (CHR ''e'') \<or> current L = Some (CHR ''E''))"

function scan_number_any2 :: "token_type \<Rightarrow> lexer \<Rightarrow> token_type \<times> lexer" where
  "scan_number_any2 number_type L =
     (let L = get L
      in if digit_read L then scan_number_any2 number_type (add_current L)
         else scan_number_done number_type L)"
  by pat_completeness auto

termination scan_number_any2
  by (relation "measure (\<lambda>(t, L). avail L)") (auto simp: digit_read_def split: option.splits dest!: avail_get_Some)

declare scan_number_any2.simps [simp del]

definition scan_number_sign :: "token_type \<Rightarrow> lexer \<Rightarrow> token_type \<times> lexer" where
  "scan_number_sign number_type L =
     (let L = get L
      in if digit_read L then scan_number_any2 number_type (add_current L)
         else fail ''invalid number; expected digit after exponent sign'' L)"

definition scan_number_exponent :: "lexer \<Rightarrow> token_type \<times> lexer" where
  "scan_number_exponent L =
     (let L = get L
      in if current L = Some (CHR ''+'') \<or> current L = Some (CHR ''-'')
         then scan_number_sign value_float (add_current L)
         else if digit_read L then scan_number_any2 value_float (add_current L)
         else fail (''invalid number; expected '' @ [SQ] @ ''+'' @ [SQ] @ '', '' @ [SQ] @ ''-'' @ [SQ] @
                    '', or digit after exponent'') L)"

function scan_number_decimal2 :: "token_type \<Rightarrow> lexer \<Rightarrow> token_type \<times> lexer" where
  "scan_number_decimal2 number_type L =
     (let L = get L
      in if digit_read L then scan_number_decimal2 number_type (add_current L)
         else if exponent_read L then scan_number_exponent (add_current L)
         else scan_number_done number_type L)"
  by pat_completeness auto

termination scan_number_decimal2
  by (relation "measure (\<lambda>(t, L). avail L)") (auto simp: digit_read_def split: option.splits dest!: avail_get_Some)

declare scan_number_decimal2.simps [simp del]

definition scan_number_decimal1 :: "lexer \<Rightarrow> token_type \<times> lexer" where
  "scan_number_decimal1 L =
     (let L = get L
      in if digit_read L then scan_number_decimal2 value_float (add_current L)
         else fail (''invalid number; expected digit after '' @ [SQ] @ ''.'' @ [SQ]) L)"

function scan_number_any1 :: "token_type \<Rightarrow> lexer \<Rightarrow> token_type \<times> lexer" where
  "scan_number_any1 number_type L =
     (let L = get L
      in if digit_read L then scan_number_any1 number_type (add_current L)
         else if current L = Some (CHR ''.'') then scan_number_decimal1 (add_current L)
         else if exponent_read L then scan_number_exponent (add_current L)
         else scan_number_done number_type L)"
  by pat_completeness auto

termination scan_number_any1
  by (relation "measure (\<lambda>(t, L). avail L)") (auto simp: digit_read_def split: option.splits dest!: avail_get_Some)

declare scan_number_any1.simps [simp del]

definition scan_number_zero :: "token_type \<Rightarrow> lexer \<Rightarrow> token_type \<times> lexer" where
  "scan_number_zero number_type L =
     (let L = get L
      in if current L = Some (CHR ''.'') then scan_number_decimal1 (add_current L)
         else if exponent_read L then scan_number_exponent (add_current L)
         else scan_number_done number_type L)"

definition scan_number_minus :: "lexer \<Rightarrow> token_type \<times> lexer" where
  "scan_number_minus L =
     (let L = get L
      in if current L = Some (CHR ''0'') then scan_number_zero value_integer (add_current L)
         else if digit_read L then scan_number_any1 value_integer (add_current L)
         else fail (''invalid number; expected digit after '' @ [SQ] @ ''-'' @ [SQ]) L)"

definition scan_number :: "lexer \<Rightarrow> token_type \<times> lexer" where
  "scan_number L =
     (let L = reset L
      in if current L = Some (CHR ''-'') then scan_number_minus (add_current L)
         else if current L = Some (CHR ''0'') then scan_number_zero value_unsigned (add_current L)
         else scan_number_any1 value_unsigned (add_current L))"

subsection \<open>The scanner\<close>

fun scan_literal :: "string \<Rightarrow> token_type \<Rightarrow> lexer \<Rightarrow> token_type \<times> lexer" where
  \<comment> \<open>the literal without its first character, which is the current one\<close>
  "scan_literal [] return_type L = (return_type, L)"
| "scan_literal (c # cs) return_type L =
     (let L = get L
      in if current L \<noteq> Some c then fail ''invalid literal'' L else scan_literal cs return_type L)"

definition skip_bom :: "lexer \<Rightarrow> bool \<times> lexer" where
  "skip_bom L =
     (let L = get L
      in if current L = Some (CHR 0xEF)
         then (let L = get L
               in if current L \<noteq> Some (CHR 0xBB) then (False, L)
                  else let L = get L in (current L = Some (CHR 0xBF), L))
         else (True, unget L))"

function skip_whitespace :: "lexer \<Rightarrow> lexer" where
  "skip_whitespace L =
     (let L = get L
      in if current L = Some SP \<or> current L = Some TAB \<or> current L = Some LF \<or> current L = Some CR
         then skip_whitespace L else L)"
  by pat_completeness auto

termination skip_whitespace
  by (relation "measure avail") (auto dest!: avail_get_Some)

declare skip_whitespace.simps [simp del]

lemma avail_skip_line_comment: "avail (skip_line_comment L) \<le> avail L"
proof (induction L rule: skip_line_comment.induct)
  case (1 L)
  then show ?case using avail_get [of L]
    by (subst skip_line_comment.simps) (auto simp: Let_def split: option.splits intro: order_trans)
qed

lemma avail_skip_block_comment: "avail (snd (skip_block_comment L)) \<le> avail L"
proof (induction L rule: skip_block_comment.induct)
  case (1 L)
  note le = avail_get [of L] avail_get [of "get L"] avail_unget_le [of "get L"]
  show ?case
  proof (cases "current (get L)")
    case None
    then show ?thesis using le(1) by (subst skip_block_comment.simps) (simp add: Let_def)
  next
    case (Some c)
    have star: "avail (snd (skip_block_comment (unget (get (get L))))) \<le> avail L"
      if "c = CHR ''*''" "current (get (get L)) \<noteq> Some (CHR ''/'')"
      using "1.IH"(1) [OF refl Some] that le by simp
    have plain: "avail (snd (skip_block_comment (get L))) \<le> avail L" if "c \<noteq> NUL" "c \<noteq> CHR ''*''"
      using "1.IH"(2) [OF refl Some] that le by simp
    show ?thesis
      using Some star plain le by (subst skip_block_comment.simps) (simp add: Let_def)
  qed
qed

lemma avail_scan_comment: "avail (snd (scan_comment L)) \<le> avail L"
  using avail_get [of L] avail_skip_line_comment [of "get L"] avail_skip_block_comment [of "get L"]
  by (auto simp: scan_comment_def Let_def)

lemma avail_skip_whitespace:
  "avail (skip_whitespace L) + (if current (skip_whitespace L) = None then 0 else 1) \<le> avail L"
proof (induction L rule: skip_whitespace.induct)
  case (1 L)
  show ?case
  proof (cases "current (get L) = Some SP \<or> current (get L) = Some TAB \<or> current (get L) = Some LF \<or> current (get L) = Some CR")
    case True
    then have "skip_whitespace L = skip_whitespace (get L)" by (subst skip_whitespace.simps) (simp add: Let_def)
    then show ?thesis using 1 True avail_get [of L] by (auto intro: order_trans)
  next
    case False
    then have "skip_whitespace L = get L" by (subst skip_whitespace.simps) (auto simp: Let_def)
    then show ?thesis using avail_get [of L] avail_get_Some [of L] by auto
  qed
qed

function skip_comments :: "lexer \<Rightarrow> bool \<times> lexer" where
  \<comment> \<open>\<open>while (ignore_comments && current == '/')\<close>\<close>
  "skip_comments L =
     (if ignore_comments L \<and> current L = Some (CHR ''/'')
      then (case scan_comment L of
          (False, L) \<Rightarrow> (False, L)
        | (True, L) \<Rightarrow> skip_comments (skip_whitespace L))
      else (True, L))"
  by pat_completeness auto

termination skip_comments
proof (relation "measure (\<lambda>L. 2 * avail L + (if current L = None then 0 else 1))")
  fix L L1 and b :: bool
  assume "ignore_comments L \<and> current L = Some (CHR ''/'')" "(b, L1) = scan_comment L"
  moreover have "avail L1 \<le> avail L" using avail_scan_comment [of L] \<open>(b, L1) = scan_comment L\<close> by (metis snd_conv)
  ultimately show "(skip_whitespace L1, L) \<in> measure (\<lambda>L. 2 * avail L + (if current L = None then 0 else 1))"
    using avail_skip_whitespace [of L1] by auto
qed auto

declare skip_comments.simps [simp del]

definition scan_token :: "lexer \<Rightarrow> token_type \<times> lexer" where
  \<comment> \<open>\<open>switch (current)\<close>\<close>
  "scan_token L =
     (case current L of
        None \<Rightarrow> (end_of_input, L)
      | Some c \<Rightarrow>
          if c = CHR ''['' then (begin_array, L)
          else if c = CHR '']'' then (end_array, L)
          else if c = CHR ''{'' then (begin_object, L)
          else if c = CHR ''}'' then (end_object, L)
          else if c = CHR '':'' then (name_separator, L)
          else if c = CHR '','' then (value_separator, L)
          else if c = CHR ''t'' then scan_literal ''rue'' literal_true L
          else if c = CHR ''f'' then scan_literal ''alse'' literal_false L
          else if c = CHR ''n'' then scan_literal ''ull'' literal_null L
          else if c = DQ then scan_string L
          else if c = CHR ''-'' \<or> isdigit c then scan_number L
          else if c = NUL then (end_of_input, L)
          else fail ''invalid literal'' L)"

definition scan_rest :: "lexer \<Rightarrow> token_type \<times> lexer" where
  \<comment> \<open>\<open>scan()\<close> after the byte order mark\<close>
  "scan_rest L =
     (case skip_comments (skip_whitespace L) of
        (False, L) \<Rightarrow> (parse_error, L)
      | (True, L) \<Rightarrow> scan_token L)"

definition scan :: "lexer \<Rightarrow> token_type \<times> lexer" where
  "scan L =
     (if chars_read_total (position L) = 0
      then (case skip_bom L of
          (False, L) \<Rightarrow> fail ''invalid BOM; must be 0xEF 0xBB 0xBF if given'' L
        | (True, L) \<Rightarrow> scan_rest L)
      else scan_rest L)"

definition get_token_string :: "lexer \<Rightarrow> string" where
  "get_token_string L =
     concat (map (\<lambda>c. if byte c \<le> 0x1F then ''<U+00'' @ hex_bytes (byte c) @ ''>'' else [c]) (token_string L))"

section \<open>Lemmas\<close>

subsection \<open>Every token but the last two kinds takes input\<close>

lemma avail_scan_string_loop: "avail (snd (scan_string_loop L)) \<le> avail L"
proof (induction L rule: scan_string_loop.induct)
  case (1 L)
  show ?case
  proof (cases "current (get L)")
    case None
    then show ?thesis using avail_get [of L] by (subst scan_string_loop.simps) (simp add: Let_def)
  next
    case (Some c)
    have esc: "avail (snd (scan_string_loop L1)) \<le> avail L" if "c = BSL" "scan_escape (get L) = (True, L1)" for L1
      using "1.IH"(1) [OF refl Some] that avail_scan_escape [OF that(2)] avail_get [of L]
      by (auto intro: order_trans)
    have utf: "avail (snd (scan_string_loop L1)) \<le> avail L"
      if "c \<noteq> DQ" "c \<noteq> BSL" "\<not> byte c < 0x20" "scan_utf8 c (get L) = (True, L1)" for L1
      using "1.IH"(2) [OF refl Some] that avail_scan_utf8 [OF that(4)] avail_get [of L]
      by (auto intro: order_trans)
    show ?thesis
      using avail_get [of L] Some avail_scan_escape [of "get L"] avail_scan_utf8 [of c "get L"] esc utf
      by (subst scan_string_loop.simps) (fastforce simp: Let_def split: prod.splits bool.splits)
  qed
qed

lemma avail_done: "avail (snd (scan_number_done t (get L))) \<le> avail L"
  using avail_unget_le [of L] by (simp add: scan_number_done_def Let_def)

lemma avail_any2: "avail (snd (scan_number_any2 t L)) \<le> avail L"
proof (induction t L rule: scan_number_any2.induct)
  case (1 t L)
  then show ?case using avail_get [of L] avail_done [of t L]
    by (subst scan_number_any2.simps) (auto simp: Let_def intro: order_trans)
qed

lemma avail_sign: "avail (snd (scan_number_sign t L)) \<le> avail L"
  using avail_get [of L] avail_any2 [of t "add_current (get L)"] by (simp add: scan_number_sign_def Let_def)

lemma avail_exponent: "avail (snd (scan_number_exponent L)) \<le> avail L"
  using avail_get [of L] avail_any2 [of _ "add_current (get L)"] avail_sign [of _ "add_current (get L)"]
  by (auto simp: scan_number_exponent_def Let_def intro: order_trans)

lemma avail_decimal2: "avail (snd (scan_number_decimal2 t L)) \<le> avail L"
proof (induction t L rule: scan_number_decimal2.induct)
  case (1 t L)
  then show ?case using avail_get [of L] avail_done [of t L] avail_exponent [of "add_current (get L)"]
    by (subst scan_number_decimal2.simps) (auto simp: Let_def intro: order_trans)
qed

lemma avail_decimal1: "avail (snd (scan_number_decimal1 L)) \<le> avail L"
  using avail_get [of L] avail_decimal2 [of _ "add_current (get L)"]
  by (auto simp: scan_number_decimal1_def Let_def intro: order_trans)

lemma avail_any1: "avail (snd (scan_number_any1 t L)) \<le> avail L"
proof (induction t L rule: scan_number_any1.induct)
  case (1 t L)
  then show ?case
    using avail_get [of L] avail_done [of t L] avail_exponent [of "add_current (get L)"]
      avail_decimal1 [of "add_current (get L)"]
    by (subst scan_number_any1.simps) (auto simp: Let_def intro: order_trans)
qed

lemma avail_zero: "avail (snd (scan_number_zero t L)) \<le> avail L"
  using avail_get [of L] avail_done [of t L] avail_exponent [of "add_current (get L)"]
    avail_decimal1 [of "add_current (get L)"]
  by (auto simp: scan_number_zero_def Let_def intro: order_trans)

lemma avail_minus: "avail (snd (scan_number_minus L)) \<le> avail L"
  using avail_get [of L] avail_zero [of _ "add_current (get L)"] avail_any1 [of _ "add_current (get L)"]
  by (auto simp: scan_number_minus_def Let_def intro: order_trans)

lemma avail_scan_number: "avail (snd (scan_number L)) \<le> avail L"
  using avail_minus [of "add_current (reset L)"] avail_zero [of _ "add_current (reset L)"]
    avail_any1 [of _ "add_current (reset L)"]
  by (auto simp: scan_number_def Let_def)

lemma avail_scan_literal: "avail (snd (scan_literal cs t L)) \<le> avail L"
proof (induction cs t L rule: scan_literal.induct)
  case (2 c cs t L)
  then show ?case using avail_get [of L] by (auto simp: Let_def intro: order_trans)
qed simp

lemma avail_scan_token: "avail (snd (scan_token L)) \<le> avail L"
  using avail_scan_number [of L] avail_scan_string_loop [of "reset L"]
  by (simp add: scan_token_def scan_string_def avail_scan_literal split: option.split del: scan_literal.simps)

lemma avail_skip_comments:
  "avail (snd (skip_comments L)) + (if current (snd (skip_comments L)) = None then 0 else 1)
   \<le> avail L + (if current L = None then 0 else 1)"
proof (induction L rule: skip_comments.induct)
  case (1 L)
  show ?case
  proof (cases "ignore_comments L \<and> current L = Some (CHR ''/'')")
    case True
    obtain b L1 where sc: "scan_comment L = (b, L1)" by fastforce
    have le: "avail L1 \<le> avail L" using avail_scan_comment [of L] sc by simp
    show ?thesis
    proof (cases b)
      case True
      then have "skip_comments L = skip_comments (skip_whitespace L1)"
        using \<open>ignore_comments L \<and> _\<close> sc by (subst skip_comments.simps) simp
      then show ?thesis
        using "1.IH" [OF \<open>ignore_comments L \<and> _\<close> sc [symmetric]] True avail_skip_whitespace [of L1] le by simp
    next
      case False
      then have "skip_comments L = (False, L1)"
        using \<open>ignore_comments L \<and> _\<close> sc by (subst skip_comments.simps) simp
      then show ?thesis using True le by simp
    qed
  next
    case False
    then show ?thesis by (subst (1 2) skip_comments.simps) auto
  qed
qed

lemma avail_scan_rest:
  assumes "scan_rest L = (t, L')"
  shows "avail L' \<le> avail L" "t \<noteq> end_of_input \<Longrightarrow> t \<noteq> parse_error \<Longrightarrow> avail L' < avail L"
proof -
  obtain b L1 where sc: "skip_comments (skip_whitespace L) = (b, L1)" by fastforce
  have le: "avail L1 + (if current L1 = None then 0 else 1) \<le> avail L"
    using avail_skip_comments [of "skip_whitespace L"] avail_skip_whitespace [of L] sc by simp
  have tok: "avail (snd (scan_token L1)) \<le> avail L1" by (rule avail_scan_token)
  show "avail L' \<le> avail L" using assms le tok sc by (auto simp: scan_rest_def split: bool.splits)
  have "t = end_of_input" if "current L1 = None" "b" using that assms sc by (simp add: scan_rest_def scan_token_def)
  then show "avail L' < avail L" if "t \<noteq> end_of_input" "t \<noteq> parse_error"
    using that assms le tok sc by (auto simp: scan_rest_def split: bool.splits if_splits)
qed

lemma avail_skip_bom: "avail (snd (skip_bom L)) \<le> avail L"
  using avail_get [of L] avail_get [of "get L"] avail_get [of "get (get L)"] avail_unget_le [of L]
  by (auto simp: skip_bom_def Let_def)

lemma avail_scan:
  assumes "scan L = (t, L')"
  shows "avail L' \<le> avail L" "t \<noteq> end_of_input \<Longrightarrow> t \<noteq> parse_error \<Longrightarrow> avail L' < avail L"
proof -
  have "avail L' \<le> avail L \<and> (t \<noteq> end_of_input \<longrightarrow> t \<noteq> parse_error \<longrightarrow> avail L' < avail L)"
  proof (cases "chars_read_total (position L) = 0")
    case False
    then show ?thesis using assms avail_scan_rest [of L] by (auto simp: scan_def)
  next
    case True
    obtain b L1 where sb: "skip_bom L = (b, L1)" by fastforce
    then have "avail L1 \<le> avail L" using avail_skip_bom [of L] by simp
    then show ?thesis
      using True sb assms avail_scan_rest [of L1] by (cases b) (auto simp: scan_def fail_def)
  qed
  then show "avail L' \<le> avail L" "t \<noteq> end_of_input \<Longrightarrow> t \<noteq> parse_error \<Longrightarrow> avail L' < avail L" by auto
qed

end
