(* ===== verification/Json_Parser.thy ===== *)
theory Json_Parser
  imports Json_Lexer
begin

text \<open>
  The parser of the JSON library: \<open>nlohmann/detail/input/parser.hpp\<close> and the SAX consumer that builds
  the value, \<open>json_sax_dom_parser\<close> of \<open>json_sax.hpp\<close>.

  The consumer keeps pointers into the value under construction: \<open>ref_stack\<close> to the open containers
  and \<open>object_element\<close> to the member being filled. A pointer is modelled as the path from the root
  to the element; elements are only appended, so a path stays valid exactly as the pointer does. A
  \<open>JSON_ASSERT\<close> on these pointers that fails gives \<open>Assertion_failed\<close>. The parser's loop is a
  recursive function over one step for the token switch and one for the state evaluation below it.

  The second part specifies what the loop computes by a grammar over the tokens, without a stack or
  pointers, and shows that the loop accepts exactly this grammar and builds the value it describes.
\<close>

section \<open>Definitions\<close>

subsection \<open>Pointers into a value\<close>

datatype path_step = Idx nat | Key string

type_synonym path = "path_step list"

fun deref :: "path \<Rightarrow> json \<Rightarrow> json option" where
  "deref [] j = Some j"
| "deref (Idx i # p) (JArray js) = (if i < length js then deref p (js ! i) else None)"
| "deref (Key k # p) (JObject m) = (case map_of m k of None \<Rightarrow> None | Some u \<Rightarrow> deref p u)"
| "deref _ _ = None"

fun store :: "path \<Rightarrow> json \<Rightarrow> json \<Rightarrow> json" where
  \<comment> \<open>\<open>*p = v\<close>\<close>
  "store [] v j = v"
| "store (Idx i # p) v (JArray js) = JArray (if i < length js then js[i := store p v (js ! i)] else js)"
| "store (Key k # p) v (JObject m) =
     JObject (case map_of m k of None \<Rightarrow> m | Some u \<Rightarrow> map_assign k (store p v u) m)"
| "store _ v j = j"

subsection \<open>Building the value\<close>

record dom_parser =
  root :: json
  ref_stack :: "path list"           \<comment> \<open>the head is \<open>back()\<close>\<close>
  object_element :: "path option"
  errored :: bool
  allow_exceptions :: bool

definition handle_value :: "json \<Rightarrow> dom_parser \<Rightarrow> json_exn + (path \<times> dom_parser)" where
  "handle_value v D =
     (case ref_stack D of
        [] \<Rightarrow> Inr ([], D\<lparr>root := v\<rparr>)
      | p # _ \<Rightarrow>
          (case deref p (root D) of
             Some (JArray js) \<Rightarrow> Inr (p @ [Idx (length js)], D\<lparr>root := store p (JArray (js @ [v])) (root D)\<rparr>)
           | Some (JObject m) \<Rightarrow>
               (case object_element D of
                  None \<Rightarrow> Inl Assertion_failed
                | Some q \<Rightarrow> Inr (q, D\<lparr>root := store q v (root D)\<rparr>))
           | _ \<Rightarrow> Inl Assertion_failed))"

definition sax_value :: "json \<Rightarrow> dom_parser \<Rightarrow> json_exn + dom_parser" where
  \<comment> \<open>\<open>null\<close>, \<open>boolean\<close>, \<open>number_integer\<close>, \<open>number_unsigned\<close>, \<open>number_float\<close> and \<open>string\<close>\<close>
  "sax_value v D = (case handle_value v D of Inl e \<Rightarrow> Inl e | Inr (_, D) \<Rightarrow> Inr D)"

definition sax_start_object :: "dom_parser \<Rightarrow> json_exn + dom_parser" where
  \<comment> \<open>the text parser passes \<open>unknown_size()\<close>, which skips the size check\<close>
  "sax_start_object D =
     (case handle_value (JObject []) D of
        Inl e \<Rightarrow> Inl e
      | Inr (p, D) \<Rightarrow> Inr (D\<lparr>ref_stack := p # ref_stack D\<rparr>))"

definition sax_key :: "string \<Rightarrow> dom_parser \<Rightarrow> json_exn + dom_parser" where
  "sax_key k D =
     (case ref_stack D of
        [] \<Rightarrow> Inl Assertion_failed
      | p # _ \<Rightarrow>
          (case deref p (root D) of
             Some (JObject m) \<Rightarrow>
               Inr (D\<lparr>root := store p (JObject (map_emplace k JNull m)) (root D),
                      object_element := Some (p @ [Key k])\<rparr>)
           | _ \<Rightarrow> Inl Assertion_failed))"

definition sax_end_object :: "dom_parser \<Rightarrow> json_exn + dom_parser" where
  "sax_end_object D =
     (case ref_stack D of
        [] \<Rightarrow> Inl Assertion_failed
      | p # ps \<Rightarrow>
          (case deref p (root D) of
             Some (JObject m) \<Rightarrow> Inr (D\<lparr>ref_stack := ps\<rparr>)
           | _ \<Rightarrow> Inl Assertion_failed))"

definition sax_start_array :: "dom_parser \<Rightarrow> json_exn + dom_parser" where
  "sax_start_array D =
     (case handle_value (JArray []) D of
        Inl e \<Rightarrow> Inl e
      | Inr (p, D) \<Rightarrow> Inr (D\<lparr>ref_stack := p # ref_stack D\<rparr>))"

definition sax_end_array :: "dom_parser \<Rightarrow> json_exn + dom_parser" where
  "sax_end_array D =
     (case ref_stack D of
        [] \<Rightarrow> Inl Assertion_failed
      | p # ps \<Rightarrow>
          (case deref p (root D) of
             Some (JArray js) \<Rightarrow> Inr (D\<lparr>ref_stack := ps\<rparr>)
           | _ \<Rightarrow> Inl Assertion_failed))"

definition sax_parse_error :: "json_exn \<Rightarrow> dom_parser \<Rightarrow> json_exn + (bool \<times> dom_parser)" where
  "sax_parse_error ex D = (if allow_exceptions D then Inl ex else Inr (False, D\<lparr>errored := True\<rparr>))"

subsection \<open>The parser\<close>

record json_parser =
  last_token :: token_type
  m_lexer :: lexer
  sax :: dom_parser

definition get_token :: "json_parser \<Rightarrow> json_parser" where
  "get_token P = (case scan (m_lexer P) of (t, L) \<Rightarrow> P\<lparr>last_token := t, m_lexer := L\<rparr>)"

definition exception_message :: "token_type \<Rightarrow> string \<Rightarrow> json_parser \<Rightarrow> string" where
  "exception_message expected context P =
     ''syntax error '' @
     (if context \<noteq> [] then ''while parsing '' @ context @ '' '' else []) @ ''- '' @
     (if last_token P = parse_error
      then error_message (m_lexer P) @ ''; last read: '' @ [SQ] @ get_token_string (m_lexer P) @ [SQ]
      else ''unexpected '' @ token_type_name (last_token P)) @
     (if expected \<noteq> uninitialized then ''; expected '' @ token_type_name expected else [])"

datatype flow = Return bool | Break | Continue "bool list" bool

definition parser_error :: "json_exn \<Rightarrow> json_parser \<Rightarrow> json_exn + (flow \<times> json_parser)" where
  \<comment> \<open>\<open>return sax->parse_error(..., ex)\<close>\<close>
  "parser_error ex P =
     (case sax_parse_error ex (sax P) of
        Inl e \<Rightarrow> Inl e
      | Inr (b, D) \<Rightarrow> Inr (Return b, P\<lparr>sax := D\<rparr>))"

definition syntax_error :: "token_type \<Rightarrow> string \<Rightarrow> json_parser \<Rightarrow> json_exn + (flow \<times> json_parser)" where
  \<comment> \<open>the error with \<open>parse_error::create(101, ..., exception_message(expected, context))\<close>\<close>
  "syntax_error expected context P =
     parser_error (parse_error_create 101 (position (m_lexer P)) (exception_message expected context P)) P"

definition with_sax ::
  "(dom_parser \<Rightarrow> json_exn + dom_parser) \<Rightarrow> json_parser \<Rightarrow>
   (json_parser \<Rightarrow> json_exn + (flow \<times> json_parser)) \<Rightarrow> json_exn + (flow \<times> json_parser)" where
  \<comment> \<open>an event of the consumer, all of which return true, and what follows it\<close>
  "with_sax ev P k = (case ev (sax P) of Inl e \<Rightarrow> Inl e | Inr D \<Rightarrow> k (P\<lparr>sax := D\<rparr>))"

definition parse_key ::
  "bool list \<Rightarrow> json_parser \<Rightarrow> json_exn + (flow \<times> json_parser)" where
  \<comment> \<open>the key, which is the last token, the colon, and the first token of the value\<close>
  "parse_key states P =
     (if last_token P \<noteq> value_string then syntax_error value_string ''object key'' P
      else with_sax (sax_key (token_buffer (m_lexer P))) P (\<lambda>P.
        let P = get_token P
        in if last_token P \<noteq> name_separator then syntax_error name_separator ''object separator'' P
           else Inr (Continue states False, get_token P)))"

definition value_step :: "bool list \<Rightarrow> json_parser \<Rightarrow> json_exn + (flow \<times> json_parser)" where
  \<comment> \<open>\<open>switch (last_token)\<close>; in \<open>states\<close> the head is \<open>back()\<close>\<close>
  "value_step states P =
     (case last_token P of
        begin_object \<Rightarrow>
          with_sax sax_start_object P (\<lambda>P.
            let P = get_token P
            in if last_token P = end_object then with_sax sax_end_object P (\<lambda>P. Inr (Break, P))
               else parse_key (False # states) P)
      | begin_array \<Rightarrow>
          with_sax sax_start_array P (\<lambda>P.
            let P = get_token P
            in if last_token P = end_array then with_sax sax_end_array P (\<lambda>P. Inr (Break, P))
               else Inr (Continue (True # states) False, P))
      | value_float \<Rightarrow>
          (let res = float_value (m_lexer P)
           in if \<not> isfinite res
              then parser_error (out_of_range_create 406 (''number overflow parsing '' @ [SQ] @
                     get_token_string (m_lexer P) @ [SQ])) P
              else with_sax (sax_value (JFloat res)) P (\<lambda>P. Inr (Break, P)))
      | literal_false \<Rightarrow> with_sax (sax_value (JBoolean False)) P (\<lambda>P. Inr (Break, P))
      | literal_null \<Rightarrow> with_sax (sax_value JNull) P (\<lambda>P. Inr (Break, P))
      | literal_true \<Rightarrow> with_sax (sax_value (JBoolean True)) P (\<lambda>P. Inr (Break, P))
      | value_integer \<Rightarrow> with_sax (sax_value (JInteger (integer_value (m_lexer P)))) P (\<lambda>P. Inr (Break, P))
      | value_string \<Rightarrow> with_sax (sax_value (JString (token_buffer (m_lexer P)))) P (\<lambda>P. Inr (Break, P))
      | value_unsigned \<Rightarrow> with_sax (sax_value (JUnsigned (unsigned_value (m_lexer P)))) P (\<lambda>P. Inr (Break, P))
      | parse_error \<Rightarrow> syntax_error uninitialized ''value'' P
      | end_of_input \<Rightarrow>
          (if chars_read_total (position (m_lexer P)) = 1
           then parser_error (parse_error_create 101 (position (m_lexer P))
             ''attempting to parse an empty input; check that your input string or stream contains the expected JSON'') P
           else syntax_error literal_or_value ''value'' P)
      | _ \<Rightarrow> syntax_error literal_or_value ''value'' P)"

fun state_step :: "bool list \<Rightarrow> json_parser \<Rightarrow> json_exn + (flow \<times> json_parser)" where
  \<comment> \<open>after a value\<close>
  "state_step [] P = Inr (Return True, P)"
| "state_step (True # states) P =
     (let P = get_token P
      in if last_token P = value_separator then Inr (Continue (True # states) False, get_token P)
         else if last_token P = end_array
              then with_sax sax_end_array P (\<lambda>P. Inr (Continue states True, P))
         else syntax_error end_array ''array'' P)"
| "state_step (False # states) P =
     (let P = get_token P
      in if last_token P = value_separator then parse_key (False # states) (get_token P)
         else if last_token P = end_object
              then with_sax sax_end_object P (\<lambda>P. Inr (Continue states True, P))
         else syntax_error end_object ''object'' P)"

definition parser_size :: "json_parser \<Rightarrow> nat" where
  "parser_size P = 2 * avail (m_lexer P) +
     (if last_token P = end_of_input \<or> last_token P = parse_error then 0 else 1)"

text \<open>Every token that is taken makes the parser smaller.\<close>

lemma parser_size_get_token:
  "parser_size (get_token P) \<le> 2 * avail (m_lexer P)"
  "last_token (get_token P) \<noteq> end_of_input \<Longrightarrow> last_token (get_token P) \<noteq> parse_error \<Longrightarrow>
     avail (m_lexer (get_token P)) < avail (m_lexer P)"
  "avail (m_lexer (get_token P)) \<le> avail (m_lexer P)"
proof -
  obtain t L where s: "scan (m_lexer P) = (t, L)" by fastforce
  note a = avail_scan [OF s]
  show "parser_size (get_token P) \<le> 2 * avail (m_lexer P)"
    using a s by (auto simp: get_token_def parser_size_def)
  show "avail (m_lexer (get_token P)) \<le> avail (m_lexer P)" using a(1) s by (simp add: get_token_def)
  show "last_token (get_token P) \<noteq> end_of_input \<Longrightarrow> last_token (get_token P) \<noteq> parse_error \<Longrightarrow>
     avail (m_lexer (get_token P)) < avail (m_lexer P)" using a(2) s by (simp add: get_token_def)
qed

lemma m_lexer_sax [simp]: "parser_size (P\<lparr>sax := D\<rparr>) = parser_size P"
  by (simp add: parser_size_def)

lemma parser_size_ge: "2 * avail (m_lexer P) \<le> parser_size P"
  by (simp add: parser_size_def)

lemma with_sax_Inr:
  "with_sax ev P k = Inr r \<longleftrightarrow> (\<exists>D. ev (sax P) = Inr D \<and> k (P\<lparr>sax := D\<rparr>) = Inr r)"
  by (auto simp: with_sax_def split: sum.splits)

lemma parser_error_flow:
  "parser_error ex P \<noteq> Inr (Break, P')" "parser_error ex P \<noteq> Inr (Continue st sk, P')"
  "syntax_error t c P \<noteq> Inr (Break, P')" "syntax_error t c P \<noteq> Inr (Continue st sk, P')"
  by (auto simp: syntax_error_def parser_error_def split: sum.splits)

lemma parser_size_parse_key:
  assumes "parse_key st P = Inr (f, P')" and f: "f = Break \<or> f = Continue st' sk"
  shows "parser_size P' < 2 * avail (m_lexer P)"
proof -
  obtain D where n: "last_token (get_token (P\<lparr>sax := D\<rparr>)) = name_separator"
    and P': "P' = get_token (get_token (P\<lparr>sax := D\<rparr>))"
    using assms by (auto simp: parse_key_def parser_error_flow with_sax_Inr Let_def split: if_splits)
  have "parser_size P' \<le> 2 * avail (m_lexer (get_token (P\<lparr>sax := D\<rparr>)))"
    unfolding P' by (rule parser_size_get_token(1))
  also have "\<dots> < 2 * avail (m_lexer P)"
    using parser_size_get_token(2) [of "P\<lparr>sax := D\<rparr>"] n by simp
  finally show ?thesis .
qed

lemma parser_size_state_step:
  assumes "state_step st P = Inr (Continue st' sk, P')"
  shows "parser_size P' < parser_size P"
proof -
  have "parser_size P' < 2 * avail (m_lexer P)"
  proof (cases st)
    case Nil
    then show ?thesis using assms by simp
  next
    case (Cons b ss)
    have closed: "parser_size (get_token P\<lparr>sax := D\<rparr>) < 2 * avail (m_lexer P)"
      if "last_token (get_token P) = end_array \<or> last_token (get_token P) = end_object" for D
      using parser_size_get_token(2) [of P] that by (auto simp: parser_size_def)
    have comma: "avail (m_lexer (get_token P)) < avail (m_lexer P)" if "last_token (get_token P) = value_separator"
      using parser_size_get_token(2) [of P] that by auto
    have next_value: "parser_size (get_token (get_token P)) < 2 * avail (m_lexer P)"
      if "last_token (get_token P) = value_separator"
      using comma [OF that] parser_size_get_token(1) [of "get_token P"] by simp
    have next_key: "parser_size P' < 2 * avail (m_lexer P)"
      if "last_token (get_token P) = value_separator"
        "parse_key (False # ss) (get_token (get_token P)) = Inr (Continue st' sk, P')"
      using parser_size_parse_key [OF that(2)] comma [OF that(1)] parser_size_get_token(3) [of "get_token P"]
      by (auto intro: less_trans)
    show ?thesis using assms Cons closed next_value next_key
      by (cases b) (auto simp: Let_def parser_error_flow with_sax_Inr split: if_splits)
  qed
  then show ?thesis using parser_size_ge [of P] by simp
qed

lemma parser_size_value_step:
  assumes "value_step st P = Inr (f, P')"
  shows "f = Continue st' sk \<Longrightarrow> parser_size P' < parser_size P" "f = Break \<Longrightarrow> parser_size P' \<le> parser_size P"
proof -
  have key: "parser_size P' < parser_size P" if "parse_key st1 (get_token (P\<lparr>sax := D\<rparr>)) = Inr (f, P')" "f = Break \<or> f = Continue st' sk" for st1 D
    using parser_size_parse_key [OF that] parser_size_get_token(3) [of "P\<lparr>sax := D\<rparr>"] parser_size_ge [of P] by simp
  have tok: "parser_size (get_token (P\<lparr>sax := D\<rparr>)) \<le> parser_size P" for D
    using parser_size_get_token(1) [of "P\<lparr>sax := D\<rparr>"] parser_size_ge [of P] by simp
  have tok': "parser_size (get_token (P\<lparr>sax := D\<rparr>)) < parser_size P" if "last_token P = begin_array" for D
    using parser_size_get_token(1) [of "P\<lparr>sax := D\<rparr>"] that by (simp add: parser_size_def)
  show "f = Continue st' sk \<Longrightarrow> parser_size P' < parser_size P"
    using assms key tok'
    by (auto simp: value_step_def parser_error_flow with_sax_Inr Let_def split: token_type.splits if_splits)
  show "f = Break \<Longrightarrow> parser_size P' \<le> parser_size P"
    using assms key tok
    by (auto simp: value_step_def parser_error_flow with_sax_Inr Let_def less_imp_le split: token_type.splits if_splits)
qed

function sax_parse_internal :: "bool \<Rightarrow> bool list \<Rightarrow> json_parser \<Rightarrow> json_exn + (bool \<times> json_parser)" where
  \<comment> \<open>the arguments are \<open>skip_to_state_evaluation\<close> and \<open>states\<close>, at first false and empty\<close>
  "sax_parse_internal skip states P =
     (case (if skip then Inr (Break, P) else value_step states P) of
        Inl e \<Rightarrow> Inl e
      | Inr (Return b, P) \<Rightarrow> Inr (b, P)
      | Inr (Continue states skip, P) \<Rightarrow> sax_parse_internal skip states P
      | Inr (Break, P) \<Rightarrow>
          (case state_step states P of
             Inl e \<Rightarrow> Inl e
           | Inr (Return b, P) \<Rightarrow> Inr (b, P)
           | Inr (Break, P) \<Rightarrow> Inr (True, P)
           | Inr (Continue states skip, P) \<Rightarrow> sax_parse_internal skip states P))"
  by pat_completeness auto

termination sax_parse_internal
  by (relation "measure (\<lambda>(skip, st, P). parser_size P)")
    (auto split: if_splits dest!: parser_size_state_step
      dest: parser_size_value_step(1) [OF _ refl] parser_size_value_step(2) [OF _ refl])

declare sax_parse_internal.simps [simp del]

definition new_parser :: "string \<Rightarrow> bool \<Rightarrow> bool \<Rightarrow> json_parser" where
  \<comment> \<open>without a callback; the constructor reads the first token\<close>
  "new_parser input exceptions comments =
     get_token \<lparr>last_token = uninitialized, m_lexer = new_lexer input comments,
       sax = \<lparr>root = JNull, ref_stack = [], object_element = None, errored = False,
              allow_exceptions = exceptions\<rparr>\<rparr>"

definition parser_parse :: "bool \<Rightarrow> json_parser \<Rightarrow> json_exn + json" where
  "parser_parse st P =
     (case sax_parse_internal False [] P of
        Inl e \<Rightarrow> Inl e
      | Inr (_, P) \<Rightarrow>
          (let P = (if st then get_token P else P);
               r = (if st \<and> last_token P \<noteq> end_of_input
                    then syntax_error end_of_input ''value'' P else Inr (Break, P))
           in case r of
                Inl e \<Rightarrow> Inl e
              | Inr (_, P) \<Rightarrow> Inr (if errored (sax P) then JDiscarded else root (sax P))))"

definition json_parse_with :: "bool \<Rightarrow> bool \<Rightarrow> string \<Rightarrow> json_exn + json" where
  \<comment> \<open>\<open>json::parse(i, nullptr, allow_exceptions, ignore_comments)\<close>\<close>
  "json_parse_with exceptions comments i = parser_parse True (new_parser i exceptions comments)"

definition json_parse :: "string \<Rightarrow> json_exn + json" where
  \<comment> \<open>\<open>json::parse(i)\<close> with the default arguments\<close>
  "json_parse i = json_parse_with True False i"

section \<open>Specification: the grammar over tokens\<close>

inductive value_at :: "token_type \<Rightarrow> lexer \<Rightarrow> json \<Rightarrow> lexer \<Rightarrow> bool"
  and elements_at :: "json list \<Rightarrow> lexer \<Rightarrow> json list \<Rightarrow> lexer \<Rightarrow> bool"
  and members_at :: "(string \<times> json) list \<Rightarrow> lexer \<Rightarrow> (string \<times> json) list \<Rightarrow> lexer \<Rightarrow> bool"
  and member_at :: "token_type \<Rightarrow> lexer \<Rightarrow> string \<Rightarrow> json \<Rightarrow> lexer \<Rightarrow> bool" where
  \<comment> \<open>the value that starts with the given token; the elements after those already read; likewise the
    members, of which the last with the same key counts; one member\<close>
  null_at: "value_at literal_null L JNull L"
| true_at: "value_at literal_true L (JBoolean True) L"
| false_at: "value_at literal_false L (JBoolean False) L"
| string_at: "value_at value_string L (JString (token_buffer L)) L"
| unsigned_at: "value_at value_unsigned L (JUnsigned (unsigned_value L)) L"
| integer_at: "value_at value_integer L (JInteger (integer_value L)) L"
| float_at: "isfinite (float_value L) \<Longrightarrow> value_at value_float L (JFloat (float_value L)) L"
| empty_array_at: "scan L = (end_array, L') \<Longrightarrow> value_at begin_array L (JArray []) L'"
| array_at: "scan L = (t, L1) \<Longrightarrow> value_at t L1 v L2 \<Longrightarrow> elements_at [v] L2 js L' \<Longrightarrow>
    value_at begin_array L (JArray js) L'"
| empty_object_at: "scan L = (end_object, L') \<Longrightarrow> value_at begin_object L (JObject []) L'"
| object_at: "scan L = (t, L1) \<Longrightarrow> member_at t L1 k v L2 \<Longrightarrow> members_at [(k, v)] L2 m L' \<Longrightarrow>
    value_at begin_object L (JObject m) L'"
| end_elements_at: "scan L = (end_array, L') \<Longrightarrow> elements_at js L js L'"
| next_element_at: "scan L = (value_separator, L1) \<Longrightarrow> scan L1 = (t, L2) \<Longrightarrow> value_at t L2 v L3 \<Longrightarrow>
    elements_at (js @ [v]) L3 js' L' \<Longrightarrow> elements_at js L js' L'"
| end_members_at: "scan L = (end_object, L') \<Longrightarrow> members_at m L m L'"
| next_member_at: "scan L = (value_separator, L1) \<Longrightarrow> scan L1 = (t, L2) \<Longrightarrow> member_at t L2 k v L3 \<Longrightarrow>
    members_at (map_assign k v m) L3 m' L' \<Longrightarrow> members_at m L m' L'"
| member_at: "scan L = (name_separator, L1) \<Longrightarrow> scan L1 = (t, L2) \<Longrightarrow> value_at t L2 v L' \<Longrightarrow>
    member_at value_string L (token_buffer L) v L'"

definition document :: "bool \<Rightarrow> string \<Rightarrow> json \<Rightarrow> bool" where
  \<comment> \<open>the text is one value and nothing else\<close>
  "document comments s j \<longleftrightarrow>
     (\<exists>t L L'. scan (new_lexer s comments) = (t, L) \<and> value_at t L j L' \<and> fst (scan L') = end_of_input)"

section \<open>Lemmas\<close>

subsection \<open>Contexts: where in the value the parser is\<close>

datatype ctx = In_array "json list" | In_object "(string \<times> json) list" string

fun is_in_array :: "ctx \<Rightarrow> bool" where
  "is_in_array (In_array js) \<longleftrightarrow> True"
| "is_in_array (In_object m k) \<longleftrightarrow> False"

fun ctx_ok :: "ctx \<Rightarrow> bool" where
  "ctx_ok (In_array js) \<longleftrightarrow> True"
| "ctx_ok (In_object m k) \<longleftrightarrow> sorted_keys m"

fun plug :: "ctx list \<Rightarrow> json \<Rightarrow> json" where
  "plug [] v = v"
| "plug (In_array js # C) v = plug C (JArray (js @ [v]))"
| "plug (In_object m k # C) v = plug C (JObject (map_assign k v m))"

fun path_of :: "ctx list \<Rightarrow> path" where
  "path_of [] = []"
| "path_of (In_array js # C) = path_of C @ [Idx (length js)]"
| "path_of (In_object m k # C) = path_of C @ [Key k]"

fun refs :: "ctx list \<Rightarrow> path list" where
  "refs [] = []"
| "refs (c # C) = path_of C # refs C"

fun awaits :: "ctx list \<Rightarrow> dom_parser \<Rightarrow> bool" where
  \<comment> \<open>a value is to be read into the innermost context\<close>
  "awaits [] D \<longleftrightarrow> ref_stack D = []"
| "awaits (In_array js # C) D \<longleftrightarrow> ref_stack D = path_of C # refs C \<and> root D = plug C (JArray js)"
| "awaits (In_object m k # C) D \<longleftrightarrow> ref_stack D = path_of C # refs C \<and>
     root D = plug C (JObject (map_emplace k JNull m)) \<and> object_element D = Some (path_of C @ [Key k])"

definition holds :: "ctx list \<Rightarrow> json \<Rightarrow> dom_parser \<Rightarrow> bool" where
  \<comment> \<open>the value has been read\<close>
  "holds C v D \<longleftrightarrow> ref_stack D = refs C \<and> root D = plug C v"

lemma deref_append: "deref (p @ q) j = (case deref p j of None \<Rightarrow> None | Some u \<Rightarrow> deref q u)"
  by (induction p j rule: deref.induct) (auto split: option.splits)

lemma store_append: "deref p j = Some u \<Longrightarrow> store (p @ q) v j = store p (store q v u) j"
  by (induction p j rule: deref.induct) (auto split: option.splits if_splits)

lemma map_assign_twice [simp]: "map_assign k v (map_assign k u m) = map_assign k v m"
  by (induction k u m rule: map_assign.induct) auto

lemma deref_plug: "list_all ctx_ok C \<Longrightarrow> deref (path_of C) (plug C v) = Some v"
  by (induction C v rule: plug.induct) (auto simp: deref_append)

lemma store_plug: "list_all ctx_ok C \<Longrightarrow> store (path_of C) w (plug C v) = plug C w"
  by (induction C v arbitrary: w rule: plug.induct) (auto simp: deref_plug store_append)

lemma handle_value_awaits:
  assumes "list_all ctx_ok C" "awaits C D"
  shows "handle_value v D = Inr (path_of C, D\<lparr>root := plug C v\<rparr>)"
  using assms
  by (cases C rule: path_of.cases)
    (auto simp: handle_value_def deref_plug store_plug store_append)

lemma sax_value_awaits:
  assumes "list_all ctx_ok C" "awaits C D"
  obtains D' where "sax_value v D = Inr D'" "holds C v D'" "allow_exceptions D' = allow_exceptions D"
    "errored D' = errored D"
proof -
  have "ref_stack D = refs C" using assms(2) by (cases C rule: path_of.cases) auto
  then show ?thesis
    using that [of "D\<lparr>root := plug C v\<rparr>"] handle_value_awaits [OF assms] by (simp add: sax_value_def holds_def)
qed

definition opened :: "ctx list \<Rightarrow> json \<Rightarrow> dom_parser \<Rightarrow> bool" where
  \<comment> \<open>the container under construction is the one on top of the stack\<close>
  "opened C v D \<longleftrightarrow> ref_stack D = path_of C # refs C \<and> root D = plug C v"

lemma awaits_array [simp]: "awaits (In_array js # C) D \<longleftrightarrow> opened C (JArray js) D"
  by (simp add: opened_def)

declare awaits.simps(2) [simp del]

lemma holds_array: "holds (In_array js # C) v D \<longleftrightarrow> opened C (JArray (js @ [v])) D"
  by (simp add: opened_def holds_def)

lemma holds_object: "holds (In_object m k # C) v D \<longleftrightarrow> opened C (JObject (map_assign k v m)) D"
  by (simp add: opened_def holds_def)

definition same_mode :: "dom_parser \<Rightarrow> dom_parser \<Rightarrow> bool" where
  "same_mode D D' \<longleftrightarrow> allow_exceptions D' = allow_exceptions D \<and> errored D' = errored D"

lemma same_mode_refl [simp]: "same_mode D D"
  by (simp add: same_mode_def)

lemma same_mode_trans [trans]: "same_mode D D' \<Longrightarrow> same_mode D' D'' \<Longrightarrow> same_mode D D''"
  by (simp add: same_mode_def)

lemma ref_stack_awaits: "awaits C D \<Longrightarrow> ref_stack D = refs C"
  by (cases C rule: path_of.cases) (auto simp: opened_def)

lemma sax_start:
  assumes "list_all ctx_ok C" "awaits C D"
  shows "\<exists>D'. sax_start_array D = Inr D' \<and> opened C (JArray []) D' \<and> same_mode D D'"
    "\<exists>D'. sax_start_object D = Inr D' \<and> opened C (JObject []) D' \<and> same_mode D D'"
    "\<exists>D'. sax_value v D = Inr D' \<and> holds C v D' \<and> same_mode D D'"
  using handle_value_awaits [OF assms] ref_stack_awaits [OF assms(2)]
  by (simp_all add: sax_start_array_def sax_start_object_def sax_value_def opened_def holds_def same_mode_def)

lemma sax_end:
  assumes "list_all ctx_ok C"
  shows "opened C (JArray js) D \<Longrightarrow> \<exists>D'. sax_end_array D = Inr D' \<and> holds C (JArray js) D' \<and> same_mode D D'"
    "opened C (JObject m) D \<Longrightarrow> \<exists>D'. sax_end_object D = Inr D' \<and> holds C (JObject m) D' \<and> same_mode D D'"
    "opened C (JObject m) D \<Longrightarrow> \<exists>D'. sax_key k D = Inr D' \<and> awaits (In_object m k # C) D' \<and> same_mode D D'"
  using deref_plug [OF assms] store_plug [OF assms]
  by (auto simp: sax_end_array_def sax_end_object_def sax_key_def opened_def holds_def same_mode_def)

subsection \<open>The machine without pointers\<close>

datatype config = Await "ctx list" token_type lexer | Have "ctx list" json lexer

definition next_key :: "(string \<times> json) list \<Rightarrow> ctx list \<Rightarrow> token_type \<Rightarrow> lexer \<Rightarrow> config option" where
  "next_key m C t L =
     (if t \<noteq> value_string then None
      else let (t1, L1) = scan L
           in if t1 \<noteq> name_separator then None
              else let (t2, L2) = scan L1 in Some (Await (In_object m (token_buffer L) # C) t2 L2))"

fun next_config :: "config \<Rightarrow> config option" where
  "next_config (Await C literal_null L) = Some (Have C JNull L)"
| "next_config (Await C literal_true L) = Some (Have C (JBoolean True) L)"
| "next_config (Await C literal_false L) = Some (Have C (JBoolean False) L)"
| "next_config (Await C value_string L) = Some (Have C (JString (token_buffer L)) L)"
| "next_config (Await C value_unsigned L) = Some (Have C (JUnsigned (unsigned_value L)) L)"
| "next_config (Await C value_integer L) = Some (Have C (JInteger (integer_value L)) L)"
| "next_config (Await C value_float L) =
     (if isfinite (float_value L) then Some (Have C (JFloat (float_value L)) L) else None)"
| "next_config (Await C begin_array L) =
     (let (t, L1) = scan L
      in if t = end_array then Some (Have C (JArray []) L1) else Some (Await (In_array [] # C) t L1))"
| "next_config (Await C begin_object L) =
     (let (t, L1) = scan L
      in if t = end_object then Some (Have C (JObject []) L1) else next_key [] C t L1)"
| "next_config (Await C _ L) = None"
| "next_config (Have [] v L) = None"
| "next_config (Have (In_array js # C) v L) =
     (let (t, L1) = scan L
      in if t = value_separator then let (t2, L2) = scan L1 in Some (Await (In_array (js @ [v]) # C) t2 L2)
         else if t = end_array then Some (Have C (JArray (js @ [v])) L1) else None)"
| "next_config (Have (In_object m k # C) v L) =
     (let (t, L1) = scan L
      in if t = value_separator then let (t2, L2) = scan L1 in next_key (map_assign k v m) C t2 L2
         else if t = end_object then Some (Have C (JObject (map_assign k v m)) L1) else None)"

abbreviation config_step :: "config \<Rightarrow> config \<Rightarrow> bool" where
  "config_step c c' \<equiv> next_config c = Some c'"

fun simulates :: "config \<Rightarrow> bool \<Rightarrow> bool list \<Rightarrow> json_parser \<Rightarrow> bool" where
  "simulates (Await C t L) skip st P \<longleftrightarrow> \<not> skip \<and> st = map is_in_array C \<and> last_token P = t \<and> m_lexer P = L \<and>
     list_all ctx_ok C \<and> awaits C (sax P)"
| "simulates (Have C v L) skip st P \<longleftrightarrow> skip \<and> st = map is_in_array C \<and> m_lexer P = L \<and>
     list_all ctx_ok C \<and> holds C v (sax P)"

fun goes_on :: "config option \<Rightarrow> dom_parser \<Rightarrow> json_exn + (flow \<times> json_parser) \<Rightarrow> bool" where
  \<comment> \<open>a step of the loop does what the machine does; where the machine is stuck, an error is reported\<close>
  "goes_on None D r \<longleftrightarrow>
     (if allow_exceptions D then \<exists>e. r = Inl e \<and> e \<noteq> Assertion_failed
      else \<exists>P. r = Inr (Return False, P) \<and> errored (sax P) \<and> \<not> allow_exceptions (sax P))"
| "goes_on (Some (Await C t L)) D r \<longleftrightarrow>
     (\<exists>st P. r = Inr (Continue st False, P) \<and> simulates (Await C t L) False st P \<and> same_mode D (sax P))"
| "goes_on (Some (Have C v L)) D r \<longleftrightarrow>
     (\<exists>P. (r = Inr (Break, P) \<or> r = Inr (Continue (map is_in_array C) True, P)) \<and>
        simulates (Have C v L) True (map is_in_array C) P \<and> same_mode D (sax P))"

lemma goes_on_mode: "same_mode D D' \<Longrightarrow> goes_on c D' r \<Longrightarrow> goes_on c D r"
  by (induction c D r rule: goes_on.induct) (auto simp: same_mode_def)

lemma created_not_assertion [simp]:
  "parse_error_create i p w \<noteq> Assertion_failed" "out_of_range_create i w \<noteq> Assertion_failed"
  by (simp_all add: parse_error_create_def out_of_range_create_def)

lemma goes_on_error [simp]:
  "ex \<noteq> Assertion_failed \<Longrightarrow> goes_on None (sax P) (parser_error ex P)"
  "goes_on None (sax P) (syntax_error t c P)"
  by (simp_all add: syntax_error_def parser_error_def sax_parse_error_def)

lemma get_token_sel [simp]:
  "last_token (get_token P) = fst (scan (m_lexer P))" "m_lexer (get_token P) = snd (scan (m_lexer P))"
  "sax (get_token P) = sax P"
  by (simp_all add: get_token_def split: prod.splits)

lemma goes_on_error_mode:
  "same_mode D (sax P) \<Longrightarrow> goes_on None D (syntax_error t c P)"
  by (rule goes_on_mode [OF _ goes_on_error(2)])

lemma parse_key_goes_on:
  assumes "list_all ctx_ok C" "sorted_keys m" "opened C (JObject m) (sax P)" "st = False # map is_in_array C"
  shows "goes_on (next_key m C (last_token P) (m_lexer P)) (sax P) (parse_key st P)"
proof -
  define k where "k = token_buffer (m_lexer P)"
  obtain D' where D': "sax_key k (sax P) = Inr D'" "awaits (In_object m k # C) D'" "same_mode (sax P) D'"
    using sax_end(3) [OF assms(1,3)] by blast
  obtain t1 L1 where s1: "scan (m_lexer P) = (t1, L1)" by fastforce
  obtain t2 L2 where s2: "scan L1 = (t2, L2)" by fastforce
  show ?thesis
    using assms D' s1 s2
    by (auto simp: parse_key_def next_key_def with_sax_def Let_def simp del: awaits.simps goes_on.simps(1)
        intro!: goes_on_error_mode simp flip: k_def)
qed

lemma value_step_goes_on:
  assumes "simulates (Await C t L) False st P"
  shows "goes_on (next_config (Await C t L)) (sax P) (value_step st P)"
proof -
  have st: "st = map is_in_array C" and t: "last_token P = t" and L: "m_lexer P = L"
    and ok: "list_all ctx_ok C" and aw: "awaits C (sax P)"
    using assms by auto
  obtain t1 L1 where s1: "scan L = (t1, L1)" by fastforce
  have scalar: "goes_on (Some (Have C v L)) (sax P) (with_sax (sax_value v) P (\<lambda>P. Inr (Break, P)))" for v
    using sax_start(3) [OF ok aw, of v] ok L by (auto simp: with_sax_def)
  obtain Da where Da: "sax_start_array (sax P) = Inr Da" "opened C (JArray []) Da" "same_mode (sax P) Da"
    using sax_start(1) [OF ok aw] by blast
  obtain Da' where Da': "sax_end_array Da = Inr Da'" "holds C (JArray []) Da'" "same_mode Da Da'"
    using sax_end(1) [OF ok Da(2)] by blast
  obtain Do where Do: "sax_start_object (sax P) = Inr Do" "opened C (JObject []) Do" "same_mode (sax P) Do"
    using sax_start(2) [OF ok aw] by blast
  obtain Do' where Do': "sax_end_object Do = Inr Do'" "holds C (JObject []) Do'" "same_mode Do Do'"
    using sax_end(2) [OF ok Do(2)] by blast
  have array: "goes_on (next_config (Await C begin_array L)) (sax P) (value_step st P)" if "t = begin_array"
    using that t L st ok s1 Da Da' same_mode_trans [OF Da(3) Da'(3)]
    by (auto simp: value_step_def with_sax_def Let_def)
  have key: "goes_on (next_key [] C t1 L1) (sax P) (parse_key (False # st) (get_token (P\<lparr>sax := Do\<rparr>)))"
    using goes_on_mode [OF _ parse_key_goes_on [OF ok _ _ refl, of "[]" "get_token (P\<lparr>sax := Do\<rparr>)"]] Do s1 L st by simp
  have object: "goes_on (next_config (Await C begin_object L)) (sax P) (value_step st P)" if "t = begin_object"
    using that t L st ok s1 Do Do' key same_mode_trans [OF Do(3) Do'(3)]
    by (auto simp: value_step_def with_sax_def Let_def)
  show ?thesis
    using scalar array object t L
    by (cases t) (simp_all add: value_step_def Let_def del: goes_on.simps)
qed

lemma state_step_goes_on:
  assumes "simulates (Have C v L) True st P" "C \<noteq> []"
  shows "goes_on (next_config (Have C v L)) (sax P) (state_step st P)"
proof -
  have st: "st = map is_in_array C" and L: "m_lexer P = L"
    and ok: "list_all ctx_ok C" and h: "holds C v (sax P)"
    using assms by auto
  obtain t1 L1 where s1: "scan L = (t1, L1)" by fastforce
  obtain t2 L2 where s2: "scan L1 = (t2, L2)" by fastforce
  obtain c C' where C: "C = c # C'" using assms(2) by (cases C) auto
  have ok': "list_all ctx_ok C'" using ok C by simp
  show ?thesis
  proof (cases c)
    case (In_array js)
    have op: "opened C' (JArray (js @ [v])) (sax P)" using h C In_array by (simp add: holds_array)
    obtain D' where "sax_end_array (sax P) = Inr D'" "holds C' (JArray (js @ [v])) D'" "same_mode (sax P) D'"
      using sax_end(1) [OF ok' op] by blast
    then show ?thesis
      using st L s1 s2 C In_array ok' op
      by (auto simp: with_sax_def Let_def intro!: goes_on_error_mode simp del: goes_on.simps(1))
  next
    case (In_object m k)
    have op: "opened C' (JObject (map_assign k v m)) (sax P)" using h C In_object by (simp add: holds_object)
    obtain D' where D': "sax_end_object (sax P) = Inr D'" "holds C' (JObject (map_assign k v m)) D'" "same_mode (sax P) D'"
      using sax_end(2) [OF ok' op] by blast
    have "goes_on (next_key (map_assign k v m) C' t2 L2) (sax P) (parse_key st (get_token (get_token P)))"
      using parse_key_goes_on [OF ok' _ _ refl, of "map_assign k v m" "get_token (get_token P)"] op s1 s2 L st C In_object ok
      by simp
    then show ?thesis
      using st L s1 s2 C In_object ok' op D'
      by (auto simp: with_sax_def Let_def intro!: goes_on_error_mode simp del: goes_on.simps(1))
  qed
qed

fun finishes :: "config \<Rightarrow> dom_parser \<Rightarrow> json_exn + (bool \<times> json_parser) \<Rightarrow> bool" where
  "finishes (Have [] v L) D r \<longleftrightarrow> (\<exists>P. r = Inr (True, P) \<and> simulates (Have [] v L) True [] P \<and> same_mode D (sax P))"
| "finishes c D r \<longleftrightarrow>
     (if allow_exceptions D then \<exists>e. r = Inl e \<and> e \<noteq> Assertion_failed
      else \<exists>P. r = Inr (False, P) \<and> errored (sax P) \<and> \<not> allow_exceptions (sax P))"

lemma finishes_mode: "same_mode D D' \<Longrightarrow> finishes c D' r \<Longrightarrow> finishes c D r"
  by (cases "(c, D, r)" rule: finishes.cases) (auto simp: same_mode_def)

definition loop_size :: "bool \<Rightarrow> json_parser \<Rightarrow> nat" where
  "loop_size skip P = 2 * parser_size P + (if skip then 0 else 1)"

lemma loop_goes_on:
  assumes sim: "simulates c sk st P" and nxt: "next_config c = Some c'"
  shows "\<exists>sk' st' P'. simulates c' sk' st' P' \<and> same_mode (sax P) (sax P') \<and> loop_size sk' P' < loop_size sk P \<and>
    sax_parse_internal sk st P = sax_parse_internal sk' st' P'"
proof (cases c)
  case (Await C t L)
  then have sk: "\<not> sk" using sim by simp
  have g: "goes_on (Some c') (sax P) (value_step st P)"
    using value_step_goes_on [of C t L st P] sim nxt Await sk by simp
  show ?thesis
  proof (cases c')
    case A: (Await C' t' L')
    with g obtain st' P' where v: "value_step st P = Inr (Continue st' False, P')"
      and s: "simulates c' False st' P'" "same_mode (sax P) (sax P')" by auto
    have "parser_size P' < parser_size P" using parser_size_value_step(1) [OF v refl] .
    then show ?thesis using v s sk
      by (intro exI [of _ False] exI [of _ st'] exI [of _ P']) (simp add: sax_parse_internal.simps [of False st] loop_size_def)
  next
    case H: (Have C' v' L')
    from nxt Await H have C': "C' = C"
      by (cases t) (auto simp: Let_def next_key_def split: prod.splits if_splits)
    from g H sk nxt obtain P' where v: "value_step st P = Inr (Break, P') \<or> value_step st P = Inr (Continue st True, P')"
      and s: "simulates c' True st P'" "same_mode (sax P) (sax P')"
      using sim Await C' by auto
    have "parser_size P' \<le> parser_size P" using v parser_size_value_step [of st P _ P'] by (auto simp: less_imp_le)
    then show ?thesis using v s sk
      by (intro exI [of _ True] exI [of _ st] exI [of _ P'])
        (auto simp: sax_parse_internal.simps [of False st] sax_parse_internal.simps [of True st P'] loop_size_def)
  qed
next
  case (Have C v L)
  then have sk: "sk" using sim by simp
  have C: "C \<noteq> []" using nxt Have by auto
  have g: "goes_on (Some c') (sax P) (state_step st P)"
    using state_step_goes_on [of C v L st P] sim nxt Have sk C by simp
  have nb: "state_step st P \<noteq> Inr (Break, P')" for P'
    using sim Have C by (cases C; cases "hd C") (auto simp: parser_error_flow with_sax_Inr Let_def parse_key_def)
  obtain st' sk' P' where v: "state_step st P = Inr (Continue st' sk', P')"
    and s: "simulates c' sk' st' P'" "same_mode (sax P) (sax P')"
    using g nb by (cases c') auto
  have "parser_size P' < parser_size P" using parser_size_state_step [OF v] .
  then show ?thesis using v s sk
    by (intro exI [of _ sk'] exI [of _ st'] exI [of _ P']) (simp add: sax_parse_internal.simps [of True st] loop_size_def)
qed

lemma loop_finishes:
  assumes sim: "simulates c sk st P" and nxt: "next_config c = None"
  shows "finishes c (sax P) (sax_parse_internal sk st P)"
proof (cases c)
  case (Await C t L)
  then have sk: "\<not> sk" using sim by simp
  have "goes_on None (sax P) (value_step st P)"
    using value_step_goes_on [of C t L st P] sim nxt Await sk by simp
  then show ?thesis using Await sk by (auto simp: sax_parse_internal.simps [of False st] split: if_splits)
next
  case (Have C v L)
  then have sk: "sk" using sim by simp
  show ?thesis
  proof (cases "C = []")
    case True
    then show ?thesis using Have sim by (auto simp: sax_parse_internal.simps)
  next
    case False
    have "goes_on None (sax P) (state_step st P)"
      using state_step_goes_on [of C v L st P] sim nxt Have sk False by simp
    then show ?thesis using Have sk False
      by (cases C) (auto simp: sax_parse_internal.simps [of True st] split: if_splits)
  qed
qed

lemma loop_runs:
  assumes "simulates c sk st P"
  shows "\<exists>c'. config_step\<^sup>*\<^sup>* c c' \<and> next_config c' = None \<and> finishes c' (sax P) (sax_parse_internal sk st P)"
  using assms
proof (induction "loop_size sk P" arbitrary: c sk st P rule: less_induct)
  case less
  show ?case
  proof (cases "next_config c")
    case None
    then show ?thesis using loop_finishes [OF less.prems] by blast
  next
    case (Some c1)
    from loop_goes_on [OF less.prems Some] obtain sk' st' P' where
      s: "simulates c1 sk' st' P'" "same_mode (sax P) (sax P')" "loop_size sk' P' < loop_size sk P"
        "sax_parse_internal sk st P = sax_parse_internal sk' st' P'" by blast
    from less.hyps [OF s(3,1)] obtain c' where
      c': "config_step\<^sup>*\<^sup>* c1 c'" "next_config c' = None" "finishes c' (sax P') (sax_parse_internal sk' st' P')" by blast
    have "config_step\<^sup>*\<^sup>* c c'" using Some c'(1) by (rule converse_rtranclp_into_rtranclp)
    then show ?thesis using c'(2) finishes_mode [OF s(2) c'(3)] s(4) by auto
  qed
qed

subsection \<open>The machine and the grammar\<close>

inductive_cases value_at_end: "value_at end_array L v L'" "value_at end_object L v L'"
inductive_cases member_at_end: "member_at end_object L k v L'"

lemma grammar_run:
  "value_at t L v L' \<Longrightarrow> config_step\<^sup>*\<^sup>* (Await C t L) (Have C v L')"
  "elements_at js L js' L' \<Longrightarrow> js = js0 @ [u] \<Longrightarrow>
     config_step\<^sup>*\<^sup>* (Have (In_array js0 # C) u L) (Have C (JArray js') L')"
  "members_at m L m' L' \<Longrightarrow> m = map_assign k u m0 \<Longrightarrow>
     config_step\<^sup>*\<^sup>* (Have (In_object m0 k # C) u L) (Have C (JObject m') L')"
  "member_at t L k v L' \<Longrightarrow>
     \<exists>c. next_key m C t L = Some c \<and> config_step\<^sup>*\<^sup>* c (Have (In_object m k # C) v L')"
proof (induction arbitrary: C and js0 u C and k u m0 C and m C rule: value_at_elements_at_members_at_member_at.inducts)
  case (array_at L t L1 v L2 js L')
  have "t \<noteq> end_array" using array_at.hyps(2) by (auto elim: value_at_end)
  then have "next_config (Await C begin_array L) = Some (Await (In_array [] # C) t L1)"
    using array_at.hyps(1) by simp
  also note array_at.IH(1) [of "In_array [] # C"]
  also note array_at.IH(2) [of "[]" v C]
  finally show ?case by simp
next
  case (object_at L t L1 k v L2 m L')
  have "t \<noteq> end_object" using object_at.hyps(2) by (auto elim: member_at_end)
  obtain c where c: "next_key [] C t L1 = Some c" "config_step\<^sup>*\<^sup>* c (Have (In_object [] k # C) v L2)"
    using object_at.IH(1) by blast
  have "next_config (Await C begin_object L) = Some c"
    using object_at.hyps(1) c(1) \<open>t \<noteq> end_object\<close> by simp
  also note c(2)
  also note object_at.IH(2) [of k v "[]" C]
  finally show ?case by simp
next
  case (next_element_at L L1 t L2 v L3 js js' L')
  have "next_config (Have (In_array js0 # C) u L) = Some (Await (In_array js # C) t L2)"
    using next_element_at.hyps(1,2) next_element_at.prems by simp
  also note next_element_at.IH(1)
  also note next_element_at.IH(2) [OF refl]
  finally show ?case .
next
  case (next_member_at L L1 t L2 k1 v L3 m m' L')
  obtain c where c: "next_key m C t L2 = Some c" "config_step\<^sup>*\<^sup>* c (Have (In_object m k1 # C) v L3)"
    using next_member_at.IH(1) by blast
  have "next_config (Have (In_object m0 k # C) u L) = Some c"
    using next_member_at.hyps(1,2) next_member_at.prems c(1) by simp
  also note c(2)
  also note next_member_at.IH(2) [OF refl]
  finally show ?case .
next
  case (member_at L L1 t L2 v L')
  show ?case using member_at.hyps(1,2) member_at.IH by (simp add: next_key_def)
qed auto

inductive closes :: "ctx list \<Rightarrow> json \<Rightarrow> lexer \<Rightarrow> json \<Rightarrow> lexer \<Rightarrow> bool" where
  "closes [] v L v L"
| "elements_at (js @ [v]) L js' L1 \<Longrightarrow> closes C (JArray js') L1 w L' \<Longrightarrow> closes (In_array js # C) v L w L'"
| "members_at (map_assign k v m) L m' L1 \<Longrightarrow> closes C (JObject m') L1 w L' \<Longrightarrow>
     closes (In_object m k # C) v L w L'"

inductive_cases closes_cases:
  "closes [] v L w L'" "closes (In_array js # C) v L w L'" "closes (In_object m k # C) v L w L'"

fun completes :: "config \<Rightarrow> json \<Rightarrow> lexer \<Rightarrow> bool" where
  "completes (Have C v L) w L' \<longleftrightarrow> closes C v L w L'"
| "completes (Await C t L) w L' \<longleftrightarrow> (\<exists>v L1. value_at t L v L1 \<and> closes C v L1 w L')"

lemma next_key_completes:
  "next_key m C t L = Some c \<Longrightarrow> completes c w L' \<Longrightarrow>
   \<exists>k v L1. member_at t L k v L1 \<and> closes (In_object m k # C) v L1 w L'"
  by (fastforce simp: next_key_def split: if_splits prod.splits intro: value_at_elements_at_members_at_member_at.member_at)

lemma step_completes:
  assumes "config_step c c'" "completes c' w L'"
  shows "completes c w L'"
  using assms
proof (cases c rule: next_config.cases)
  case (9 C L)
  then show ?thesis using assms
    by (fastforce split: prod.splits if_splits dest!: next_key_completes elim!: closes_cases
        intro: value_at_elements_at_members_at_member_at.intros)
next
  case (13 m k C v L)
  then show ?thesis using assms
    by (auto split: prod.splits if_splits dest!: next_key_completes elim!: closes_cases
        intro: value_at_elements_at_members_at_member_at.intros closes.intros)
qed (fastforce split: prod.splits if_splits elim!: closes_cases
    intro: value_at_elements_at_members_at_member_at.intros closes.intros)+

lemma run_completes: "config_step\<^sup>*\<^sup>* c (Have [] w L') \<Longrightarrow> completes c w L'"
  by (induction rule: converse_rtranclp_induct) (auto intro: closes.intros step_completes)

lemma run_iff_grammar: "config_step\<^sup>*\<^sup>* (Await [] t L) (Have [] v L') \<longleftrightarrow> value_at t L v L'"
  using run_completes [of "Await [] t L" v L'] grammar_run(1) [of t L v L' "[]"]
  by (auto elim: closes_cases)

lemma normal_form_unique:
  assumes "config_step\<^sup>*\<^sup>* c c1" "next_config c1 = None" "config_step\<^sup>*\<^sup>* c c2" "next_config c2 = None"
  shows "c1 = c2"
  using assms
proof (induction rule: converse_rtranclp_induct)
  case base
  then show ?case by (auto elim: converse_rtranclpE)
next
  case (step c c')
  then show ?case by (auto elim: converse_rtranclpE)
qed

lemma parser_parse_outcome:
  assumes P: "P = new_parser s exceptions comments"
  shows "document comments s j \<Longrightarrow> parser_parse True P = Inr j"
    "\<nexists>j. document comments s j \<Longrightarrow>
       (if exceptions then \<exists>e. parser_parse True P = Inl e \<and> e \<noteq> Assertion_failed
        else parser_parse True P = Inr JDiscarded)"
proof -
  obtain t L where s: "scan (new_lexer s comments) = (t, L)" by fastforce
  have sim: "simulates (Await [] t L) False [] P"
    using s by (simp add: P new_parser_def get_token_def)
  have mode: "allow_exceptions (sax P) = exceptions" "\<not> errored (sax P)"
    using s by (simp_all add: P new_parser_def get_token_def)
  from loop_runs [OF sim] obtain c' where c': "config_step\<^sup>*\<^sup>* (Await [] t L) c'" "next_config c' = None"
    "finishes c' (sax P) (sax_parse_internal False [] P)" by blast
  show "parser_parse True P = Inr j" if "document comments s j"
  proof -
    from that s obtain L' where v: "value_at t L j L'" and e: "fst (scan L') = end_of_input"
      by (auto simp: document_def)
    have "c' = Have [] j L'"
      using normal_form_unique [OF c'(1,2)] v by (simp add: run_iff_grammar)
    with c'(3) mode obtain P' where "sax_parse_internal False [] P = Inr (True, P')" "m_lexer P' = L'"
      "root (sax P') = j" "\<not> errored (sax P')"
      by (auto simp: holds_def same_mode_def)
    then show ?thesis using e by (simp add: parser_parse_def Let_def)
  qed
  show "if exceptions then \<exists>e. parser_parse True P = Inl e \<and> e \<noteq> Assertion_failed
        else parser_parse True P = Inr JDiscarded" if none: "\<nexists>j. document comments s j"
  proof (cases "\<exists>v L'. c' = Have [] v L'")
    case True
    then obtain v L' where c'v: "c' = Have [] v L'" by blast
    with c'(1) have "value_at t L v L'" by (simp add: run_iff_grammar)
    with none s have ne: "fst (scan L') \<noteq> end_of_input" by (auto simp: document_def)
    from c'(3) c'v mode obtain P' where P': "sax_parse_internal False [] P = Inr (True, P')" "m_lexer P' = L'"
      "allow_exceptions (sax P') = exceptions"
      by (auto simp: same_mode_def)
    then show ?thesis using ne
      by (simp add: parser_parse_def Let_def syntax_error_def parser_error_def sax_parse_error_def)
  next
    case False
    then have "if exceptions then \<exists>e. sax_parse_internal False [] P = Inl e \<and> e \<noteq> Assertion_failed
      else \<exists>P'. sax_parse_internal False [] P = Inr (False, P') \<and> errored (sax P') \<and> \<not> allow_exceptions (sax P')"
      using c'(3) mode by (cases "(c', sax P, sax_parse_internal False [] P)" rule: finishes.cases) auto
    then show ?thesis
      by (auto simp: parser_parse_def Let_def syntax_error_def parser_error_def sax_parse_error_def split: if_splits sum.splits)
  qed
qed

lemma json_parse_with_iff: "json_parse_with True comments s = Inr j \<longleftrightarrow> document comments s j"
proof (cases "\<exists>j. document comments s j")
  case True
  then obtain i where "document comments s i" ..
  then show ?thesis
    using parser_parse_outcome(1) [OF refl, of comments s i True] parser_parse_outcome(1) [OF refl, of comments s j True]
    by (auto simp: json_parse_with_def)
next
  case False
  then show ?thesis using parser_parse_outcome(2) [OF refl, of comments s True] by (auto simp: json_parse_with_def)
qed

lemma json_parse_with_no_assertion: "json_parse_with b comments s \<noteq> Inl Assertion_failed"
proof (cases "\<exists>j. document comments s j")
  case True
  then show ?thesis using parser_parse_outcome(1) [OF refl, of comments s _ b] by (auto simp: json_parse_with_def)
next
  case False
  then show ?thesis using parser_parse_outcome(2) [OF refl, of comments s b]
    by (auto simp: json_parse_with_def split: if_splits)
qed

lemma json_parse_without_exceptions:
  "json_parse_with False comments s =
     (case json_parse_with True comments s of Inl e \<Rightarrow> Inr JDiscarded | Inr j \<Rightarrow> Inr j)"
proof (cases "\<exists>j. document comments s j")
  case True
  then show ?thesis using parser_parse_outcome(1) [OF refl, of comments s] by (auto simp: json_parse_with_def)
next
  case False
  then show ?thesis
    using parser_parse_outcome(2) [OF refl, of comments s True] parser_parse_outcome(2) [OF refl, of comments s False]
    by (auto simp: json_parse_with_def)
qed

section \<open>Properties\<close>

text \<open>
  C5 (parse_refines_grammar): the iterative parser with its stack of states and its pointers into the
  value implements the recursive grammar: \<open>json::parse(s)\<close> returns \<open>j\<close> exactly if the tokens of \<open>s\<close>
  form one document that denotes \<open>j\<close>. In every other case it throws, and it always terminates. This
  holds with and without \<open>ignore_comments\<close>.
\<close>

theorem parse_refines_grammar: "json_parse_with True comments s = Inr j \<longleftrightarrow> document comments s j"
  by (rule json_parse_with_iff)

text \<open>
  C31 (parse_assertions_hold): no input makes one of the assertions on \<open>ref_stack\<close> and \<open>object_element\<close>
  in the SAX consumer fail: the pointers are valid whenever the parser uses them.
\<close>

theorem parse_assertions_hold: "json_parse_with exceptions comments s \<noteq> Inl Assertion_failed"
  by (rule json_parse_with_no_assertion)

text \<open>
  C32 (parse_without_exceptions): with \<open>allow_exceptions = false\<close> the parser returns the same value for
  the same texts, never throws, and returns the discarded value exactly where it would have thrown.
\<close>

theorem parse_without_exceptions:
  "json_parse_with False comments s =
     Inr (case json_parse_with True comments s of Inl e \<Rightarrow> JDiscarded | Inr j \<Rightarrow> j)"
  by (simp add: json_parse_without_exceptions split: sum.split)

end
