(* ===== verification/Json_Roundtrip.thy ===== *)
theory Json_Roundtrip
  imports Json_Parser
begin

text \<open>
  What the JSON parser makes of a text, and the round trip through the serializer.

  The first part shows that every string the lexer delivers is well-formed UTF-8, whatever bytes the
  input has, so that a parsed value can always be printed. The second part runs the lexer over the
  text the serializer writes.
\<close>

section \<open>Lemmas\<close>

subsection \<open>The strings of a text are UTF-8\<close>

lemma utf8_rest_append: "utf8_rest rs a \<Longrightarrow> utf8_rest rs (a @ b) \<longleftrightarrow> utf8 b"
  by (induction rs a rule: utf8_rest.induct) (auto simp: utf8_def split: option.splits)

lemma utf8_append: "utf8 a \<Longrightarrow> utf8 b \<Longrightarrow> utf8 (a @ b)"
  by (simp add: utf8_def utf8_rest_append)

lemma or_add:
  fixes a b :: nat
  assumes "b < 2 ^ n" "2 ^ n dvd a"
  shows "a OR b = a + b"
proof -
  obtain q where a: "a = push_bit n q" using assms(2) by (auto simp: push_bit_eq_mult mult.commute elim: dvdE)
  have b: "b = take_bit n b" using assms(1) by (simp add: take_bit_nat_eq_self)
  show ?thesis
    unfolding a by (subst b, subst (2) b, subst disjunctive_add) (auto simp: bit_simps)
qed

lemma and_3F: "(n :: nat) AND 0x3F = n mod 64"
  using take_bit_eq_mask [of 6 n] by (simp add: take_bit_eq_mod mask_numeral)

lemma utf8_encode_add:
  "utf8_encode cp =
     (if cp < 0x80 then [char_of cp]
      else if cp \<le> 0x7FF then [char_of (0xC0 + cp div 64), char_of (0x80 + cp mod 64)]
      else if cp \<le> 0xFFFF then
        [char_of (0xE0 + cp div 4096), char_of (0x80 + cp div 64 mod 64), char_of (0x80 + cp mod 64)]
      else
        [char_of (0xF0 OR cp div 262144), char_of (0x80 + cp div 4096 mod 64),
         char_of (0x80 + cp div 64 mod 64), char_of (0x80 + cp mod 64)])"
proof -
  have tail: "0x80 OR n mod 64 = 0x80 + n mod 64" for n :: nat by (rule or_add [of _ 6]) simp_all
  have two: "0xC0 OR cp div 64 = 0xC0 + cp div 64" if "cp \<le> 0x7FF"
    by (rule or_add [of _ 6]) (use that in auto)
  have three: "0xE0 OR cp div 4096 = 0xE0 + cp div 4096" if "cp \<le> 0xFFFF"
    by (rule or_add [of _ 5]) (use that in auto)
  show ?thesis by (simp add: utf8_encode_def and_3F drop_bit_eq_div tail two three)
qed

lemma split64: "(n :: nat) = n div 64 * 64 + n mod 64"
  by simp

lemma utf8_three:
  assumes "a < 16" "b < 64" "c < 64" "a = 0 \<Longrightarrow> 32 \<le> b" "a = 13 \<Longrightarrow> b < 32"
  shows "utf8 [char_of (0xE0 + a :: nat), char_of (0x80 + b :: nat), char_of (0x80 + c :: nat)]"
  using assms by (auto simp: utf8_def utf8_tail_def)

lemma utf8_four:
  assumes "a \<le> 4" "b < 64" "c < 64" "d < 64" "a = 0 \<Longrightarrow> 16 \<le> b" "a = 4 \<Longrightarrow> b < 16"
  shows "utf8 [char_of (0xF0 + a :: nat), char_of (0x80 + b :: nat), char_of (0x80 + c :: nat), char_of (0x80 + d :: nat)]"
  using assms by (auto simp: utf8_def utf8_tail_def)

lemma utf8_utf8_encode:
  assumes "cp < 0x110000" "\<not> (0xD800 \<le> cp \<and> cp \<le> 0xDFFF)"
  shows "utf8 (utf8_encode cp)"
proof -
  define c where "c = cp mod 64"
  define b where "b = cp div 64 mod 64"
  define a where "a = cp div 4096"
  have bc: "b < 64" "c < 64" by (simp_all add: b_def c_def)
  have "cp div 64 = a * 64 + b" using split64 [of "cp div 64"] by (simp add: a_def b_def div_mult2_eq [symmetric])
  then have cp: "cp = a * 4096 + b * 64 + c" using split64 [of cp] by (simp add: c_def)
  consider "cp < 0x80" | "0x80 \<le> cp" "cp \<le> 0x7FF" | "0x800 \<le> cp" "cp \<le> 0xFFFF" | "0x10000 \<le> cp" by linarith
  then show ?thesis
  proof cases
    case 1
    then show ?thesis by (simp add: utf8_encode_add utf8_def utf8_tail_def)
  next
    case 2
    then have "2 \<le> cp div 64" "cp div 64 < 32" by auto
    then show ?thesis using 2 by (simp add: utf8_encode_add utf8_def utf8_tail_def)
  next
    case 3
    have "utf8 [char_of (0xE0 + a), char_of (0x80 + b), char_of (0x80 + c)]"
      using 3 assms(2) cp bc by (intro utf8_three) auto
    then show ?thesis using 3 by (simp add: utf8_encode_add a_def b_def c_def)
  next
    case 4
    define a1 where "a1 = a div 64"
    define a2 where "a2 = a mod 64"
    have a: "a = a1 * 64 + a2" "a2 < 64" by (simp_all add: a1_def a2_def)
    have top: "cp div 262144 = a1" by (simp add: a1_def a_def div_mult2_eq [symmetric])
    have le: "a1 \<le> 4" using assms(1) cp a by linarith
    then have or: "0xF0 OR a1 = 0xF0 + a1" by (intro or_add [of _ 4]) auto
    have "utf8 [char_of (0xF0 + a1), char_of (0x80 + a2), char_of (0x80 + b), char_of (0x80 + c)]"
      using 4 assms(1) cp bc a le by (intro utf8_four) auto
    then show ?thesis using 4 or by (simp add: utf8_encode_add top a_def [symmetric] a2_def b_def c_def)
  qed
qed

lemma hex_digit_value_less: "hex_digit_value c = Some v \<Longrightarrow> v < 16"
  by (auto simp: hex_digit_value_def split: if_splits)

lemma get_codepoint_less: "get_codepoint L = (Some cp, L') \<Longrightarrow> cp < 0x10000"
  by (auto simp: get_codepoint_def Let_def push_bit_eq_mult split: option.splits dest!: hex_digit_value_less)

lemma token_buffer_get [simp]: "token_buffer (get L) = token_buffer L"
  by (auto simp: get_def read_char_def Let_def split: option.splits list.splits)

lemma token_buffer_get_codepoint_loop:
  "get_codepoint_loop fs cp L = (r, L') \<Longrightarrow> token_buffer L' = token_buffer L"
  by (induction fs cp L rule: get_codepoint_loop.induct) (auto simp: Let_def split: option.splits)

lemma token_buffer_get_codepoint: "get_codepoint L = (r, L') \<Longrightarrow> token_buffer L' = token_buffer L"
  unfolding get_codepoint_def by (rule token_buffer_get_codepoint_loop)

lemma get_codepoint_Some:
  "get_codepoint L = (Some cp, L') \<Longrightarrow> cp < 0x10000 \<and> token_buffer L' = token_buffer L"
  by (simp add: get_codepoint_less token_buffer_get_codepoint)

definition extends_utf8 :: "lexer \<Rightarrow> lexer \<Rightarrow> bool" where
  "extends_utf8 L L' \<longleftrightarrow> (\<exists>t. token_buffer L' = token_buffer L @ t \<and> utf8 t)"

lemma extends_utf8I: "token_buffer L' = token_buffer L @ t \<Longrightarrow> utf8 t \<Longrightarrow> extends_utf8 L L'"
  by (auto simp: extends_utf8_def)

lemma scan_low_surrogate_utf8:
  assumes "scan_low_surrogate cp1 L = (True, L')" "0xD800 \<le> cp1" "cp1 \<le> 0xDBFF"
  shows "extends_utf8 L L'"
proof -
  obtain cp2 L1 where g: "get_codepoint L = (Some cp2, L1)" and cp2: "0xDC00 \<le> cp2" "cp2 \<le> 0xDFFF"
    and L': "L' = L1\<lparr>token_buffer := token_buffer L1 @ utf8_encode (push_bit 10 cp1 + cp2 - 0x35FDC00)\<rparr>"
    using assms(1) by (auto simp: scan_low_surrogate_def split: prod.splits option.splits if_splits)
  have "utf8 (utf8_encode (push_bit 10 cp1 + cp2 - 0x35FDC00))"
    by (rule utf8_utf8_encode) (use cp2 assms(2,3) in \<open>auto simp: push_bit_eq_mult\<close>)
  then show ?thesis using L' token_buffer_get_codepoint [OF g] by (auto simp: extends_utf8_def)
qed

lemma scan_surrogate_utf8:
  "scan_surrogate cp1 L = (True, L') \<Longrightarrow> 0xD800 \<le> cp1 \<Longrightarrow> cp1 \<le> 0xDBFF \<Longrightarrow> extends_utf8 L L'"
  by (auto simp: scan_surrogate_def Let_def extends_utf8_def split: if_splits dest!: scan_low_surrogate_utf8)

lemma scan_unicode_escape_utf8: "scan_unicode_escape L = (True, L') \<Longrightarrow> extends_utf8 L L'"
  by (auto simp: scan_unicode_escape_def extends_utf8_def split: prod.splits option.splits if_splits
      dest!: scan_surrogate_utf8 get_codepoint_Some intro!: utf8_utf8_encode)

lemma utf8_ascii: "byte c < 0x80 \<Longrightarrow> utf8 [c]"
  by (simp add: utf8_def utf8_tail_def)

lemma scan_escape_utf8: "scan_escape L = (True, L') \<Longrightarrow> extends_utf8 L L'"
  by (auto simp: scan_escape_def Let_def add_def extends_utf8_def split: if_splits dest!: scan_unicode_escape_utf8
      intro!: utf8_ascii simp: byte_def)

lemma next_bytes_loop_utf8:
  "next_bytes_loop rs L = (True, L') \<Longrightarrow> \<exists>t. token_buffer L' = token_buffer L @ t \<and> utf8_rest rs t"
proof (induction rs L rule: next_bytes_loop.induct)
  case (2 lo hi rs L)
  from "2.prems" obtain c where c: "current (get L) = Some c" "lo \<le> byte c" "byte c \<le> hi"
    and n: "next_bytes_loop rs (add_current (get L)) = (True, L')"
    by (auto simp: Let_def split: option.splits if_splits)
  from "2.IH" [OF refl c(1) _ n] c obtain t where
    "token_buffer L' = token_buffer (add_current (get L)) @ t" "utf8_rest rs t" by auto
  then show ?case using c by (intro exI [of _ "c # t"]) (simp add: add_current_def add_def)
qed (auto intro: exI [of _ "[]"])

lemma scan_utf8_tail:
  "scan_utf8 c L =
     (case utf8_tail (byte c) of
        None \<Rightarrow> (False, L\<lparr>error_message := ''invalid string: ill-formed UTF-8 byte''\<rparr>)
      | Some rs \<Rightarrow> next_byte_in_range rs L)"
  by (auto simp: scan_utf8_def Let_def utf8_tail_def next_byte_in_range_def)

lemma scan_utf8_utf8:
  assumes "scan_utf8 c L = (True, L')" "current L = Some c"
  shows "extends_utf8 L L'"
proof -
  obtain rs where rs: "utf8_tail (byte c) = Some rs" "next_byte_in_range rs L = (True, L')"
    using assms(1) by (auto simp: scan_utf8_tail split: option.splits)
  then obtain t where "token_buffer L' = token_buffer (add_current L) @ t" "utf8_rest rs t"
    unfolding next_byte_in_range_def by (auto dest: next_bytes_loop_utf8)
  then show ?thesis using rs(1) assms(2)
    by (intro extends_utf8I [of _ _ "c # t"]) (auto simp: add_current_def add_def utf8_def)
qed

lemma extends_utf8_trans: "extends_utf8 L L1 \<Longrightarrow> extends_utf8 L1 L2 \<Longrightarrow> extends_utf8 L L2"
  by (auto simp: extends_utf8_def intro: utf8_append)

lemma extends_utf8_get: "extends_utf8 (get L) L' \<longleftrightarrow> extends_utf8 L L'"
  by (simp add: extends_utf8_def)

lemma scan_string_loop_utf8: "scan_string_loop L = (value_string, L') \<Longrightarrow> extends_utf8 L L'"
proof (induction L rule: scan_string_loop.induct)
  case (1 L)
  show ?case
  proof (cases "current (get L)")
    case None
    then show ?thesis using "1.prems" by (simp add: scan_string_loop.simps [of L] Let_def fail_def)
  next
    case (Some c)
    have esc: "extends_utf8 L L'" if "c = BSL" "scan_escape (get L) = (True, L1)" "scan_string_loop L1 = (value_string, L')" for L1
      using "1.IH"(1) [OF refl Some] that scan_escape_utf8 [OF that(2)] extends_utf8_trans
      by (auto simp: extends_utf8_get)
    have utf: "extends_utf8 L L'" if "c \<noteq> DQ" "c \<noteq> BSL" "\<not> byte c < 0x20" "scan_utf8 c (get L) = (True, L1)"
      "scan_string_loop L1 = (value_string, L')" for L1
      using "1.IH"(2) [OF refl Some] that scan_utf8_utf8 [OF that(4) Some] extends_utf8_trans
      by (auto simp: extends_utf8_get)
    have stop: "extends_utf8 L (get L)" by (simp add: extends_utf8_def utf8_def)
    show ?thesis
      using "1.prems" Some esc utf stop
      by (subst (asm) scan_string_loop.simps)
        (auto simp: Let_def fail_def split: prod.splits bool.splits if_splits)
  qed
qed

lemma scan_literal_token: "fst (scan_literal cs t L) \<in> {t, parse_error}"
  by (induction cs t L rule: scan_literal.induct) (auto simp: Let_def fail_def)

lemma scan_number_token:
  "fst (scan_number L) \<in> {value_unsigned, value_integer, value_float, parse_error}"
proof -
  let ?N = "{value_unsigned, value_integer, value_float, parse_error}"
  have d: "fst (scan_number_done t L) \<in> ?N" for t L by (simp add: scan_number_done_def Let_def)
  have a2: "fst (scan_number_any2 t L) \<in> ?N" for t L
    by (induction t L rule: scan_number_any2.induct) (subst scan_number_any2.simps, use d in \<open>auto simp: Let_def\<close>)
  have s: "fst (scan_number_sign t L) \<in> ?N" for t L using a2 by (simp add: scan_number_sign_def Let_def fail_def)
  have e: "fst (scan_number_exponent L) \<in> ?N" for L
    using a2 s by (simp add: scan_number_exponent_def Let_def fail_def)
  have d2: "fst (scan_number_decimal2 t L) \<in> ?N" for t L
    by (induction t L rule: scan_number_decimal2.induct) (subst scan_number_decimal2.simps, use d e in \<open>auto simp: Let_def\<close>)
  have d1: "fst (scan_number_decimal1 L) \<in> ?N" for L
    using d2 by (simp add: scan_number_decimal1_def Let_def fail_def)
  have a1: "fst (scan_number_any1 t L) \<in> ?N" for t L
    by (induction t L rule: scan_number_any1.induct) (subst scan_number_any1.simps, use d e d1 in \<open>auto simp: Let_def\<close>)
  have z: "fst (scan_number_zero t L) \<in> ?N" for t L using d d1 e by (simp add: scan_number_zero_def Let_def)
  have m: "fst (scan_number_minus L) \<in> ?N" for L using z a1 by (simp add: scan_number_minus_def Let_def fail_def)
  show ?thesis using m z a1 by (simp add: scan_number_def Let_def)
qed

lemma scan_value_string_utf8:
  assumes "scan L = (value_string, L')"
  shows "utf8 (token_buffer L')"
proof -
  have tok: "utf8 (token_buffer L')" if "scan_token L1 = (value_string, L')" for L1
  proof -
    have lit: "scan_literal cs t L1 \<noteq> (value_string, L')" if "t \<noteq> value_string" for cs t
      using scan_literal_token [of cs t L1] that by auto
    have num: "scan_number L1 \<noteq> (value_string, L')" using scan_number_token [of L1] by auto
    have "scan_string_loop (reset L1) = (value_string, L')"
      using that lit num
      by (auto simp: scan_token_def scan_string_def fail_def split: option.splits if_splits simp del: scan_literal.simps)
    then have "extends_utf8 (reset L1) L'" by (rule scan_string_loop_utf8)
    then show ?thesis by (simp add: extends_utf8_def reset_def)
  qed
  have "utf8 (token_buffer L')" if "scan_rest L1 = (value_string, L')" for L1
    using that tok by (auto simp: scan_rest_def split: prod.splits bool.splits)
  then show ?thesis using assms
    by (auto simp: scan_def fail_def split: prod.splits bool.splits if_splits)
qed

fun parsed_form :: "json \<Rightarrow> bool" where
  \<comment> \<open>what no text can contain\<close>
  "parsed_form (JObject m) \<longleftrightarrow> (\<forall>p \<in> set m. parsed_form (snd p))"
| "parsed_form (JArray js) \<longleftrightarrow> (\<forall>j \<in> set js. parsed_form j)"
| "parsed_form (JFloat x) \<longleftrightarrow> isfinite x"
| "parsed_form (JBinary _ _) \<longleftrightarrow> False"
| "parsed_form JDiscarded \<longleftrightarrow> False"
| "parsed_form _ \<longleftrightarrow> True"

definition good :: "json \<Rightarrow> bool" where
  "good j \<longleftrightarrow> json_ok j \<and> utf8_strings j \<and> parsed_form j"

definition good_members :: "(string \<times> json) list \<Rightarrow> bool" where
  "good_members m \<longleftrightarrow> sorted_keys m \<and> (\<forall>p \<in> set m. utf8 (fst p) \<and> good (snd p))"

lemma good_JObject [simp]: "good (JObject m) \<longleftrightarrow> good_members m"
  by (auto simp: good_def good_members_def)

lemma good_JArray [simp]: "good (JArray js) \<longleftrightarrow> (\<forall>j \<in> set js. good j)"
  by (auto simp: good_def)

lemma good_members_assign: "good_members m \<Longrightarrow> utf8 k \<Longrightarrow> good v \<Longrightarrow> good_members (map_assign k v m)"
  by (auto simp: good_members_def dest!: snd_set_map_assign)

lemma scan_string_ok: "scan L = (t, L1) \<Longrightarrow> t = value_string \<longrightarrow> utf8 (token_buffer L1)"
  using scan_value_string_utf8 by blast

lemma grammar_good:
  "value_at t L v L' \<Longrightarrow> (t = value_string \<longrightarrow> utf8 (token_buffer L)) \<Longrightarrow> good v"
  "elements_at js L js' L' \<Longrightarrow> \<forall>j \<in> set js. good j \<Longrightarrow> \<forall>j \<in> set js'. good j"
  "members_at m L m' L' \<Longrightarrow> good_members m \<Longrightarrow> good_members m'"
  "member_at t L k v L' \<Longrightarrow> (t = value_string \<longrightarrow> utf8 (token_buffer L)) \<Longrightarrow> utf8 k \<and> good v"
proof (induction rule: value_at_elements_at_members_at_member_at.inducts)
  case (array_at L t L1 v L2 js L')
  have "good v" using array_at.IH(1) scan_string_ok [OF array_at.hyps(1)] .
  have "\<forall>j \<in> set [v]. good j" using \<open>good v\<close> by simp
  from array_at.IH(2) [OF this] show ?case unfolding good_JArray .
next
  case (object_at L t L1 k v L2 m L')
  have "utf8 k \<and> good v" using object_at.IH(1) scan_string_ok [OF object_at.hyps(1)] .
  then show ?case using object_at.IH(2) by (simp add: good_members_def)
next
  case (next_element_at L L1 t L2 v L3 js js' L')
  have "good v" using next_element_at.IH(1) scan_string_ok [OF next_element_at.hyps(2)] .
  then have "\<forall>j \<in> set (js @ [v]). good j" using next_element_at.prems by (metis Un_iff empty_iff empty_set insert_iff list.simps(15) set_append)
  then show ?case by (rule next_element_at.IH(2))
next
  case (next_member_at L L1 t L2 k v L3 m m' L')
  have "utf8 k \<and> good v" using next_member_at.IH(1) scan_string_ok [OF next_member_at.hyps(2)] .
  then show ?case using next_member_at.IH(2) next_member_at.prems good_members_assign by simp
next
  case (member_at L L1 t L2 v L')
  have "good v" using member_at.IH(1) scan_string_ok [OF member_at.hyps(2)] .
  then show ?case using member_at.prems by simp
qed (auto simp: good_def good_members_def)

lemma document_good:
  assumes "document comments s j"
  shows "good j"
proof -
  obtain t L L' where "scan (new_lexer s comments) = (t, L)" "value_at t L j L'"
    using assms by (auto simp: document_def)
  then show ?thesis using grammar_good(1) scan_string_ok by blast
qed

subsection \<open>The lexer on a known input\<close>

definition lex_in :: "string \<Rightarrow> lexer \<Rightarrow> bool" where
  \<comment> \<open>the bytes the lexer delivers next\<close>
  "lex_in r L \<longleftrightarrow> rest L = r \<and> (next_unget L \<and> current L = None \<longrightarrow> ia L = []) \<and> \<not> ignore_comments L"

definition lex_at :: "char \<Rightarrow> string \<Rightarrow> lexer \<Rightarrow> bool" where
  \<comment> \<open>the byte just delivered and those that follow\<close>
  "lex_at c r L \<longleftrightarrow> current L = Some c \<and> \<not> next_unget L \<and> lex_in r L"

lemma lex_in_new: "lex_in s (new_lexer s False)"
  by (simp add: lex_in_def new_lexer_def rest_def)

lemma ignore_comments_get [simp]: "ignore_comments (get L) = ignore_comments L"
  by (auto simp: get_def read_char_def Let_def split: option.splits list.splits)

lemma ignore_comments_unget [simp]: "ignore_comments (unget L) = ignore_comments L"
  by (auto simp: unget_def Let_def)

lemma get_Cons: "lex_in (c # r) L \<Longrightarrow> lex_at c r (get L)"
  by (auto simp: lex_at_def lex_in_def rest_def current_get get_def read_char_def Let_def
      split: option.splits list.splits if_splits)

lemma get_Nil: "lex_in [] L \<Longrightarrow> current (get L) = None \<and> \<not> next_unget (get L) \<and> lex_in [] (get L)"
  by (auto simp: lex_in_def rest_def current_get get_def read_char_def Let_def
      split: option.splits list.splits if_splits)

lemma unget_at: "lex_at c r L \<Longrightarrow> lex_in (c # r) (unget L)"
  by (auto simp: lex_at_def lex_in_def) (auto simp: unget_def Let_def)

lemma unget_end: "current L = None \<Longrightarrow> \<not> next_unget L \<Longrightarrow> lex_in [] L \<Longrightarrow> lex_in [] (unget L)"
  by (auto simp: lex_in_def rest_def unget_def Let_def)

lemma unget_get: "lex_in r L \<Longrightarrow> lex_in r (unget (get L))"
  by (cases r) (auto dest: get_Cons get_Nil unget_at unget_end)

lemma lex_frame [simp]:
  "lex_in r (add c L) = lex_in r L" "lex_in r (add_current L) = lex_in r L" "lex_in r (reset L) = lex_in r L"
  "lex_at d r (add c L) = lex_at d r L" "lex_at d r (add_current L) = lex_at d r L" "lex_at d r (reset L) = lex_at d r L"
  "lex_in r (L\<lparr>token_buffer := b\<rparr>) = lex_in r L" "lex_in r (L\<lparr>unsigned_value := u\<rparr>) = lex_in r L"
  "lex_in r (L\<lparr>integer_value := u\<rparr>) = lex_in r L" "lex_in r (L\<lparr>float_value := u\<rparr>) = lex_in r L"
  by (auto simp: lex_in_def lex_at_def add_def add_current_def reset_def rest_def split: option.splits)

lemma lex_atD: "lex_at c r L \<Longrightarrow> current L = Some c" "lex_at c r L \<Longrightarrow> lex_in r L"
  by (simp_all add: lex_at_def)

lemma add_current_at: "lex_at c r L \<Longrightarrow> token_buffer (add_current L) = token_buffer L @ [c]"
  by (simp add: lex_at_def add_current_def add_def)

lemma token_buffer_unget [simp]: "token_buffer (unget L) = token_buffer L"
  by (simp add: unget_def Let_def)

lemma skip_whitespace_Cons:
  "lex_in (c # r) L \<Longrightarrow> c \<notin> {SP, TAB, LF, CR} \<Longrightarrow> skip_whitespace L = get L"
  using get_Cons [of c r L] by (subst skip_whitespace.simps) (auto simp: lex_at_def Let_def)

lemma skip_comments_off: "\<not> ignore_comments L \<Longrightarrow> skip_comments L = (True, L)"
  by (subst skip_comments.simps) simp

lemma scan_Cons:
  assumes "lex_in (c # r) L" "c \<notin> {SP, TAB, LF, CR}" "c \<noteq> CHR 0xEF"
  obtains L1 where "scan L = scan_token L1" "lex_at c r L1"
proof -
  have rest: "\<exists>L1. scan_rest L0 = scan_token L1 \<and> lex_at c r L1" if "lex_in (c # r) L0" for L0
    using get_Cons [OF that] skip_whitespace_Cons [OF that assms(2)]
    by (auto simp: scan_rest_def lex_at_def lex_in_def skip_comments_off)
  have "skip_bom L = (True, unget (get L))"
    using get_Cons [OF assms(1)] assms(3) by (simp add: skip_bom_def lex_at_def Let_def)
  then show ?thesis using that rest [OF assms(1)] rest [OF unget_get [OF assms(1)]]
    by (cases "chars_read_total (position L) = 0") (auto simp: scan_def)
qed

lemma scan_end:
  assumes "lex_in [] L"
  shows "fst (scan L) = end_of_input"
proof -
  have rest: "fst (scan_rest L0) = end_of_input" if "lex_in [] L0" for L0
  proof -
    have "skip_whitespace L0 = get L0"
      using get_Nil [OF that] by (subst skip_whitespace.simps) (simp add: Let_def)
    then show ?thesis using get_Nil [OF that]
      by (simp add: scan_rest_def lex_in_def skip_comments_off scan_token_def)
  qed
  have "skip_bom L = (True, unget (get L))"
    using get_Nil [OF assms] by (simp add: skip_bom_def Let_def)
  then show ?thesis using rest [OF assms] rest [OF unget_get [OF assms]] by (simp add: scan_def)
qed

lemma scan_literal_ok: "lex_in (cs @ r) L \<Longrightarrow> \<exists>L'. scan_literal cs t L = (t, L') \<and> lex_in r L'"
proof (induction cs t L rule: scan_literal.induct)
  case (2 c cs t L)
  have "lex_at c (cs @ r) (get L)" using 2 by (auto intro: get_Cons)
  then show ?case using 2 by (simp add: lex_at_def Let_def)
qed auto

lemma token_split:
  assumes "lex_in (c # r) L" "c \<notin> {SP, TAB, LF, CR}" "c \<noteq> CHR 0xEF"
    and "\<And>L1. lex_at c r L1 \<Longrightarrow> \<exists>L'. scan_token L1 = (t, L') \<and> Q L'"
  shows "\<exists>L'. scan L = (t, L') \<and> Q L'"
  by (rule scan_Cons [OF assms(1,2,3)]) (use assms(4) in auto)

lemma scan_structural:
  assumes "lex_in (c # r) L"
    "(c, t) \<in> {(CHR ''['', begin_array), (CHR '']'', end_array), (CHR ''{'', begin_object), (CHR ''}'', end_object),
      (CHR '':'', name_separator), (CHR '','', value_separator)}"
  shows "\<exists>L'. scan L = (t, L') \<and> lex_in r L'"
proof (rule token_split [OF assms(1)])
  show "c \<notin> {SP, TAB, LF, CR}" "c \<noteq> CHR 0xEF" using assms(2) by (elim insertE; simp)+
  show "\<exists>L'. scan_token L1 = (t, L') \<and> lex_in r L'" if "lex_at c r L1" for L1
    using assms(2) that by (elim insertE) (simp_all add: scan_token_def lex_at_def)
qed

lemma scan_literals:
  "lex_in (''true'' @ r) L \<Longrightarrow> \<exists>L'. scan L = (literal_true, L') \<and> lex_in r L'"
  "lex_in (''false'' @ r) L \<Longrightarrow> \<exists>L'. scan L = (literal_false, L') \<and> lex_in r L'"
  "lex_in (''null'' @ r) L \<Longrightarrow> \<exists>L'. scan L = (literal_null, L') \<and> lex_in r L'"
proof -
  have lit: "\<exists>L'. scan_literal cs t L1 = (t, L') \<and> lex_in r L'" if "lex_at c (cs @ r) L1" for c cs t L1
    using scan_literal_ok lex_atD(2) [OF that] .
  show "\<exists>L'. scan L = (literal_true, L') \<and> lex_in r L'" if "lex_in (''true'' @ r) L"
    by (rule token_split [of "CHR ''t''" "''rue'' @ r"])
      (use that lit [of _ "''rue''"] in \<open>auto simp: scan_token_def lex_atD(1) simp del: scan_literal.simps\<close>)
  show "\<exists>L'. scan L = (literal_false, L') \<and> lex_in r L'" if "lex_in (''false'' @ r) L"
    by (rule token_split [of "CHR ''f''" "''alse'' @ r"])
      (use that lit [of _ "''alse''"] in \<open>auto simp: scan_token_def lex_atD(1) simp del: scan_literal.simps\<close>)
  show "\<exists>L'. scan L = (literal_null, L') \<and> lex_in r L'" if "lex_in (''null'' @ r) L"
    by (rule token_split [of "CHR ''n''" "''ull'' @ r"])
      (use that lit [of _ "''ull''"] in \<open>auto simp: scan_token_def lex_atD(1) simp del: scan_literal.simps\<close>)
qed

subsection \<open>Numbers\<close>

definition ends_number :: "string \<Rightarrow> bool" where
  "ends_number r \<longleftrightarrow> (case r of [] \<Rightarrow> True | c # _ \<Rightarrow> \<not> isdigit c \<and> c \<notin> {CHR ''.'', CHR ''e'', CHR ''E''})"

lemma get_ends_number:
  assumes "lex_in r L" "ends_number r"
  shows "\<not> digit_read (get L)" "\<not> exponent_read (get L)" "current (get L) \<noteq> Some (CHR ''.'')"
  using assms get_Nil [of L] get_Cons [of _ _ L]
  by (cases r; fastforce simp: ends_number_def digit_read_def exponent_read_def lex_at_def)+

lemma scan_number_any1_ok:
  "lex_in (ds @ r) L \<Longrightarrow> \<forall>d \<in> set ds. isdigit d \<Longrightarrow> ends_number r \<Longrightarrow>
   \<exists>L1. scan_number_any1 t L = scan_number_done t (get L1) \<and> token_buffer L1 = token_buffer L @ ds \<and> lex_in r L1"
proof (induction ds arbitrary: L)
  case Nil
  then show ?case using get_ends_number [of r L] by (subst scan_number_any1.simps) (auto simp: Let_def)
next
  case (Cons d ds)
  have at: "lex_at d (ds @ r) (get L)" using Cons.prems(1) by (auto intro: get_Cons)
  have "digit_read (get L)" using at Cons.prems(2) by (simp add: lex_at_def digit_read_def)
  then have "scan_number_any1 t L = scan_number_any1 t (add_current (get L))"
    by (subst scan_number_any1.simps) (simp add: Let_def)
  moreover have "lex_in (ds @ r) (add_current (get L))" using at lex_atD(2) by simp
  ultimately show ?case
    using Cons.IH [of "add_current (get L)"] Cons.prems(2,3) add_current_at [OF at] by auto
qed

lemma scan_number_zero_ok:
  "lex_in r L \<Longrightarrow> ends_number r \<Longrightarrow> scan_number_zero t L = scan_number_done t (get L)"
  using get_ends_number [of r L] by (simp add: scan_number_zero_def Let_def)

lemma to_string_nat_head: "n \<noteq> 0 \<Longrightarrow> hd (to_string_nat n) \<noteq> CHR ''0''"
proof (induction n rule: to_string_nat.induct)
  case (1 n)
  show ?case
  proof (cases "n < 10")
    case True
    then show ?thesis using 1 digit_val_digit_char [OF True] by (auto simp: to_string_nat_less10 digit_val_def byte_def)
  next
    case False
    then show ?thesis using 1 by (simp add: to_string_nat_ge10)
  qed
qed

lemma digit_not_special:
  assumes "isdigit c"
  shows "c \<notin> {SP, TAB, LF, CR}" "c \<noteq> CHR 0xEF" "c \<noteq> CHR ''-''"
    "current L = Some c \<Longrightarrow> scan_token L = scan_number L"
proof -
  have ne: "c \<noteq> d" if "\<not> isdigit d" for d using assms that by auto
  show "c \<notin> {SP, TAB, LF, CR}" "c \<noteq> CHR 0xEF" "c \<noteq> CHR ''-''"
    using ne by (simp_all add: isdigit_def byte_def)
  have "c \<notin> {CHR ''['', CHR '']'', CHR ''{'', CHR ''}'', CHR '':'', CHR '','', CHR ''t'', CHR ''f'', CHR ''n'', DQ, NUL}"
    using ne by (simp add: isdigit_def byte_def)
  then show "scan_token L = scan_number L" if "current L = Some c"
    using assms that by (auto simp: scan_token_def)
qed

definition scan_digits :: "token_type \<Rightarrow> lexer \<Rightarrow> token_type \<times> lexer" where
  "scan_digits t L =
     (if current L = Some (CHR ''0'') then scan_number_zero t (add_current L) else scan_number_any1 t (add_current L))"

lemma scan_digits_ok:
  assumes n: "to_string_nat n = d # ds" and at: "lex_at d (ds @ r) L" and r: "ends_number r"
  shows "\<exists>L1. scan_digits t L = scan_number_done t (get L1) \<and>
    token_buffer L1 = token_buffer L @ to_string_nat n \<and> lex_in r L1"
proof -
  have in0: "lex_in (ds @ r) (add_current L)" using at lex_atD(2) by simp
  show ?thesis
  proof (cases "n = 0")
    case True
    have "to_string_nat 0 = ''0''" by code_simp
    then have "ds = []" "d = CHR ''0''" using n True by simp_all
    then show ?thesis
      using scan_number_zero_ok [of r "add_current L"] in0 r add_current_at [OF at] n lex_atD(1) [OF at]
      by (intro exI [of _ "add_current L"]) (simp add: scan_digits_def)
  next
    case False
    then have "d \<noteq> CHR ''0''" using to_string_nat_head [of n] n by simp
    moreover have "\<forall>d \<in> set ds. isdigit d" using to_string_nat_digits [of n] n by simp
    ultimately show ?thesis
      using scan_number_any1_ok [OF in0 _ r] add_current_at [OF at] n lex_atD(1) [OF at] by (simp add: scan_digits_def)
  qed
qed

lemma token_buffer_reset: "token_buffer (reset L) = []"
  by (simp add: reset_def)

lemma scan_unsigned_ok:
  assumes "lex_in (to_string_int (uint (w :: 64 word)) @ r) L" "ends_number r"
  shows "\<exists>L'. scan L = (value_unsigned, L') \<and> unsigned_value L' = w \<and> lex_in r L'"
proof -
  define n where "n = unat w"
  have n: "to_string_int (uint w) = to_string_nat n" by (simp add: to_string_int_def n_def unat_eq_nat_uint [symmetric] not_less)
  have less: "n < 2 ^ 64" using unsigned_less [of w, where 'a = nat] by (simp add: n_def)
  obtain d ds where ds: "to_string_nat n = d # ds" by (cases "to_string_nat n") simp_all
  have d: "isdigit d" using to_string_nat_digits [of n] unfolding ds by simp
  show ?thesis
  proof (rule token_split)
    show "lex_in (d # ds @ r) L" using assms(1) n ds by simp
    show "d \<notin> {SP, TAB, LF, CR}" "d \<noteq> CHR 0xEF" using digit_not_special [OF d] by simp_all
    fix L1 assume at: "lex_at d (ds @ r) L1"
    then have st: "scan_token L1 = scan_digits value_unsigned (reset L1)"
      using digit_not_special(3) [OF d] digit_not_special(4) [OF d, of L1] by (simp add: lex_at_def scan_number_def scan_digits_def Let_def)
    obtain L2 where L2: "scan_digits value_unsigned (reset L1) = scan_number_done value_unsigned (get L2)"
      "token_buffer L2 = to_string_nat n" "lex_in r L2"
      using scan_digits_ok [OF ds _ assms(2), of "reset L1" value_unsigned] at by (auto simp: token_buffer_reset)
    show "\<exists>L'. scan_token L1 = (value_unsigned, L') \<and> unsigned_value L' = w \<and> lex_in r L'"
      using st L2 less unget_get [OF L2(3)] by (simp add: scan_number_done_def Let_def n_def)
  qed
qed

lemma scan_integer_ok:
  assumes "lex_in (to_string_int (sint (w :: 64 word)) @ r) L" "ends_number r" "sint w < 0"
  shows "\<exists>L'. scan L = (value_integer, L') \<and> integer_value L' = w \<and> lex_in r L'"
proof -
  define n where "n = nat (- sint w)"
  have n: "to_string_int (sint w) = CHR ''-'' # to_string_nat n" using assms(3) by (simp add: to_string_int_def n_def)
  have le: "n \<le> 2 ^ 63" using sint_greater_eq [of w] by (simp add: n_def)
  obtain d ds where ds: "to_string_nat n = d # ds" by (cases "to_string_nat n") simp_all
  have d: "isdigit d" using to_string_nat_digits [of n] unfolding ds by simp
  have w: "word_of_int (- int n) = w" using assms(3) by (simp add: n_def)
  show ?thesis
  proof (rule token_split)
    show "lex_in (CHR ''-'' # d # ds @ r) L" using assms(1) n ds by simp
    show "CHR ''-'' \<notin> {SP, TAB, LF, CR}" "CHR ''-'' \<noteq> CHR 0xEF" by simp_all
    fix L1 assume at: "lex_at (CHR ''-'') (d # ds @ r) L1"
    define L0 where "L0 = add_current (reset L1)"
    have st: "scan_token L1 = scan_number_minus L0"
      using at by (simp add: lex_at_def scan_token_def scan_number_def Let_def L0_def)
    have at0: "lex_at d (ds @ r) (get L0)" using get_Cons [of d "ds @ r" L0] lex_atD(2) [OF at] by (simp add: L0_def)
    have buf: "token_buffer (get L0) = ''-''"
      using add_current_at [of "CHR ''-''" "d # ds @ r" "reset L1"] at by (simp add: L0_def token_buffer_reset)
    have "scan_number_minus L0 = scan_digits value_integer (get L0)"
      using at0 d by (auto simp: scan_number_minus_def scan_digits_def Let_def digit_read_def lex_at_def)
    moreover obtain L2 where L2: "scan_digits value_integer (get L0) = scan_number_done value_integer (get L2)"
      "token_buffer L2 = CHR ''-'' # to_string_nat n" "lex_in r L2"
      using scan_digits_ok [OF ds at0 assms(2), of value_integer] buf by auto
    ultimately show "\<exists>L'. scan_token L1 = (value_integer, L') \<and> integer_value L' = w \<and> lex_in r L'"
      using st le unget_get [OF L2(3)] w by (simp add: scan_number_done_def Let_def)
  qed
qed

subsection \<open>Strings\<close>

lemma scan_string_step:
  assumes "lex_at c r (get L)" "c \<noteq> DQ"
  shows "c = BSL \<Longrightarrow> scan_escape (get L) = (True, L1) \<Longrightarrow> scan_string_loop L = scan_string_loop L1"
    "c \<noteq> BSL \<Longrightarrow> 0x20 \<le> byte c \<Longrightarrow> scan_utf8 c (get L) = (True, L1) \<Longrightarrow> scan_string_loop L = scan_string_loop L1"
  using assms by (subst scan_string_loop.simps, simp add: lex_at_def Let_def)+

lemma hex_digit_value_lower: "n < 16 \<Longrightarrow> hex_digit_value (hex_digit_lower n) = Some n"
  by (auto simp: hex_digit_value_def hex_digit_lower_def)

lemma get_codepoint_escape:
  assumes "lex_in ([hex_digit_lower 0, hex_digit_lower 0, hex_digit_lower a, hex_digit_lower b] @ r) L" "a < 16" "b < 16"
  shows "\<exists>L'. get_codepoint L = (Some (a * 16 + b), L') \<and> lex_in r L'"
proof -
  define L1 where "L1 = get L"
  define L2 where "L2 = get L1"
  define L3 where "L3 = get L2"
  define L4 where "L4 = get L3"
  have 1: "lex_at (hex_digit_lower 0) ([hex_digit_lower 0, hex_digit_lower a, hex_digit_lower b] @ r) L1"
    unfolding L1_def using assms(1) by (auto intro: get_Cons)
  have 2: "lex_at (hex_digit_lower 0) ([hex_digit_lower a, hex_digit_lower b] @ r) L2"
    unfolding L2_def using lex_atD(2) [OF 1] by (auto intro: get_Cons)
  have 3: "lex_at (hex_digit_lower a) ([hex_digit_lower b] @ r) L3"
    unfolding L3_def using lex_atD(2) [OF 2] by (auto intro: get_Cons)
  have 4: "lex_at (hex_digit_lower b) r L4"
    unfolding L4_def using lex_atD(2) [OF 3] by (auto intro: get_Cons)
  have "get_codepoint L = (Some (a * 16 + b), L4)"
    using lex_atD(1) [OF 1] lex_atD(1) [OF 2] lex_atD(1) [OF 3] lex_atD(1) [OF 4] assms(2,3)
    by (simp add: get_codepoint_def L1_def [symmetric] L2_def [symmetric] L3_def [symmetric] L4_def [symmetric]
        hex_digit_value_lower push_bit_eq_mult)
  then show ?thesis using lex_atD(2) [OF 4] by auto
qed

lemma scan_escape_ok:
  assumes "byte c < 0x20 \<or> c = DQ \<or> c = BSL" "escape_byte c = BSL # e" "lex_in (e @ r) L"
  shows "\<exists>L'. scan_escape L = (True, L') \<and> token_buffer L' = token_buffer L @ [c] \<and> lex_in r L'"
proof -
  have simple: "\<exists>L'. scan_escape L = (True, L') \<and> token_buffer L' = token_buffer L @ [c] \<and> lex_in r L'"
    if "e = [x]" "scan_escape L = (True, add c (get L))" for x
    using that assms(3) get_Cons [of x r L] by (auto simp: add_def dest: lex_atD(2))
  have cur: "current (get L) = Some x" if "e = x # e'" for x e'
    using assms(3) get_Cons [of x "e' @ r" L] that by (auto simp: lex_at_def)
  show ?thesis
  proof (cases "c \<in> {CHR 0x08, TAB, LF, CHR 0x0C, CR, DQ, BSL}")
    case True
    then obtain x where x: "e = [x]" "(c, x) \<in> {(CHR 0x08, CHR ''b''), (TAB, CHR ''t''), (LF, CHR ''n''),
        (CHR 0x0C, CHR ''f''), (CR, CHR ''r''), (DQ, DQ), (BSL, BSL)}"
      using assms(2) by (elim insertE) (simp_all add: escape_byte_def)
    have "scan_escape L = (True, add c (get L))"
      using x(2) cur [OF x(1)] by (elim insertE) (simp_all add: scan_escape_def Let_def)
    with x(1) show ?thesis by (rule simple)
  next
    case False
    then have small: "byte c < 0x20" using assms(1) by auto
    define a where "a = byte c div 16"
    define b where "b = byte c mod 16"
    have ab: "a < 16" "b < 16" "a * 16 + b = byte c" using small by (simp_all add: a_def b_def)
    have "a < 2" using small by (simp add: a_def)
    then have e: "e = CHR ''u'' # [hex_digit_lower 0, hex_digit_lower 0, hex_digit_lower a, hex_digit_lower b]"
      using assms(2) False small by (auto simp: escape_byte_def u_escape_def a_def b_def)
    have at: "lex_at (CHR ''u'') ([hex_digit_lower 0, hex_digit_lower 0, hex_digit_lower a, hex_digit_lower b] @ r) (get L)"
      using assms(3) e by (auto intro: get_Cons)
    from get_codepoint_escape [OF lex_atD(2) [OF at] ab(1,2)] obtain L2 where
      L2: "get_codepoint (get L) = (Some (byte c), L2)" "lex_in r L2" unfolding ab(3) by blast
    have "utf8_encode (byte c) = [c]" using small by (simp add: utf8_encode_def byte_def)
    then show ?thesis using L2 at small token_buffer_get_codepoint [OF L2(1)]
      by (simp add: scan_escape_def Let_def lex_at_def scan_unicode_escape_def)
  qed
qed

lemma next_bytes_loop_ok:
  "utf8_rest rs t \<Longrightarrow> length t = length rs \<Longrightarrow> lex_in (t @ r) L \<Longrightarrow>
   \<exists>L'. next_bytes_loop rs L = (True, L') \<and> token_buffer L' = token_buffer L @ t \<and> lex_in r L'"
proof (induction rs t arbitrary: L rule: utf8_rest.induct)
  case (4 lo hi rs c cs)
  have at: "lex_at c (cs @ r) (get L)" using "4.prems"(3) by (auto intro: get_Cons)
  have "lex_in (cs @ r) (add_current (get L))" using lex_atD(2) [OF at] by simp
  from "4.IH" [OF _ _ this] "4.prems" obtain L' where
    "next_bytes_loop rs (add_current (get L)) = (True, L')" "token_buffer L' = token_buffer L @ c # cs" "lex_in r L'"
    using add_current_at [OF at] by auto
  then show ?case using lex_atD(1) [OF at] "4.prems"(1) by (simp add: Let_def)
qed auto

lemma utf8_rest_split:
  "utf8_rest rs s \<Longrightarrow> \<exists>t u. s = t @ u \<and> length t = length rs \<and> utf8_rest rs t \<and> utf8 u"
proof (induction rs s rule: utf8_rest.induct)
  case (4 lo hi rs c cs)
  then obtain t u where "cs = t @ u" "length t = length rs" "utf8_rest rs t" "utf8 u" by auto
  then show ?case using "4.prems" by (intro exI [of _ "c # t"] exI [of _ u]) auto
qed (auto simp: utf8_def)

lemma high_tail:
  "utf8_tail b = Some rs \<Longrightarrow> length t = length rs \<Longrightarrow> utf8_rest rs t \<Longrightarrow> \<forall>d \<in> set t. 0x80 \<le> byte d"
proof -
  have "\<forall>d \<in> set t. 0x80 \<le> byte d" if "utf8_rest rs t" "length t = length rs" "\<forall>(lo, hi) \<in> set rs. 0x80 \<le> lo" for rs t
    using that by (induction rs t rule: utf8_rest.induct) auto
  moreover have "\<forall>(lo, hi) \<in> set rs. 0x80 \<le> lo" if "utf8_tail b = Some rs" for rs
    using that by (auto simp: utf8_tail_def split: if_splits)
  ultimately show "utf8_tail b = Some rs \<Longrightarrow> length t = length rs \<Longrightarrow> utf8_rest rs t \<Longrightarrow> \<forall>d \<in> set t. 0x80 \<le> byte d"
    by blast
qed

lemma scan_string_loop_ok:
  "utf8 s \<Longrightarrow> lex_in (concat (map escape_byte s) @ DQ # r) L \<Longrightarrow>
   \<exists>L'. scan_string_loop L = (value_string, L') \<and> token_buffer L' = token_buffer L @ s \<and> lex_in r L'"
proof (induction "length s" arbitrary: s L rule: less_induct)
  case less
  show ?case
  proof (cases s)
    case Nil
    then have "lex_at DQ r (get L)" using less.prems(2) by (auto intro: get_Cons)
    then show ?thesis using Nil by (subst scan_string_loop.simps) (auto simp: lex_at_def Let_def)
  next
    case (Cons c cs)
    let ?r = "concat (map escape_byte cs) @ DQ # r"
    show ?thesis
    proof (cases "byte c < 0x20 \<or> c = DQ \<or> c = BSL")
      case True
      have "\<exists>e. escape_byte c = BSL # e" using True by (auto simp: escape_byte_def u_escape_def)
      then obtain e where e: "escape_byte c = BSL # e" ..
      have "byte c < 0x80" using True by (auto simp: byte_def)
      then have cs: "utf8 cs" using less.prems(1) Cons by (simp add: utf8_def utf8_tail_def)
      have at: "lex_at BSL (e @ ?r) (get L)" using less.prems(2) Cons e by (auto intro: get_Cons)
      from scan_escape_ok [OF True e lex_atD(2) [OF at]] obtain L1 where
        L1: "scan_escape (get L) = (True, L1)" "token_buffer L1 = token_buffer L @ [c]" "lex_in ?r L1" by auto
      have "scan_string_loop L = scan_string_loop L1" using scan_string_step(1) [OF at _ _ L1(1)] by simp
      then show ?thesis using less.hyps [OF _ cs L1(3)] Cons L1(2) by auto
    next
      case False
      then have esc_c: "escape_byte c = [c]" by (auto simp: escape_byte_def byte_def)
      obtain rs where rs: "utf8_tail (byte c) = Some rs" "utf8_rest rs cs"
        using less.prems(1) Cons by (auto simp: utf8_def split: option.splits)
      from utf8_rest_split [OF rs(2)] obtain t u where
        tu: "cs = t @ u" "length t = length rs" "utf8_rest rs t" "utf8 u" by blast
      have t: "concat (map escape_byte t) = t" using high_tail [OF rs(1) tu(2,3)] by (induction t) auto
      have at: "lex_at c (t @ concat (map escape_byte u) @ DQ # r) (get L)"
        using less.prems(2) Cons tu(1) t esc_c by (auto intro: get_Cons)
      from next_bytes_loop_ok [OF tu(3,2), of "concat (map escape_byte u) @ DQ # r" "add_current (get L)"] obtain L1 where
        L1: "scan_utf8 c (get L) = (True, L1)" "token_buffer L1 = token_buffer L @ c # t"
          "lex_in (concat (map escape_byte u) @ DQ # r) L1"
        using lex_atD(2) [OF at] add_current_at [OF at] rs(1)
        by (auto simp: scan_utf8_tail next_byte_in_range_def)
      have "scan_string_loop L = scan_string_loop L1" using scan_string_step(2) [OF at _ _ _ L1(1)] False by simp
      then show ?thesis using less.hyps [OF _ tu(4) L1(3)] Cons tu(1) L1(2) by auto
    qed
  qed
qed

lemma scan_string_ok_text:
  assumes "utf8 s" "lex_in (quoted s @ r) L"
  shows "\<exists>L'. scan L = (value_string, L') \<and> token_buffer L' = s \<and> lex_in r L'"
proof (rule token_split)
  show "lex_in (DQ # concat (map escape_byte s) @ DQ # r) L" using assms(2) by (simp add: quoted_def)
  fix L1 assume at: "lex_at DQ (concat (map escape_byte s) @ DQ # r) L1"
  then have "scan_token L1 = scan_string_loop (reset L1)" by (simp add: lex_at_def scan_token_def scan_string_def)
  then show "\<exists>L'. scan_token L1 = (value_string, L') \<and> token_buffer L' = s \<and> lex_in r L'"
    using scan_string_loop_ok [OF assms(1), of r "reset L1"] lex_atD(2) [OF at] by (simp add: token_buffer_reset)
qed simp_all

subsection \<open>Values\<close>

fun printable :: "json \<Rightarrow> bool" where
  \<comment> \<open>the values whose text is JSON and has all they hold: no binaries, no discarded values; floating-point
    numbers are left out\<close>
  "printable (JObject m) \<longleftrightarrow> (\<forall>p \<in> set m. printable (snd p))"
| "printable (JArray js) \<longleftrightarrow> (\<forall>j \<in> set js. printable j)"
| "printable (JFloat x) \<longleftrightarrow> False"
| "printable (JBinary _ _) \<longleftrightarrow> False"
| "printable JDiscarded \<longleftrightarrow> False"
| "printable _ \<longleftrightarrow> True"

fun reread :: "json \<Rightarrow> json" where
  \<comment> \<open>a number without a minus sign is read as an unsigned one\<close>
  "reread (JObject m) = JObject (map (\<lambda>p. (fst p, reread (snd p))) m)"
| "reread (JArray js) = JArray (map reread js)"
| "reread (JInteger x) = (if sint x < 0 then JInteger x else JUnsigned x)"
| "reread j = j"

definition reads_as :: "string \<Rightarrow> json \<Rightarrow> bool" where
  "reads_as s j \<longleftrightarrow> (\<forall>r L. lex_in (s @ r) L \<longrightarrow> ends_number r \<longrightarrow>
     (\<exists>t L1 L'. scan L = (t, L1) \<and> value_at t L1 j L' \<and> lex_in r L'))"

lemma reads_asD:
  "reads_as s j \<Longrightarrow> lex_in (s @ r) L \<Longrightarrow> ends_number r \<Longrightarrow>
   \<exists>t L1 L'. scan L = (t, L1) \<and> value_at t L1 j L' \<and> lex_in r L'"
  unfolding reads_as_def by blast

lemma commas_concat: "commas (s # ts) = s @ concat (map (\<lambda>t. CHR '','' # t) ts)"
  by (induction ts arbitrary: s) (auto simp: commas_Cons)

lemma ends_number_simps [simp]:
  "ends_number []" "ends_number (CHR '','' # r)" "ends_number (CHR '']'' # r)" "ends_number (CHR ''}'' # r)"
  by (simp_all add: ends_number_def isdigit_def byte_def)

lemmas grammar_intros = value_at_elements_at_members_at_member_at.intros

lemma elements_text:
  assumes "\<And>j. j \<in> set js \<Longrightarrow> reads_as (f j) (g j)" "lex_in (concat (map (\<lambda>t. CHR '','' # t) (map f js)) @ CHR '']'' # r) L"
  shows "\<exists>L'. elements_at acc L (acc @ map g js) L' \<and> lex_in r L'"
  using assms
proof (induction js arbitrary: acc L)
  case Nil
  then show ?case using scan_structural [of "CHR '']''" r L end_array] by (auto intro: grammar_intros)
next
  case (Cons j js)
  let ?r = "concat (map (\<lambda>t. CHR '','' # t) (map f js)) @ CHR '']'' # r"
  obtain L1 where L1: "scan L = (value_separator, L1)" "lex_in (f j @ ?r) L1"
    using scan_structural [of "CHR '',''" "f j @ ?r" L value_separator] Cons.prems(2) by auto
  have "ends_number ?r" by (cases js) simp_all
  then obtain t L2 L3 where L3: "scan L1 = (t, L2)" "value_at t L2 (g j) L3" "lex_in ?r L3"
    using reads_asD [OF Cons.prems(1) L1(2)] by auto
  obtain L' where "elements_at (acc @ [g j]) L3 ((acc @ [g j]) @ map g js) L'" "lex_in r L'"
    using Cons.IH [OF _ L3(3), of "acc @ [g j]"] Cons.prems(1) by auto
  then show ?case using next_element_at [OF L1(1) L3(1,2)] by auto
qed

definition member_text :: "string \<times> json \<Rightarrow> string" where
  "member_text p = quoted (fst p) @ '':'' @ dump_text (snd p)"

lemma member_reads:
  assumes "utf8 (fst p)" "reads_as (dump_text (snd p)) v" "lex_in (member_text p @ r) L" "ends_number r"
  shows "\<exists>t L1 L'. scan L = (t, L1) \<and> member_at t L1 (fst p) v L' \<and> lex_in r L'"
proof -
  obtain L1 where L1: "scan L = (value_string, L1)" "token_buffer L1 = fst p" "lex_in ('':'' @ dump_text (snd p) @ r) L1"
    using scan_string_ok_text [OF assms(1), of "'':'' @ dump_text (snd p) @ r" L] assms(3) by (auto simp: member_text_def)
  obtain L2 where L2: "scan L1 = (name_separator, L2)" "lex_in (dump_text (snd p) @ r) L2"
    using scan_structural [of "CHR '':''" "dump_text (snd p) @ r" L1 name_separator] L1(3) by auto
  obtain t L3 L4 where L4: "scan L2 = (t, L3)" "value_at t L3 v L4" "lex_in r L4"
    using reads_asD [OF assms(2) L2(2) assms(4)] by blast
  then show ?thesis using member_at [OF L2(1) L4(1,2)] L1(1,2) by auto
qed

lemma members_text:
  assumes "\<And>p. p \<in> set m \<Longrightarrow> utf8 (fst p) \<and> reads_as (dump_text (snd p)) (g (snd p))"
    "lex_in (concat (map (\<lambda>t. CHR '','' # t) (map member_text m)) @ CHR ''}'' # r) L"
    "sorted_keys (acc @ map (\<lambda>p. (fst p, g (snd p))) m)"
  shows "\<exists>L'. members_at acc L (acc @ map (\<lambda>p. (fst p, g (snd p))) m) L' \<and> lex_in r L'"
  using assms
proof (induction m arbitrary: acc L)
  case Nil
  then show ?case using scan_structural [of "CHR ''}''" r L end_object] by (auto intro: grammar_intros)
next
  case (Cons p m)
  let ?r = "concat (map (\<lambda>t. CHR '','' # t) (map member_text m)) @ CHR ''}'' # r"
  obtain L1 where L1: "scan L = (value_separator, L1)" "lex_in (member_text p @ ?r) L1"
    using scan_structural [of "CHR '',''" "member_text p @ ?r" L value_separator] Cons.prems(2) by auto
  have r: "ends_number ?r" by (cases m) simp_all
  have p: "utf8 (fst p)" "reads_as (dump_text (snd p)) (g (snd p))" using Cons.prems(1) [of p] by auto
  obtain t L2 L3 where L3: "scan L1 = (t, L2)" "member_at t L2 (fst p) (g (snd p)) L3" "lex_in ?r L3"
    using member_reads [OF p L1(2) r] by blast
  let ?acc = "acc @ [(fst p, g (snd p))]"
  have sorted: "sorted_keys (?acc @ map (\<lambda>p. (fst p, g (snd p))) m)" using Cons.prems(3) by simp
  have "\<forall>a \<in> fst ` set acc. a < fst p"
    using Cons.prems(3) by (auto simp: sorted_keys_def sorted_wrt_append)
  then have "map_assign (fst p) (g (snd p)) acc = ?acc" by (rule map_assign_append)
  moreover obtain L' where "members_at ?acc L3 (?acc @ map (\<lambda>p. (fst p, g (snd p))) m) L'" "lex_in r L'"
    using Cons.IH [OF _ L3(3) sorted] Cons.prems(1) by auto
  ultimately show ?case using next_member_at [OF L1(1) L3(1,2), of acc] by auto
qed

lemma reads_asI:
  "(\<And>r L. lex_in (s @ r) L \<Longrightarrow> ends_number r \<Longrightarrow>
     \<exists>t L1 L'. scan L = (t, L1) \<and> value_at t L1 j L' \<and> lex_in r L') \<Longrightarrow> reads_as s j"
  unfolding reads_as_def by blast

lemma array_reads:
  assumes "\<And>j. j \<in> set js \<Longrightarrow> reads_as (dump_text j) (reread j)"
  shows "reads_as (dump_text (JArray js)) (reread (JArray js))"
proof (rule reads_asI)
  fix r L assume L: "lex_in (dump_text (JArray js) @ r) L"
  then obtain L1 where L1: "scan L = (begin_array, L1)" "lex_in (commas (map dump_text js) @ CHR '']'' # r) L1"
    using scan_structural [of "CHR ''[''" _ L begin_array] by auto
  show "\<exists>t L1 L'. scan L = (t, L1) \<and> value_at t L1 (reread (JArray js)) L' \<and> lex_in r L'"
  proof (cases js)
    case Nil
    then show ?thesis using L1 scan_structural [of "CHR '']''" r L1 end_array] empty_array_at by force
  next
    case (Cons j js')
    let ?r = "concat (map (\<lambda>t. CHR '','' # t) (map dump_text js')) @ CHR '']'' # r"
    have "lex_in (dump_text j @ ?r) L1" using L1(2) Cons by (simp add: commas_concat)
    moreover have "ends_number ?r" by (cases js') simp_all
    ultimately obtain t L2 L3 where L3: "scan L1 = (t, L2)" "value_at t L2 (reread j) L3" "lex_in ?r L3"
      using reads_asD [OF assms] Cons by (metis list.set_intros(1))
    obtain L' where "elements_at [reread j] L3 ([reread j] @ map reread js') L'" "lex_in r L'"
      using elements_text [of js' dump_text reread r L3 "[reread j]"] assms Cons L3(3) by auto
    then show ?thesis using array_at [OF L3(1,2)] L1(1) Cons by auto
  qed
qed

lemma object_reads:
  assumes "\<And>p. p \<in> set m \<Longrightarrow> utf8 (fst p) \<and> reads_as (dump_text (snd p)) (reread (snd p))" "sorted_keys m"
  shows "reads_as (dump_text (JObject m)) (reread (JObject m))"
proof (rule reads_asI)
  fix r L assume L: "lex_in (dump_text (JObject m) @ r) L"
  then obtain L1 where L1: "scan L = (begin_object, L1)" "lex_in (commas (map member_text m) @ CHR ''}'' # r) L1"
    using scan_structural [of "CHR ''{''" _ L begin_object] by (auto simp: member_text_def [abs_def])
  show "\<exists>t L1 L'. scan L = (t, L1) \<and> value_at t L1 (reread (JObject m)) L' \<and> lex_in r L'"
  proof (cases m)
    case Nil
    then show ?thesis using L1 scan_structural [of "CHR ''}''" r L1 end_object] empty_object_at by force
  next
    case (Cons p m')
    let ?r = "concat (map (\<lambda>t. CHR '','' # t) (map member_text m')) @ CHR ''}'' # r"
    have t1: "lex_in (member_text p @ ?r) L1" using L1(2) Cons by (simp add: commas_concat)
    have r: "ends_number ?r" by (cases m') simp_all
    have p: "utf8 (fst p)" "reads_as (dump_text (snd p)) (reread (snd p))" using assms(1) [of p] Cons by auto
    obtain t L2 L3 where L3: "scan L1 = (t, L2)" "member_at t L2 (fst p) (reread (snd p)) L3" "lex_in ?r L3"
      using member_reads [OF p t1 r] by blast
    let ?acc = "[(fst p, reread (snd p))]"
    have "sorted_keys (?acc @ map (\<lambda>p. (fst p, reread (snd p))) m')"
      using assms(2) Cons by (simp add: sorted_keys_def comp_def)
    then obtain L' where "members_at ?acc L3 (?acc @ map (\<lambda>p. (fst p, reread (snd p))) m') L'" "lex_in r L'"
      using members_text [of m' reread r L3 ?acc] assms(1) Cons L3(3) by auto
    then show ?thesis using object_at [OF L3(1,2)] L1(1) Cons by auto
  qed
qed

lemma text_reads:
  "json_ok j \<Longrightarrow> utf8_strings j \<Longrightarrow> printable j \<Longrightarrow> reads_as (dump_text j) (reread j)"
proof (induction j)
  case (JObject m)
  then show ?case by (intro object_reads) (auto simp: snds.simps)
next
  case (JArray js)
  then show ?case by (intro array_reads) auto
next
  case JNull
  then show ?case using scan_literals(3) null_at by (intro reads_asI) fastforce
next
  case (JString s)
  then show ?case using scan_string_ok_text string_at by (intro reads_asI) fastforce
next
  case (JBoolean b)
  show ?case
  proof (cases b)
    case True
    then show ?thesis using scan_literals(1) true_at by (intro reads_asI) fastforce
  next
    case False
    then show ?thesis using scan_literals(2) false_at by (intro reads_asI) fastforce
  qed
next
  case (JInteger w)
  show ?case
  proof (cases "sint w < 0")
    case True
    then show ?thesis using scan_integer_ok integer_at by (intro reads_asI) fastforce
  next
    case False
    then have "sint w = uint w" by (simp add: uint_eq_sint)
    then show ?thesis using scan_unsigned_ok unsigned_at False by (intro reads_asI) fastforce
  qed
next
  case (JUnsigned w)
  then show ?case using scan_unsigned_ok unsigned_at by (intro reads_asI) fastforce
qed auto

lemma json_parse_dump_text:
  assumes "json_ok j" "utf8_strings j" "printable j"
  shows "json_parse (dump_text j) = Inr (reread j)"
proof -
  have "lex_in (dump_text j @ []) (new_lexer (dump_text j) False)" using lex_in_new by simp
  from reads_asD [OF text_reads [OF assms] this] obtain t L L' where
    "scan (new_lexer (dump_text j) False) = (t, L)" "value_at t L (reread j) L'" "lex_in [] L'" by auto
  then have "document False (dump_text j) (reread j)" unfolding document_def by (auto intro: scan_end)
  then show ?thesis by (simp add: json_parse_def json_parse_with_iff)
qed

section \<open>Properties\<close>

text \<open>
  C6 (parse_after_dump): reading back what \<open>dump()\<close> wrote gives the value that was written, for every
  well-formed value without floating-point numbers, binary or discarded values: any nesting, any
  valid UTF-8 in strings and keys, control characters, quotes and backslashes, the full range of
  signed and unsigned numbers. Only the tag of a non-negative signed number changes: it is read as
  an unsigned number with the same bits.
\<close>

theorem parse_after_dump:
  assumes "json_ok j" "printable j" "dump_default j = Inr t"
  shows "json_parse t = Inr (reread j)"
  using assms json_parse_dump_text by (auto simp: dump_default_iff)

theorem parse_after_dump_witness:
  "json_parse ([CHR ''{'', DQ] @ ''a'' @ [DQ] @ '':[1,-2,'' @ [DQ, BSL] @ ''n'' @ [DQ] @ '',null]}'') =
     Inr (JObject [(''a'', JArray [JUnsigned 1, JInteger (- 2), JString [LF], JNull])])"
proof -
  let ?j = "JObject [(''a'', JArray [JInteger 1, JInteger (- 2), JString [LF], JNull])]"
  let ?t = "[CHR ''{'', DQ] @ ''a'' @ [DQ] @ '':[1,-2,'' @ [DQ, BSL] @ ''n'' @ [DQ] @ '',null]}''"
  have n: "to_string_nat (Suc 0) = ''1''" "to_string_nat 2 = ''2''" by code_simp+
  have "utf8 ''a''" "utf8 [LF]" by code_simp+
  moreover have "concat (map escape_byte ''a'') = ''a''" "concat (map escape_byte [LF]) = [BSL] @ ''n''" by code_simp+
  ultimately have "dump_default ?j = Inr ?t"
    by (simp add: dump_default_iff quoted_def to_string_int_def n)
  then show ?thesis using parse_after_dump [of ?j ?t] by simp
qed

text \<open>
  C14 (parsed_values_print): a value that \<open>parse\<close> returns has its objects in key order at every depth,
  only finite numbers and no binary or discarded parts, and \<open>dump()\<close> prints it: the exception for
  invalid UTF-8 cannot be thrown for a value that was read from a text, whatever bytes that text had.
\<close>

theorem parsed_values_print:
  assumes "json_parse s = Inr j"
  shows "json_ok j \<and> parsed_form j \<and> dump_default j = Inr (dump_text j)"
  using assms document_good [of False s j]
  by (simp add: json_parse_def json_parse_with_iff good_def dump_default_iff)

theorem parsed_values_print_witness:
  "json_ok (JArray [JUnsigned 7]) \<and> parsed_form (JArray [JUnsigned 7]) \<and>
   dump_default (JArray [JUnsigned 7]) = Inr ''[7]''"
proof -
  have n: "to_string_nat 7 = ''7''" by code_simp
  have "json_parse ''[7]'' = Inr (JArray [JUnsigned 7])"
    using json_parse_dump_text [of "JArray [JUnsigned 7]"] by (simp add: to_string_int_def n)
  from parsed_values_print [OF this] show ?thesis by (simp add: to_string_int_def n)
qed

end
