(* ===== verification/Platform.thy ===== *)
theory Platform
  imports Prelude "HOL-Library.AList"
begin

text \<open>
  What the tools use of the platform: the files they write and read, the paths they take apart
  (\<open>std::filesystem\<close>, \<open>std::fstream\<close>, \<open>std::regex\<close>), and the program's own logging class
  \<open>src/CPPTools/src/GLog.cpp\<close>.

  A file system is the list of its regular files with their contents, its directories, and what the
  process may open for writing or create; the order of the list is the order in which a directory
  iterator visits the files. Paths use \<open>/\<close>, as on Android. A function that throws
  \<open>std::filesystem::filesystem_error\<close> returns \<^term>\<open>None\<close>.
\<close>

section \<open>Definitions\<close>

subsection \<open>Files\<close>

record Fs =
  fs_files :: "(string \<times> string) list"
  fs_dirs :: "string list"
  fs_writable :: "string \<Rightarrow> bool"
  fs_creatable :: "string \<Rightarrow> bool"

definition file_content :: "string \<Rightarrow> Fs \<Rightarrow> string option" where
  "file_content p fs = map_of (fs_files fs) p"

definition put_file :: "string \<Rightarrow> string \<Rightarrow> Fs \<Rightarrow> Fs" where
  "put_file p s fs = fs\<lparr>fs_files := AList.update p s (fs_files fs)\<rparr>"

definition open_write :: "string \<Rightarrow> Fs \<Rightarrow> Fs option" where
  \<comment> \<open>\<open>std::ofstream{p, std::ios::out}\<close>: the file is created or emptied\<close>
  "open_write p fs = (if fs_writable fs p then Some (put_file p [] fs) else None)"

definition append_file :: "string \<Rightarrow> string \<Rightarrow> Fs \<Rightarrow> Fs" where
  \<comment> \<open>\<open>ofs.write\<close> on the file opened at \<open>p\<close>\<close>
  "append_file p s fs = (case file_content p fs of None \<Rightarrow> fs | Some t \<Rightarrow> put_file p (t @ s) fs)"

definition remove_file :: "string \<Rightarrow> Fs \<Rightarrow> Fs" where
  "remove_file p fs = fs\<lparr>fs_files := AList.delete p (fs_files fs)\<rparr>"

definition file_exists :: "string \<Rightarrow> Fs \<Rightarrow> bool" where
  "file_exists p fs \<longleftrightarrow> file_content p fs \<noteq> None \<or> p \<in> set (fs_dirs fs)"

definition is_directory :: "string \<Rightarrow> Fs \<Rightarrow> bool" where
  "is_directory p fs \<longleftrightarrow> p \<in> set (fs_dirs fs)"

definition create_directory :: "string \<Rightarrow> Fs \<Rightarrow> Fs option" where
  "create_directory p fs = (if fs_creatable fs p then Some (fs\<lparr>fs_dirs := fs_dirs fs @ [p]\<rparr>) else None)"

definition child_of :: "string \<Rightarrow> string \<Rightarrow> bool" where
  "child_of dir p \<longleftrightarrow> take (length dir + 1) p = dir @ ''/'' \<and> drop (length dir + 1) p \<noteq> [] \<and>
     CHR ''/'' \<notin> set (drop (length dir + 1) p)"

definition directory_entries :: "string \<Rightarrow> Fs \<Rightarrow> (string \<times> bool) list option" where
  \<comment> \<open>\<open>directory_iterator(dir)\<close>: the paths of the entries and whether each is a regular file\<close>
  "directory_entries dir fs =
     (if is_directory dir fs
      then Some (map (\<lambda>p. (p, True)) (filter (child_of dir) (map fst (fs_files fs))) @
                 map (\<lambda>p. (p, False)) (filter (child_of dir) (fs_dirs fs)))
      else None)"

subsection \<open>Paths\<close>

definition filename :: "string \<Rightarrow> string" where
  "filename p = rev (takeWhile (\<lambda>c. c \<noteq> CHR ''/'') (rev p))"

definition extension :: "string \<Rightarrow> string" where
  \<comment> \<open>from the last dot of the file name on; none for \<open>.\<close>, \<open>..\<close> and a name whose only dot comes first\<close>
  "extension p =
     (let n = filename p; e = rev (takeWhile (\<lambda>c. c \<noteq> CHR ''.'') (rev n))
      in if CHR ''.'' \<notin> set n \<or> n = ''.'' \<or> n = ''..'' \<or> n = CHR ''.'' # e then [] else CHR ''.'' # e)"

definition lower :: "char \<Rightarrow> char" where
  "lower c = (if 65 \<le> byte c \<and> byte c \<le> 90 then char_of (byte c + 32) else c)"

definition image_suffixes :: "string list" where
  "image_suffixes = [''.webp'', ''.png'', ''.jpg'', ''.jpeg'']"

definition matches_image_regex :: "string \<Rightarrow> bool" where
  \<comment> \<open>\<open>.*\.(webp|png|jpe?g)$\<close>, ignoring case, on the whole string; \<open>.\<close> stands for no line break\<close>
  "matches_image_regex s =
     list_ex (\<lambda>e. length e \<le> length s \<and> map lower (drop (length s - length e) s) = e \<and>
       LF \<notin> set (take (length s - length e) s) \<and> CR \<notin> set (take (length s - length e) s)) image_suffixes"

subsection \<open>Logging: \<open>GLog\<close>\<close>

datatype log_stream = Null_stream | Log_file | Std_err | Std_out

record GLog =
  EnableLog :: int
  writeToFile :: bool
  logFileOfsPtr :: "string option"    \<comment> \<open>the open log file\<close>

definition new_GLog :: GLog where
  "new_GLog = \<lparr>EnableLog = 1, writeToFile = False, logFileOfsPtr = None\<rparr>"

definition LogLevelInfo :: int where "LogLevelInfo = 0"
definition LogLevelError :: int where "LogLevelError = 1"

definition generateLogFile :: "string \<Rightarrow> Fs \<Rightarrow> GLog \<Rightarrow> (Fs \<times> GLog) option" where
  \<comment> \<open>the first argument is the hour, formatted \<open>%Y-%m-%d_%H\<close>\<close>
  "generateLogFile hour fs g =
     (if EnableLog g = 0 then Some (fs, g)
      else let p = ''log/'' @ hour @ ''.log''
           in case (if is_directory ''log'' fs then Some fs else create_directory ''log'' fs) of
                None \<Rightarrow> None
              | Some fs \<Rightarrow>
                  let fs = (if \<not> file_exists p fs then (case open_write p fs of None \<Rightarrow> fs | Some fs \<Rightarrow> fs) else fs)
                  in if fs_writable fs p
                     then Some (if file_exists p fs then fs else put_file p [] fs, g\<lparr>writeToFile := True, logFileOfsPtr := Some p\<rparr>)
                     else Some (fs, g))"

definition glog :: "int \<Rightarrow> GLog \<Rightarrow> log_stream" where
  \<comment> \<open>the stream the text goes to\<close>
  "glog level g =
     (if EnableLog g = 0 then Null_stream
      else if level = LogLevelError then (if writeToFile g \<and> logFileOfsPtr g \<noteq> None then Log_file else Std_err)
      else if level = LogLevelInfo then (if writeToFile g \<and> logFileOfsPtr g \<noteq> None then Log_file else Std_out)
      else Std_out)"

section \<open>Lemmas\<close>

lemma file_content_put [simp]: "file_content q (put_file p s fs) = (if q = p then Some s else file_content q fs)"
  by (simp add: file_content_def put_file_def update_conv')

lemma file_content_remove [simp]:
  "file_content q (remove_file p fs) = (if q = p then None else file_content q fs)"
  by (simp add: file_content_def remove_file_def delete_conv')

lemma fs_writable_put [simp]: "fs_writable (put_file p s fs) = fs_writable fs"
  by (simp add: put_file_def)

lemma fs_writable_remove [simp]: "fs_writable (remove_file p fs) = fs_writable fs"
  by (simp add: remove_file_def)

lemma append_file_content:
  "file_content q (append_file p s fs) =
     (if q = p then map_option (\<lambda>t. t @ s) (file_content p fs) else file_content q fs)"
  by (simp add: append_file_def split: option.split)

lemma fs_writable_append [simp]: "fs_writable (append_file p s fs) = fs_writable fs"
  by (simp add: append_file_def split: option.split)

lemma extension_no_more_dots: "CHR ''.'' \<notin> set (tl (extension p))"
proof -
  have "CHR ''.'' \<notin> set (takeWhile (\<lambda>c. c \<noteq> CHR ''.'') xs)" for xs :: string by (auto dest: set_takeWhileD)
  then show ?thesis by (simp add: extension_def Let_def)
qed

lemma matches_image_regex_extension:
  \<comment> \<open>on an extension, the pattern leaves no room for other characters\<close>
  assumes "matches_image_regex (extension p)"
  shows "map lower (extension p) \<in> set image_suffixes"
proof -
  let ?s = "extension p"
  obtain e where e: "e \<in> set image_suffixes" "length e \<le> length ?s"
    "map lower (drop (length ?s - length e) ?s) = e"
    using assms by (auto simp: matches_image_regex_def list_ex_iff)
  have dot: "lower c = CHR ''.'' \<longleftrightarrow> c = CHR ''.''" for c
  proof
    assume l: "lower c = CHR ''.''"
    show "c = CHR ''.''"
    proof (rule ccontr)
      assume "c \<noteq> CHR ''.''"
      then have b: "65 \<le> byte c" "byte c \<le> 90" "char_of (byte c + 32) = CHR ''.''" using l by (auto simp: lower_def split: if_splits)
      then have "byte (char_of (byte c + 32)) = 46" by (simp add: byte_def)
      then show False using b(1,2) by simp
    qed
  qed (simp add: lower_def byte_def)
  define n where "n = length ?s - length e"
  obtain e' where e': "e = CHR ''.'' # e'" using e(1) by (auto simp: image_suffixes_def)
  have n: "n < length ?s" using e(2) e' by (auto simp: n_def)
  have "lower (?s ! n) = CHR ''.''"
    using e(3) e' n by (metis Cons_nth_drop_Suc list.inject list.simps(9) n_def)
  then have at: "?s ! n = CHR ''.''" by (simp add: dot)
  have "n = 0"
  proof (rule ccontr)
    assume "n \<noteq> 0"
    then obtain m where m: "n = Suc m" by (cases n) auto
    then have "m < length (tl ?s)" using n by simp
    then have "?s ! n \<in> set (tl ?s)" using nth_mem [of m "tl ?s"] by (simp add: m nth_tl)
    then show False using extension_no_more_dots at by simp
  qed
  then show ?thesis using e(1,3) by (simp add: n_def)
qed

end
