(* ===== verification/Tools.thy ===== *)
theory Tools
  imports Http_Client Json_Roundtrip Platform
begin

text \<open>
  What the phone's and the desktop's code share: the exceptions of the libraries they call, the
  body of an HTTP result, and the weather record \<open>src/CPPTools/include/desktop/WeatherData.h\<close>, whose
  fields are also those of the Java class \<open>GQWeatherData\<close>.
\<close>

section \<open>Definitions\<close>

datatype app_exn =
    Http_exn exn
  | Json_exn json_exn
  | Filesystem_error
  | Yaml_exn
  | Null_result            \<comment> \<open>a null pointer is dereferenced\<close>
  | Division_by_zero
  | Terminate exn          \<comment> \<open>an exception leaves the function of a thread\<close>

definition std_exception :: "app_exn \<Rightarrow> bool" where
  \<comment> \<open>what \<open>catch (const std::exception &)\<close> catches; the others are not exceptions\<close>
  "std_exception e = (case e of
       Json_exn j \<Rightarrow> j \<noteq> Assertion_failed
     | Null_result \<Rightarrow> False
     | Division_by_zero \<Rightarrow> False
     | Terminate _ \<Rightarrow> False
     | _ \<Rightarrow> True)"

definition result_body :: "Result \<Rightarrow> app_exn + string" where
  \<comment> \<open>\<open>resp->body\<close>\<close>
  "result_body r = (case rt_res r of None \<Rightarrow> Inl Null_result | Some res \<Rightarrow> Inr (rs_body res))"

record WeatherData =
  city :: string
  weather :: string
  temperature :: string
  temperatureFloat :: string
  humidity :: string
  humidityFloat :: string
  winddirection :: string
  windpower :: string
  reporttime :: string

definition to_json :: "WeatherData \<Rightarrow> json" where
  "to_json w = json_of_init
     [JArray [JString ''city'', JString (city w)],
      JArray [JString ''weather'', JString (weather w)],
      JArray [JString ''temperature'', JString (temperature w)],
      JArray [JString ''temperatureFloat'', JString (temperatureFloat w)],
      JArray [JString ''humidity'', JString (humidity w)],
      JArray [JString ''humidityFloat'', JString (humidityFloat w)],
      JArray [JString ''winddirection'', JString (winddirection w)],
      JArray [JString ''windpower'', JString (windpower w)],
      JArray [JString ''reporttime'', JString (reporttime w)]]"

definition weather_fields :: "WeatherData \<Rightarrow> string list" where
  "weather_fields w = [city w, weather w, temperature w, temperatureFloat w, humidity w, humidityFloat w,
     winddirection w, windpower w, reporttime w]"

section \<open>Lemmas\<close>

lemma good_json_parse: "json_parse s = Inr j \<Longrightarrow> good j"
  using document_good [of False s j] by (simp add: json_parse_def json_parse_with_iff)

lemma json_parse_exception: "json_parse s = Inl e \<Longrightarrow> std_exception (Json_exn e)"
  using json_parse_with_no_assertion [of True False s] by (auto simp: json_parse_def std_exception_def)

lemma to_json_members:
  "to_json w = JObject
     [(''city'', JString (city w)), (''humidity'', JString (humidity w)), (''humidityFloat'', JString (humidityFloat w)),
      (''reporttime'', JString (reporttime w)), (''temperature'', JString (temperature w)),
      (''temperatureFloat'', JString (temperatureFloat w)), (''weather'', JString (weather w)),
      (''winddirection'', JString (winddirection w)), (''windpower'', JString (windpower w))]"
  by code_simp

lemma weather_keys_sorted:
  "sorted_wrt (<) [''city'', ''humidity'', ''humidityFloat'', ''reporttime'', ''temperature'', ''temperatureFloat'',
     ''weather'', ''winddirection'', ''windpower'' :: string]"
  by code_simp

lemma weather_keys_utf8:
  "list_all utf8 [''city'', ''humidity'', ''humidityFloat'', ''reporttime'', ''temperature'', ''temperatureFloat'',
     ''weather'', ''winddirection'', ''windpower'']"
  by code_simp

lemma json_ok_to_json: "json_ok (to_json w)"
  using weather_keys_sorted by (simp add: to_json_members sorted_keys_def del: sorted_keys_Cons sorted_wrt.simps)

lemma printable_to_json: "printable (to_json w)" "reread (to_json w) = to_json w"
  by (simp_all add: to_json_members)

lemma utf8_to_json: "list_all utf8 (weather_fields w) \<Longrightarrow> utf8_strings (to_json w)"
  using weather_keys_utf8 by (simp add: to_json_members weather_fields_def)

lemma hex_digit_lower_not_NUL: "n < 16 \<Longrightarrow> hex_digit_lower n \<noteq> NUL"
proof -
  have "list_all (\<lambda>n. hex_digit_lower n \<noteq> NUL) [0..<16]" by code_simp
  then show "n < 16 \<Longrightarrow> hex_digit_lower n \<noteq> NUL" by (simp only: list_all_iff set_upt) auto
qed

lemma NUL_notin_escape_byte: "NUL \<notin> set (escape_byte c)"
proof -
  have h: "hex_digit_lower (n mod 16) \<noteq> NUL" for n by (rule hex_digit_lower_not_NUL) simp
  have "NUL \<notin> set (u_escape n)" for n unfolding u_escape_def using h by (auto simp: eq_commute [of NUL])
  moreover have "byte NUL = 0" by (simp add: byte_def)
  ultimately show ?thesis by (auto simp: escape_byte_def)
qed

lemma NUL_notin_commas: "\<forall>s \<in> set ss. NUL \<notin> set s \<Longrightarrow> NUL \<notin> set (commas ss)"
  by (induction ss rule: commas.induct) auto

lemma NUL_notin_string_array: "NUL \<notin> set (dump_text (JArray (map JString ss)))"
proof -
  have "NUL \<notin> set (quoted s)" for s using NUL_notin_escape_byte by (auto simp: quoted_def)
  then show ?thesis using NUL_notin_commas [of "map (dump_text \<circ> JString) ss"] by (auto simp: comp_def)
qed

subsection \<open>Messages between the desktop and the phone\<close>

text \<open>
  A kind of message is printed as a JSON text on one side and read on the other. What the reader gets
  over a working connection follows for every kind from the one law that its text parses.
\<close>

locale json_message =
  fixes text_of :: "'a \<Rightarrow> string" and value_of :: "'a \<Rightarrow> json" and sendable :: "'a \<Rightarrow> bool"
  assumes text_parses: "sendable x \<Longrightarrow> json_parse (text_of x) = Inr (value_of x)"
begin

lemma delivered:
  assumes "sendable x" "os_socket (w_os W sock) up incoming outgoing" "plain_client cl" "path \<noteq> []"
    "create_client_socket W cl w = (Inr sock, w1)" "up w1"
    "incoming w1 = response_wire status reason hs wire @ left" "valid_response status reason hs (text_of x) wire left"
  shows "\<exists>r cl' w'. Get W cl path None w u = Some (Inr (r, cl', w', u)) \<and> rt_err r = Success \<and>
    result_body r = Inr (text_of x) \<and> json_parse (text_of x) = Inr (value_of x)"
proof -
  obtain r w2 where "Get W cl path None w u = Some (Inr (r, cl\<lparr>cl_should_be_closed := False\<rparr>,
      w_close W sock (w_shutdown W sock w2), u))" "rt_res r = Some (the_response status reason hs (text_of x))" "rt_err r = Success"
    using Get_ok [OF assms(2-8), of u] by blast
  then show ?thesis using text_parses [OF assms(1)] by (simp add: result_body_def the_response_def)
qed

end

interpretation weather_message: json_message "\<lambda>d. dump_text (to_json d)" to_json "\<lambda>d. list_all utf8 (weather_fields d)"
  by unfold_locales
    (metis json_ok_to_json json_parse_dump_text printable_to_json(1) printable_to_json(2) utf8_to_json)

interpretation list_message: json_message "\<lambda>ns. dump_text (json_of_strings ns)" json_of_strings "list_all utf8"
proof
  fix ns assume "list_all utf8 ns"
  then show "json_parse (dump_text (json_of_strings ns)) = Inr (json_of_strings ns)"
    using json_parse_dump_text [of "json_of_strings ns"] by (simp add: json_of_strings_def list_all_iff comp_def)
qed

end
