(* ===== verification/Desktop.thy ===== *)
theory Desktop
  imports Tools
begin

text \<open>
  The desktop program, \<open>src/CPPTools/src/desktop\<close>: the configuration, the two controllers of its web
  server, the weather service it asks, starting the server, and the MQTT client.

  The web framework (drogon), the YAML reader and the MQTT library are not part of the sources. The
  handlers are the functions from what the framework passes in to the body they hand to the
  callback; a loaded YAML file is the record \<open>Yaml\<close> of what its conversions return; the MQTT client
  is the record \<open>Mqtt\<close> of its operations.
\<close>

section \<open>Definitions\<close>

subsection \<open>\<open>DrogonConfig\<close>\<close>

record DrogonAMapWeatherConfig =
  City :: string
  Extensions :: string
  Output :: string
  Key :: string

record DrogonConfig =
  gqScreensaverFolderPath :: string
  gqListenPort :: int
  gqListenHost :: string
  drogonAMapWeatherConfig :: DrogonAMapWeatherConfig

definition new_DrogonConfig :: DrogonConfig where
  "new_DrogonConfig = \<lparr>gqScreensaverFolderPath = [], gqListenPort = 0, gqListenHost = ''0.0.0.0'',
     drogonAMapWeatherConfig = \<lparr>City = [], Extensions = [], Output = [], Key = []\<rparr>\<rparr>"

record Yaml =
  yaml_defined :: bool
  yaml_string :: "string list \<Rightarrow> string option"   \<comment> \<open>the value at a path of keys; a conversion that throws is \<open>None\<close>\<close>
  yaml_int :: "string list \<Rightarrow> int option"

definition amap_config :: "Yaml \<Rightarrow> DrogonAMapWeatherConfig option" where
  "amap_config y =
     (case (yaml_string y [''AMapWeatherConfig'', ''City''], yaml_string y [''AMapWeatherConfig'', ''Extensions''],
            yaml_string y [''AMapWeatherConfig'', ''Output''], yaml_string y [''AMapWeatherConfig'', ''Key'']) of
        (Some c, Some e, Some ou, Some k) \<Rightarrow> Some \<lparr>City = c, Extensions = e, Output = ou, Key = k\<rparr>
      | _ \<Rightarrow> None)"

definition loadDrogonConfig :: "Yaml option \<Rightarrow> DrogonConfig \<Rightarrow> app_exn + (int \<times> DrogonConfig)" where
  \<comment> \<open>the fields read before a conversion throws keep their new values\<close>
  "loadDrogonConfig file cfg =
     (case file of
        None \<Rightarrow> Inl Yaml_exn
      | Some y \<Rightarrow>
          if \<not> yaml_defined y then Inr (- 1, cfg)
          else (case yaml_string y [''ScreensaverFolderPath''] of
              None \<Rightarrow> Inr (- 1, cfg)
            | Some folder \<Rightarrow>
                let cfg = cfg\<lparr>gqScreensaverFolderPath := folder\<rparr>
                in case yaml_int y [''ListenPort''] of
                     None \<Rightarrow> Inr (- 1, cfg)
                   | Some port \<Rightarrow>
                       let cfg = cfg\<lparr>gqListenPort := port\<rparr>
                       in case yaml_string y [''ListenHost''] of
                            None \<Rightarrow> Inr (- 1, cfg)
                          | Some host \<Rightarrow>
                              let cfg = cfg\<lparr>gqListenHost := host\<rparr>
                              in case amap_config y of
                                   None \<Rightarrow> Inr (- 1, cfg)
                                 | Some a \<Rightarrow> Inr (0, cfg\<lparr>drogonAMapWeatherConfig := a\<rparr>)))"

subsection \<open>\<open>DrogonServer\<close> and \<open>main\<close>\<close>

definition startServer ::
  "string \<Rightarrow> Yaml option \<Rightarrow> bool \<Rightarrow> Fs \<times> GLog \<times> DrogonConfig \<Rightarrow>
     app_exn + (int \<times> (string \<times> int) option \<times> Fs \<times> GLog \<times> DrogonConfig)" where
  \<comment> \<open>the listener that is added, if the server is started; joining or detaching the thread makes no
    difference to the result\<close>
  "startServer hour file threadDetach st =
     (case st of (fs, g, cfg) \<Rightarrow>
        (case generateLogFile hour fs g of
           None \<Rightarrow> Inl Filesystem_error
         | Some (fs, g) \<Rightarrow>
             (case loadDrogonConfig file cfg of
                Inl e \<Rightarrow> Inl e
              | Inr (i, cfg) \<Rightarrow>
                  if i < 0 then Inr (i, None, fs, g, cfg)
                  else Inr (0, Some (gqListenHost cfg, gqListenPort cfg), fs, g, cfg))))"

definition desktop_main ::
  "string \<Rightarrow> Yaml option \<Rightarrow> Fs \<Rightarrow> app_exn + (int \<times> (string \<times> int) option \<times> Fs \<times> GLog \<times> DrogonConfig)" where
  "desktop_main hour file fs = startServer hour file False (fs, new_GLog, new_DrogonConfig)"

subsection \<open>\<open>DrogonScreensaverController\<close>\<close>

definition image_names :: "(string \<times> bool) list \<Rightarrow> string list" where
  "image_names entries = map (filename \<circ> fst) (filter snd entries)"

definition image_list_body :: "(string \<times> bool) list \<Rightarrow> string" where
  \<comment> \<open>\<open>json.dump()\<close>, or \<open>e.what()\<close> when it throws\<close>
  "image_list_body entries =
     (case dump_default (json_of_strings (image_names entries)) of Inl e \<Rightarrow> what e | Inr s \<Rightarrow> s)"

definition queryScreensaverImageList_handler ::
  "string \<Rightarrow> string \<Rightarrow> DrogonConfig \<Rightarrow> Fs \<times> GLog \<Rightarrow> string \<times> Fs \<times> GLog" where
  \<comment> \<open>arguments: the hour for the log file, \<open>what()\<close> of a file system error; the body of the response\<close>
  "queryScreensaverImageList_handler hour fs_what cfg st =
     (case st of (fs, g) \<Rightarrow>
        (case generateLogFile hour fs g of
           None \<Rightarrow> (fs_what, fs, g)
         | Some (fs, g) \<Rightarrow>
             (case directory_entries (gqScreensaverFolderPath cfg) fs of
                None \<Rightarrow> (fs_what, fs, g)
              | Some entries \<Rightarrow> (image_list_body entries, fs, g))))"

definition getImage :: "DrogonConfig \<Rightarrow> string \<Rightarrow> string" where
  \<comment> \<open>the path of the file that is served\<close>
  "getImage cfg imageName = gqScreensaverFolderPath cfg @ [BSL] @ imageName"

subsection \<open>\<open>WeatherAMapApi\<close>\<close>

definition amap_path :: "DrogonAMapWeatherConfig \<Rightarrow> string" where
  "amap_path a = ''/v3/weather/weatherInfo?key='' @ Key a @ ''&city='' @ City a @ ''&extensions='' @
     Extensions a @ ''&output='' @ Output a"

definition json_string_member :: "string \<Rightarrow> json \<Rightarrow> json_exn + string" where
  \<comment> \<open>\<open>j[k].get<std::string>()\<close> on a constant value\<close>
  "json_string_member k j = (case json_key_const k j of Inl e \<Rightarrow> Inl e | Inr v \<Rightarrow> get_string_value v)"

fun json_string_members :: "string list \<Rightarrow> json \<Rightarrow> json_exn + string list" where
  "json_string_members [] j = Inr []"
| "json_string_members (k # ks) j =
     (case json_string_member k j of
        Inl e \<Rightarrow> Inl e
      | Inr s \<Rightarrow> (case json_string_members ks j of Inl e \<Rightarrow> Inl e | Inr ss \<Rightarrow> Inr (s # ss)))"

definition live_weather :: "json \<Rightarrow> json_exn + WeatherData" where
  "live_weather liveObj =
     (case json_string_members [''city'', ''weather'', ''temperature'', ''temperature_float'', ''humidity'',
             ''humidity_float'', ''winddirection'', ''windpower'', ''reporttime''] liveObj of
        Inl e \<Rightarrow> Inl e
      | Inr ss \<Rightarrow> Inr \<lparr>city = ss ! 0, weather = ss ! 1, temperature = ss ! 2, temperatureFloat = ss ! 3,
          humidity = ss ! 4, humidityFloat = ss ! 5, winddirection = ss ! 6, windpower = ss ! 7,
          reporttime = ss ! 8\<rparr>)"

definition parse_weather :: "string \<Rightarrow> json_exn + WeatherData option" where
  \<comment> \<open>the body of the \<open>try\<close> block; \<open>None\<close> is \<open>nullptr\<close>\<close>
  "parse_weather body =
     (case json_parse body of
        Inl e \<Rightarrow> Inl e
      | Inr j \<Rightarrow>
          (case json_string_member ''status'' j of
             Inl e \<Rightarrow> Inl e
           | Inr status \<Rightarrow>
               if status \<noteq> ''1'' then Inr None
               else (case json_key_const ''lives'' j of
                   Inl e \<Rightarrow> Inl e
                 | Inr lives \<Rightarrow>
                     if is_array lives \<and> json_size lives > 0
                     then (case json_index_const 0 lives of
                         Inl e \<Rightarrow> Inl e
                       | Inr live \<Rightarrow> (case live_weather live of Inl e \<Rightarrow> Inl e | Inr w \<Rightarrow> Inr (Some w)))
                     else Inr None)))"

definition weather_of_body :: "string \<Rightarrow> json_exn + WeatherData option" where
  \<comment> \<open>with the handler; a failed assertion is not an exception\<close>
  "weather_of_body body =
     (case parse_weather body of
        Inl e \<Rightarrow> if e = Assertion_failed then Inl Assertion_failed else Inr None
      | Inr r \<Rightarrow> Inr r)"

definition WeatherAMapApi_queryWeather ::
  "'w World \<Rightarrow> DrogonConfig \<Rightarrow> 'w \<Rightarrow> (app_exn + (WeatherData option \<times> 'w)) option" where
  "WeatherAMapApi_queryWeather W cfg w =
     (case Get W (new_ClientImpl ''restapi.amap.com'' 80) (amap_path (drogonAMapWeatherConfig cfg)) None w () of
        None \<Rightarrow> None
      | Some (Inl e) \<Rightarrow> Some (Inl (Http_exn e))
      | Some (Inr (r, _, w, _)) \<Rightarrow>
          Some (if rt_err r = Success
                then (case result_body r of
                    Inl e \<Rightarrow> Inl e
                  | Inr body \<Rightarrow> (case weather_of_body body of Inl e \<Rightarrow> Inl (Json_exn e) | Inr wd \<Rightarrow> Inr (wd, w)))
                else Inr (None, w)))"

subsection \<open>\<open>DrogonWeatherController\<close>\<close>

definition weather_response :: "WeatherData option \<Rightarrow> json_exn + string" where
  "weather_response weatherPtr =
     (case weatherPtr of Some wd \<Rightarrow> dump_default (to_json wd) | None \<Rightarrow> Inr ''{}'')"

definition queryWeather_handler ::
  "'w World \<Rightarrow> DrogonConfig \<Rightarrow> 'w \<Rightarrow> (app_exn + (string \<times> 'w)) option" where
  "queryWeather_handler W cfg w =
     (case WeatherAMapApi_queryWeather W cfg w of
        None \<Rightarrow> None
      | Some (Inl e) \<Rightarrow> Some (Inl e)
      | Some (Inr (wd, w)) \<Rightarrow>
          Some (case weather_response wd of Inl e \<Rightarrow> Inl (Json_exn e) | Inr body \<Rightarrow> Inr (body, w)))"

subsection \<open>\<open>HAMqtt\<close>, \<open>HAMqttCallback\<close> and \<open>HAOperate\<close>\<close>

record connect_options =
  co_keep_alive_interval :: nat
  co_clean_session :: bool
  co_automatic_reconnect :: bool
  co_user_name :: string
  co_password :: string

record 'k Mqtt =
  mq_connect :: "connect_options \<Rightarrow> 'k \<Rightarrow> bool \<times> 'k"     \<comment> \<open>connect and wait; \<open>False\<close> when it throws\<close>
  mq_is_connected :: "'k \<Rightarrow> bool"
  mq_publish :: "string \<Rightarrow> string \<Rightarrow> 'k \<Rightarrow> 'k"
  mq_subscribe :: "string \<Rightarrow> nat \<Rightarrow> 'k \<Rightarrow> 'k"
  mq_disconnect :: "'k \<Rightarrow> 'k"

definition TOPIC_NAME :: string where "TOPIC_NAME = ''zigbee2mqtt''"

definition listen :: "'k Mqtt \<Rightarrow> 'k \<Rightarrow> 'k" where
  \<comment> \<open>both handlers only print\<close>
  "listen M k = snd (mq_connect M \<lparr>co_keep_alive_interval = 10, co_clean_session = True,
     co_automatic_reconnect = True, co_user_name = ''addons'', co_password = ''123456''\<rparr> k)"

definition publish :: "'k Mqtt \<Rightarrow> string \<Rightarrow> 'k \<Rightarrow> 'k" where
  "publish M payload k = (if mq_is_connected M k then mq_publish M TOPIC_NAME payload k else k)"

definition mqtt_disconnect :: "'k Mqtt \<Rightarrow> 'k \<Rightarrow> 'k" where
  "mqtt_disconnect M k = (if mq_is_connected M k then mq_disconnect M k else k)"

definition subscribe :: "'k Mqtt \<Rightarrow> string \<Rightarrow> 'k \<Rightarrow> 'k" where
  "subscribe M topic k = (if mq_is_connected M k then mq_subscribe M topic 1 k else k)"

definition connected :: "'k Mqtt \<Rightarrow> 'k \<Rightarrow> 'k" where
  \<comment> \<open>the callback of a connection\<close>
  "connected M k = subscribe M TOPIC_NAME (publish M ''Hello'' k)"

definition HAOperate_start :: "'k Mqtt \<Rightarrow> 'k \<Rightarrow> 'k" where
  "HAOperate_start M k = listen M k"

section \<open>Lemmas\<close>

subsection \<open>Strings taken out of a parsed value\<close>

lemma good_json_key_const: "json_key_const k j = Inr v \<Longrightarrow> good j \<Longrightarrow> good v"
proof -
  assume a: "json_key_const k j = Inr v" "good j"
  obtain m where "j = JObject m" "map_of m k = Some v"
    using a(1) by (cases j) (auto simp: json_key_const_def split: option.splits)
  then have "(k, v) \<in> set m" "good_members m" using a(2) map_of_SomeD by simp_all
  then show "good v" unfolding good_members_def by (metis snd_conv)
qed

lemma good_json_index_const: "json_index_const i j = Inr v \<Longrightarrow> good j \<Longrightarrow> good v"
proof -
  assume a: "json_index_const i j = Inr v" "good j"
  obtain js where js: "j = JArray js" "i < length js" "v = js ! i"
    using a(1) by (cases j) (auto simp: json_index_const_def split: if_splits)
  have "\<forall>x \<in> set js. good x" using a(2) unfolding js(1) good_JArray .
  moreover have "v \<in> set js" unfolding js(3) using js(2) by (rule nth_mem)
  ultimately show "good v" by (rule bspec)
qed

lemma utf8_get_string_value: "get_string_value j = Inr s \<Longrightarrow> good j \<Longrightarrow> utf8 s"
  by (cases j) (simp_all add: get_string_value_def good_def)

lemma utf8_json_string_member: "json_string_member k j = Inr s \<Longrightarrow> good j \<Longrightarrow> utf8 s"
  by (auto simp: json_string_member_def split: sum.splits dest: good_json_key_const utf8_get_string_value)

lemma utf8_json_string_members:
  "json_string_members ks j = Inr ss \<Longrightarrow> good j \<Longrightarrow> list_all utf8 ss \<and> length ss = length ks"
  by (induction ks arbitrary: ss) (auto split: sum.splits dest: utf8_json_string_member)

lemma live_weather_utf8:
  assumes "live_weather j = Inr wd" "good j"
  shows "list_all utf8 (weather_fields wd)"
proof -
  obtain ss where ss: "json_string_members [''city'', ''weather'', ''temperature'', ''temperature_float'', ''humidity'',
             ''humidity_float'', ''winddirection'', ''windpower'', ''reporttime''] j = Inr ss"
    and wd: "weather_fields wd = map ((!) ss) [0..<9]"
    using assms(1) by (auto simp: live_weather_def weather_fields_def numeral_eq_Suc split: sum.splits)
  have "list_all utf8 ss" "length ss = 9" using utf8_json_string_members [OF ss assms(2)] by simp_all
  then show ?thesis using wd map_nth [of ss] by simp
qed

lemma weather_of_body_utf8:
  assumes "weather_of_body body = Inr (Some wd)"
  shows "list_all utf8 (weather_fields wd)"
proof -
  have "parse_weather body = Inr (Some wd)"
    using assms by (auto simp: weather_of_body_def split: sum.splits if_splits)
  then obtain j lives live where j: "json_parse body = Inr j" and l: "json_key_const ''lives'' j = Inr lives"
    "json_index_const 0 lives = Inr live" "live_weather live = Inr wd"
    by (auto simp: parse_weather_def split: sum.splits if_splits)
  have "good live" using good_json_parse [OF j] l(1,2) good_json_key_const good_json_index_const by blast
  then show ?thesis using l(3) live_weather_utf8 by blast
qed

lemma weather_response_text:
  "list_all utf8 (weather_fields wd) \<Longrightarrow> weather_response (Some wd) = Inr (dump_text (to_json wd))"
  by (simp add: weather_response_def dump_default_iff utf8_to_json)

section \<open>Properties\<close>

text \<open>
  Whatever the weather service answers, the handler for \<open>/queryWeather\<close>
  does not fail while it prints: a record that \<open>WeatherAMapApi\<close> returns consists of valid UTF-8, so
  that \<open>dump()\<close> does not throw, and the body sent to the phone is the text of that record.
\<close>

theorem weather_handler_prints:
  assumes "weather_of_body body = Inr wd"
  shows "\<exists>t. weather_response wd = Inr t \<and>
    (case wd of None \<Rightarrow> t = ''{}'' | Some d \<Rightarrow> json_parse t = Inr (to_json d))"
proof (cases wd)
  case None
  then show ?thesis by (simp add: weather_response_def)
next
  case (Some d)
  then have "list_all utf8 (weather_fields d)" using assms weather_of_body_utf8 by simp
  then show ?thesis
    using Some weather_response_text weather_message.text_parses by simp
qed

theorem weather_handler_prints_witness:
  "\<exists>t. weather_response None = Inr t \<and> (case (None :: WeatherData option) of None \<Rightarrow> t = ''{}'' | Some d \<Rightarrow> json_parse t = Inr (to_json d))"
proof (rule weather_handler_prints [of "''[]''"])
  have "json_parse ''[]'' = Inr (JArray [])" using json_parse_dump_text [of "JArray []"] by simp
  then show "weather_of_body ''[]'' = Inr None"
    by (simp add: weather_of_body_def parse_weather_def json_string_member_def json_key_const_def type_error_create_def)
qed

text \<open>
  An answer that is a JSON object without the key \<open>status\<close>, such as \<open>{}\<close>, does
  not lead to the exception the code is prepared for: the constant \<open>operator[]\<close> asserts that the key
  exists.
\<close>

theorem weather_missing_key:
  assumes "json_parse body = Inr (JObject m)" "map_of m ''status'' = None"
  shows "weather_of_body body = Inl Assertion_failed"
  using assms by (simp add: weather_of_body_def parse_weather_def json_string_member_def json_key_const_def)

theorem weather_missing_key_witness: "weather_of_body ''{}'' = Inl Assertion_failed"
  using weather_missing_key [of "''{}''" "[]"] json_parse_dump_text [of "JObject []"] by simp

text \<open>
  Loading the configuration returns 0 exactly if every entry of the file
  converts, and then all fields, the nested ones included, are those of the file; otherwise it
  returns -1 and the weather settings are unchanged.
\<close>

theorem config_loads_exactly:
  assumes "loadDrogonConfig (Some y) cfg = Inr (i, cfg')"
  shows "(i = 0 \<and> yaml_defined y \<and> yaml_string y [''ScreensaverFolderPath''] = Some (gqScreensaverFolderPath cfg') \<and>
      yaml_int y [''ListenPort''] = Some (gqListenPort cfg') \<and>
      yaml_string y [''ListenHost''] = Some (gqListenHost cfg') \<and>
      amap_config y = Some (drogonAMapWeatherConfig cfg')) \<or>
    (i = - 1 \<and> drogonAMapWeatherConfig cfg' = drogonAMapWeatherConfig cfg \<and>
      (\<not> yaml_defined y \<or> yaml_string y [''ScreensaverFolderPath''] = None \<or> yaml_int y [''ListenPort''] = None \<or>
       yaml_string y [''ListenHost''] = None \<or> amap_config y = None))"
  using assms by (auto simp: loadDrogonConfig_def Let_def split: option.splits if_splits)

definition example_yaml :: Yaml where
  "example_yaml = \<lparr>yaml_defined = True, yaml_string = (\<lambda>p. Some (concat p)), yaml_int = (\<lambda>p. Some 8097)\<rparr>"

theorem config_loads_exactly_witness:
  "\<exists>cfg'. loadDrogonConfig (Some example_yaml) new_DrogonConfig = Inr (0, cfg') \<and>
    gqListenPort cfg' = 8097 \<and> City (drogonAMapWeatherConfig cfg') = ''AMapWeatherConfigCity''"
proof -
  obtain i cfg' where c: "loadDrogonConfig (Some example_yaml) new_DrogonConfig = Inr (i, cfg')"
    by (simp add: loadDrogonConfig_def example_yaml_def amap_config_def)
  have "i = 0" "amap_config example_yaml = Some (drogonAMapWeatherConfig cfg')"
    "yaml_int example_yaml [''ListenPort''] = Some (gqListenPort cfg')"
    using config_loads_exactly [OF c] by (auto simp: example_yaml_def amap_config_def)
  moreover have "City (the (amap_config example_yaml)) = ''AMapWeatherConfigCity''"
    by (simp add: example_yaml_def amap_config_def)
  ultimately show ?thesis using c by (simp add: example_yaml_def)
qed

end
