(* ===== verification/Mobile.thy ===== *)
theory Mobile
  imports Tools "HOL-Library.Multiset" "HOL-Library.Sublist"
begin

text \<open>
  The phone's library: \<open>src/CPPTools/src/Constants.cpp\<close>, \<open>src/CPPTools/src/mobile\<close> and the functions that
  Java calls, \<open>src/CPPTools/jni.cpp\<close>.

  The static variables and the files are the record \<open>Mobile\<close>. A Java string is the C string it is made
  from or read as. The result of a function is \<^term>\<open>None\<close> if it never returns, \<^term>\<open>Some (Inl e)\<close> if it fails
  and \<^term>\<open>Some (Inr x)\<close> if it returns; the network is the \<open>World\<close> of the HTTP client.

  The download threads are the record \<open>Worker\<close> each; a step of a thread opens the file of its next image
  and makes the request, writes one byte of the answer, or closes the file. Single bytes cover every
  way the answer can be cut into calls of \<open>write\<close>. Threads run in any order: \<open>thread_step\<close> is one step of
  one of them, and the functions that run to the end take the order as an argument, a list of thread
  numbers. Each thread makes its own connections, so it has its own state of the network.
\<close>

section \<open>Definitions\<close>

subsection \<open>\<open>Constants\<close>\<close>

record Mobile =
  mobilePackageCacheDirPath :: string
  mobileServerUrl :: string
  screensaverRemoteImageList :: string
  mobileLog :: GLog
  mobileFs :: Fs

definition new_Mobile :: "Fs \<Rightarrow> Mobile" where
  "new_Mobile fs = \<lparr>mobilePackageCacheDirPath = [], mobileServerUrl = [], screensaverRemoteImageList = [],
     mobileLog = new_GLog, mobileFs = fs\<rparr>"

definition mobilePkgCacheDirPathChildFolder :: string where
  "mobilePkgCacheDirPathChildFolder = ''/screensaverimagelist''"

definition setMobilePackageCacheDirPath :: "string \<Rightarrow> Mobile \<Rightarrow> Mobile" where
  "setMobilePackageCacheDirPath value m = m\<lparr>mobilePackageCacheDirPath := value\<rparr>"

definition getMobileScreensaverImageListDirPath :: "Mobile \<Rightarrow> string" where
  "getMobileScreensaverImageListDirPath m = mobilePackageCacheDirPath m @ mobilePkgCacheDirPathChildFolder"

definition setMobileServerUrl :: "string \<Rightarrow> Mobile \<Rightarrow> Mobile" where
  "setMobileServerUrl value m = m\<lparr>mobileServerUrl := value\<rparr>"

subsection \<open>\<open>HttpGQScreensaver\<close>\<close>

text \<open>The class has no members. A pointer to an object is \<^term>\<open>None\<close> if it is null; \<open>newInstance\<close> makes its
  \<open>std::unique_ptr\<close> from \<open>{}\<close>, so it is.\<close>

datatype HttpGQScreensaver = HttpGQScreensaver

definition HttpGQScreensaver_newInstance :: "HttpGQScreensaver option" where
  "HttpGQScreensaver_newInstance = None"

definition queryScreensaverImageList ::
  "'w World \<Rightarrow> HttpGQScreensaver \<Rightarrow> string \<Rightarrow> int \<Rightarrow> 'w \<Rightarrow> (app_exn + (string \<times> 'w)) option" where
  "queryScreensaverImageList W this hostName hostPort w =
     (case Get W (new_ClientImpl hostName hostPort) ''/screensaverIL'' None w () of
        None \<Rightarrow> None
      | Some (Inl e) \<Rightarrow> Some (Inl (Http_exn e))
      | Some (Inr (resp, _, w, _)) \<Rightarrow>
          Some (if rt_err resp = Success
                then (case result_body resp of Inl e \<Rightarrow> Inl e | Inr jsonStr \<Rightarrow> Inr (jsonStr, w))
                else Inr ([], w)))"

subsection \<open>\<open>ScreensaverImageList\<close>: the lists\<close>

definition getScreensaverLocalImageList :: "Mobile \<Rightarrow> app_exn + string list" where
  "getScreensaverLocalImageList m =
     (case directory_entries (getMobileScreensaverImageListDirPath m) (mobileFs m) of
        None \<Rightarrow> Inl Filesystem_error
      | Some entries \<Rightarrow>
          Inr (map fst (filter (\<lambda>(p, regular). regular \<and> matches_image_regex (extension p)) entries)))"

definition updateScreensaverRemoteImageList :: "string \<Rightarrow> Mobile \<Rightarrow> Mobile" where
  "updateScreensaverRemoteImageList imagesStr m = m\<lparr>screensaverRemoteImageList := imagesStr\<rparr>"

subsection \<open>\<open>ScreensaverImageList\<close>: the download\<close>

fun group_loop :: "nat \<Rightarrow> nat \<Rightarrow> string list \<Rightarrow> string list list \<Rightarrow> app_exn + string list list" where
  "group_loop threadNum i [] threadGroups = Inr threadGroups"
| "group_loop threadNum i (imagename # images) threadGroups =
     (if threadNum = 0 then Inl Division_by_zero
      else let g = i mod threadNum
           in group_loop threadNum (Suc i) images (threadGroups[g := threadGroups ! g @ [imagename]]))"

definition thread_num :: "nat \<Rightarrow> string list \<Rightarrow> nat" where
  "thread_num hardware_concurrency images = (if length images \<le> 4 then 1 else hardware_concurrency)"

definition group_images :: "nat \<Rightarrow> string list \<Rightarrow> app_exn + string list list" where
  "group_images hardware_concurrency images =
     (let threadNum = thread_num hardware_concurrency images
      in group_loop threadNum 0 images (replicate threadNum []))"

definition image_path :: "string \<Rightarrow> string \<Rightarrow> string" where
  "image_path savePath imageName = savePath @ ''/'' @ imageName"

definition image_answer ::
  "'w World \<Rightarrow> string \<Rightarrow> string \<Rightarrow> 'w \<Rightarrow> (exn + (bytes \<times> Error \<times> 'w)) option" where
  \<comment> \<open>the bytes the receiver is called with, and \<open>resp.error()\<close>\<close>
  "image_answer W serverUrl imageName w =
     (case new_Client serverUrl of
        Inl e \<Rightarrow> Some (Inl e)
      | Inr client \<Rightarrow>
          (case Get_receiver W client (''/'' @ imageName) (\<lambda>data ofs. (True, ofs @ data)) None w [] of
             None \<Rightarrow> None
           | Some (Inl e) \<Rightarrow> Some (Inl e)
           | Some (Inr (resp, _, w, ofs)) \<Rightarrow> Some (Inr (ofs, rt_err resp, w))))"

record 'w Worker =
  wk_images :: "string list"                          \<comment> \<open>the images left\<close>
  wk_ofs :: "(string \<times> bytes \<times> Error) option"         \<comment> \<open>the open file: path, what is left to write, the result\<close>
  wk_net :: 'w

definition worker_done :: "'w Worker \<Rightarrow> bool" where
  "worker_done wk \<longleftrightarrow> wk_images wk = [] \<and> wk_ofs wk = None"

definition close_image :: "string \<Rightarrow> Error \<Rightarrow> Fs \<Rightarrow> Fs" where
  \<comment> \<open>what follows \<open>ofs.close()\<close>\<close>
  "close_image p err fs =
     (if err = Success then fs else if file_exists p fs then remove_file p fs else fs)"

definition worker_step ::
  "'w World \<Rightarrow> string \<Rightarrow> string \<Rightarrow> Fs \<Rightarrow> 'w Worker \<Rightarrow> (exn + (Fs \<times> 'w Worker)) option" where
  "worker_step W serverUrl savePath fs wk =
     (case wk_ofs wk of
        Some (p, b # data, err) \<Rightarrow> Some (Inr (append_file p [b] fs, wk\<lparr>wk_ofs := Some (p, data, err)\<rparr>))
      | Some (p, [], err) \<Rightarrow> Some (Inr (close_image p err fs, wk\<lparr>wk_ofs := None\<rparr>))
      | None \<Rightarrow>
          (case wk_images wk of
             [] \<Rightarrow> None
           | imageName # images \<Rightarrow>
               (case open_write (image_path savePath imageName) fs of
                  None \<Rightarrow> Some (Inr (fs, wk\<lparr>wk_images := images\<rparr>))
                | Some fs \<Rightarrow>
                    (case image_answer W serverUrl imageName (wk_net wk) of
                       None \<Rightarrow> None
                     | Some (Inl e) \<Rightarrow> Some (Inl e)
                     | Some (Inr (data, err, w)) \<Rightarrow>
                         Some (Inr (fs, \<lparr>wk_images = images, wk_ofs = Some (image_path savePath imageName, data, err),
                                         wk_net = w\<rparr>))))))"

inductive thread_step ::
  "'w World \<Rightarrow> string \<Rightarrow> string \<Rightarrow> Fs \<times> 'w Worker list \<Rightarrow> Fs \<times> 'w Worker list \<Rightarrow> bool" for W serverUrl savePath where
  "worker_step W serverUrl savePath fs wk = Some (Inr (fs', wk')) \<Longrightarrow>
     thread_step W serverUrl savePath (fs, xs @ wk # ys) (fs', xs @ wk' # ys)"

fun run_threads ::
  "'w World \<Rightarrow> string \<Rightarrow> string \<Rightarrow> nat list \<Rightarrow> Fs \<times> 'w Worker list \<Rightarrow> (exn + (Fs \<times> 'w Worker list)) option" where
  "run_threads W serverUrl savePath [] st = Some (Inr st)"
| "run_threads W serverUrl savePath (i # order) (fs, threads) =
     (if i < length threads \<and> \<not> worker_done (threads ! i)
      then (case worker_step W serverUrl savePath fs (threads ! i) of
              None \<Rightarrow> None
            | Some (Inl e) \<Rightarrow> Some (Inl e)
            | Some (Inr (fs, wk)) \<Rightarrow> run_threads W serverUrl savePath order (fs, threads[i := wk]))
      else run_threads W serverUrl savePath order (fs, threads))"

definition start_threads :: "string list list \<Rightarrow> (nat \<Rightarrow> 'w) \<Rightarrow> 'w Worker list" where
  "start_threads threadGroups net =
     map (\<lambda>i. \<lparr>wk_images = threadGroups ! i, wk_ofs = None, wk_net = net i\<rparr>) [0..<length threadGroups]"

definition make_image_dir :: "string \<Rightarrow> Fs \<Rightarrow> Fs option" where
  "make_image_dir savePath fs = (if is_directory savePath fs then Some fs else create_directory savePath fs)"

definition downloadScreensaverRemoteImageListToLocalPath ::
  "'w World \<Rightarrow> nat \<Rightarrow> nat list \<Rightarrow> (nat \<Rightarrow> 'w) \<Rightarrow> string list \<Rightarrow> Mobile \<Rightarrow> (app_exn + Mobile) option" where
  \<comment> \<open>arguments: the number of processors, the order in which the threads run, their networks. The threads
    are joined: without all of them at their end the function does not return\<close>
  "downloadScreensaverRemoteImageListToLocalPath W hardware_concurrency order net images m =
     (let savePath = getMobileScreensaverImageListDirPath m
      in case make_image_dir savePath (mobileFs m) of
           None \<Rightarrow> Some (Inl Filesystem_error)
         | Some fs \<Rightarrow>
             (case group_images hardware_concurrency images of
                Inl e \<Rightarrow> Some (Inl e)
              | Inr threadGroups \<Rightarrow>
                  (case run_threads W (mobileServerUrl m) savePath order (fs, start_threads threadGroups net) of
                     None \<Rightarrow> None
                   | Some (Inl e) \<Rightarrow> Some (Inl (Terminate e))
                   | Some (Inr (fs, threads)) \<Rightarrow>
                       if list_all worker_done threads then Some (Inr (m\<lparr>mobileFs := fs\<rparr>)) else None)))"

subsection \<open>The functions that Java calls\<close>

definition JNICommon_init :: "string \<Rightarrow> bool \<Rightarrow> Mobile \<Rightarrow> int \<times> Mobile" where
  "JNICommon_init cacheDirPath debug m =
     (0, setMobilePackageCacheDirPath cacheDirPath
           (m\<lparr>mobileLog := (mobileLog m)\<lparr>EnableLog := (if debug then 1 else 0)\<rparr>\<rparr>))"

definition JNICommon_setCurrentServerUrl :: "string \<Rightarrow> Mobile \<Rightarrow> int \<times> Mobile" where
  "JNICommon_setCurrentServerUrl serverUrl m = (0, setMobileServerUrl serverUrl m)"

fun add_strings :: "json list \<Rightarrow> string list \<Rightarrow> json_exn option \<times> string list" where
  \<comment> \<open>the loop that fills the Java list, and the exception that ends it early\<close>
  "add_strings [] arrLst = (None, arrLst)"
| "add_strings (item # items) arrLst =
     (case get_string_value item of
        Inl e \<Rightarrow> (Some e, arrLst)
      | Inr s \<Rightarrow> add_strings items (arrLst @ [c_str s]))"

definition JNICommon_getScreensaverRemoteImageList :: "Mobile \<Rightarrow> app_exn + string list" where
  "JNICommon_getScreensaverRemoteImageList m =
     (case json_parse (c_str (screensaverRemoteImageList m)) of
        Inl e \<Rightarrow> if std_exception (Json_exn e) then Inr [] else Inl (Json_exn e)
      | Inr jsonArr \<Rightarrow> Inr (snd (add_strings (elements jsonArr) [])))"

text \<open>The function calls \<open>queryScreensaverImageList\<close> through the pointer that \<open>newInstance\<close> returns; \<open>ptr\<close> is this
  pointer.\<close>

definition query_image_url_list ::
  "'w World \<Rightarrow> HttpGQScreensaver option \<Rightarrow> string \<Rightarrow> int \<Rightarrow> Mobile \<Rightarrow> 'w \<Rightarrow>
     (app_exn + (string \<times> Mobile \<times> 'w)) option" where
  "query_image_url_list W ptr hostName hostPort m w =
     (case ptr of
        None \<Rightarrow> Some (Inl Null_result)
      | Some this \<Rightarrow>
          (case queryScreensaverImageList W this hostName hostPort w of
             None \<Rightarrow> None
           | Some (Inl e) \<Rightarrow> Some (Inl e)
           | Some (Inr (jsonStr, w)) \<Rightarrow> Some (Inr (c_str jsonStr, updateScreensaverRemoteImageList jsonStr m, w))))"

definition JNICommon_queryScreensaverImageUrlList ::
  "'w World \<Rightarrow> string \<Rightarrow> int \<Rightarrow> Mobile \<Rightarrow> 'w \<Rightarrow> (app_exn + (string \<times> Mobile \<times> 'w)) option" where
  "JNICommon_queryScreensaverImageUrlList W hostName hostPort m w =
     query_image_url_list W HttpGQScreensaver_newInstance hostName hostPort m w"

definition JNICommon_downloadScreensaverRemoteImageListToLocalPath ::
  "'w World \<Rightarrow> nat \<Rightarrow> nat list \<Rightarrow> (nat \<Rightarrow> 'w) \<Rightarrow> Mobile \<Rightarrow> (app_exn + (int \<times> Mobile)) option" where
  "JNICommon_downloadScreensaverRemoteImageListToLocalPath W hardware_concurrency order net m =
     (let body =
        (case json_parse (screensaverRemoteImageList m) of
           Inl e \<Rightarrow> Some (Inl (Json_exn e))
         | Inr imageList \<Rightarrow>
             (case get_string_vector imageList of
                Inl e \<Rightarrow> Some (Inl (Json_exn e))
              | Inr images \<Rightarrow>
                  downloadScreensaverRemoteImageListToLocalPath W hardware_concurrency order net images m))
      in case body of
           None \<Rightarrow> None
         | Some (Inl e) \<Rightarrow> Some (if std_exception e then Inr (- 1, m) else Inl e)
         | Some (Inr m) \<Rightarrow> Some (Inr (0, m)))"

definition weather_file :: "Mobile \<Rightarrow> string" where
  "weather_file m = mobilePackageCacheDirPath m @ ''/weather_cache.json''"

definition store_weather :: "string \<Rightarrow> Mobile \<Rightarrow> json_exn + (int \<times> Mobile)" where
  \<comment> \<open>the \<open>try\<close> block and its handler; writing to a stream that is not open does nothing\<close>
  "store_weather respBody m =
     (case json_parse respBody of
        Inl e \<Rightarrow> if std_exception (Json_exn e) then Inr (- 1, m) else Inl e
      | Inr jsonObj \<Rightarrow>
          let opened = open_write (weather_file m) (mobileFs m);
              fs = (case opened of None \<Rightarrow> mobileFs m | Some fs \<Rightarrow> fs)
          in case dump_default jsonObj of
               Inl e \<Rightarrow> if std_exception (Json_exn e) then Inr (- 1, m\<lparr>mobileFs := fs\<rparr>) else Inl e
             | Inr text \<Rightarrow>
                 Inr (0, m\<lparr>mobileFs := (if opened = None then fs else append_file (weather_file m) text fs)\<rparr>))"

definition JNICommon_queryWeather ::
  "'w World \<Rightarrow> Mobile \<Rightarrow> 'w \<Rightarrow> (app_exn + (int \<times> Mobile \<times> 'w)) option" where
  "JNICommon_queryWeather W m w =
     (case new_Client (mobileServerUrl m) of
        Inl e \<Rightarrow> Some (Inl (Http_exn e))
      | Inr client \<Rightarrow>
          (case Get W client ''/queryWeather'' None w () of
             None \<Rightarrow> None
           | Some (Inl e) \<Rightarrow> Some (Inl (Http_exn e))
           | Some (Inr (resp, _, w, _)) \<Rightarrow>
               Some (if rt_err resp = Success
                     then (case result_body resp of
                         Inl e \<Rightarrow> Inl e
                       | Inr respBody \<Rightarrow>
                           (case store_weather respBody m of
                              Inl e \<Rightarrow> Inl (Json_exn e)
                            | Inr (i, m) \<Rightarrow> Inr (i, m, w)))
                     else Inr (- 1, m, w))))"

fun json_values :: "string list \<Rightarrow> json \<Rightarrow> json_exn + string list" where
  "json_values [] j = Inr []"
| "json_values (k # ks) j =
     (case json_value k [] j of
        Inl e \<Rightarrow> Inl e
      | Inr s \<Rightarrow> (case json_values ks j of Inl e \<Rightarrow> Inl e | Inr ss \<Rightarrow> Inr (s # ss)))"

definition cached_weather :: "json \<Rightarrow> json_exn + WeatherData option" where
  \<comment> \<open>the fields of the Java object; \<open>None\<close> is \<open>nullptr\<close>\<close>
  "cached_weather jsonObj =
     (case json_values [''city'', ''weather'', ''temperature'', ''temperatureFloat'', ''humidity'', ''humidityFloat'',
             ''winddirection'', ''windpower'', ''reporttime''] jsonObj of
        Inl e \<Rightarrow> Inl e
      | Inr ss \<Rightarrow>
          Inr (if ss ! 1 = [] \<and> ss ! 2 = [] then None
               else Some \<lparr>city = c_str (ss ! 0), weather = c_str (ss ! 1), temperature = c_str (ss ! 2),
                 temperatureFloat = c_str (ss ! 3), humidity = c_str (ss ! 4), humidityFloat = c_str (ss ! 5),
                 winddirection = c_str (ss ! 6), windpower = c_str (ss ! 7), reporttime = c_str (ss ! 8)\<rparr>))"

definition JNICommon_getCacheWeather :: "Mobile \<Rightarrow> app_exn + WeatherData option" where
  "JNICommon_getCacheWeather m =
     (case file_content (weather_file m) (mobileFs m) of
        None \<Rightarrow> Inr None
      | Some buf \<Rightarrow>
          (case (case json_parse buf of
                   Inl e \<Rightarrow> Inl e
                 | Inr jsonObj \<Rightarrow> if is_discarded jsonObj \<or> \<not> is_object jsonObj then Inr None else cached_weather jsonObj) of
             Inl e \<Rightarrow> if std_exception (Json_exn e) then Inr None else Inl (Json_exn e)
           | Inr r \<Rightarrow> Inr r))"

section \<open>Lemmas\<close>

subsection \<open>The groups\<close>

lemma group_loop_groups:
  assumes "threadNum > 0" "length gs = threadNum"
  shows "\<exists>gs'. group_loop threadNum i xs gs = Inr gs' \<and> length gs' = threadNum \<and>
    (\<forall>g < threadNum. gs' ! g = gs ! g @ map (\<lambda>k. xs ! (k - i)) (filter (\<lambda>k. k mod threadNum = g) [i..<i + length xs]))"
  using assms(2)
proof (induction xs arbitrary: i gs)
  case (Cons x xs)
  let ?g = "i mod threadNum"
  have g: "?g < length gs" using assms(1) Cons.prems by simp
  from Cons.IH [of "gs[?g := gs ! ?g @ [x]]" "Suc i"] Cons.prems
  obtain gs' where gs': "group_loop threadNum (Suc i) xs (gs[?g := gs ! ?g @ [x]]) = Inr gs'" "length gs' = threadNum"
    "\<forall>g < threadNum. gs' ! g = gs[?g := gs ! ?g @ [x]] ! g @
       map (\<lambda>k. xs ! (k - Suc i)) (filter (\<lambda>k. k mod threadNum = g) [Suc i..<Suc i + length xs])" by auto
  have m: "map (\<lambda>k. (x # xs) ! (k - i)) (filter P [Suc i..<Suc i + length xs]) =
      map (\<lambda>k. xs ! (k - Suc i)) (filter P [Suc i..<Suc i + length xs])" for P
    by (rule map_cong) (auto simp: nth_Cons' simp del: upt_Suc)
  have u: "[i..<i + length (x # xs)] = i # [Suc i..<Suc i + length xs]" by (simp add: upt_conv_Cons del: upt_Suc)
  have "gs' ! g = gs ! g @ map (\<lambda>k. (x # xs) ! (k - i)) (filter (\<lambda>k. k mod threadNum = g) [i..<i + length (x # xs)])"
    if "g < threadNum" for g
    unfolding u using gs'(3) that g Cons.prems
    by (cases "?g = g") (simp_all add: m nth_list_update del: upt_Suc)
  then show ?case using assms(1) gs'(1,2) by (auto simp: Let_def simp del: upt_Suc)
qed simp

definition groups_of :: "nat \<Rightarrow> 'a list \<Rightarrow> 'a list list" where
  "groups_of n xs = map (\<lambda>g. map ((!) xs) (filter (\<lambda>k. k mod n = g) [0..<length xs])) [0..<n]"

lemma group_images_eq:
  assumes "thread_num hc images > 0"
  shows "group_images hc images = Inr (groups_of (thread_num hc images) images)"
proof -
  let ?n = "thread_num hc images"
  obtain gs where gs: "group_loop ?n 0 images (replicate ?n []) = Inr gs" "length gs = ?n"
    "\<forall>g < ?n. gs ! g = replicate ?n [] ! g @ map (\<lambda>k. images ! (k - 0)) (filter (\<lambda>k. k mod ?n = g) [0..<0 + length images])"
    using group_loop_groups [OF assms, of "replicate ?n []" 0 images] by auto
  have "gs = groups_of ?n images" using gs(2,3) by (intro nth_equalityI) (simp_all add: groups_of_def)
  then show ?thesis using gs(1) by (simp add: group_images_def Let_def)
qed

lemma mset_concat_filter_mod: 
  "n > 0 \<Longrightarrow> mset (concat (map (\<lambda>g. filter (\<lambda>k. k mod n = g) ks) [0..<n])) = mset (ks :: nat list)"
proof (induction ks)
  case (Cons k ks)
  have "mset (concat (map (\<lambda>g. if k mod n = g then k # f g else f g) [0..<m])) =
      (if k mod n < m then {#k#} else {#}) + mset (concat (map f [0..<m]))" for f m
    by (induction m) auto
  then show ?case using Cons by (simp cong: if_cong)
next
  case Nil
  have "concat (map (\<lambda>g. []) [0..<m]) = ([] :: nat list)" for m by (induction m) auto
  then show ?case by simp
qed

lemma mset_groups_of: "n > 0 \<Longrightarrow> mset (concat (groups_of n xs)) = mset xs"
proof -
  assume n: "n > 0"
  have "mset (concat (groups_of n xs)) = image_mset ((!) xs) (mset (concat (map (\<lambda>g. filter (\<lambda>k. k mod n = g) [0..<length xs]) [0..<n])))"
    unfolding groups_of_def mset_map [symmetric] map_concat by (simp add: comp_def)
  also have "\<dots> = mset (map ((!) xs) [0..<length xs])" by (simp only: mset_concat_filter_mod [OF n] mset_map)
  finally show ?thesis by (simp add: map_nth)
qed

lemma length_filter_mod: "g < n \<Longrightarrow> length (filter (\<lambda>k. k mod n = g) [0..<m]) = (m + (n - 1 - g)) div n"
proof (induction m)
  case (Suc m)
  show ?case
  proof (cases "m mod n = g")
    case True
    then have "Suc m + (n - 1 - g) = n * (m div n + 1)"
      using Suc.prems mult_div_mod_eq [of n m] by (simp add: algebra_simps)
    moreover have "m + (n - 1 - g) = n * (m div n) + (n - 1)"
      using True Suc.prems mult_div_mod_eq [of n m] by linarith
    moreover have "(n * (m div n) + (n - 1)) div n = m div n"
      using Suc.prems by (subst div_mult_self4) simp_all
    ultimately have "(Suc m + (n - 1 - g)) div n = m div n + 1" "(m + (n - 1 - g)) div n = m div n"
      using Suc.prems by simp_all
    then show ?thesis using Suc True by simp
  next
    case False
    let ?x = "m + (n - 1 - g)"
    have "(?x + 1) mod n \<noteq> 0"
    proof
      assume "(?x + 1) mod n = 0"
      moreover have "?x + 1 = m + (n - g)" using Suc.prems by linarith
      ultimately have "(m + (n - g)) mod n = 0" by (simp only:)
      then have "(m + (n - g) + g) mod n = g mod n" by (metis add_0 mod_add_left_eq)
      then have "(m + n) mod n = g" using Suc.prems by simp
      then show False using False by simp
    qed
    then have "Suc ?x div n = ?x div n" by (simp add: div_Suc)
    then show ?thesis using Suc False by simp
  qed
qed simp

lemma groups_distinct:
  assumes "group_images hc images = Inr gs" "distinct images"
  shows "distinct (concat gs)"
proof (cases "thread_num hc images > 0")
  case True
  then have "mset (concat gs) = mset images" using group_images_eq [OF True] mset_groups_of [OF True, of images] assms(1) by simp
  then show ?thesis using assms(2) mset_eq_imp_distinct_iff by metis
next
  case False
  then have "gs = []" using assms(1) by (cases images) (simp_all add: group_images_def)
  then show ?thesis by simp
qed

subsection \<open>The threads\<close>

text \<open>What a thread will have received for each of its images that can be opened.\<close>

fun received ::
  "'w World \<Rightarrow> string \<Rightarrow> string \<Rightarrow> (string \<Rightarrow> bool) \<Rightarrow> string list \<Rightarrow> 'w \<Rightarrow> (string \<times> bytes option) list" where
  "received W serverUrl savePath writable [] w = []"
| "received W serverUrl savePath writable (n # ns) w =
     (if \<not> writable (image_path savePath n) then received W serverUrl savePath writable ns w
      else (case image_answer W serverUrl n w of
              Some (Inr (data, err, w)) \<Rightarrow>
                (image_path savePath n, if err = Success then Some data else None) #
                received W serverUrl savePath writable ns w
            | _ \<Rightarrow> []))"

text \<open>What the files of a thread will hold, from the present state on.\<close>

definition forecast :: "'w World \<Rightarrow> string \<Rightarrow> string \<Rightarrow> Fs \<Rightarrow> 'w Worker \<Rightarrow> (string \<times> bytes option) list" where
  "forecast W serverUrl savePath fs wk =
     (case wk_ofs wk of
        None \<Rightarrow> []
      | Some (p, data, err) \<Rightarrow>
          [(p, if err = Success then map_option (\<lambda>t. t @ data) (file_content p fs) else None)]) @
     received W serverUrl savePath (fs_writable fs) (wk_images wk) (wk_net wk)"

fun eventual :: "'w World \<Rightarrow> string \<Rightarrow> string \<Rightarrow> Fs \<times> 'w Worker list \<Rightarrow> string \<Rightarrow> bytes option" where
  "eventual W serverUrl savePath (fs, ws) p =
     (case map_of (concat (map (forecast W serverUrl savePath fs) ws)) p of
        None \<Rightarrow> file_content p fs
      | Some r \<Rightarrow> r)"

definition pending_paths :: "string \<Rightarrow> 'w Worker \<Rightarrow> string list" where
  "pending_paths savePath wk =
     (case wk_ofs wk of None \<Rightarrow> [] | Some (p, data, err) \<Rightarrow> [p]) @ map (image_path savePath) (wk_images wk)"

text \<open>No two threads, and no two images of a thread, share a file; an open file exists.\<close>

definition threads_inv :: "string \<Rightarrow> Fs \<times> 'w Worker list \<Rightarrow> bool" where
  "threads_inv savePath st \<longleftrightarrow>
     distinct (concat (map (pending_paths savePath) (snd st))) \<and>
     (\<forall>wk \<in> set (snd st). \<forall>p data err. wk_ofs wk = Some (p, data, err) \<longrightarrow> file_content p (fst st) \<noteq> None)"

lemma worker_step_cases:
  assumes "worker_step W serverUrl savePath fs wk = Some (Inr (fs', wk'))"
  obtains (wrote) p b data err where "wk_ofs wk = Some (p, b # data, err)" "fs' = append_file p [b] fs"
      "wk' = wk\<lparr>wk_ofs := Some (p, data, err)\<rparr>"
  | (closed) p err where "wk_ofs wk = Some (p, [], err)" "fs' = close_image p err fs" "wk' = wk\<lparr>wk_ofs := None\<rparr>"
  | (skipped) n ns where "wk_ofs wk = None" "wk_images wk = n # ns" "open_write (image_path savePath n) fs = None"
      "fs' = fs" "wk' = wk\<lparr>wk_images := ns\<rparr>"
  | (opened) n ns data err w where "wk_ofs wk = None" "wk_images wk = n # ns"
      "open_write (image_path savePath n) fs = Some fs'" "image_answer W serverUrl n (wk_net wk) = Some (Inr (data, err, w))"
      "wk' = \<lparr>wk_images = ns, wk_ofs = Some (image_path savePath n, data, err), wk_net = w\<rparr>"
  using assms by (auto simp: worker_step_def split: option.splits list.splits sum.splits)

text \<open>A step touches the first of the pending paths of its thread only.\<close>

definition same_but :: "string \<Rightarrow> Fs \<Rightarrow> Fs \<Rightarrow> bool" where
  "same_but p fs fs' \<longleftrightarrow> fs_writable fs' = fs_writable fs \<and> (\<forall>q. q \<noteq> p \<longrightarrow> file_content q fs' = file_content q fs)"

lemma close_image_same [simp]: "same_but p fs (close_image p err fs)" "fs_writable (close_image p err fs) = fs_writable fs"
  by (simp_all add: same_but_def close_image_def)

lemma worker_step_touches:
  assumes "worker_step W serverUrl savePath fs wk = Some (Inr (fs', wk'))"
  shows "\<exists>p \<in> set (pending_paths savePath wk). same_but p fs fs'"
  using assms
proof (cases rule: worker_step_cases)
  case (opened n ns data err w)
  then have "fs' = put_file (image_path savePath n) [] fs" by (auto simp: open_write_def split: if_splits)
  then show ?thesis using opened by (auto simp: same_but_def pending_paths_def)
qed (auto simp: same_but_def pending_paths_def append_file_content close_image_def)

lemma worker_step_pending:
  assumes "worker_step W serverUrl savePath fs wk = Some (Inr (fs', wk'))"
  shows "set (pending_paths savePath wk') \<subseteq> set (pending_paths savePath wk)"
    "distinct (pending_paths savePath wk) \<Longrightarrow> distinct (pending_paths savePath wk')"
  using assms by (cases rule: worker_step_cases; auto simp: pending_paths_def)+

lemma forecast_same_but:
  assumes "same_but p fs fs'" "p \<notin> set (pending_paths savePath wk)"
  shows "forecast W serverUrl savePath fs' wk = forecast W serverUrl savePath fs wk"
  using assms by (auto simp: forecast_def same_but_def pending_paths_def split: option.splits)

lemma dom_received: "fst ` set (received W serverUrl savePath writable ns w) \<subseteq> image_path savePath ` set ns"
  by (induction ns arbitrary: w) (auto split: option.splits sum.splits)

lemma dom_forecast: "fst ` set (forecast W serverUrl savePath fs wk) \<subseteq> set (pending_paths savePath wk)"
  using dom_received [of W serverUrl savePath "fs_writable fs" "wk_images wk" "wk_net wk"]
  by (auto simp: forecast_def pending_paths_def split: option.splits)

text \<open>Closing removes an entry from the forecast that the file now agrees with; no other step changes it.\<close>

lemma worker_step_forecast:
  assumes "worker_step W serverUrl savePath fs wk = Some (Inr (fs', wk'))"
    "\<forall>p data err. wk_ofs wk = Some (p, data, err) \<longrightarrow> file_content p fs \<noteq> None"
    "distinct (pending_paths savePath wk)"
  shows "(forecast W serverUrl savePath fs wk = forecast W serverUrl savePath fs' wk' \<and>
      (\<forall>q. map_of (forecast W serverUrl savePath fs wk) q = None \<longrightarrow> file_content q fs' = file_content q fs)) \<or>
    (\<exists>p. p \<in> set (pending_paths savePath wk) \<and> same_but p fs fs' \<and> map_of (forecast W serverUrl savePath fs' wk') p = None \<and>
      forecast W serverUrl savePath fs wk = (p, file_content p fs') # forecast W serverUrl savePath fs' wk')"
  using assms(1)
proof (cases rule: worker_step_cases)
  case (wrote p b data err)
  then show ?thesis using assms(2) by (simp add: forecast_def append_file_content option.map_comp comp_def)
next
  case (closed p err)
  then obtain t where "file_content p fs = Some t" using assms(2) by blast
  then have "forecast W serverUrl savePath fs wk = (p, file_content p fs') # forecast W serverUrl savePath fs' wk'"
    using closed by (simp add: forecast_def close_image_def file_exists_def)
  moreover have "p \<notin> set (pending_paths savePath wk')" using closed assms(3) by (simp add: pending_paths_def)
  then have "map_of (forecast W serverUrl savePath fs' wk') p = None"
    using dom_forecast [of W serverUrl savePath fs' wk'] by (auto simp: map_of_eq_None_iff)
  ultimately show ?thesis using closed by (auto simp: pending_paths_def)
next
  case (skipped n ns)
  then show ?thesis by (simp add: forecast_def open_write_def split: if_splits)
next
  case (opened n ns data err w)
  then have "fs' = put_file (image_path savePath n) [] fs" "fs_writable fs (image_path savePath n)"
    by (auto simp: open_write_def split: if_splits)
  then show ?thesis using opened by (simp add: forecast_def)
qed

lemma threads_inv_split:
  assumes "threads_inv savePath (fs, xs @ wk # ys)" "wk2 \<in> set xs \<union> set ys" "p \<in> set (pending_paths savePath wk)"
  shows "p \<notin> set (pending_paths savePath wk2)"
proof -
  have "distinct (concat (map (pending_paths savePath) (xs @ wk # ys)))" using assms(1) by (simp add: threads_inv_def)
  then show ?thesis using assms(2,3) by auto
qed

lemma thread_step_inv:
  assumes "thread_step W serverUrl savePath st st'" "threads_inv savePath st"
  shows "threads_inv savePath st'"
  using assms
proof (cases rule: thread_step.cases)
  case (1 fs wk fs' wk' xs ys)
  have inv: "threads_inv savePath (fs, xs @ wk # ys)" using assms(2) 1(1) by simp
  obtain p where p: "p \<in> set (pending_paths savePath wk)" "same_but p fs fs'"
    using worker_step_touches [OF 1(3)] by blast
  have "distinct (concat (map (pending_paths savePath) (xs @ wk' # ys)))"
  proof -
    have "distinct (concat (map (pending_paths savePath) (xs @ wk # ys)))" using inv by (simp add: threads_inv_def)
    then show ?thesis using worker_step_pending [OF 1(3)] by auto
  qed
  moreover have "file_content q fs' \<noteq> None" if "wk2 \<in> set xs \<union> set ys" "wk_ofs wk2 = Some (q, data, err)" for wk2 q data err
  proof -
    have "q \<in> set (pending_paths savePath wk2)" using that(2) by (simp add: pending_paths_def)
    then have "q \<noteq> p" using threads_inv_split [OF inv that(1) p(1)] by blast
    moreover have "file_content q fs \<noteq> None" using inv that by (force simp: threads_inv_def)
    ultimately show ?thesis using p(2) by (simp add: same_but_def)
  qed
  moreover have "file_content q fs' \<noteq> None" if "wk_ofs wk' = Some (q, data, err)" for q data err
    using 1(3)
  proof (cases rule: worker_step_cases)
    case (wrote p b data err)
    moreover from this have "file_content p fs \<noteq> None" using inv by (auto simp: threads_inv_def)
    ultimately show ?thesis using that by (auto simp: append_file_content)
  qed (use that in \<open>auto simp: open_write_def split: if_splits\<close>)
  ultimately show ?thesis unfolding 1(2) threads_inv_def
    by (auto simp del: concat_append distinct_append map_append) blast+
qed

lemma thread_step_eventual:
  assumes "thread_step W serverUrl savePath st st'" "threads_inv savePath st"
  shows "eventual W serverUrl savePath st' = eventual W serverUrl savePath st"
  using assms
proof (cases rule: thread_step.cases)
  case (1 fs wk fs' wk' xs ys)
  have inv: "threads_inv savePath (fs, xs @ wk # ys)" using assms(2) 1(1) by simp
  let ?f = "forecast W serverUrl savePath"
  obtain p where p: "p \<in> set (pending_paths savePath wk)" "same_but p fs fs'"
    using worker_step_touches [OF 1(3)] by blast
  have "?f fs' z = ?f fs z" if "z \<in> set xs \<union> set ys" for z
    using forecast_same_but [OF p(2), OF threads_inv_split [OF inv that p(1)]] .
  then have others: "map (?f fs') xs = map (?f fs) xs" "map (?f fs') ys = map (?f fs) ys" by auto
  have away: "map_of (concat (map (?f fs) zs)) q = None" if "set zs \<subseteq> set xs \<union> set ys" "q \<in> set (pending_paths savePath wk)" for zs q
  proof -
    have "q \<notin> fst ` set (?f fs z)" if "z \<in> set zs" for z
      using dom_forecast [of W serverUrl savePath fs z] threads_inv_split [OF inv, of z q] that
        \<open>set zs \<subseteq> set xs \<union> set ys\<close> \<open>q \<in> set (pending_paths savePath wk)\<close> by blast
    then show ?thesis by (force simp: map_of_eq_None_iff)
  qed
  have "\<forall>q data err. wk_ofs wk = Some (q, data, err) \<longrightarrow> file_content q fs \<noteq> None"
    "distinct (pending_paths savePath wk)"
    using inv by (auto simp: threads_inv_def)
  from worker_step_forecast [OF 1(3) this] show ?thesis
  proof (elim disjE exE conjE)
    assume "?f fs wk = ?f fs' wk'" "\<forall>q. map_of (?f fs wk) q = None \<longrightarrow> file_content q fs' = file_content q fs"
    then show ?thesis unfolding 1(1,2)
      by (intro ext) (auto simp: others map_add_def split: option.splits)
  next
    fix q assume q: "q \<in> set (pending_paths savePath wk)" "same_but q fs fs'"
      and n: "map_of (?f fs' wk') q = None" and e: "?f fs wk = (q, file_content q fs') # ?f fs' wk'"
    show ?thesis unfolding 1(1,2)
      using q(2) n away [of xs q] away [of ys q] q(1)
      by (intro ext) (auto simp: others e map_add_def same_but_def split: option.splits)
  qed
qed

lemma steps_eventual:
  assumes "(thread_step W serverUrl savePath)\<^sup>*\<^sup>* st st'" "threads_inv savePath st"
  shows "threads_inv savePath st' \<and> eventual W serverUrl savePath st' = eventual W serverUrl savePath st"
  using assms by (induction rule: rtranclp_induct) (auto simp: thread_step_inv thread_step_eventual)

lemma eventual_done: "list_all worker_done ws \<Longrightarrow> eventual W serverUrl savePath (fs, ws) p = file_content p fs"
proof -
  assume a: "list_all worker_done ws"
  have "concat (map (forecast W serverUrl savePath fs) ws) = []"
    using a by (auto simp: list_all_iff worker_done_def forecast_def)
  then show ?thesis unfolding eventual.simps by (simp only: map_of.simps option.case)
qed

lemma thread_step_nth:
  assumes "i < length ws" "worker_step W serverUrl savePath fs (ws ! i) = Some (Inr (fs', wk))"
  shows "thread_step W serverUrl savePath (fs, ws) (fs', ws[i := wk])"
  using thread_step.intros [OF assms(2), of "take i ws" "drop (Suc i) ws"] assms(1)
  by (simp add: id_take_nth_drop [symmetric] upd_conv_take_nth_drop)

lemma run_threads_steps:
  "run_threads W serverUrl savePath order st = Some (Inr st') \<Longrightarrow> (thread_step W serverUrl savePath)\<^sup>*\<^sup>* st st'"
proof (induction order arbitrary: st)
  case (Cons i order)
  obtain fs ws where st: "st = (fs, ws)" by fastforce
  show ?case
  proof (cases "i < length ws \<and> \<not> worker_done (ws ! i)")
    case True
    with Cons.prems st obtain fs' wk where s: "worker_step W serverUrl savePath fs (ws ! i) = Some (Inr (fs', wk))"
      "run_threads W serverUrl savePath order (fs', ws[i := wk]) = Some (Inr st')"
      by (auto split: option.splits sum.splits)
    from Cons.IH [OF s(2)] thread_step_nth [OF _ s(1)] True st show ?thesis by (simp add: converse_rtranclp_into_rtranclp)
  next
    case False
    then show ?thesis using Cons.prems Cons.IH st by auto
  qed
qed simp

lemma start_threads_inv:
  assumes "distinct (concat gs)"
  shows "threads_inv savePath (fs, start_threads gs net)"
proof -
  have "map (pending_paths savePath) (start_threads gs net) = map (map (image_path savePath)) gs"
    by (rule nth_equalityI) (simp_all add: start_threads_def pending_paths_def)
  moreover have "inj (image_path savePath)" by (rule injI) (simp add: image_path_def)
  then have "distinct (concat (map (map (image_path savePath)) gs))"
    using assms by (simp add: map_concat [symmetric] distinct_map inj_on_def)
  ultimately show ?thesis by (auto simp: threads_inv_def start_threads_def)
qed

lemma eventual_start:
  "eventual W serverUrl savePath (fs, start_threads gs net) p =
     (case map_of (concat (map (\<lambda>i. received W serverUrl savePath (fs_writable fs) (gs ! i) (net i)) [0..<length gs])) p of
        None \<Rightarrow> file_content p fs | Some r \<Rightarrow> r)"
  by (simp add: start_threads_def forecast_def comp_def)

lemma make_image_dir_files: "make_image_dir d fs = Some fs' \<Longrightarrow> fs_files fs' = fs_files fs \<and> fs_writable fs' = fs_writable fs"
  by (auto simp: make_image_dir_def create_directory_def split: if_splits)

subsection \<open>The threads reach their end\<close>

definition images_left :: "Fs \<times> 'w Worker list \<Rightarrow> nat" where
  "images_left st = sum_list (map (length \<circ> wk_images) (snd st))"

definition writes_left :: "Fs \<times> 'w Worker list \<Rightarrow> nat" where
  "writes_left st =
     sum_list (map (\<lambda>wk. case wk_ofs wk of None \<Rightarrow> 0 | Some (p, data, err) \<Rightarrow> Suc (length data)) (snd st))"

lemma thread_step_decreases:
  assumes "thread_step W serverUrl savePath st st'"
  shows "(st', st) \<in> measures [images_left, writes_left]"
  using assms
proof (cases rule: thread_step.cases)
  case (1 fs wk fs' wk' xs ys)
  from 1(3) show ?thesis unfolding 1(1,2)
    by (cases rule: worker_step_cases) (simp_all add: images_left_def writes_left_def)
qed

definition answers :: "'w World \<Rightarrow> string \<Rightarrow> bool" where
  \<comment> \<open>every request for an image returns\<close>
  "answers W serverUrl \<longleftrightarrow> (\<forall>n w. \<exists>data err w'. image_answer W serverUrl n w = Some (Inr (data, err, w')))"

lemma worker_step_progress:
  assumes "answers W serverUrl" "\<not> worker_done wk"
  shows "\<exists>fs' wk'. worker_step W serverUrl savePath fs wk = Some (Inr (fs', wk'))"
proof (cases "wk_ofs wk")
  case None
  then obtain n ns where "wk_images wk = n # ns" using assms(2) by (cases "wk_images wk") (simp_all add: worker_done_def)
  moreover obtain data err w' where "image_answer W serverUrl n (wk_net wk) = Some (Inr (data, err, w'))"
    using assms(1) unfolding answers_def by blast
  ultimately show ?thesis using None by (simp add: worker_step_def split: option.split)
next
  case (Some o')
  obtain p data err where "o' = (p, data, err)" by (cases o')
  then show ?thesis using Some by (cases data) (simp_all add: worker_step_def)
qed

lemma run_threads_append:
  "run_threads W serverUrl savePath (xs @ ys) st =
     (case run_threads W serverUrl savePath xs st of
        Some (Inr st) \<Rightarrow> run_threads W serverUrl savePath ys st
      | r \<Rightarrow> r)"
proof (induction xs arbitrary: st)
  case (Cons i xs)
  then show ?case by (cases st) (simp split: option.split sum.split)
qed simp

lemma run_threads_returns:
  "answers W serverUrl \<Longrightarrow> \<exists>st'. run_threads W serverUrl savePath order st = Some (Inr st')"
proof (induction order arbitrary: st)
  case (Cons i order)
  obtain fs ws where "st = (fs, ws)" by fastforce
  then show ?case
    using worker_step_progress [OF Cons.prems, of "ws ! i" savePath fs] Cons by fastforce
qed simp

lemma threads_can_finish:
  assumes "answers W serverUrl"
  shows "\<exists>order fs' ws'. run_threads W serverUrl savePath order st = Some (Inr (fs', ws')) \<and> list_all worker_done ws'"
proof (induction st rule: wf_induct_rule [OF wf_measures [of "[images_left, writes_left]"]])
  case (1 st)
  obtain fs ws where st: "st = (fs, ws)" by fastforce
  show ?case
  proof (cases "list_all worker_done ws")
    case True
    then have "run_threads W serverUrl savePath [] st = Some (Inr (fs, ws)) \<and> list_all worker_done ws" by (simp add: st)
    then show ?thesis by blast
  next
    case False
    then obtain i where i: "i < length ws" "\<not> worker_done (ws ! i)" by (auto simp: list_all_length)
    obtain fs1 wk where s: "worker_step W serverUrl savePath fs (ws ! i) = Some (Inr (fs1, wk))"
      using worker_step_progress [OF assms i(2)] by blast
    obtain order fs' ws' where "run_threads W serverUrl savePath order (fs1, ws[i := wk]) = Some (Inr (fs', ws'))"
      "list_all worker_done ws'"
      using 1 [OF thread_step_decreases [OF thread_step_nth [OF i(1) s, folded st]]] by blast
    then have "run_threads W serverUrl savePath (i # order) st = Some (Inr (fs', ws')) \<and> list_all worker_done ws'"
      using i s by (simp add: st)
    then show ?thesis by blast
  qed
qed


subsection \<open>Requests\<close>

lemma new_Client_plain: "new_Client url = Inr cl \<Longrightarrow> plain_client cl"
  by (auto simp: new_Client_def split: option.splits if_splits prod.splits)

text \<open>
  What is expected of the network: a connection attempt fails with an error, or gives a socket on which
  reading and writing follow the rules of \<open>os_socket\<close>.
\<close>

definition network_works :: "'w World \<Rightarrow> 'u ClientImpl \<Rightarrow> bool" where
  "network_works W cl \<longleftrightarrow>
     (\<forall>w. (\<exists>e w1. create_client_socket W cl w = (Inl e, w1) \<and> e \<noteq> SSLPeerCouldBeClosed) \<or>
          (\<exists>sock w1 up incoming outgoing. create_client_socket W cl w = (Inr sock, w1) \<and> up w1 \<and>
             os_socket (w_os W sock) up incoming outgoing))"

lemma network_worksI:
  assumes "\<And>w. \<exists>w1. create_client_socket W cl w = (Inr sock, w1) \<and> up w1" "os_socket (w_os W sock) up incoming outgoing"
  shows "network_works W cl"
  unfolding network_works_def using assms by metis

lemma answers_network:
  fixes cl :: "bytes ClientImpl"
  assumes "new_Client serverUrl = Inr cl" "network_works W cl"
  shows "answers W serverUrl"
  unfolding answers_def
proof (intro allI)
  fix n w
  have plain: "plain_client cl" using assms(1) by (rule new_Client_plain)
  have "\<exists>r cl' w' u'. Get_receiver W cl (''/'' @ n) (\<lambda>data ofs. (True, ofs @ data)) None w [] = Some (Inr (r, cl', w', u'))"
    using assms(2) [unfolded network_works_def, rule_format, of w]
  proof (elim disjE exE conjE)
    fix e w1 assume "create_client_socket W cl w = (Inl e, w1)" "e \<noteq> SSLPeerCouldBeClosed"
    from send_n_no_connection [OF plain this] show ?thesis
      by (simp add: Get_receiver_def Get_handler_def send_result_def send_def)
  next
    fix sock w1 up incoming outgoing
    assume "create_client_socket W cl w = (Inr sock, w1)" "up w1" "os_socket (w_os W sock) up incoming outgoing"
    from Get_handler_returns [OF this(3) plain _ this(1,2)] show ?thesis unfolding Get_receiver_def by blast
  qed
  then show "\<exists>data err w'. image_answer W serverUrl n w = Some (Inr (data, err, w'))"
    using assms(1) by (auto simp: image_answer_def)
qed

lemma image_answer_ok:
  fixes cl :: "bytes ClientImpl"
  assumes "new_Client serverUrl = Inr cl" "os_socket (w_os W sock) up incoming outgoing"
    "create_client_socket W cl w = (Inr sock, w1)" "up w1"
    "incoming w1 = response_wire status reason hs wire @ left" "valid_response status reason hs body wire left"
  shows "\<exists>w'. image_answer W serverUrl n w = Some (Inr (body, Success, w'))"
  using Get_receiver_ok [OF assms(2) new_Client_plain [OF assms(1)] _ assms(3-6), of "''/'' @ n" "[]"] assms(1)
  by (auto simp: image_answer_def)

subsection \<open>The weather cache\<close>

lemma store_weather_eq:
  "store_weather body m =
     (case json_parse body of
        Inl e \<Rightarrow> Inr (- 1, m)
      | Inr j \<Rightarrow> Inr (0, if fs_writable (mobileFs m) (weather_file m)
                          then m\<lparr>mobileFs := put_file (weather_file m) (dump_text j) (mobileFs m)\<rparr> else m))"
proof (cases "json_parse body")
  case (Inl e)
  then show ?thesis using json_parse_exception by (simp add: store_weather_def)
next
  case (Inr j)
  then have "dump_default j = Inr (dump_text j)" using good_json_parse by (simp add: dump_default_iff good_def)
  moreover have "put_file p t (put_file p [] fs) = put_file p t fs" for p t fs
    by (simp add: put_file_def)
  ultimately show ?thesis using Inr by (simp add: store_weather_def open_write_def append_file_def)
qed

lemma json_values_to_json:
  "json_values [''city'', ''weather'', ''temperature'', ''temperatureFloat'', ''humidity'', ''humidityFloat'',
     ''winddirection'', ''windpower'', ''reporttime''] (to_json d) = Inr (weather_fields d)"
  by (simp add: to_json_members json_value_def get_string_value_def weather_fields_def)

definition presentable :: "WeatherData \<Rightarrow> bool" where
  \<comment> \<open>a record that Java strings can hold and that is not taken for a missing one\<close>
  "presentable d \<longleftrightarrow> list_all (\<lambda>s. utf8 s \<and> NUL \<notin> set s) (weather_fields d) \<and> \<not> (weather d = [] \<and> temperature d = [])"

lemma cached_weather_to_json:
  assumes "presentable d"
  shows "cached_weather (to_json d) = Inr (Some d)"
  using assms json_values_to_json [of d] by (simp add: cached_weather_def presentable_def weather_fields_def)

lemma getCacheWeather_stored:
  assumes "presentable d" "file_content (weather_file m) (mobileFs m) = Some (dump_text (to_json d))"
  shows "JNICommon_getCacheWeather m = Inr (Some d)"
proof -
  have "json_parse (dump_text (to_json d)) = Inr (to_json d)"
    using assms(1) by (intro weather_message.text_parses) (auto simp: presentable_def list_all_iff)
  then show ?thesis
    using assms cached_weather_to_json by (simp add: JNICommon_getCacheWeather_def is_discarded_def is_object_def to_json_members)
qed
subsection \<open>The whole download\<close>

lemma download_content:
  assumes "distinct images"
    "downloadScreensaverRemoteImageListToLocalPath W hardware_concurrency order net images m = Some (Inr m')"
  shows "\<exists>gs. group_images hardware_concurrency images = Inr gs \<and>
    (\<forall>p. file_content p (mobileFs m') =
      (case map_of (concat (map (\<lambda>i. received W (mobileServerUrl m) (getMobileScreensaverImageListDirPath m)
              (fs_writable (mobileFs m)) (gs ! i) (net i)) [0..<length gs])) p of
         None \<Rightarrow> file_content p (mobileFs m) | Some r \<Rightarrow> r))"
proof -
  let ?d = "getMobileScreensaverImageListDirPath m"
  obtain fs gs fs' ws where r: "make_image_dir ?d (mobileFs m) = Some fs" "group_images hardware_concurrency images = Inr gs"
    "run_threads W (mobileServerUrl m) ?d order (fs, start_threads gs net) = Some (Inr (fs', ws))"
    "list_all worker_done ws" "m' = m\<lparr>mobileFs := fs'\<rparr>"
    using assms(2) unfolding downloadScreensaverRemoteImageListToLocalPath_def Let_def
    by (auto split: option.splits sum.splits if_splits)
  have "distinct (concat gs)" using groups_distinct [OF r(2) assms(1)] .
  from steps_eventual [OF run_threads_steps [OF r(3)] start_threads_inv [OF this]] eventual_done [OF r(4)]
  have "file_content p fs' = eventual W (mobileServerUrl m) ?d (fs, start_threads gs net) p" for p by metis
  moreover have "fs_writable fs = fs_writable (mobileFs m)" "file_content p fs = file_content p (mobileFs m)" for p
    using make_image_dir_files [OF r(1)] by (simp_all add: file_content_def)
  ultimately show ?thesis using r(2,5) by (simp add: eventual_start cong: option.case_cong del: eventual.simps)
qed

lemma download_finishes:
  assumes "answers W (mobileServerUrl m)" "thread_num hardware_concurrency images > 0"
    "make_image_dir (getMobileScreensaverImageListDirPath m) (mobileFs m) \<noteq> None"
  shows "wfP (\<lambda>st' st. thread_step W (mobileServerUrl m) (getMobileScreensaverImageListDirPath m) st st') \<and>
    (\<exists>order' m'. downloadScreensaverRemoteImageListToLocalPath W hardware_concurrency (order @ order') net images m =
       Some (Inr m'))"
proof
  have "{(st', st). thread_step W (mobileServerUrl m) (getMobileScreensaverImageListDirPath m) st st'}
      \<subseteq> measures [images_left, writes_left]" using thread_step_decreases by blast
  then show "wfP (\<lambda>st' st. thread_step W (mobileServerUrl m) (getMobileScreensaverImageListDirPath m) st st')"
    unfolding wfp_def by (rule wf_subset [OF wf_measures])
next
  let ?run = "run_threads W (mobileServerUrl m) (getMobileScreensaverImageListDirPath m)"
  obtain fs where fs: "make_image_dir (getMobileScreensaverImageListDirPath m) (mobileFs m) = Some fs" using assms(3) by blast
  let ?st = "(fs, start_threads (groups_of (thread_num hardware_concurrency images) images) net)"
  obtain st1 where "?run order ?st = Some (Inr st1)" using run_threads_returns [OF assms(1)] by blast
  moreover obtain order' fs' ws' where "?run order' st1 = Some (Inr (fs', ws'))" "list_all worker_done ws'"
    using threads_can_finish [OF assms(1)] by blast
  ultimately have "downloadScreensaverRemoteImageListToLocalPath W hardware_concurrency (order @ order') net images m =
      Some (Inr (m\<lparr>mobileFs := fs'\<rparr>))"
    using fs group_images_eq [OF assms(2)]
    by (simp add: downloadScreensaverRemoteImageListToLocalPath_def run_threads_append)
  then show "\<exists>order' m'. downloadScreensaverRemoteImageListToLocalPath W hardware_concurrency (order @ order') net images m =
       Some (Inr m')" by blast
qed

lemma make_image_dir_exists: "is_directory d fs \<Longrightarrow> make_image_dir d fs \<noteq> None"
  by (simp add: make_image_dir_def)

text \<open>\<open>std::thread::hardware_concurrency()\<close> may return 0; five images or more are then divided by it.\<close>

lemma group_images_no_processors: "length images > 4 \<Longrightarrow> group_images 0 images = Inl Division_by_zero"
  by (cases images) (simp_all add: group_images_def thread_num_def)

lemma group_images_single: "group_images hc [n] = Inr [[n]]"
  by (simp add: group_images_def thread_num_def)

text \<open>An example: a phone whose directory exists and which may write everywhere.\<close>

definition example_mobile :: Mobile where
  "example_mobile = \<lparr>mobilePackageCacheDirPath = ''/c'', mobileServerUrl = ''http://tv'', screensaverRemoteImageList = [],
     mobileLog = new_GLog,
     mobileFs = \<lparr>fs_files = [], fs_dirs = [''/c/screensaverimagelist''], fs_writable = (\<lambda>p. True), fs_creatable = (\<lambda>p. False)\<rparr>\<rparr>"

lemma example_client: "new_Client ''http://tv'' = Inr (new_ClientImpl ''tv'' 80)"
proof -
  have "parse_scheme_host_port ''http://tv'' = Some (''http'', ''tv'', [])" by code_simp
  then show ?thesis by (simp add: new_Client_def)
qed

lemma example_mobile_client: "new_Client (mobileServerUrl example_mobile) = Inr (new_ClientImpl ''tv'' 80)"
  by (simp add: example_mobile_def example_client)

lemma example_network: "network_works net_world (new_ClientImpl ''tv'' 80)"
  by (rule network_worksI [OF _ net_world_socket]) simp

lemma example_mobile_dir:
  "make_image_dir (getMobileScreensaverImageListDirPath example_mobile) (mobileFs example_mobile) \<noteq> None"
  by (rule make_image_dir_exists)
    (simp add: example_mobile_def getMobileScreensaverImageListDirPath_def mobilePkgCacheDirPathChildFolder_def is_directory_def)

section \<open>Properties\<close>

text \<open>
  C7 (downloads_exact): in whatever order the threads run, when \<open>downloadScreensaverRemoteImageListToLocalPath\<close>
  returns, the files are those of the list \<open>received\<close>: each image that could be opened holds exactly the
  bytes its request delivered if that succeeded and is gone otherwise; every other file is as before. The
  names are distinct, as those of the entries of a directory are.
\<close>

theorem downloads_exact:
  assumes "distinct images"
    "downloadScreensaverRemoteImageListToLocalPath W hardware_concurrency order net images m = Some (Inr m')"
  shows "\<exists>gs. group_images hardware_concurrency images = Inr gs \<and>
    (\<forall>p. file_content p (mobileFs m') =
      (case map_of (concat (map (\<lambda>i. received W (mobileServerUrl m) (getMobileScreensaverImageListDirPath m)
              (fs_writable (mobileFs m)) (gs ! i) (net i)) [0..<length gs])) p of
         None \<Rightarrow> file_content p (mobileFs m) | Some r \<Rightarrow> r))"
  by (rule download_content [OF assms])

theorem downloads_exact_witness:
  "\<exists>order m'. downloadScreensaverRemoteImageListToLocalPath net_world 1 order (\<lambda>i. net_of example_segments) [''a.png''] example_mobile =
      Some (Inr m') \<and> file_content ''/c/screensaverimagelist/a.png'' (mobileFs m') = Some ''hello''"
proof -
  obtain order m' where d: "downloadScreensaverRemoteImageListToLocalPath net_world 1 order (\<lambda>i. net_of example_segments) [''a.png''] example_mobile =
      Some (Inr m')"
    using download_finishes [OF answers_network [OF example_mobile_client example_network] _ example_mobile_dir,
        of 1 "[''a.png'']" "[]" "\<lambda>i. net_of example_segments", THEN conjunct2]
    by (auto simp: thread_num_def)
  have "concat (net_in (net_of example_segments)) = response_wire 200 ''OK'' [(''Content-Length'', ''5'')] ''hello'' @ []"
    using example_segments by (simp add: net_of_def)
  from image_answer_ok [OF example_client net_world_socket net_world_connect TrueI this valid_response_example]
  obtain w' where "image_answer net_world ''http://tv'' ''a.png'' (net_of example_segments) = Some (Inr (''hello'', Success, w'))"
    by blast
  then have "file_content ''/c/screensaverimagelist/a.png'' (mobileFs m') = Some ''hello''"
    using downloads_exact [OF _ d]
    by (auto simp: group_images_single example_mobile_def getMobileScreensaverImageListDirPath_def
        mobilePkgCacheDirPathChildFolder_def image_path_def)
  then show ?thesis using d by blast
qed

text \<open>
  C22 (downloads_complete): the download comes to an end. Threads cannot run for ever, in any order, and
  no state is a dead end: as long as every connection attempt fails with an error or gives a working
  socket, every partial run of the threads can be continued until the function returns.
\<close>

theorem downloads_complete:
  fixes cl :: "bytes ClientImpl"
  assumes "new_Client (mobileServerUrl m) = Inr cl" "network_works W cl" "thread_num hardware_concurrency images > 0"
    "make_image_dir (getMobileScreensaverImageListDirPath m) (mobileFs m) \<noteq> None"
  shows "wfP (\<lambda>st' st. thread_step W (mobileServerUrl m) (getMobileScreensaverImageListDirPath m) st st') \<and>
    (\<exists>order' m'. downloadScreensaverRemoteImageListToLocalPath W hardware_concurrency (order @ order') net images m =
       Some (Inr m'))"
  by (rule download_finishes [OF answers_network [OF assms(1,2)] assms(3,4)])

theorem downloads_complete_witness:
  "\<exists>order' m'. downloadScreensaverRemoteImageListToLocalPath net_world 2 ([1, 0, 1] @ order') (\<lambda>i. net_of [])
     [''a.png'', ''b.png'', ''c.png'', ''d.png'', ''e.png''] example_mobile = Some (Inr m')"
  by (rule downloads_complete [OF _ example_network _ example_mobile_dir, THEN conjunct2])
    (simp_all add: example_mobile_def example_client thread_num_def)

text \<open>
  C25 (groups_balanced): the images are dealt out to the threads completely and evenly: the groups together
  are the list, in its order within each group, and their sizes differ by at most one.
\<close>

theorem groups_balanced:
  assumes "thread_num hc images > 0"
  shows "\<exists>gs. group_images hc images = Inr gs \<and> length gs = thread_num hc images \<and>
    mset (concat gs) = mset images \<and>
    (\<forall>g < length gs. length (gs ! g) = (length images + (length gs - 1 - g)) div length gs \<and> subseq (gs ! g) images)"
proof -
  let ?n = "thread_num hc images"
  let ?gs = "groups_of ?n images"
  have s: "subseq (map ((!) images) (filter P [0..<length images])) images" for P
    using subseq_map [OF subseq_filter_left, of "(!) images" P "[0..<length images]"] by (simp add: map_nth)
  have l: "length ?gs = ?n" by (simp add: groups_of_def)
  have "length (?gs ! g) = (length images + (?n - 1 - g)) div ?n \<and> subseq (?gs ! g) images" if "g < ?n" for g
    using that s length_filter_mod [of g ?n "length images"] by (simp add: groups_of_def)
  then show ?thesis using group_images_eq [OF assms] mset_groups_of [OF assms, of images] l by auto
qed

theorem groups_balanced_witness:
  "\<exists>gs. group_images 3 [''a'', ''b'', ''c'', ''d'', ''e''] = Inr gs \<and> map length gs = [2, 2, 1]"
proof -
  let ?xs = "[''a'', ''b'', ''c'', ''d'', ''e'']"
  have n: "thread_num 3 ?xs = 3" by (simp add: thread_num_def)
  obtain gs where g: "group_images 3 ?xs = Inr gs \<and> length gs = 3 \<and> mset (concat gs) = mset ?xs \<and>
    (\<forall>g < length gs. length (gs ! g) = (length ?xs + (length gs - 1 - g)) div length gs \<and> subseq (gs ! g) ?xs)"
    using groups_balanced [of 3 ?xs, unfolded n, OF zero_less_numeral] by (rule exE)
  have gs: "group_images 3 ?xs = Inr gs" "length gs = 3" using g by (rule conjE, blast)+
  have len: "length (gs ! g) = (5 + (2 - g)) div 3" if "g < 3" for g
    using g [THEN conjunct2, THEN conjunct2, THEN conjunct2, THEN spec, of g] that unfolding gs(2) by simp
  have "map length gs = [2, 2, 1]"
  proof (rule nth_equalityI)
    fix g assume "g < length (map length gs)"
    then have "g = 0 \<or> g = 1 \<or> g = 2" using gs(2) by auto
    then show "map length gs ! g = [2, 2, 1] ! g" using gs(2) len [of g] by (elim disjE) simp_all
  qed (simp add: gs(2))
  with gs(1) show ?thesis by (intro exI [of _ gs] conjI)
qed

text \<open>
  C24 (weather_cache_kept): storing an answer of the server never leaves a damaged cache and never fails
  otherwise than with -1: an answer that is not JSON changes nothing, one that is JSON replaces the cache
  by its text (if the file can be opened), and no other file changes. In particular the file is not left
  empty by an exception between opening and writing.
\<close>

theorem weather_cache_kept:
  "store_weather body m =
     (case json_parse body of
        Inl e \<Rightarrow> Inr (- 1, m)
      | Inr j \<Rightarrow> Inr (0, if fs_writable (mobileFs m) (weather_file m)
                          then m\<lparr>mobileFs := put_file (weather_file m) (dump_text j) (mobileFs m)\<rparr> else m))"
  by (rule store_weather_eq)

text \<open>
  C23 (image_saved): an image that the server sends over a working connection, in any framing, is saved
  byte for byte under its name in the phone's directory, and no other file changes.
\<close>

theorem image_saved:
  fixes cl :: "bytes ClientImpl"
  assumes "new_Client (mobileServerUrl m) = Inr cl" "os_socket (w_os W sock) up incoming outgoing"
    "create_client_socket W cl (net 0) = (Inr sock, w1)" "up w1"
    "incoming w1 = response_wire status reason hs wire @ left" "valid_response status reason hs body wire left"
    "fs_writable (mobileFs m) (image_path (getMobileScreensaverImageListDirPath m) n)"
    "downloadScreensaverRemoteImageListToLocalPath W hardware_concurrency order net [n] m = Some (Inr m')"
  shows "file_content p (mobileFs m') =
    (if p = image_path (getMobileScreensaverImageListDirPath m) n then Some body else file_content p (mobileFs m))"
proof -
  obtain w' where "image_answer W (mobileServerUrl m) n (net 0) = Some (Inr (body, Success, w'))"
    using image_answer_ok [OF assms(1-6)] by blast
  then show ?thesis using download_content [OF _ assms(8)] assms(7) by (simp add: group_images_single)
qed

theorem image_saved_witness:
  "\<exists>order m'. downloadScreensaverRemoteImageListToLocalPath net_world 4 order (\<lambda>i. net_of example_segments) [''a.png''] example_mobile =
      Some (Inr m') \<and> file_content ''/c/screensaverimagelist/a.png'' (mobileFs m') = Some ''hello''"
proof -
  obtain order m' where d: "downloadScreensaverRemoteImageListToLocalPath net_world 4 order (\<lambda>i. net_of example_segments) [''a.png''] example_mobile =
      Some (Inr m')"
    using download_finishes [OF answers_network [OF example_mobile_client example_network] _ example_mobile_dir,
        of 4 "[''a.png'']" "[]" "\<lambda>i. net_of example_segments", THEN conjunct2]
    by (auto simp: thread_num_def)
  have "concat (net_in (net_of example_segments)) = response_wire 200 ''OK'' [(''Content-Length'', ''5'')] ''hello'' @ []"
    using example_segments by (simp add: net_of_def)
  from image_saved [OF example_mobile_client net_world_socket net_world_connect TrueI this valid_response_example _ d,
      of "''/c/screensaverimagelist/a.png''"] d
  have "file_content ''/c/screensaverimagelist/a.png'' (mobileFs m') = Some ''hello''"
    by (simp add: example_mobile_def getMobileScreensaverImageListDirPath_def mobilePkgCacheDirPathChildFolder_def image_path_def)
  then show ?thesis using d by blast
qed

end
