(* ===== verification/Http_Ranges.thy ===== *)
theory Http_Ranges
  imports Http_Message "HOL-Library.Multiset"
begin

text \<open>
  The byte ranges of \<^verbatim>\<open>src/CPPTools/include/httplib.h\<close>: the \<open>Range\<close> header that a client writes and a
  server reads, the check and the coalescing of the requested ranges, and the
  \<open>multipart/byteranges\<close> body. \<open>ssize_t\<close> is 64 bits wide, as on the platforms the desktop tools are
  built for; the length of a content is below \<open>2\<^sup>6\<^sup>3\<close>, so no difference of two positions overflows.

  \<open>range_error\<close> and \<open>coalesce_ranges\<close> are proved against \<open>wanted\<close>, the set of positions that RFC 9110
  gives a range; the announced length of a multipart body is proved to be the length of the body.
\<close>

section \<open>Ranges\<close>

text \<open>A missing bound is \<open>-1\<close>.\<close>

type_synonym Range = "int \<times> int"
type_synonym Ranges = "Range list"

subsection \<open>The header field\<close>

definition range_text :: "Range \<Rightarrow> string" where
  "range_text r =
     (if fst r \<noteq> - 1 then to_string_int (fst r) else []) @ ''-'' @
     (if snd r \<noteq> - 1 then to_string_int (snd r) else [])"

fun ranges_text :: "Ranges \<Rightarrow> nat \<Rightarrow> string" where
  "ranges_text [] i = []"
| "ranges_text (r # rs) i = (if i \<noteq> 0 then '', '' else []) @ range_text r @ ranges_text rs (i + 1)"

definition make_range_header :: "Ranges \<Rightarrow> string \<times> string" where
  "make_range_header rs = (''Range'', ''bytes='' @ ranges_text rs 0)"

text \<open>\<open>std::stoll\<close> on a string of digits throws \<open>std::out_of_range\<close> above the largest \<open>long long\<close>.\<close>

definition stoll_digits :: "string \<Rightarrow> exn + int" where
  "stoll_digits s = (if dec_value s \<le> 2 ^ 63 - 1 then Inr (int (dec_value s)) else Inl Out_of_range)"

text \<open>What the callback does with one piece between commas: an exception, an invalid range (\<open>None\<close>)
  or a range to store.\<close>

definition range_of_piece :: "string \<Rightarrow> exn + Range option" where
  "range_of_piece p =
     (let lhs = takeWhile (\<lambda>c. c \<noteq> CHR ''-'') p in
      if lhs = p then Inr None
      else
        let rhs = drop (length lhs + 1) p in
        if \<not> list_all isdigit lhs \<or> \<not> list_all isdigit rhs then Inr None
        else
          (case (if lhs = [] then Inr (- 1) else stoll_digits lhs) of
             Inl e \<Rightarrow> Inl e
           | Inr first_pos \<Rightarrow>
               (case (if rhs = [] then Inr (- 1) else stoll_digits rhs) of
                  Inl e \<Rightarrow> Inl e
                | Inr last_pos \<Rightarrow>
                    if (first_pos = - 1 \<and> last_pos = - 1) \<or>
                       (first_pos \<noteq> - 1 \<and> last_pos \<noteq> - 1 \<and> first_pos > last_pos)
                    then Inr None
                    else Inr (Some (first_pos, last_pos)))))"

fun range_pieces :: "string list \<Rightarrow> bool \<Rightarrow> Ranges \<Rightarrow> (exn + bool) \<times> Ranges" where
  "range_pieces [] all_valid_ranges ranges = (Inr all_valid_ranges, ranges)"
| "range_pieces (p # ps) all_valid_ranges ranges =
     (if \<not> all_valid_ranges then range_pieces ps all_valid_ranges ranges
      else
        (case range_of_piece p of
           Inl e \<Rightarrow> (Inl e, ranges)
         | Inr None \<Rightarrow> range_pieces ps False ranges
         | Inr (Some r) \<Rightarrow> range_pieces ps all_valid_ranges (ranges @ [r])))"

text \<open>The second component is the out-parameter, which is filled as far as the parser got.\<close>

definition parse_range_header :: "string \<Rightarrow> Ranges \<Rightarrow> bool \<times> Ranges" where
  "parse_range_header s ranges =
     (if length s > 7 \<and> take 6 s = ''bytes='' then
        (case range_pieces (split_at (drop 6 s) CHR '','') True ranges of
           (Inl e, ranges) \<Rightarrow> (False, ranges)
         | (Inr all_valid_ranges, ranges) \<Rightarrow> (all_valid_ranges \<and> ranges \<noteq> [], ranges))
      else (False, ranges))"

subsection \<open>Checking and coalescing\<close>

definition RANGE_MAX_COUNT :: nat where "RANGE_MAX_COUNT = 1024"

text \<open>The statements that both functions start their loop body with: missing bounds are filled in, and
  a last position behind the content is cut.\<close>

definition resolve_range :: "int \<Rightarrow> Range \<Rightarrow> Range" where
  "resolve_range content_len r =
     (let (first_pos, last_pos) = r;
          (first_pos, last_pos) =
            (if first_pos = - 1 \<and> last_pos = - 1 then (0, content_len) else (first_pos, last_pos));
          (first_pos, last_pos) =
            (if first_pos = - 1 then (content_len - last_pos, content_len - 1) else (first_pos, last_pos));
          last_pos = (if last_pos = - 1 \<or> last_pos \<ge> content_len then content_len - 1 else last_pos)
      in (first_pos, last_pos))"

definition coalesce_step :: "nat \<Rightarrow> Range \<Rightarrow> Ranges \<Rightarrow> Ranges" where
  "coalesce_step content_length r coalesced =
     (let (first_pos, last_pos) = resolve_range (int content_length) r in
      if \<not> (0 \<le> first_pos \<and> first_pos \<le> last_pos \<and> last_pos < int content_length) then coalesced
      else if coalesced \<noteq> [] \<and> first_pos \<le> snd (last coalesced) + 1 \<and>
         \<not> (first_pos = fst (last coalesced) \<and> last_pos = snd (last coalesced))
      then butlast coalesced @ [(fst (last coalesced), max (snd (last coalesced)) last_pos)]
      else coalesced @ [(first_pos, last_pos)])"

text \<open>\<open>std::sort\<close> is a parameter: it permutes the ranges and puts them in the order of their first
  positions, but how it orders ranges with the same first position is not specified.\<close>

definition coalesce_ranges :: "(Ranges \<Rightarrow> Ranges) \<Rightarrow> nat \<Rightarrow> Ranges \<Rightarrow> Ranges" where
  "coalesce_ranges sort_ranges content_length ranges =
     (if length ranges \<le> 1 then ranges
      else fold (coalesce_step content_length) (sort_ranges ranges) [])"

text \<open>The loop of \<open>range_error\<close> changes the ranges in place; \<open>processed_ranges\<close> holds the ranges
  before the current one as they are now.\<close>

fun range_check :: "int \<Rightarrow> Ranges \<Rightarrow> Ranges \<Rightarrow> nat \<Rightarrow> bool \<times> Ranges" where
  "range_check content_len [] processed_ranges overwrapping_count = (False, processed_ranges)"
| "range_check content_len (r # rs) processed_ranges overwrapping_count =
     (let (first_pos, last_pos) = resolve_range content_len r;
          ranges = processed_ranges @ (first_pos, last_pos) # rs in
      if \<not> (0 \<le> first_pos \<and> first_pos \<le> last_pos \<and> last_pos \<le> content_len - 1) then (True, ranges)
      else if list_ex (\<lambda>p. \<not> (last_pos < fst p \<or> first_pos > snd p)) processed_ranges then
        (if overwrapping_count + 1 > 2 then (True, ranges)
         else range_check content_len rs (processed_ranges @ [(first_pos, last_pos)]) (overwrapping_count + 1))
      else range_check content_len rs (processed_ranges @ [(first_pos, last_pos)]) overwrapping_count)"

text \<open>The arguments are the members the function reads: \<open>req.ranges\<close> (which it changes), \<open>res.status\<close>,
  \<open>res.content_length_\<close> and \<open>res.body.size()\<close>.\<close>

definition range_error :: "(Ranges \<Rightarrow> Ranges) \<Rightarrow> Ranges \<Rightarrow> int \<Rightarrow> nat \<Rightarrow> nat \<Rightarrow> bool \<times> Ranges" where
  "range_error sort_ranges ranges status content_length body_size =
     (if ranges \<noteq> [] \<and> 200 \<le> status \<and> status < 300 then
        let content_len = (if content_length \<noteq> 0 then content_length else body_size) in
        if length ranges > RANGE_MAX_COUNT then (True, ranges)
        else
          (case range_check (int content_len) ranges [] 0 of
             (True, ranges) \<Rightarrow> (True, ranges)
           | (False, ranges) \<Rightarrow> (False, coalesce_ranges sort_ranges content_len ranges))
      else (False, ranges))"

subsection \<open>The body of several ranges\<close>

text \<open>A failed assertion aborts the process; an exception of a content provider passes through.\<close>

datatype range_fault = Assertion_failed | Throws exn

definition get_range_offset_and_length :: "Range \<Rightarrow> nat \<Rightarrow> range_fault + nat \<times> nat" where
  "get_range_offset_and_length r content_length =
     (if (fst r \<noteq> - 1 \<and> snd r \<noteq> - 1) \<and> (0 \<le> fst r \<and> fst r < int content_length) \<and>
         (fst r \<le> snd r \<and> snd r < int content_length)
      then Inr (nat (fst r), nat (snd r - fst r) + 1)
      else Inl Assertion_failed)"

definition make_content_range_header_field :: "nat \<times> nat \<Rightarrow> nat \<Rightarrow> string" where
  "make_content_range_header_field offset_and_length content_length =
     (let st = fst offset_and_length; ed = st + snd offset_and_length - 1 in
      ''bytes '' @ to_string_nat st @ ''-'' @ to_string_nat ed @ ''/'' @ to_string_nat content_length)"

text \<open>The three callables act on a state \<open>'s\<close>. The outer option is \<open>None\<close> when \<open>content\<close> never
  returns.\<close>

definition range_part_head ::
  "string \<Rightarrow> string \<Rightarrow> (string \<Rightarrow> 's \<Rightarrow> 's) \<Rightarrow> (string \<Rightarrow> 's \<Rightarrow> 's) \<Rightarrow> 's \<Rightarrow> 's" where
  "range_part_head boundary content_type stoken ctoken s =
     (let s = ctoken [CR, LF] (stoken boundary (ctoken ''--'' s)) in
      if content_type \<noteq> [] then ctoken [CR, LF] (stoken content_type (ctoken ''Content-Type: '' s)) else s)"

fun process_multipart_ranges_data ::
  "Ranges \<Rightarrow> string \<Rightarrow> string \<Rightarrow> nat \<Rightarrow> (string \<Rightarrow> 's \<Rightarrow> 's) \<Rightarrow> (string \<Rightarrow> 's \<Rightarrow> 's) \<Rightarrow>
     (nat \<Rightarrow> nat \<Rightarrow> 's \<Rightarrow> (range_fault + bool \<times> 's) option) \<Rightarrow> 's \<Rightarrow> (range_fault + bool \<times> 's) option" where
  "process_multipart_ranges_data [] boundary content_type content_length stoken ctoken content s =
     Some (Inr (True, ctoken ''--'' (stoken boundary (ctoken ''--'' s))))"
| "process_multipart_ranges_data (r # rs) boundary content_type content_length stoken ctoken content s =
     (let s = range_part_head boundary content_type stoken ctoken s in
      case get_range_offset_and_length r content_length of
        Inl e \<Rightarrow> Some (Inl e)
      | Inr offset_and_length \<Rightarrow>
          let s = stoken (make_content_range_header_field offset_and_length content_length)
                    (ctoken ''Content-Range: '' s);
              s = ctoken [CR, LF] (ctoken [CR, LF] s) in
          (case content (fst offset_and_length) (snd offset_and_length) s of
             None \<Rightarrow> None
           | Some (Inl e) \<Rightarrow> Some (Inl e)
           | Some (Inr (ok, s)) \<Rightarrow>
               if \<not> ok then Some (Inr (False, s))
               else process_multipart_ranges_data rs boundary content_type content_length stoken ctoken content
                      (ctoken [CR, LF] s)))"

text \<open>\<open>std::string::substr\<close> throws when the offset is behind the end.\<close>

definition body_substr :: "string \<Rightarrow> nat \<Rightarrow> nat \<Rightarrow> exn + string" where
  "body_substr body offset len =
     (if offset > length body then Inl Out_of_range else Inr (take len (drop offset body)))"

definition make_multipart_ranges_data ::
  "Ranges \<Rightarrow> string \<Rightarrow> string \<Rightarrow> string \<Rightarrow> nat \<Rightarrow> string \<Rightarrow> (range_fault + bool \<times> string) option" where
  "make_multipart_ranges_data ranges body boundary content_type content_length data =
     process_multipart_ranges_data ranges boundary content_type content_length
       (\<lambda>token data. data @ token) (\<lambda>token data. data @ token)
       (\<lambda>offset len data.
          Some (if \<not> offset + len \<le> content_length then Inl Assertion_failed
                else (case body_substr body offset len of
                        Inl e \<Rightarrow> Inl (Throws e)
                      | Inr t \<Rightarrow> Inr (True, data @ t))))
       data"

definition get_multipart_ranges_data_length ::
  "Ranges \<Rightarrow> string \<Rightarrow> string \<Rightarrow> nat \<Rightarrow> (range_fault + bool \<times> nat) option" where
  "get_multipart_ranges_data_length ranges boundary content_type content_length =
     process_multipart_ranges_data ranges boundary content_type content_length
       (\<lambda>token data_length. data_length + length token) (\<lambda>token data_length. data_length + length token)
       (\<lambda>offset len data_length. Some (Inr (True, data_length + len)))
       0"

definition write_multipart_ranges_data ::
  "'s Stream \<Rightarrow> Ranges \<Rightarrow> 'u provider \<Rightarrow> string \<Rightarrow> string \<Rightarrow> nat \<Rightarrow> ('u \<Rightarrow> bool \<times> 'u) \<Rightarrow> 's \<Rightarrow> 'u \<Rightarrow>
     (range_fault + bool \<times> 's \<times> 'u) option" where
  "write_multipart_ranges_data strm ranges content_provider boundary content_type content_length
     is_shutting_down s u =
     process_multipart_ranges_data ranges boundary content_type content_length
       (\<lambda>token (s, u). (snd (strm_write strm s token), u))
       (\<lambda>token (s, u). (snd (strm_write strm s token), u))
       (\<lambda>offset len (s, u).
          (case write_content strm content_provider offset len is_shutting_down s u of
             None \<Rightarrow> None
           | Some (Inl e) \<Rightarrow> Some (Inl (Throws e))
           | Some (Inr (ok, err, u, st)) \<Rightarrow> Some (Inr (ok, sk_strm st, u))))
       (s, u)"

section \<open>Predicates on requests\<close>

definition expect_content :: "'u Request \<Rightarrow> bool" where
  "expect_content req \<longleftrightarrow>
     rq_method req = ''POST'' \<or> rq_method req = ''PUT'' \<or> rq_method req = ''PATCH'' \<or>
     rq_method req = ''DELETE'' \<or>
     (rq_has_header req ''Content-Length'' \<and>
      fst (get_header_value_u64 (rq_headers req) ''Content-Length'' 0 0) > 0) \<or>
     is_chunked_transfer_encoding (rq_headers req)"

definition has_crlf :: "string \<Rightarrow> bool" where
  "has_crlf s = list_ex (\<lambda>c. c = CR \<or> c = LF) (c_str s)"

section \<open>What a range asks for\<close>

text \<open>The positions that RFC 9110, 14.1.2, gives a range of a content of \<open>n\<close> bytes: from the first position
  to the last, or to the end; a range without a first position is the suffix of the given length.\<close>

definition wanted :: "nat \<Rightarrow> Range \<Rightarrow> int set" where
  "wanted n r =
     {i. 0 \<le> i \<and> i < int n \<and>
         (if fst r = - 1 then snd r = - 1 \<or> int n - snd r \<le> i
          else fst r \<le> i \<and> (snd r = - 1 \<or> i \<le> snd r))}"

definition span :: "Range \<Rightarrow> int set" where
  "span r = {fst r..snd r}"

definition fits :: "nat \<Rightarrow> Range \<Rightarrow> bool" where
  "fits n r \<longleftrightarrow> 0 \<le> fst r \<and> fst r \<le> snd r \<and> snd r < int n"

text \<open>How many ranges meet an earlier one.\<close>

fun overlaps :: "nat \<Rightarrow> Ranges \<Rightarrow> Ranges \<Rightarrow> nat" where
  "overlaps n seen [] = 0"
| "overlaps n seen (r # rs) =
     (if \<exists>p \<in> set seen. wanted n r \<inter> wanted n p \<noteq> {} then 1 else 0) + overlaps n (seen @ [r]) rs"

lemma resolve_range_span: "fits n (resolve_range (int n) r) \<Longrightarrow> span (resolve_range (int n) r) = wanted n r"
  by (cases r) (auto simp: resolve_range_def Let_def fits_def span_def wanted_def)

lemma resolve_range_fits:
  assumes "fst r \<ge> - 1"
  shows "fits n (resolve_range (int n) r) \<longleftrightarrow> wanted n r \<noteq> {} \<and> \<not> (fst r = - 1 \<and> snd r > int n)"
proof
  assume *: "fits n (resolve_range (int n) r)"
  then have "wanted n r \<noteq> {}"
    by (metis atLeastatMost_empty_iff fits_def resolve_range_span span_def not_le)
  with * show "wanted n r \<noteq> {} \<and> \<not> (fst r = - 1 \<and> snd r > int n)"
    by (cases r) (auto simp: resolve_range_def Let_def fits_def split: if_splits)
next
  assume "wanted n r \<noteq> {} \<and> \<not> (fst r = - 1 \<and> snd r > int n)"
  then show "fits n (resolve_range (int n) r)"
    using assms by (cases r) (auto simp: resolve_range_def Let_def fits_def wanted_def split: if_splits)
qed

lemma resolve_range_idem: "fits n r \<Longrightarrow> resolve_range (int n) r = r"
  by (cases r) (auto simp: resolve_range_def Let_def fits_def)

section \<open>The check accepts exactly the satisfiable requests\<close>

lemma spans_meet:
  "\<lbrakk>fits n r; fits n p\<rbrakk> \<Longrightarrow> \<not> (snd r < fst p \<or> fst r > snd p) \<longleftrightarrow> span r \<inter> span p \<noteq> {}"
  by (auto simp: fits_def span_def)

lemma range_check_Cons:
  assumes "resolve_range (int n) r = q"
  shows "range_check (int n) (r # rs) seen c =
    (if \<not> fits n q then (True, seen @ q # rs)
     else if list_ex (\<lambda>p. \<not> (snd q < fst p \<or> fst q > snd p)) seen then
       (if c > 1 then (True, seen @ q # rs) else range_check (int n) rs (seen @ [q]) (c + 1))
     else range_check (int n) rs (seen @ [q]) c)"
  using assms by (cases q) (simp add: fits_def zle_diff1_eq)

lemma range_check_result:
  "range_check (int n) rs seen c = (False, out) \<Longrightarrow>
     out = seen @ map (resolve_range (int n)) rs \<and> (\<forall>r \<in> set rs. fits n (resolve_range (int n) r))"
proof (induction rs arbitrary: seen c)
  case (Cons r rs)
  then have "fits n (resolve_range (int n) r)"
      "\<exists>c'. range_check (int n) rs (seen @ [resolve_range (int n) r]) c' = (False, out)"
    unfolding range_check_Cons [OF refl] by (auto split: if_splits)
  with Cons.IH show ?case by fastforce
qed simp

lemma range_check_accepts:
  assumes "\<forall>r \<in> set seen. fits n (resolve_range (int n) r)" and "c \<le> 2"
  shows "\<not> fst (range_check (int n) rs (map (resolve_range (int n)) seen) c) \<longleftrightarrow>
    (\<forall>r \<in> set rs. fits n (resolve_range (int n) r)) \<and> c + overlaps n seen rs \<le> 2"
  using assms
proof (induction rs arbitrary: seen c)
  case (Cons r rs)
  define q where q: "q = resolve_range (int n) r"
  show ?case
  proof (cases "fits n q")
    case False
    then show ?thesis unfolding range_check_Cons [OF q [symmetric]] by (simp add: q)
  next
    case True
    have meet: "list_ex (\<lambda>p. \<not> (snd q < fst p \<or> fst q > snd p)) (map (resolve_range (int n)) seen) \<longleftrightarrow>
        (\<exists>p \<in> set seen. wanted n r \<inter> wanted n p \<noteq> {})"
      unfolding list_ex_iff set_map bex_simps
      using Cons.prems(1) True spans_meet [of n q] resolve_range_span [of n] unfolding q by (intro bex_cong) auto
    have IH: "\<not> fst (range_check (int n) rs (map (resolve_range (int n)) seen @ [q]) c') \<longleftrightarrow>
        (\<forall>r \<in> set rs. fits n (resolve_range (int n) r)) \<and> c' + overlaps n (seen @ [r]) rs \<le> 2" if "c' \<le> 2" for c'
      using Cons.IH [of "seen @ [r]" c'] Cons.prems True that by (simp add: q)
    show ?thesis
    proof (cases "\<exists>p \<in> set seen. wanted n r \<inter> wanted n p \<noteq> {}")
      case overlap: True
      then show ?thesis
        unfolding range_check_Cons [OF q [symmetric]] meet using True IH [of "c + 1"] \<open>c \<le> 2\<close> by (auto simp: q)
    next
      case False
      then show ?thesis
        unfolding range_check_Cons [OF q [symmetric]] meet using True IH [of c] \<open>c \<le> 2\<close> by (auto simp: q)
    qed
  qed
qed simp

section \<open>Coalescing\<close>

definition covered :: "Ranges \<Rightarrow> int set" where
  "covered rs = (\<Union>r \<in> set rs. span r)"

definition sorts_by_first :: "(Ranges \<Rightarrow> Ranges) \<Rightarrow> bool" where
  "sorts_by_first sort_ranges \<longleftrightarrow>
     (\<forall>rs. mset (sort_ranges rs) = mset rs \<and> sorted (map fst (sort_ranges rs)))"

text \<open>What the loop keeps: the ranges so far fit, and none of the ranges to come starts before the last
  one.\<close>

definition coalescing :: "nat \<Rightarrow> Ranges \<Rightarrow> Ranges \<Rightarrow> bool" where
  "coalescing n acc todo \<longleftrightarrow>
     list_all (fits n) acc \<and> list_all (fits n) todo \<and> sorted (map fst todo) \<and>
     (acc \<noteq> [] \<longrightarrow> (\<forall>r \<in> set todo. fst (last acc) \<le> fst r))"

lemma covered_simps [simp]:
  "covered [] = {}" "covered (r # rs) = span r \<union> covered rs" "covered (rs @ rs') = covered rs \<union> covered rs'"
  by (auto simp: covered_def)

lemma coalesce_step_cases:
  assumes "coalescing n acc (r # todo)"
  obtains (join) init a m where "acc = init @ [(a, m)]" "fst r \<le> m + 1" "r \<noteq> (a, m)" "a \<le> fst r"
      "coalesce_step n r acc = init @ [(a, max m (snd r))]"
  | (add) "coalesce_step n r acc = acc @ [r]" "acc = [] \<or> snd (last acc) + 1 < fst r \<or> r = last acc"
proof -
  have r: "fits n r" "resolve_range (int n) r = r"
    using assms resolve_range_idem by (auto simp: coalescing_def)
  show ?thesis
  proof (cases "acc \<noteq> [] \<and> fst r \<le> snd (last acc) + 1 \<and> r \<noteq> last acc")
    case True
    then obtain init a m where acc: "acc = init @ [(a, m)]"
      by (metis append_butlast_last_id surj_pair)
    have "coalesce_step n r acc = init @ [(a, max m (snd r))]"
      using r True acc by (cases r) (auto simp: coalesce_step_def fits_def)
    with True acc assms show ?thesis by (intro join) (auto simp: coalescing_def)
  next
    case False
    have "coalesce_step n (f, l) acc = acc @ [(f, l)]" if "r = (f, l)" for f l
      using r False that by (cases "last acc") (auto simp: coalesce_step_def fits_def)
    then have "coalesce_step n r acc = acc @ [r]" by (cases r) simp
    with False show ?thesis by (intro add) auto
  qed
qed

lemma coalesce_step_keeps:
  assumes "coalescing n acc (r # todo)"
  shows "coalescing n (coalesce_step n r acc) todo \<and> covered (coalesce_step n r acc) = covered acc \<union> span r"
  using assms
proof (cases rule: coalesce_step_cases)
  case (join init a m)
  have "span (a, max m (snd r)) = span (a, m) \<union> span r"
    using join assms by (auto simp: span_def coalescing_def fits_def)
  with join assms show ?thesis by (auto simp: coalescing_def fits_def)
next
  case add
  with assms show ?thesis by (auto simp: coalescing_def)
qed

lemma coalesce_fold:
  "coalescing n acc todo \<Longrightarrow>
     list_all (fits n) (fold (coalesce_step n) todo acc) \<and>
     covered (fold (coalesce_step n) todo acc) = covered acc \<union> covered todo"
proof (induction todo arbitrary: acc)
  case (Cons r todo)
  from Cons.IH [of "coalesce_step n r acc"] coalesce_step_keeps [OF Cons.prems] show ?case by auto
qed (simp add: coalescing_def)

text \<open>Distinct ranges come out in order, with a gap between any two: the last range that was joined into
  the last entry is \<open>(k, m)\<close>, which cannot come again.\<close>

definition apart :: "Ranges \<Rightarrow> bool" where
  "apart rs \<longleftrightarrow> sorted_wrt (\<lambda>a b. snd a + 1 < fst b) rs"

definition fresh_end :: "Ranges \<Rightarrow> Ranges \<Rightarrow> bool" where
  "fresh_end acc todo \<longleftrightarrow>
     (acc \<noteq> [] \<longrightarrow>
        (\<exists>k \<ge> fst (last acc). (k, snd (last acc)) \<notin> set todo \<and> (\<forall>r \<in> set todo. k \<le> fst r)))"

lemma apart_snoc:
  "\<lbrakk>apart rs; list_all (fits n) rs; rs \<noteq> [] \<Longrightarrow> snd (last rs) + 1 < fst r\<rbrakk> \<Longrightarrow> apart (rs @ [r])"
  by (cases rs rule: rev_cases) (fastforce simp: apart_def sorted_wrt_append fits_def list_all_iff)+

lemma coalesce_step_apart:
  assumes "coalescing n acc (r # todo)" "fresh_end acc (r # todo)" "apart acc" "distinct (r # todo)"
  shows "apart (coalesce_step n r acc) \<and> fresh_end (coalesce_step n r acc) todo"
  using assms(1)
proof (cases rule: coalesce_step_cases)
  case (join init a m)
  obtain k where k: "k \<ge> a" "(k, m) \<notin> set (r # todo)" "\<forall>x \<in> set (r # todo). k \<le> fst x"
    using assms(2) join by (auto simp: fresh_end_def)
  have "apart (init @ [(a, max m (snd r))])"
    using assms(3) join by (auto simp: apart_def sorted_wrt_append)
  moreover have "\<exists>k \<ge> a. (k, max m (snd r)) \<notin> set todo \<and> (\<forall>x \<in> set todo. k \<le> fst x)"
  proof (cases "snd r \<le> m")
    case True
    with k show ?thesis by (auto simp: max_def intro!: exI [of _ k])
  next
    case False
    with assms(1,4) join show ?thesis
      by (auto simp: max_def coalescing_def intro!: exI [of _ "fst r"])
  qed
  ultimately show ?thesis using join by (auto simp: fresh_end_def)
next
  case add
  have "acc = [] \<or> snd (last acc) + 1 < fst r"
  proof (rule ccontr)
    assume no: "\<not> ?thesis"
    with add have r: "r = last acc" "acc \<noteq> []" by auto
    obtain k where "k \<ge> fst (last acc)" "(k, snd (last acc)) \<noteq> r" "k \<le> fst r"
      using assms(2) r by (auto simp: fresh_end_def)
    with r show False by (metis antisym prod.collapse)
  qed
  then have "apart (acc @ [r])"
    using assms(1,3) by (intro apart_snoc [where n = n]) (auto simp: coalescing_def)
  moreover have "fresh_end (acc @ [r]) todo"
    using assms(1,4) by (auto simp: fresh_end_def coalescing_def intro!: exI [of _ "fst r"])
  ultimately show ?thesis using add by simp
qed

lemma coalesce_fold_apart:
  "\<lbrakk>coalescing n acc todo; fresh_end acc todo; apart acc; distinct todo\<rbrakk> \<Longrightarrow>
     apart (fold (coalesce_step n) todo acc)"
proof (induction todo arbitrary: acc)
  case (Cons r todo)
  from coalesce_step_keeps [OF Cons.prems(1)] coalesce_step_apart [OF Cons.prems] Cons.prems(4)
  show ?case by (auto intro!: Cons.IH)
qed simp

lemma coalesce_ranges_result:
  assumes "sorts_by_first sort_ranges" "list_all (fits n) rs"
  shows "list_all (fits n) (coalesce_ranges sort_ranges n rs)"
    and "covered (coalesce_ranges sort_ranges n rs) = covered rs"
    and "distinct rs \<Longrightarrow> apart (coalesce_ranges sort_ranges n rs)"
proof -
  have sort: "set (sort_ranges rs) = set rs" "distinct (sort_ranges rs) = distinct rs"
      "sorted (map fst (sort_ranges rs))"
    using assms(1) unfolding sorts_by_first_def
    by (metis mset_eq_setD, metis mset_eq_imp_distinct_iff, metis)
  then have start: "coalescing n [] (sort_ranges rs)"
    using assms(2) by (simp add: coalescing_def list_all_iff)
  have cov: "covered (sort_ranges rs) = covered rs"
    by (simp add: covered_def sort)
  show "list_all (fits n) (coalesce_ranges sort_ranges n rs)"
    using coalesce_fold [OF start] assms(2) by (simp add: coalesce_ranges_def)
  show "covered (coalesce_ranges sort_ranges n rs) = covered rs"
    using coalesce_fold [OF start] cov by (simp add: coalesce_ranges_def)
  assume d: "distinct rs"
  show "apart (coalesce_ranges sort_ranges n rs)"
  proof (cases "length rs \<le> 1")
    case True
    then have "rs = [] \<or> (\<exists>r. rs = [r])" by (cases rs) auto
    then show ?thesis by (auto simp: coalesce_ranges_def apart_def)
  next
    case False
    have "apart (fold (coalesce_step n) (sort_ranges rs) [])"
      by (rule coalesce_fold_apart [OF start]) (simp_all add: fresh_end_def apart_def sort d)
    with False show ?thesis by (simp add: coalesce_ranges_def)
  qed
qed

text \<open>A check that accepts leaves ranges for which the assertions of \<open>get_range_offset_and_length\<close> hold.\<close>

lemma fits_offset_and_length:
  "fits n r \<Longrightarrow>
     get_range_offset_and_length r n = Inr (nat (fst r), nat (snd r - fst r) + 1) \<and>
     nat (fst r) + (nat (snd r - fst r) + 1) \<le> n \<and>
     span r = {int (nat (fst r))..<int (nat (fst r) + (nat (snd r - fst r) + 1))}"
  by (auto simp: get_range_offset_and_length_def fits_def span_def)

lemma range_error_result:
  assumes "sorts_by_first sort_ranges" "ranges \<noteq> []" "200 \<le> status" "status < 300"
    and n: "n = (if content_length \<noteq> 0 then content_length else body_size)"
    and accepted: "range_error sort_ranges ranges status content_length body_size = (False, out)"
  shows "list_all (fits n) out" and "covered out = (\<Union>r \<in> set ranges. wanted n r)"
    and "distinct (map (resolve_range (int n)) ranges) \<Longrightarrow> apart out"
proof -
  obtain out' where check: "range_check (int n) ranges [] 0 = (False, out')"
      and out: "out = coalesce_ranges sort_ranges n out'"
    using assms by (auto simp: range_error_def Let_def split: if_splits prod.splits bool.splits)
  from range_check_result [OF check]
  have out': "out' = map (resolve_range (int n)) ranges" and fit: "list_all (fits n) out'"
    by (auto simp: list_all_iff)
  have "covered out' = (\<Union>r \<in> set ranges. wanted n r)"
    using fit resolve_range_span by (simp add: out' covered_def list_all_iff)
  with coalesce_ranges_result [OF assms(1) fit] out out'
  show "list_all (fits n) out" "covered out = (\<Union>r \<in> set ranges. wanted n r)"
    "distinct (map (resolve_range (int n)) ranges) \<Longrightarrow> apart out" by simp_all
qed

lemma range_error_accepts:
  assumes "ranges \<noteq> []" "200 \<le> status" "status < 300" "\<forall>r \<in> set ranges. fst r \<ge> - 1"
    and n: "n = (if content_length \<noteq> 0 then content_length else body_size)"
  shows "\<not> fst (range_error sort_ranges ranges status content_length body_size) \<longleftrightarrow>
    length ranges \<le> 1024 \<and> (\<forall>r \<in> set ranges. wanted n r \<noteq> {} \<and> \<not> (fst r = - 1 \<and> snd r > int n)) \<and>
    overlaps n [] ranges \<le> 2"
proof -
  have *: "\<not> fst (range_check (int n) ranges [] 0) \<longleftrightarrow>
      (\<forall>r \<in> set ranges. fits n (resolve_range (int n) r)) \<and> overlaps n [] ranges \<le> 2"
    using range_check_accepts [of "[]" n 0 ranges] by simp
  have "\<not> fst (range_error sort_ranges ranges status content_length body_size) \<longleftrightarrow>
      length ranges \<le> 1024 \<and> \<not> fst (range_check (int n) ranges [] 0)"
    using assms(1-3) n
    by (auto simp: range_error_def RANGE_MAX_COUNT_def Let_def split: prod.splits bool.splits)
  then show ?thesis unfolding * using resolve_range_fits assms(4) by blast
qed

section \<open>Reading a header field that was written\<close>

text \<open>The ranges of RFC 9110: one bound may be missing, and the bounds are ordered \<open>long long\<close> values.\<close>

definition proper_range :: "Range \<Rightarrow> bool" where
  "proper_range r \<longleftrightarrow>
     - 1 \<le> fst r \<and> fst r \<le> 2 ^ 63 - 1 \<and> - 1 \<le> snd r \<and> snd r \<le> 2 ^ 63 - 1 \<and>
     r \<noteq> (- 1, - 1) \<and> (fst r \<noteq> - 1 \<longrightarrow> snd r \<noteq> - 1 \<longrightarrow> fst r \<le> snd r)"

definition bound_text :: "int \<Rightarrow> string" where
  "bound_text b = (if b \<noteq> - 1 then to_string_int b else [])"

lemma range_text_eq: "range_text r = bound_text (fst r) @ CHR ''-'' # bound_text (snd r)"
  by (simp add: range_text_def bound_text_def)

lemma not_digit [simp]:
  "\<not> isdigit (CHR ''-'')" "\<not> isdigit (CHR '','')" "\<not> isdigit SP" "\<not> isdigit TAB"
  by (simp_all add: isdigit_def byte_def)

lemma bound_text_digits: "- 1 \<le> b \<Longrightarrow> list_all isdigit (bound_text b)"
  using to_string_nat_digits by (auto simp: bound_text_def to_string_int_def list_all_iff)

lemma bound_of_text:
  "\<lbrakk>- 1 \<le> b; b \<le> 2 ^ 63 - 1\<rbrakk> \<Longrightarrow>
     (if bound_text b = [] then Inr (- 1) else stoll_digits (bound_text b)) = Inr b"
  by (auto simp: bound_text_def to_string_int_def stoll_digits_def)

lemma range_of_range_text: "proper_range r \<Longrightarrow> range_of_piece (range_text r) = Inr (Some r)"
proof -
  assume p: "proper_range r"
  then have d: "list_all isdigit (bound_text (fst r))" "list_all isdigit (bound_text (snd r))"
    by (auto simp: proper_range_def intro: bound_text_digits)
  have lhs: "takeWhile (\<lambda>c. c \<noteq> CHR ''-'') (range_text r) = bound_text (fst r)"
    unfolding range_text_eq using d by (intro takeWhile_append_stop) (auto simp: list_all_iff)
  have b: "(if bound_text b = [] then Inr (- 1) else stoll_digits (bound_text b)) = Inr b"
    if "b = fst r \<or> b = snd r" for b
    using p that by (intro bound_of_text) (auto simp: proper_range_def)
  show ?thesis
    unfolding range_of_piece_def lhs Let_def using p d b [of "fst r"] b [of "snd r"]
    by (cases r) (auto simp: range_text_eq proper_range_def)
qed

lemma range_text_chars:
  assumes "proper_range r" "c \<in> set (range_text r)"
  shows "isdigit c \<or> c = CHR ''-''"
proof -
  have "list_all isdigit (bound_text (fst r))" "list_all isdigit (bound_text (snd r))"
    using assms(1) by (auto simp: proper_range_def intro: bound_text_digits)
  with assms(2) show ?thesis by (auto simp: range_text_eq list_all_iff)
qed

lemma strip_range_text: "proper_range r \<Longrightarrow> strip (w @ range_text r) = range_text r" if "w = [] \<or> w = '' ''" for w
proof -
  assume p: "proper_range r"
  have ne: "range_text r \<noteq> []" by (simp add: range_text_eq)
  have "\<not> is_space_or_tab c" if "c \<in> set (range_text r)" for c
    using range_text_chars [OF p that] by (auto simp: is_space_or_tab_def)
  then show ?thesis
    using strip_middle [of w "[]" "range_text r"] ne \<open>w = [] \<or> w = '' ''\<close>
    by (auto simp: is_space_or_tab_def)
qed

lemma fields_of_ranges_text:
  "\<lbrakk>list_all proper_range rs; list_all proper_range [r]; w = [] \<or> w = '' ''; i \<noteq> 0\<rbrakk> \<Longrightarrow>
     map strip (fields_of CHR '','' (w @ range_text r @ ranges_text rs i)) = map range_text (r # rs)"
proof (induction rs arbitrary: r w i)
  case Nil
  have "CHR '','' \<notin> set (w @ range_text r)"
    using range_text_chars [of r "CHR '',''"] Nil by auto
  then show ?case using strip_range_text [of w r] Nil by (simp add: fields_of_no_delim)
next
  case (Cons r' rs)
  have notin: "CHR '','' \<notin> set (w @ range_text r)"
    using range_text_chars [of r "CHR '',''"] Cons.prems by auto
  have "w @ range_text r @ ranges_text (r' # rs) i =
      (w @ range_text r) @ CHR '','' # ('' '' @ range_text r' @ ranges_text rs (i + 1))"
    using Cons.prems by simp
  then have "map strip (fields_of CHR '','' (w @ range_text r @ ranges_text (r' # rs) i)) =
      strip (w @ range_text r) # map strip (fields_of CHR '','' ('' '' @ range_text r' @ ranges_text rs (i + 1)))"
    by (metis fields_of_append_delim notin list.simps(9))
  also have "\<dots> = map range_text (r # r' # rs)"
    using Cons.IH [of r' "'' ''" "i + 1"] strip_range_text [of w r] Cons.prems by simp
  finally show ?case .
qed

lemma split_ranges_text:
  assumes "list_all proper_range rs" "rs \<noteq> []"
  shows "split_at (ranges_text rs 0) CHR '','' = map range_text rs"
proof -
  obtain r rs' where rs: "rs = r # rs'" using assms(2) by (cases rs) auto
  have "map strip (fields_of CHR '','' (ranges_text rs 0)) = map range_text rs"
    using fields_of_ranges_text [of rs' r "[]" 1] assms(1) by (simp add: rs)
  then show ?thesis by (simp add: split_at_eq range_text_eq filter_map comp_def)
qed

lemma range_pieces_texts:
  "list_all proper_range rs \<Longrightarrow> range_pieces (map range_text rs) True acc = (Inr True, acc @ rs)"
  by (induction rs arbitrary: acc) (simp_all add: range_of_range_text)

lemma range_of_piece_proper: "range_of_piece p = Inr (Some r) \<Longrightarrow> proper_range r"
  by (auto simp: range_of_piece_def Let_def stoll_digits_def proper_range_def split: if_splits sum.splits)

lemma range_pieces_proper:
  "\<lbrakk>range_pieces ps ok acc = (Inr True, rs); list_all proper_range acc\<rbrakk> \<Longrightarrow> list_all proper_range rs"
proof (induction ps arbitrary: ok acc)
  case (Cons p ps)
  then show ?case
    by (auto split: if_splits sum.splits option.splits dest: range_of_piece_proper intro: Cons.IH)
qed simp

lemma range_pieces_refused: "range_pieces ps False acc = (Inr False, acc)"
  by (induction ps) auto

section \<open>The announced length is the length of the body\<close>

text \<open>The reference: the parts of the body, each between boundary lines.\<close>

definition range_part :: "string \<Rightarrow> string \<Rightarrow> string \<Rightarrow> Range \<Rightarrow> string" where
  "range_part body boundary content_type r =
     ''--'' @ boundary @ [CR, LF] @
     (if content_type \<noteq> [] then ''Content-Type: '' @ content_type @ [CR, LF] else []) @
     ''Content-Range: bytes '' @ to_string_int (fst r) @ ''-'' @ to_string_int (snd r) @ ''/'' @
     to_string_nat (length body) @ [CR, LF, CR, LF] @
     take (nat (snd r - fst r + 1)) (drop (nat (fst r)) body) @ [CR, LF]"

definition range_body :: "string \<Rightarrow> string \<Rightarrow> string \<Rightarrow> Ranges \<Rightarrow> string" where
  "range_body body boundary content_type rs =
     concat (map (range_part body boundary content_type) rs) @ ''--'' @ boundary @ ''--''"

lemma fits_part:
  assumes "fits (length body) r"
  shows "make_content_range_header_field (nat (fst r), nat (snd r - fst r) + 1) n =
      ''bytes '' @ to_string_int (fst r) @ ''-'' @ to_string_int (snd r) @ ''/'' @ to_string_nat n"
    and "body_substr body (nat (fst r)) (nat (snd r - fst r) + 1) =
      Inr (take (nat (snd r - fst r + 1)) (drop (nat (fst r)) body))"
proof -
  have "nat (fst r) + (nat (snd r - fst r) + 1) - 1 = nat (snd r)" "nat (snd r - fst r) + 1 = nat (snd r - fst r + 1)"
    using assms by (auto simp: fits_def)
  then show "make_content_range_header_field (nat (fst r), nat (snd r - fst r) + 1) n =
      ''bytes '' @ to_string_int (fst r) @ ''-'' @ to_string_int (snd r) @ ''/'' @ to_string_nat n"
    "body_substr body (nat (fst r)) (nat (snd r - fst r) + 1) =
      Inr (take (nat (snd r - fst r + 1)) (drop (nat (fst r)) body))"
    using assms by (auto simp: make_content_range_header_field_def body_substr_def to_string_int_def fits_def Let_def)
qed

lemma make_multipart_ranges_data_eq:
  "list_all (fits (length body)) rs \<Longrightarrow>
     make_multipart_ranges_data rs body boundary content_type (length body) data =
     Some (Inr (True, data @ range_body body boundary content_type rs))"
proof (induction rs arbitrary: data)
  case Nil
  then show ?case by (simp add: make_multipart_ranges_data_def range_body_def)
next
  case (Cons r rs)
  then have r: "fits (length body) r" by simp
  note f = fits_part [OF r] conjunct1 [OF fits_offset_and_length [OF r]]
    conjunct1 [OF conjunct2 [OF fits_offset_and_length [OF r]]]
  show ?case
    using Cons f
    by (simp add: make_multipart_ranges_data_def range_part_head_def Let_def range_body_def range_part_def)
qed

lemma get_multipart_ranges_data_length_eq:
  "list_all (fits (length body)) rs \<Longrightarrow>
     process_multipart_ranges_data rs boundary content_type (length body)
       (\<lambda>token data_length. data_length + length token) (\<lambda>token data_length. data_length + length token)
       (\<lambda>offset len data_length. Some (Inr (True, data_length + len))) m =
     Some (Inr (True, m + length (range_body body boundary content_type rs)))"
proof (induction rs arbitrary: m)
  case Nil
  then show ?case by (simp add: range_body_def)
next
  case (Cons r rs)
  then have r: "fits (length body) r" by simp
  note f = fits_part(1) [OF r] conjunct1 [OF fits_offset_and_length [OF r]]
  have len: "min (length body - nat (fst r)) (nat (snd r - fst r + 1)) = Suc (nat (snd r - fst r))"
    using r by (auto simp: fits_def)
  show ?case
    using Cons f len
    by (simp add: range_part_head_def Let_def range_body_def range_part_def)
qed

section \<open>Examples\<close>

text \<open>The sorting function of the witnesses.\<close>

lemma sort_key_sorts: "sorts_by_first (sort_key fst)"
  by (simp add: sorts_by_first_def)

text \<open>A stream that accepts one byte per call.\<close>

definition slow_stream :: "string Stream" where
  "slow_stream =
     \<lparr>strm_is_readable = (\<lambda>s. False), strm_wait_readable = (\<lambda>s. (False, s)), strm_wait_writable = (\<lambda>s. (True, s)),
      strm_read = (\<lambda>s n. (Some [], s)), strm_write = (\<lambda>s bs. (Some (min 1 (length bs)), s @ take 1 bs))\<rparr>"

text \<open>\<open>write_multipart_ranges_data\<close> calls \<open>strm.write\<close> once per token and ignores how much of it was
  accepted, so a short write loses the rest of the token, and success is reported.\<close>

lemma write_multipart_ranges_data_short_write:
  "write_multipart_ranges_data slow_stream [] provider ''xyz'' [] 0 is_shutting_down [] u =
     Some (Inr (True, ''-x-'', u))"
  by (simp add: write_multipart_ranges_data_def slow_stream_def)

text \<open>A suffix range that is longer than the content is refused, although the positions it asks for are
  the whole content.\<close>

lemma long_suffix_refused:
  "wanted 3 (- 1, 5) = {0, 1, 2} \<and> fst (range_error (sort_key fst) [(- 1, 5)] 200 0 3)"
proof -
  have "wanted 3 (- 1, 5) = {0..<3}" by (auto simp: wanted_def)
  also have "\<dots> = {0, 1, 2}" by (simp add: atLeastLessThan_upt upto.simps set_upto atLeastLessThan_def lessThan_def atLeast_def) (auto)
  finally show ?thesis by (simp add: range_error_def RANGE_MAX_COUNT_def resolve_range_def)
qed

section \<open>Properties\<close>

text \<open>C18 (range_error_exact): the check of the requested ranges accepts a request exactly if it has at most
  1024 ranges, every range asks for at least one byte of the content and no suffix is longer than the
  content, and at most two ranges overlap an earlier one. The ranges it leaves satisfy the assertions of
  \<open>get_range_offset_and_length\<close> and end inside the content, they cover exactly the bytes that were asked
  for, and, when the requested ranges are different, they are in ascending order with a gap between any two.
  All this holds for every result that \<open>std::sort\<close> may have.\<close>

theorem range_error_exact:
  assumes "sorts_by_first sort_ranges" "ranges \<noteq> []" "list_all proper_range ranges"
    and "200 \<le> status" "status < 300"
    and "n = (if content_length \<noteq> 0 then content_length else body_size)"
    and "range_error sort_ranges ranges status content_length body_size = (refused, out)"
  shows "(\<not> refused \<longleftrightarrow>
      length ranges \<le> 1024 \<and>
      (\<forall>r \<in> set ranges. wanted n r \<noteq> {} \<and> \<not> (fst r = - 1 \<and> snd r > int n)) \<and>
      overlaps n [] ranges \<le> 2) \<and>
    (\<not> refused \<longrightarrow>
      (\<forall>r \<in> set out. \<exists>offset len. get_range_offset_and_length r n = Inr (offset, len) \<and> offset + len \<le> n \<and>
        {fst r..snd r} = {int offset..<int (offset + len)}) \<and>
      (\<Union>r \<in> set out. {fst r..snd r}) = (\<Union>r \<in> set ranges. wanted n r) \<and>
      (distinct (map (resolve_range (int n)) ranges) \<longrightarrow> sorted_wrt (\<lambda>a b. snd a + 1 < fst b) out))"
proof (intro conjI impI)
  have p: "\<forall>r \<in> set ranges. fst r \<ge> - 1"
    using assms(3) by (auto simp: list_all_iff proper_range_def)
  from range_error_accepts [OF assms(2,4,5) p assms(6)] assms(7)
  show "\<not> refused \<longleftrightarrow> length ranges \<le> 1024 \<and>
      (\<forall>r \<in> set ranges. wanted n r \<noteq> {} \<and> \<not> (fst r = - 1 \<and> snd r > int n)) \<and> overlaps n [] ranges \<le> 2"
    by (metis fst_conv)
next
  assume "\<not> refused"
  with assms(7) have "range_error sort_ranges ranges status content_length body_size = (False, out)" by simp
  note res = range_error_result [OF assms(1,2,4,5,6) this]
  show "\<forall>r \<in> set out. \<exists>offset len. get_range_offset_and_length r n = Inr (offset, len) \<and> offset + len \<le> n \<and>
      {fst r..snd r} = {int offset..<int (offset + len)}"
    using fits_offset_and_length [of n] res(1) unfolding list_all_iff span_def by blast
  show "(\<Union>r \<in> set out. {fst r..snd r}) = (\<Union>r \<in> set ranges. wanted n r)"
    using res(2) by (simp add: covered_def span_def)
  show "sorted_wrt (\<lambda>a b. snd a + 1 < fst b) out" if "distinct (map (resolve_range (int n)) ranges)"
    using res(3) that by (simp add: apart_def)
qed

theorem range_error_exact_witness:
  "\<exists>out. range_error (sort_key fst) [(6, 7), (0, 3), (- 1, 3), (2, 4)] 200 0 10 = (False, out) \<and>
     out = [(0, 4), (6, 9)] \<and>
     (\<Union>r \<in> set out. {fst r..snd r}) = (\<Union>r \<in> set [(6, 7), (0, 3), (- 1, 3), (2, 4)]. wanted 10 r)"
proof -
  have e: "range_error (sort_key fst) [(6, 7), (0, 3), (- 1, 3), (2, 4)] 200 0 10 = (False, [(0, 4), (6, 9)])"
    by (simp add: range_error_def RANGE_MAX_COUNT_def resolve_range_def coalesce_ranges_def coalesce_step_def)
  have p: "list_all proper_range [(6, 7), (0, 3), (- 1, 3), (2, 4)]" by (simp add: proper_range_def)
  show ?thesis
    using e range_error_exact [OF sort_key_sorts _ p _ _ _ e, of 10] by auto
qed

text \<open>C35 (range_header_roundtrip): the \<open>Range\<close> field that \<open>make_range_header\<close> writes for ranges with at
  least one bound, each bound a \<open>long long\<close>, is read back by \<open>parse_range_header\<close> as the same ranges; and
  the reader succeeds on no field, well-formed or not, with ranges of another kind: a bound that does not
  fit makes it fail, and the out-of-range exception of the conversion does not escape.\<close>

theorem range_header_roundtrip:
  "(ranges \<noteq> [] \<and> list_all proper_range ranges \<longrightarrow>
      parse_range_header (snd (make_range_header ranges)) [] = (True, ranges)) \<and>
   (parse_range_header s [] = (True, ranges) \<longrightarrow> ranges \<noteq> [] \<and> list_all proper_range ranges)"
proof (intro conjI [where P = "_ \<longrightarrow> _"] impI; (elim conjE)?)
  assume ne: "ranges \<noteq> []" and p: "list_all proper_range ranges"
  then obtain r rs where "ranges = r # rs" "proper_range r" by (cases ranges) auto
  then have "bound_text (fst r) \<noteq> [] \<or> bound_text (snd r) \<noteq> []"
    by (cases r) (auto simp: proper_range_def bound_text_def to_string_int_def)
  then have "1 < length (ranges_text ranges 0)"
    unfolding \<open>ranges = r # rs\<close> by (auto simp: range_text_eq neq_Nil_conv)
  then show "parse_range_header (snd (make_range_header ranges)) [] = (True, ranges)"
    using split_ranges_text [OF p ne] range_pieces_texts [OF p, of "[]"] ne
    by (simp add: parse_range_header_def make_range_header_def)
next
  assume "parse_range_header s [] = (True, ranges)"
  then show "ranges \<noteq> [] \<and> list_all proper_range ranges"
    by (auto simp: parse_range_header_def split: if_splits prod.splits sum.splits
        dest!: range_pieces_proper)
qed

theorem range_header_roundtrip_witness:
  "snd (make_range_header [(0, 99), (200, - 1), (- 1, 5)]) = ''bytes=0-99, 200-, -5'' \<and>
   parse_range_header (snd (make_range_header [(0, 99), (200, - 1), (- 1, 5)])) [] =
     (True, [(0, 99), (200, - 1), (- 1, 5)])"
proof
  show "snd (make_range_header [(0, 99), (200, - 1), (- 1, 5)]) = ''bytes=0-99, 200-, -5''"
    by (simp add: make_range_header_def range_text_def to_string_int_def to_string_nat.simps digit_char_def) code_simp
  show "parse_range_header (snd (make_range_header [(0, 99), (200, - 1), (- 1, 5)])) [] =
     (True, [(0, 99), (200, - 1), (- 1, 5)])"
    using range_header_roundtrip [of "[(0, 99), (200, - 1), (- 1, 5)]"] by (simp add: proper_range_def)
qed

text \<open>C30 (multipart_ranges_length): for the ranges that the check leaves, the length that is announced in
  the \<open>Content-Length\<close> of a \<open>multipart/byteranges\<close> body is the length of the body that is made, and that
  body holds, between boundary lines and under its \<open>Content-Range\<close>, every range of the content and no
  other byte of it; no assertion fails and nothing is thrown.\<close>

theorem multipart_ranges_length:
  assumes "sorts_by_first sort_ranges" "ranges \<noteq> []" "200 \<le> status" "status < 300"
    and "range_error sort_ranges ranges status 0 (length body) = (False, out)"
  shows "make_multipart_ranges_data out body boundary content_type (length body) [] =
      Some (Inr (True, range_body body boundary content_type out)) \<and>
    get_multipart_ranges_data_length out boundary content_type (length body) =
      Some (Inr (True, length (range_body body boundary content_type out)))"
proof -
  have "list_all (fits (length body)) out"
    by (rule range_error_result(1) [OF assms(1-4) _ assms(5)]) simp
  then show ?thesis
    using make_multipart_ranges_data_eq [of body out boundary content_type "[]"]
      get_multipart_ranges_data_length_eq [of body out boundary content_type 0]
    by (simp add: get_multipart_ranges_data_length_def)
qed

theorem multipart_ranges_length_witness:
  "\<exists>out. range_error (sort_key fst) [(0, 1), (- 1, 2)] 206 0 (length ''abcdef'') = (False, out) \<and>
     out = [(0, 1), (4, 5)] \<and>
     get_multipart_ranges_data_length out ''b'' [] (length ''abcdef'') =
       Some (Inr (True, length (range_body ''abcdef'' ''b'' [] out)))"
proof -
  have e: "range_error (sort_key fst) [(0, 1), (- 1, 2)] 206 0 (length ''abcdef'') = (False, [(0, 1), (4, 5)])"
    by (simp add: range_error_def RANGE_MAX_COUNT_def resolve_range_def coalesce_ranges_def coalesce_step_def)
  show ?thesis
    using e multipart_ranges_length [OF sort_key_sorts _ _ _ e, of "''b''" "[]"] by auto
qed

end
