(* ===== verification/Http_Multipart.thy ===== *)
theory Http_Multipart
  imports Http_Headers "HOL-Library.Sublist"
begin

text \<open>
  Multipart form data of \<^verbatim>\<open>src/CPPTools/include/httplib.h\<close>: writing the items of a form, and the
  class \<open>MultipartFormDataParser\<close>, which is fed a body in portions of any size and keeps what it cannot use
  yet in a buffer.

  The parser's buffer is modelled as the code has it, a string with two positions; \<open>pending\<close> is the text
  between them. The strings \<open>dash_boundary_crlf_\<close> and \<open>crlf_dash_boundary_\<close>, which \<open>set_boundary\<close> makes, are
  functions of the boundary. A parser is used after \<open>set_boundary\<close> only.
\<close>

section \<open>Definitions\<close>

subsection \<open>Writing a form\<close>

record MultipartFormDataForClientInput =
  fi_name :: string
  fi_content :: bytes
  fi_filename :: string
  fi_content_type :: string

definition is_multipart_boundary_chars_valid :: "string \<Rightarrow> bool" where
  "is_multipart_boundary_chars_valid boundary = list_all (\<lambda>c. isalnum c \<or> c = CHR ''-'' \<or> c = CHR ''_'') boundary"

definition serialize_multipart_formdata_item_begin :: "MultipartFormDataForClientInput \<Rightarrow> string \<Rightarrow> string" where
  "serialize_multipart_formdata_item_begin item boundary =
     ''--'' @ boundary @ crlf @
     ''Content-Disposition: form-data; name='' @ [DQ] @ fi_name item @ [DQ] @
     (if fi_filename item \<noteq> [] then ''; filename='' @ [DQ] @ fi_filename item @ [DQ] else []) @ crlf @
     (if fi_content_type item \<noteq> [] then ''Content-Type: '' @ fi_content_type item @ crlf else []) @ crlf"

definition serialize_multipart_formdata_item_end :: string where
  "serialize_multipart_formdata_item_end = crlf"

definition serialize_multipart_formdata_finish :: "string \<Rightarrow> string" where
  "serialize_multipart_formdata_finish boundary = ''--'' @ boundary @ ''--'' @ crlf"

definition serialize_multipart_formdata_get_content_type :: "string \<Rightarrow> string" where
  "serialize_multipart_formdata_get_content_type boundary = ''multipart/form-data; boundary='' @ boundary"

fun serialize_multipart_items :: "MultipartFormDataForClientInput list \<Rightarrow> string \<Rightarrow> bytes" where
  "serialize_multipart_items [] boundary = []"
| "serialize_multipart_items (item # items) boundary =
     serialize_multipart_formdata_item_begin item boundary @
     fi_content item @ serialize_multipart_formdata_item_end @ serialize_multipart_items items boundary"

definition serialize_multipart_formdata :: "MultipartFormDataForClientInput list \<Rightarrow> string \<Rightarrow> bool \<Rightarrow> bytes" where
  "serialize_multipart_formdata items boundary finish =
     serialize_multipart_items items boundary @
     (if finish then serialize_multipart_formdata_finish boundary else [])"

subsection \<open>Parameters of header values\<close>

fun find_sub :: "string \<Rightarrow> string \<Rightarrow> nat option" where
  \<comment> \<open>\<open>std::string::find\<close>\<close>
  "find_sub pat [] = (if pat = [] then Some 0 else None)"
| "find_sub pat (c # s) = (if take (length pat) (c # s) = pat then Some 0 else map_option Suc (find_sub pat s))"

definition parse_multipart_boundary :: "string \<Rightarrow> string option" where
  "parse_multipart_boundary content_type =
     (case find_sub ''boundary='' content_type of
        None \<Rightarrow> None
      | Some pos \<Rightarrow>
          let tail = drop pos content_type;
              value = drop 9 (takeWhile (\<lambda>c. c \<noteq> CHR '';'') tail);
              boundary = trim_double_quotes_copy value
          in if boundary = [] then None else Some boundary)"

definition assign_parts :: "string list \<Rightarrow> string \<times> string" where
  \<comment> \<open>the first part is the key, the last of the others the value\<close>
  "assign_parts parts =
     (case parts of [] \<Rightarrow> ([], []) | key # vals \<Rightarrow> (key, if vals = [] then [] else last vals))"

fun disposition_params_loop :: "string list \<Rightarrow> string set \<Rightarrow> Params \<Rightarrow> Params" where
  "disposition_params_loop [] cache params = params"
| "disposition_params_loop (kv # kvs) cache params =
     (if kv \<in> cache then disposition_params_loop kvs cache params
      else
        let (key, val) = assign_parts (split_at kv CHR ''='');
            params' = (if key \<noteq> []
                       then params_emplace (trim_double_quotes_copy key) (trim_double_quotes_copy val) params
                       else params)
        in disposition_params_loop kvs (insert kv cache) params')"

definition parse_disposition_params :: "string \<Rightarrow> Params \<Rightarrow> Params" where
  "parse_disposition_params s params = disposition_params_loop (split_at s CHR '';'') {} params"

definition is_regex_space :: "char \<Rightarrow> bool" where
  "is_regex_space c \<longleftrightarrow> byte c = 32 \<or> 9 \<le> byte c \<and> byte c \<le> 13"

definition match_content_disposition :: "string \<Rightarrow> string option" where
  \<comment> \<open>\<open>^Content-Disposition:\s*form-data;\s*(.*)$\<close>, ignoring case; the group\<close>
  "match_content_disposition header =
     (if equal_ci (take 20 header) ''Content-Disposition:'' then
        (let rest = dropWhile is_regex_space (drop 20 header)
         in if equal_ci (take 10 rest) ''form-data;''
            then (let m = dropWhile is_regex_space (drop 10 rest)
                  in if CR \<in> set m \<or> LF \<in> set m then None else Some m)
            else None)
      else None)"

definition match_rfc5987 :: "string \<Rightarrow> string option" where
  \<comment> \<open>\<open>^UTF-8''(.+?)$\<close>, ignoring case\<close>
  "match_rfc5987 s =
     (if equal_ci (take 7 s) (''UTF-8'' @ [CHR 39, CHR 39]) \<and> drop 7 s \<noteq> [] \<and> CR \<notin> set (drop 7 s) \<and> LF \<notin> set (drop 7 s)
      then Some (drop 7 s) else None)"

subsection \<open>The parser's buffer\<close>

text \<open>The member \<open>content\<close> is left to the callbacks; the parser does not touch it.\<close>

record MultipartFormData =
  md_name :: string
  md_filename :: string
  md_content_type :: string
  md_headers :: Headers

record MultipartParser =
  mp_boundary :: string
  mp_state :: nat
  mp_is_valid :: bool
  mp_file :: MultipartFormData
  mp_buf :: bytes
  mp_spos :: nat
  mp_epos :: nat

definition empty_file :: MultipartFormData where
  "empty_file = \<lparr>md_name = [], md_filename = [], md_content_type = [], md_headers = []\<rparr>"

definition new_MultipartParser :: MultipartParser where
  "new_MultipartParser = \<lparr>mp_boundary = [], mp_state = 0, mp_is_valid = False, mp_file = empty_file, mp_buf = [],
     mp_spos = 0, mp_epos = 0\<rparr>"

definition set_boundary :: "string \<Rightarrow> MultipartParser \<Rightarrow> MultipartParser" where
  "set_boundary boundary p = p\<lparr>mp_boundary := boundary\<rparr>"

definition dash_boundary_crlf :: "MultipartParser \<Rightarrow> string" where
  "dash_boundary_crlf p = ''--'' @ mp_boundary p @ crlf"

definition crlf_dash_boundary :: "MultipartParser \<Rightarrow> string" where
  "crlf_dash_boundary p = crlf @ ''--'' @ mp_boundary p"

definition clear_file_info :: "MultipartParser \<Rightarrow> MultipartParser" where
  "clear_file_info p = p\<lparr>mp_file := empty_file\<rparr>"

definition buf_start_with_at :: "string \<Rightarrow> nat \<Rightarrow> nat \<Rightarrow> string \<Rightarrow> bool" where
  "buf_start_with_at a spos epos b =
     (if epos - spos < length b then False else list_all (\<lambda>i. a ! (i + spos) = b ! i) [0..<length b])"

definition buf_size :: "MultipartParser \<Rightarrow> nat" where
  "buf_size p = mp_epos p - mp_spos p"

definition buf_head :: "nat \<Rightarrow> MultipartParser \<Rightarrow> bytes" where
  "buf_head l p = take l (drop (mp_spos p) (mp_buf p))"

definition buf_start_with :: "string \<Rightarrow> MultipartParser \<Rightarrow> bool" where
  "buf_start_with s p = buf_start_with_at (mp_buf p) (mp_spos p) (mp_epos p) s"

function find_front :: "string \<Rightarrow> char \<Rightarrow> nat \<Rightarrow> nat \<Rightarrow> nat option" where
  "find_front a c pos epos =
     (if pos \<ge> epos then None else if a ! pos = c then Some pos else find_front a c (pos + 1) epos)"
  by pat_completeness auto
termination
  by (relation "measure (\<lambda>(a, c, pos, epos). epos - pos)") auto

declare find_front.simps [simp del]

lemma find_front_bounds: "find_front a c pos epos = Some i \<Longrightarrow> pos \<le> i \<and> i < epos"
  by (induction a c pos epos rule: find_front.induct)
    (subst (asm) (2) find_front.simps, auto split: if_splits)

function buf_find_loop :: "string \<Rightarrow> string \<Rightarrow> nat \<Rightarrow> nat \<Rightarrow> nat \<Rightarrow> nat" where
  "buf_find_loop s a spos epos off =
     (if off < epos then
        (case find_front a (hd s) off epos of
           None \<Rightarrow> epos - spos
         | Some pos \<Rightarrow>
             if length s > epos - pos then epos - spos
             else if buf_start_with_at a pos epos s then pos - spos
             else buf_find_loop s a spos epos (pos + 1))
      else epos - spos)"
  by pat_completeness auto
termination
  by (relation "measure (\<lambda>(s, a, spos, epos, off). epos - off)") (auto dest: find_front_bounds)

declare buf_find_loop.simps [simp del]

definition buf_find :: "string \<Rightarrow> MultipartParser \<Rightarrow> nat" where
  "buf_find s p = buf_find_loop s (mp_buf p) (mp_spos p) (mp_epos p) (mp_spos p)"

definition buf_append :: "bytes \<Rightarrow> MultipartParser \<Rightarrow> MultipartParser" where
  "buf_append data p =
     (let remaining_size = buf_size p;
          spos = mp_spos p;
          buf = (if remaining_size > 0 \<and> spos > 0
                 then fold (\<lambda>i b. b[i := b ! (spos + i)]) [0..<remaining_size] (mp_buf p) else mp_buf p);
          n = length data;
          buf = (if remaining_size + n > length buf then buf @ replicate (remaining_size + n - length buf) NUL else buf);
          buf = fold (\<lambda>i b. b[remaining_size + i := data ! i]) [0..<n] buf
      in p\<lparr>mp_buf := buf, mp_spos := 0, mp_epos := remaining_size + n\<rparr>)"

definition buf_erase :: "nat \<Rightarrow> MultipartParser \<Rightarrow> MultipartParser" where
  "buf_erase n p = p\<lparr>mp_spos := mp_spos p + n\<rparr>"

subsection \<open>The parser\<close>

type_synonym 'u content_callback = "bytes \<Rightarrow> 'u \<Rightarrow> bool \<times> 'u"
type_synonym 'u header_callback = "MultipartFormData \<Rightarrow> 'u \<Rightarrow> bool \<times> 'u"

definition start_with_case_ignore :: "string \<Rightarrow> string \<Rightarrow> bool" where
  "start_with_case_ignore a b = (length b \<le> length a \<and> map to_lower (take (length b) a) = map to_lower b)"

definition disposition_header :: "Params \<Rightarrow> MultipartFormData \<Rightarrow> bool \<times> MultipartFormData" where
  "disposition_header params f =
     (case map_of params ''name'' of
        None \<Rightarrow> (False, f)
      | Some name \<Rightarrow>
          let f = f\<lparr>md_name := name\<rparr>;
              f = (case map_of params ''filename'' of None \<Rightarrow> f | Some s \<Rightarrow> f\<lparr>md_filename := s\<rparr>)
          in case map_of params ''filename*'' of
               None \<Rightarrow> (True, f)
             | Some s \<Rightarrow>
                 (case match_rfc5987 s of
                    None \<Rightarrow> (False, f)
                  | Some t \<Rightarrow> (True, f\<lparr>md_filename := decode_url t False\<rparr>)))"

definition part_header :: "string \<Rightarrow> MultipartFormData \<Rightarrow> bool \<times> MultipartFormData" where
  \<comment> \<open>one header line of a part; \<open>False\<close> where the code sets \<open>is_valid_ = false\<close> and returns\<close>
  "part_header header f =
     (case parse_header header of
        None \<Rightarrow> (False, f)
      | Some (key, val) \<Rightarrow>
          let f = f\<lparr>md_headers := headers_emplace key val (md_headers f)\<rparr>
          in if start_with_case_ignore header ''Content-Type:''
             then (True, f\<lparr>md_content_type := trim_copy (drop 13 header)\<rparr>)
             else (case match_content_disposition header of
                     None \<Rightarrow> (True, f)
                   | Some m \<Rightarrow> disposition_header (parse_disposition_params m []) f))"

function part_headers ::
  "'u header_callback \<Rightarrow> nat \<Rightarrow> MultipartParser \<Rightarrow> 'u \<Rightarrow> bool option \<times> MultipartParser \<times> 'u" where
  \<comment> \<open>the loop of state 2; the first component is the value the code returns, if it does\<close>
  "part_headers header_callback pos p u =
     (if pos < buf_size p then
        (if pos = 0 then
           (case header_callback (mp_file p) u of
              (ok, u) \<Rightarrow> if \<not> ok then (Some False, p\<lparr>mp_is_valid := False\<rparr>, u)
                        else (None, (buf_erase 2 p)\<lparr>mp_state := 3\<rparr>, u))
         else
           (case part_header (buf_head pos p) (mp_file p) of
              (ok, f) \<Rightarrow>
                let p = p\<lparr>mp_file := f\<rparr>
                in if \<not> ok then (Some False, p\<lparr>mp_is_valid := False\<rparr>, u)
                   else let p = buf_erase (pos + 2) p
                        in part_headers header_callback (buf_find crlf p) p u))
      else (None, p, u))"
  by pat_completeness auto
termination
  by (relation "measure (\<lambda>(h, pos, p, u). buf_size p)") (auto simp: buf_size_def buf_erase_def)

declare part_headers.simps [simp del]

lemma part_headers_state3:
  "part_headers h pos p u = (None, p', u') \<Longrightarrow> mp_state p' = 3 \<Longrightarrow> mp_state p \<noteq> 3 \<Longrightarrow> buf_size p' < buf_size p"
proof (induction h pos p u rule: part_headers.induct)
  case (1 h pos p u)
  from 1(2-4) show ?case
  proof (cases "pos < buf_size p \<and> pos \<noteq> 0 \<and> fst (part_header (buf_head pos p) (mp_file p))")
    case True
    obtain f where f: "part_header (buf_head pos p) (mp_file p) = (True, f)" using True by (cases "part_header (buf_head pos p) (mp_file p)") auto
    let ?q = "buf_erase (pos + 2) (p\<lparr>mp_file := f\<rparr>)"
    have "part_headers h (buf_find crlf ?q) ?q u = (None, p', u')"
      using 1(2) True f by (subst (asm) part_headers.simps) (simp add: Let_def)
    then have "buf_size p' < buf_size ?q" using 1(1) True f 1(3,4) by (simp add: buf_erase_def)
    then show ?thesis by (simp add: buf_size_def buf_erase_def)
  next
    case False
    then show ?thesis using 1(2-4)
      by (subst (asm) part_headers.simps) (auto simp: buf_size_def buf_erase_def split: if_splits prod.splits)
  qed
qed

function parse_loop ::
  "'u content_callback \<Rightarrow> 'u header_callback \<Rightarrow> MultipartParser \<Rightarrow> 'u \<Rightarrow> bool \<times> MultipartParser \<times> 'u" where
  \<comment> \<open>\<open>state_\<close> is at most 4\<close>
  "parse_loop content_callback header_callback p u =
     (if buf_size p = 0 then (True, p, u)
      else if mp_state p = 0 then
        (let pos = buf_find (dash_boundary_crlf p) p
         in if pos = buf_size p then (True, p, u)
            else parse_loop content_callback header_callback
                   ((buf_erase (pos + length (dash_boundary_crlf p)) p)\<lparr>mp_state := 1\<rparr>) u)
      else if mp_state p = 1 then
        parse_loop content_callback header_callback ((clear_file_info p)\<lparr>mp_state := 2\<rparr>) u
      else if mp_state p = 2 then
        (let pos = buf_find crlf p
         in if pos > HEADER_MAX_LENGTH then (False, p, u)
            else (case part_headers header_callback pos p u of
                    (Some r, p, u) \<Rightarrow> (r, p, u)
                  | (None, p, u) \<Rightarrow>
                      if mp_state p \<noteq> 3 then (True, p, u)
                      else parse_loop content_callback header_callback p u))
      else if mp_state p = 3 then
        (if length (crlf_dash_boundary p) > buf_size p then (True, p, u)
         else
           let pos = buf_find (crlf_dash_boundary p) p
           in if pos < buf_size p then
                (case content_callback (buf_head pos p) u of
                   (ok, u) \<Rightarrow>
                     if \<not> ok then (False, p\<lparr>mp_is_valid := False\<rparr>, u)
                     else parse_loop content_callback header_callback
                            ((buf_erase (pos + length (crlf_dash_boundary p)) p)\<lparr>mp_state := 4\<rparr>) u)
              else
                let len = buf_size p - length (crlf_dash_boundary p)
                in if len > 0 then
                     (case content_callback (buf_head len p) u of
                        (ok, u) \<Rightarrow> if \<not> ok then (False, p\<lparr>mp_is_valid := False\<rparr>, u) else (True, buf_erase len p, u))
                   else (True, p, u))
      else
        (if length crlf > buf_size p then (True, p, u)
         else if buf_start_with crlf p then
           parse_loop content_callback header_callback ((buf_erase (length crlf) p)\<lparr>mp_state := 1\<rparr>) u
         else if buf_start_with ''--'' p then
           (let p = (buf_erase 2 p)\<lparr>mp_is_valid := True\<rparr>
            in parse_loop content_callback header_callback (buf_erase (buf_size p) p) u)
         else (True, p, u)))"
  by pat_completeness auto
termination
  by (relation "measures [\<lambda>(c, h, p, u). buf_size p, \<lambda>(c, h, p, u). if mp_state p = 1 then 1 else 0]")
    (auto simp: buf_erase_def buf_size_def clear_file_info_def dash_boundary_crlf_def crlf_dash_boundary_def
      dest: part_headers_state3 [OF sym])

declare parse_loop.simps [simp del]

definition multipart_parse ::
  "'u content_callback \<Rightarrow> 'u header_callback \<Rightarrow> bytes \<Rightarrow> MultipartParser \<Rightarrow> 'u \<Rightarrow> bool \<times> MultipartParser \<times> 'u" where
  "multipart_parse content_callback header_callback data p u =
     parse_loop content_callback header_callback (buf_append data p) u"

section \<open>Lemmas\<close>

subsection \<open>The buffer as a list\<close>

definition pending :: "MultipartParser \<Rightarrow> bytes" where
  "pending p = take (buf_size p) (drop (mp_spos p) (mp_buf p))"

definition buf_ok :: "MultipartParser \<Rightarrow> bool" where
  "buf_ok p \<longleftrightarrow> mp_spos p \<le> mp_epos p \<and> mp_epos p \<le> length (mp_buf p)"

lemma length_pending [simp]: "buf_ok p \<Longrightarrow> length (pending p) = buf_size p"
  by (auto simp: pending_def buf_ok_def buf_size_def)

lemma buf_head_pending: "n \<le> buf_size p \<Longrightarrow> buf_head n p = take n (pending p)"
  by (simp add: buf_head_def pending_def min_def)

lemma buf_start_with_at_iff:
  assumes "epos \<le> length a"
  shows "buf_start_with_at a pos epos s \<longleftrightarrow> length s \<le> epos - pos \<and> take (length s) (drop pos a) = s"
proof (cases "epos - pos < length s")
  case False
  then have l: "length (take (length s) (drop pos a)) = length s" using assms by simp
  have "(\<forall>i < length s. a ! (i + pos) = s ! i) \<longleftrightarrow> take (length s) (drop pos a) = s"
    unfolding list_eq_iff_nth_eq [of "take (length s) (drop pos a)"] l using l by (simp add: add.commute)
  then show ?thesis using False by (simp add: buf_start_with_at_def list_all_iff Ball_def)
qed (simp add: buf_start_with_at_def)

lemma buf_start_with_pending: "buf_ok p \<Longrightarrow> buf_start_with s p \<longleftrightarrow> prefix s (pending p)"
proof -
  assume ok: "buf_ok p"
  then have "buf_start_with s p \<longleftrightarrow> length s \<le> buf_size p \<and> take (length s) (drop (mp_spos p) (mp_buf p)) = s"
    by (simp add: buf_start_with_def buf_start_with_at_iff buf_ok_def buf_size_def)
  also have "\<dots> \<longleftrightarrow> take (length s) (pending p) = s"
    using length_pending [OF ok] by (auto simp: pending_def min_def split: if_splits)
  finally show ?thesis by (metis append_eq_conv_conj append_take_drop_id prefix_def)
qed

lemma pending_erase: "n \<le> buf_size p \<Longrightarrow> buf_ok p \<Longrightarrow> pending (buf_erase n p) = drop n (pending p) \<and> buf_ok (buf_erase n p)"
  by (auto simp: pending_def buf_erase_def buf_size_def buf_ok_def drop_take add.commute)

lemma find_front_spec:
  "case find_front a c pos epos of
     None \<Rightarrow> \<forall>j. pos \<le> j \<and> j < epos \<longrightarrow> a ! j \<noteq> c
   | Some i \<Rightarrow> pos \<le> i \<and> i < epos \<and> a ! i = c \<and> (\<forall>j. pos \<le> j \<and> j < i \<longrightarrow> a ! j \<noteq> c)"
proof (induction a c pos epos rule: find_front.induct)
  case (1 a c pos epos)
  show ?case
  proof (cases "pos \<ge> epos \<or> a ! pos = c")
    case True
    then show ?thesis by (subst find_front.simps) auto
  next
    case False
    then have "find_front a c pos epos = find_front a c (pos + 1) epos" by (subst find_front.simps) simp
    then show ?thesis using 1 False by (auto split: option.splits) (metis Suc_leI le_neq_implies_less)+
  qed
qed

definition match_at :: "string \<Rightarrow> string \<Rightarrow> nat \<Rightarrow> nat \<Rightarrow> bool" where
  "match_at s a epos i \<longleftrightarrow> i + length s \<le> epos \<and> take (length s) (drop i a) = s"

lemma match_at_front: "s \<noteq> [] \<Longrightarrow> epos \<le> length a \<Longrightarrow> match_at s a epos i \<Longrightarrow> i < epos \<and> a ! i = hd s"
proof -
  assume a: "s \<noteq> []" "epos \<le> length a" "match_at s a epos i"
  then have i: "i < epos" by (cases s) (auto simp: match_at_def)
  have "hd s = hd (take (length s) (drop i a))" using a(3) by (simp add: match_at_def)
  also have "\<dots> = a ! i" using a(1,2) i by (simp add: hd_take hd_drop_conv_nth)
  finally show ?thesis using i by simp
qed

lemma buf_find_loop_spec:
  assumes "s \<noteq> []" "epos \<le> length a"
  shows "(\<exists>i \<ge> off. match_at s a epos i \<and> (\<forall>j. off \<le> j \<and> j < i \<longrightarrow> \<not> match_at s a epos j) \<and>
      buf_find_loop s a spos epos off = i - spos) \<or>
    ((\<forall>j \<ge> off. \<not> match_at s a epos j) \<and> buf_find_loop s a spos epos off = epos - spos)"
  using assms
proof (induction s a spos epos off rule: buf_find_loop.induct)
  case (1 s a spos epos off)
  note front = match_at_front [OF 1(2,3)]
  show ?case
  proof (cases "off < epos")
    case False
    then have "\<forall>j \<ge> off. \<not> match_at s a epos j" using front by (meson le_trans not_le)
    then show ?thesis using False by (subst buf_find_loop.simps) simp
  next
    case True
    note ff = find_front_spec [where a = a and c = "hd s" and pos = off and epos = epos]
    show ?thesis
    proof (cases "find_front a (hd s) off epos")
      case None
      then have "\<forall>j \<ge> off. \<not> match_at s a epos j" using front ff by auto
      then show ?thesis using True None by (subst buf_find_loop.simps) simp
    next
      case (Some pos)
      then have pos: "off \<le> pos" "pos < epos" "\<forall>j. off \<le> j \<and> j < pos \<longrightarrow> \<not> match_at s a epos j" using ff front by auto
      consider (short) "length s > epos - pos" | (hit) "\<not> length s > epos - pos" "match_at s a epos pos"
        | (miss) "\<not> length s > epos - pos" "\<not> match_at s a epos pos" by blast
      then show ?thesis
      proof cases
        case short
        have "\<not> match_at s a epos j" if "j \<ge> off" for j
        proof (cases "j < pos")
          case False
          then show ?thesis using short pos(2) by (auto simp: match_at_def)
        qed (use pos(3) that in blast)
        then show ?thesis using True Some short by (subst buf_find_loop.simps) simp
      next
        case hit
        then have "buf_start_with_at a pos epos s" using 1(3) by (simp add: buf_start_with_at_iff match_at_def)
        then have "buf_find_loop s a spos epos off = pos - spos" using True Some hit by (subst buf_find_loop.simps) simp
        then show ?thesis using hit(2) pos by blast
      next
        case miss
        then have n: "\<not> buf_start_with_at a pos epos s" using 1(3) pos(2) by (auto simp: buf_start_with_at_iff match_at_def)
        then have e: "buf_find_loop s a spos epos off = buf_find_loop s a spos epos (pos + 1)"
          using True Some miss by (subst buf_find_loop.simps) simp
        have none: "\<not> match_at s a epos j" if "off \<le> j" "j < pos + 1" for j
          using that pos(3) miss(2) by (cases "j = pos") auto
        from 1(1) [OF True Some miss(1) n 1(2,3)] show ?thesis
        proof
          assume "\<exists>i \<ge> pos + 1. match_at s a epos i \<and> (\<forall>j. pos + 1 \<le> j \<and> j < i \<longrightarrow> \<not> match_at s a epos j) \<and>
            buf_find_loop s a spos epos (pos + 1) = i - spos"
          then obtain i where "pos + 1 \<le> i" "match_at s a epos i" "\<forall>j. pos + 1 \<le> j \<and> j < i \<longrightarrow> \<not> match_at s a epos j"
            "buf_find_loop s a spos epos (pos + 1) = i - spos" by blast
          then show ?thesis using none e pos(1) by (intro disjI1 exI [of _ i]) (metis Suc_eq_plus1 Suc_leD le_trans not_less)
        next
          assume "(\<forall>j \<ge> pos + 1. \<not> match_at s a epos j) \<and> buf_find_loop s a spos epos (pos + 1) = epos - spos"
          then show ?thesis using none e by (metis not_less)
        qed
      qed
    qed
  qed
qed

text \<open>Searching the buffer is searching the pending text.\<close>

definition occurs :: "string \<Rightarrow> string \<Rightarrow> nat \<Rightarrow> bool" where
  "occurs s t i \<longleftrightarrow> take (length s) (drop i t) = s"

lemma occurs_pending:
  assumes "buf_ok p" "s \<noteq> []"
  shows "occurs s (pending p) i \<longleftrightarrow> match_at s (mp_buf p) (mp_epos p) (mp_spos p + i)"
proof -
  have "i + length s \<le> buf_size p" if "occurs s (pending p) i"
  proof -
    have "length s = min (length s) (buf_size p - i)"
      using that length_pending [OF assms(1)] unfolding occurs_def by (metis length_drop length_take min.commute)
    then show ?thesis using assms(2) by (cases s) auto
  qed
  then show ?thesis
    using assms(1) by (auto simp: occurs_def pending_def match_at_def buf_size_def buf_ok_def drop_take min_def add.commute)
qed

lemma buf_find_pending:
  assumes "buf_ok p" "s \<noteq> []"
  obtains (found) i where "occurs s (pending p) i" "\<forall>j < i. \<not> occurs s (pending p) j" "buf_find s p = i" "i + length s \<le> buf_size p"
  | (missing) "\<forall>j. \<not> occurs s (pending p) j" "buf_find s p = buf_size p"
proof -
  note occ = occurs_pending [OF assms]
  have e: "mp_epos p \<le> length (mp_buf p)" using assms(1) by (simp add: buf_ok_def)
  from buf_find_loop_spec [OF assms(2) e, of "mp_spos p" "mp_spos p"] show thesis
  proof (elim disjE exE conjE)
    fix k assume k: "mp_spos p \<le> k" "match_at s (mp_buf p) (mp_epos p) k"
      "\<forall>j. mp_spos p \<le> j \<and> j < k \<longrightarrow> \<not> match_at s (mp_buf p) (mp_epos p) j"
      "buf_find_loop s (mp_buf p) (mp_spos p) (mp_epos p) (mp_spos p) = k - mp_spos p"
    show thesis
    proof (rule found [of "k - mp_spos p"])
      show "occurs s (pending p) (k - mp_spos p)" using k(1,2) by (simp add: occ)
      show "\<forall>j < k - mp_spos p. \<not> occurs s (pending p) j" using k(3) by (simp add: occ)
      show "buf_find s p = k - mp_spos p" using k(4) by (simp add: buf_find_def)
      show "k - mp_spos p + length s \<le> buf_size p" using k(1,2) by (auto simp: match_at_def buf_size_def)
    qed
  next
    assume "\<forall>j \<ge> mp_spos p. \<not> match_at s (mp_buf p) (mp_epos p) j"
      "buf_find_loop s (mp_buf p) (mp_spos p) (mp_epos p) (mp_spos p) = mp_epos p - mp_spos p"
    then show thesis by (intro missing) (simp_all add: occ buf_find_def buf_size_def)
  qed
qed

lemma fold_copy_down:
  assumes "k + spos \<le> length b" "spos > 0"
  shows "fold (\<lambda>i b. b[i := b ! (spos + i)]) [0..<k] b = take k (drop spos b) @ drop k b"
  using assms(1)
proof (induction k)
  case (Suc k)
  let ?b = "take k (drop spos b) @ drop k b"
  have "?b ! (spos + k) = b ! (spos + k)" using Suc.prems by (simp add: nth_append add.commute)
  moreover have "?b[k := x] = take k (drop spos b) @ x # drop (Suc k) b" for x
    using Suc.prems by (simp add: list_update_append Cons_nth_drop_Suc [symmetric])
  moreover have "take (Suc k) (drop spos b) = take k (drop spos b) @ [b ! (spos + k)]"
    using Suc.prems by (simp add: take_Suc_conv_app_nth add.commute)
  ultimately show ?case using Suc by simp
qed simp

lemma fold_write:
  assumes "r + k \<le> length b" "k \<le> length d"
  shows "fold (\<lambda>i b. b[r + i := d ! i]) [0..<k] b = take r b @ take k d @ drop (r + k) b"
  using assms
proof (induction k)
  case (Suc k)
  have "(take r b @ take k d @ drop (r + k) b)[r + k := x] = take r b @ take k d @ x # drop (Suc (r + k)) b" for x
    using Suc.prems by (simp add: list_update_append Cons_nth_drop_Suc [symmetric])
  then show ?case using Suc by (simp add: take_Suc_conv_app_nth)
qed simp

lemma pending_append:
  assumes "buf_ok p"
  shows "pending (buf_append d p) = pending p @ d \<and> buf_ok (buf_append d p)"
proof -
  define r where "r = buf_size p"
  define b1 where "b1 = (if r > 0 \<and> mp_spos p > 0
    then fold (\<lambda>i b. b[i := b ! (mp_spos p + i)]) [0..<r] (mp_buf p) else mp_buf p)"
  define b2 where "b2 = (if r + length d > length b1 then b1 @ replicate (r + length d - length b1) NUL else b1)"
  have r: "r + mp_spos p \<le> length (mp_buf p)" "length (pending p) = r" using assms by (auto simp: r_def buf_ok_def buf_size_def)
  have b1: "take r b1 = pending p" "r \<le> length b1"
    using r(1) by (auto simp: b1_def pending_def r_def [symmetric] fold_copy_down)
  have b2: "take r b2 = pending p" "r + length d \<le> length b2" using b1 by (auto simp: b2_def)
  let ?b = "fold (\<lambda>i b. b[r + i := d ! i]) [0..<length d] b2"
  have f: "?b = pending p @ d @ drop (r + length d) b2" using fold_write [of r "length d" b2 d] b2 by simp
  have "buf_append d p = p\<lparr>mp_buf := ?b, mp_spos := 0, mp_epos := r + length d\<rparr>"
    by (simp add: buf_append_def Let_def b2_def b1_def r_def)
  moreover have "pending (p\<lparr>mp_buf := t @ z, mp_spos := 0, mp_epos := length t\<rparr>) = t" for t z
    by (simp add: pending_def buf_size_def)
  from this [of "pending p @ d" "drop (r + length d) b2"]
  have "pending (p\<lparr>mp_buf := pending p @ d @ drop (r + length d) b2, mp_spos := 0, mp_epos := r + length d\<rparr>) = pending p @ d"
    using r(2) by simp
  ultimately show ?thesis unfolding f using r(2) b2(2) by (simp add: buf_ok_def)
qed

lemma pending_fields [simp]:
  "pending (p\<lparr>mp_state := st\<rparr>) = pending p" "pending (p\<lparr>mp_is_valid := v\<rparr>) = pending p" "pending (p\<lparr>mp_file := f\<rparr>) = pending p"
  "buf_size (p\<lparr>mp_state := st\<rparr>) = buf_size p" "buf_size (p\<lparr>mp_is_valid := v\<rparr>) = buf_size p" "buf_size (p\<lparr>mp_file := f\<rparr>) = buf_size p"
  "buf_ok (p\<lparr>mp_state := st\<rparr>) = buf_ok p" "buf_ok (p\<lparr>mp_is_valid := v\<rparr>) = buf_ok p" "buf_ok (p\<lparr>mp_file := f\<rparr>) = buf_ok p"
  by (simp_all add: pending_def buf_size_def buf_ok_def)

lemma erase_fields [simp]:
  "mp_boundary (buf_erase n p) = mp_boundary p" "mp_state (buf_erase n p) = mp_state p"
  "mp_is_valid (buf_erase n p) = mp_is_valid p" "mp_file (buf_erase n p) = mp_file p"
  by (simp_all add: buf_erase_def)

lemma append_fields [simp]:
  "mp_boundary (buf_append d p) = mp_boundary p" "mp_state (buf_append d p) = mp_state p"
  "mp_is_valid (buf_append d p) = mp_is_valid p" "mp_file (buf_append d p) = mp_file p"
  by (simp_all add: buf_append_def Let_def)

subsection \<open>The text of a form\<close>

definition delim :: "string \<Rightarrow> string" where
  "delim b = crlf @ ''--'' @ b"

definition lines_text :: "string list \<Rightarrow> string" where
  "lines_text ls = concat (map (\<lambda>l. l @ crlf) ls)"

lemma lines_text_simps [simp]: "lines_text [] = []" "lines_text (l # ls) = l @ crlf @ lines_text ls"
  by (simp_all add: lines_text_def)

text \<open>A part: its header lines, what they say, its content.\<close>

type_synonym part = "string list \<times> MultipartFormData \<times> bytes"

fun tail_text :: "string \<Rightarrow> part list \<Rightarrow> bytes" where
  "tail_text b [] = ''--'' @ crlf"
| "tail_text b ((ls, f, c) # ps) = crlf @ lines_text ls @ crlf @ c @ delim b @ tail_text b ps"

fun part_header_lines :: "string list \<Rightarrow> MultipartFormData \<Rightarrow> MultipartFormData option" where
  "part_header_lines [] f = Some f"
| "part_header_lines (l # ls) f = (case part_header l f of (ok, f) \<Rightarrow> if ok then part_header_lines ls f else None)"

definition good_line :: "string \<Rightarrow> bool" where
  "good_line l \<longleftrightarrow> l \<noteq> [] \<and> CR \<notin> set l \<and> length l < HEADER_MAX_LENGTH"

definition no_delim :: "string \<Rightarrow> bytes \<Rightarrow> bool" where
  "no_delim b c \<longleftrightarrow> (\<forall>j. \<not> occurs (delim b) c j)"

definition part_ok :: "string \<Rightarrow> part \<Rightarrow> bool" where
  "part_ok b = (\<lambda>(ls, f, c). list_all good_line ls \<and> part_header_lines ls empty_file = Some f \<and> no_delim b c)"

definition part_out :: "part \<Rightarrow> MultipartFormData \<times> bytes" where
  "part_out = (\<lambda>(ls, f, c). (f, c))"

lemma occurs_length: "occurs s t j \<Longrightarrow> s \<noteq> [] \<Longrightarrow> j + length s \<le> length t"
proof -
  assume a: "occurs s t j" "s \<noteq> []"
  then have "length s = min (length s) (length t - j)" unfolding occurs_def by (metis length_drop length_take min.commute)
  then show ?thesis using a(2) by (cases s) auto
qed

lemma occurs_prefix: "occurs s t j \<Longrightarrow> s \<noteq> [] \<Longrightarrow> prefix t t' \<Longrightarrow> occurs s t' j"
  using occurs_length [of s t j] by (auto simp: occurs_def prefix_def)

lemma occurs_front:
  assumes "x \<notin> set d" "\<forall>j. \<not> occurs (x # d) c j"
  shows "\<forall>j < length c. \<not> occurs (x # d) (c @ (x # d) @ r) j"
proof (intro allI impI notI)
  fix j assume j: "j < length c" "occurs (x # d) (c @ (x # d) @ r) j"
  show False
  proof (cases "j + length (x # d) \<le> length c")
    case True
    then have "occurs (x # d) c j" using j by (auto simp: occurs_def)
    then show False using assms(2) by blast
  next
    case False
    define k where "k = length c - j"
    have k: "0 < k" "k < length (x # d)" using False j(1) by (auto simp: k_def)
    have "(x # d) ! k = take (length (x # d)) (drop j (c @ (x # d) @ r)) ! k" using j(2) unfolding occurs_def by (simp only:)
    also have "\<dots> = (c @ (x # d) @ r) ! (j + k)" using k(2) j(1) by (subst nth_take, simp, subst nth_drop) simp_all
    also have "\<dots> = x" using j(1) by (simp add: k_def nth_append)
    finally have "d ! (k - 1) = x" using k(1) by (simp add: nth_Cons')
    moreover have "d ! (k - 1) \<in> set d" using k by (intro nth_mem) auto
    ultimately show False using assms(1) by simp
  qed
qed

lemma buf_find_first:
  assumes "buf_ok p" "s \<noteq> []" "\<forall>j < length c. \<not> occurs s (c @ s @ r) j" "pending p @ unread = c @ s @ r"
  shows "buf_find s p = (if length c + length s \<le> buf_size p then length c else buf_size p)"
  using assms(1,2)
proof (cases rule: buf_find_pending)
  case (found i)
  have "prefix (pending p) (c @ s @ r)" using assms(4) by (metis prefixI)
  then have "occurs s (c @ s @ r) i" using occurs_prefix [OF found(1) assms(2)] by blast
  then have i: "length c \<le> i" using assms(3) by (meson not_less)
  have "length c + length s \<le> buf_size p" using i found(4) by simp
  moreover from this have "take (length c + length s) (pending p) = c @ s"
    using assms(4) length_pending [OF assms(1)] by (metis append.assoc append_eq_append_conv_if length_append)
  then have "occurs s (pending p) (length c)" unfolding occurs_def
    by (metis append_eq_conv_conj drop_take add_diff_cancel_left')
  then have "\<not> length c < i" using found(2) by blast
  ultimately show ?thesis using i found(3) by simp
next
  case missing
  have "\<not> length c + length s \<le> buf_size p"
  proof
    assume "length c + length s \<le> buf_size p"
    then have "take (length c + length s) (pending p) = c @ s"
      using assms(4) length_pending [OF assms(1)] by (metis append.assoc append_eq_append_conv_if length_append)
    then have "occurs s (pending p) (length c)" unfolding occurs_def
      by (metis append_eq_conv_conj drop_take add_diff_cancel_left')
    then show False using missing(1) by blast
  qed
  then show ?thesis using missing(2) by simp
qed

subsection \<open>The states\<close>

definition take_header :: "(MultipartFormData \<times> bytes) list header_callback" where
  "take_header f u = (True, u @ [(f, [])])"

definition take_content :: "(MultipartFormData \<times> bytes) list content_callback" where
  "take_content d u = (True, butlast u @ [(fst (last u), snd (last u) @ d)])"

lemma pending_split:
  assumes "buf_ok p" "pending p @ unread = a @ r" "length a \<le> buf_size p"
  shows "pending (buf_erase (length a) p) @ unread = r \<and> buf_ok (buf_erase (length a) p) \<and> take (length a) (pending p) = a"
proof -
  have t: "take (length a) (pending p) = a"
    using assms length_pending [OF assms(1)] by (metis append_eq_append_conv_if append_eq_conv_conj take_append diff_is_0_eq take_0 append_Nil2)
  then have "pending p = a @ drop (length a) (pending p)" by (metis append_take_drop_id)
  then have "drop (length a) (pending p) @ unread = r" using assms(2) by (metis append.assoc same_append_eq)
  then show ?thesis using pending_erase [OF assms(3,1)] t by simp
qed

text \<open>What a run of the parser has seen: \<open>on_track b st f R u\<close> says that in state \<open>st\<close>, with the half-filled file
  \<open>f\<close> and the text \<open>R\<close> still to come, the output \<open>u\<close> will be completed to \<open>out\<close>.\<close>

inductive on_track ::
  "string \<Rightarrow> (MultipartFormData \<times> bytes) list \<Rightarrow> nat \<Rightarrow> bool \<Rightarrow> MultipartFormData \<Rightarrow> bytes \<Rightarrow>
     (MultipartFormData \<times> bytes) list \<Rightarrow> bool" for b out where
  preamble: "\<lbrakk>list_all (part_ok b) ps; ps \<noteq> []; out = map part_out ps\<rbrakk> \<Longrightarrow> on_track b out 0 v f (''--'' @ b @ tail_text b ps) []"
| entry: "\<lbrakk>list_all (part_ok b) ((ls, f', c) # ps); out = u @ map part_out ((ls, f', c) # ps)\<rbrakk> \<Longrightarrow>
    on_track b out 1 v f (lines_text ls @ crlf @ c @ delim b @ tail_text b ps) u"
| headers: "\<lbrakk>list_all good_line ls; part_header_lines ls f = Some f'; no_delim b c; list_all (part_ok b) ps;
      out = u @ (f', c) # map part_out ps\<rbrakk> \<Longrightarrow>
    on_track b out 2 v f (lines_text ls @ crlf @ c @ delim b @ tail_text b ps) u"
| content: "\<lbrakk>no_delim b c; list_all (part_ok b) ps; out = u @ (f', c0 @ c) # map part_out ps\<rbrakk> \<Longrightarrow>
    on_track b out 3 v f (c @ delim b @ tail_text b ps) (u @ [(f', c0)])"
| boundary: "\<lbrakk>list_all (part_ok b) ps; out = u @ map part_out ps\<rbrakk> \<Longrightarrow> on_track b out 4 v f (tail_text b ps) u"
| epilogue: "R \<in> {crlf, [LF], []} \<Longrightarrow> on_track b out 4 True f R out"
| finished: "on_track b out 1 True f [] out"

lemma crlf_first:
  assumes "CR \<notin> set l"
  shows "\<forall>j < length l. \<not> occurs crlf (l @ crlf @ r) j"
proof -
  have "\<not> occurs crlf l j" for j
  proof
    assume "occurs crlf l j"
    then have "CR \<in> set (take (length crlf) (drop j l))" unfolding occurs_def by simp
    then show False using assms by (meson in_set_dropD in_set_takeD)
  qed
  then show ?thesis using occurs_front [of LF "[LF]" l r] occurs_front [of CR "[LF]" l r] by simp
qed

lemma delim_first:
  assumes "CR \<notin> set b" "no_delim b c"
  shows "\<forall>j < length c. \<not> occurs (delim b) (c @ delim b @ r) j"
  using occurs_front [of CR "LF # ''--'' @ b" c r] assms by (simp add: delim_def no_delim_def)

lemma take_first: "take (length a + n) t = a @ b \<Longrightarrow> take (length a) t = a"
proof -
  assume "take (length a + n) t = a @ b"
  then have "take (length a) (take (length a + n) t) = a" by (simp del: take_take)
  then show ?thesis by (simp add: min_def)
qed

lemma part_headers_track:
  assumes "list_all good_line ls" "part_header_lines ls (mp_file p) = Some f" "buf_ok p" "mp_state p = 2"
    "pending p @ unread = lines_text ls @ crlf @ R" "buf_find crlf p = pos"
  shows "pos \<le> HEADER_MAX_LENGTH \<and>
    ((\<exists>p'. part_headers take_header pos p u = (None, p', u @ [(f, [])]) \<and> mp_state p' = 3 \<and> buf_ok p' \<and>
        mp_boundary p' = mp_boundary p \<and> pending p' @ unread = R) \<or>
     (\<exists>p' ls'. part_headers take_header pos p u = (None, p', u) \<and> mp_state p' = 2 \<and> buf_ok p' \<and>
        mp_boundary p' = mp_boundary p \<and> unread \<noteq> [] \<and> list_all good_line ls' \<and> part_header_lines ls' (mp_file p') = Some f \<and>
        pending p' @ unread = lines_text ls' @ crlf @ R))"
  using assms
proof (induction ls arbitrary: p pos)
  case Nil
  have pos: "pos = (if 2 \<le> buf_size p then 0 else buf_size p)"
    using buf_find_first [of p crlf "[]" R unread] Nil.prems by (cases "2 \<le> buf_size p") simp_all
  show ?case
  proof (cases "2 \<le> buf_size p")
    case True
    have "pending (buf_erase 2 p) @ unread = R" "buf_ok (buf_erase 2 p)"
      using pending_split [of p unread crlf R] Nil.prems True by (simp_all add: numeral_2_eq_2)
    moreover have "part_headers take_header pos p u = (None, (buf_erase 2 p)\<lparr>mp_state := 3\<rparr>, u @ [(f, [])])"
      using True pos Nil.prems(2) by (subst part_headers.simps) (simp add: take_header_def)
    ultimately show ?thesis using pos True by simp
  next
    case False
    then have "part_headers take_header pos p u = (None, p, u)" using pos by (subst part_headers.simps) simp
    moreover have "unread \<noteq> []"
    proof
      assume "unread = []"
      then have "length (pending p) \<ge> 2" using Nil.prems(5) by simp
      then show False using False Nil.prems(3) by simp
    qed
    moreover have "pos \<le> HEADER_MAX_LENGTH" using pos False by (simp add: HEADER_MAX_LENGTH_def)
    ultimately show ?thesis using Nil.prems by metis
  qed
next
  case (Cons l ls)
  have l: "l \<noteq> []" "CR \<notin> set l" "length l < HEADER_MAX_LENGTH" using Cons.prems(1) by (simp_all add: good_line_def)
  have pos: "pos = (if length l + 2 \<le> buf_size p then length l else buf_size p)"
    using buf_find_first [OF Cons.prems(3) _ crlf_first [OF l(2)], where r = "lines_text ls @ crlf @ R" and unread = unread]
      Cons.prems(5,6) by simp
  show ?case
  proof (cases "length l + 2 \<le> buf_size p")
    case True
    let ?r = "lines_text ls @ crlf @ R"
    have e: "pending (buf_erase (length l + 2) p) @ unread = ?r" "buf_ok (buf_erase (length l + 2) p)"
      "take (length l + 2) (pending p) = l @ crlf"
      using pending_split [of p unread "l @ crlf" ?r] Cons.prems(3,5) True by simp_all
    have h: "buf_head pos p = l" using True pos take_first [OF e(3)] by (simp add: buf_head_pending)
    obtain f1 where f1: "part_header l (mp_file p) = (True, f1)" "part_header_lines ls f1 = Some f"
      using Cons.prems(2) by (cases "part_header l (mp_file p)") (auto split: if_splits)
    let ?q = "buf_erase (pos + 2) (p\<lparr>mp_file := f1\<rparr>)"
    have q: "pending ?q @ unread = ?r" "buf_ok ?q" "mp_state ?q = 2" "mp_file ?q = f1" "mp_boundary ?q = mp_boundary p"
      using e(1,2) True pos Cons.prems(4) by (simp_all add: buf_erase_def pending_def buf_size_def buf_ok_def)
    have "part_headers take_header pos p u = part_headers take_header (buf_find crlf ?q) ?q u"
      using True pos l(1) h f1(1) by (subst part_headers.simps) (simp add: Let_def)
    moreover have "pos \<le> HEADER_MAX_LENGTH" using pos True l(3) by simp
    moreover have "list_all good_line ls" using Cons.prems(1) by simp
    ultimately show ?thesis using Cons.IH [OF _ _ q(2,3,1) refl] f1(2) q(4,5) by simp
  next
    case False
    then have "part_headers take_header pos p u = (None, p, u)" using pos by (subst part_headers.simps) simp
    moreover have "unread \<noteq> []"
    proof
      assume "unread = []"
      then have "length (pending p) \<ge> length l + 2" using Cons.prems(5) by simp
      then show False using False Cons.prems(3) by simp
    qed
    moreover have "pos \<le> HEADER_MAX_LENGTH" using pos False l(3) by simp
    ultimately show ?thesis using Cons.prems by metis
  qed
qed

abbreviation parse_form ::
  "MultipartParser \<Rightarrow> (MultipartFormData \<times> bytes) list \<Rightarrow> bool \<times> MultipartParser \<times> (MultipartFormData \<times> bytes) list" where
  "parse_form \<equiv> parse_loop take_content take_header"

definition track :: "string \<Rightarrow> (MultipartFormData \<times> bytes) list \<Rightarrow> bytes \<Rightarrow> MultipartParser \<Rightarrow> (MultipartFormData \<times> bytes) list \<Rightarrow> bool" where
  "track b out unread p u \<longleftrightarrow> buf_ok p \<and> mp_boundary p = b \<and>
     on_track b out (mp_state p) (mp_is_valid p) (mp_file p) (pending p @ unread) u"

definition loop_measure :: "MultipartParser \<Rightarrow> nat" where
  "loop_measure p = 2 * buf_size p + (if mp_state p = 1 then 1 else 0)"

definition stops :: "string \<Rightarrow> (MultipartFormData \<times> bytes) list \<Rightarrow> bytes \<Rightarrow> MultipartParser \<Rightarrow> (MultipartFormData \<times> bytes) list \<Rightarrow> bool" where
  "stops b out unread p u \<longleftrightarrow> (\<exists>p' u'. parse_form p u = (True, p', u') \<and> track b out unread p' u' \<and>
     (unread = [] \<longrightarrow> mp_is_valid p' \<and> u' = out))"

definition moves :: "string \<Rightarrow> (MultipartFormData \<times> bytes) list \<Rightarrow> bytes \<Rightarrow> MultipartParser \<Rightarrow> (MultipartFormData \<times> bytes) list \<Rightarrow> bool" where
  "moves b out unread p u \<longleftrightarrow> (\<exists>q u'. parse_form p u = parse_form q u' \<and> loop_measure q < loop_measure p \<and> track b out unread q u')"

lemma tail_text_nonempty [simp]: "tail_text b ps \<noteq> []"
  by (cases ps) auto

lemma on_track_end: "on_track b out st v f [] u \<Longrightarrow> v \<and> u = out"
  by (erule on_track.cases) (auto simp: delim_def tail_text_nonempty [symmetric])

lemma stops_here:
  assumes "track b out unread p u" "parse_form p u = (True, p, u)" "unread \<noteq> [] \<or> mp_is_valid p \<and> u = out"
  shows "stops b out unread p u"
  using assms by (auto simp: stops_def)

lemma stops_empty: "track b out unread p u \<Longrightarrow> buf_size p = 0 \<Longrightarrow> stops b out unread p u"
proof (rule stops_here)
  assume a: "track b out unread p u" "buf_size p = 0"
  show "parse_form p u = (True, p, u)" using a(2) by (subst parse_loop.simps) simp
  have "pending p = []" using a(2) by (simp add: pending_def)
  then show "unread \<noteq> [] \<or> mp_is_valid p \<and> u = out"
    using a(1) on_track_end [of b out "mp_state p" "mp_is_valid p" "mp_file p" u] by (auto simp: track_def)
qed

lemma unread_nonempty:
  assumes "buf_ok p" "pending p @ unread = R" "buf_size p < length R"
  shows "unread \<noteq> []"
  using assms length_pending [OF assms(1)] by auto

lemma erase_shrinks: "n > 0 \<Longrightarrow> buf_size p > 0 \<Longrightarrow> buf_size (buf_erase n p) < buf_size p"
  by (simp add: buf_size_def buf_erase_def)

lemma progress_preamble:
  assumes "buf_ok p" "mp_boundary p = b" "mp_state p = 0" "buf_size p > 0" "list_all (part_ok b) ps" "ps \<noteq> []"
    "out = map part_out ps" "pending p @ unread = ''--'' @ b @ tail_text b ps"
  shows "stops b out unread p [] \<or> moves b out unread p []"
proof -
  obtain ls f c ps' where ps: "ps = (ls, f, c) # ps'" using assms(6) by (metis neq_Nil_conv prod_cases3)
  let ?d = "dash_boundary_crlf p" and ?r = "lines_text ls @ crlf @ c @ delim b @ tail_text b ps'"
  have R: "pending p @ unread = ?d @ ?r" using assms(2,8) by (simp add: ps dash_boundary_crlf_def)
  have d: "?d \<noteq> []" by (simp add: dash_boundary_crlf_def)
  have pos: "buf_find ?d p = (if length ?d \<le> buf_size p then 0 else buf_size p)"
    using buf_find_first [OF assms(1) d, of "[]" ?r unread] R by simp
  show ?thesis
  proof (cases "length ?d \<le> buf_size p")
    case True
    let ?q = "(buf_erase (length ?d) p)\<lparr>mp_state := 1\<rparr>"
    have "pending ?q @ unread = ?r" "buf_ok ?q" using pending_split [OF assms(1) R True] by simp_all
    then have "track b out unread ?q []"
      using assms(2,5,7) on_track.entry [of b ls f c ps' out "[]" "mp_is_valid p" "mp_file p"] by (simp add: track_def ps)
    moreover have "parse_form p [] = parse_form ?q []"
      using True pos assms(3,4) by (subst parse_loop.simps) simp
    moreover have "loop_measure ?q < loop_measure p"
      using erase_shrinks [of "length ?d" p] d assms(3,4) by (simp add: loop_measure_def)
    ultimately show ?thesis unfolding moves_def by blast
  next
    case False
    have "track b out unread p []"
      using on_track.preamble [OF assms(5,6,7), of "mp_is_valid p" "mp_file p"] assms(1,2,3,8) by (simp add: track_def)
    moreover have "parse_form p [] = (True, p, [])" using False pos assms(3,4) by (subst parse_loop.simps) simp
    moreover have "unread \<noteq> []" using unread_nonempty [OF assms(1) R] False by simp
    ultimately show ?thesis using stops_here by blast
  qed
qed

lemma progress_entry:
  assumes "buf_ok p" "mp_boundary p = b" "mp_state p = 1" "buf_size p > 0" "list_all (part_ok b) ((ls, f, c) # ps)"
    "out = u @ map part_out ((ls, f, c) # ps)" "pending p @ unread = lines_text ls @ crlf @ c @ delim b @ tail_text b ps"
  shows "moves b out unread p u"
proof -
  let ?q = "(clear_file_info p)\<lparr>mp_state := 2\<rparr>"
  have "on_track b out 2 (mp_is_valid p) empty_file (lines_text ls @ crlf @ c @ delim b @ tail_text b ps) u"
    using assms(5,6) by (intro on_track.headers [of ls _ f]) (auto simp: part_ok_def part_out_def)
  then have "track b out unread ?q u"
    using assms(1,2) by (simp add: track_def clear_file_info_def assms(7))
  moreover have "parse_form p u = parse_form ?q u" using assms(3,4) by (subst parse_loop.simps) simp
  moreover have "loop_measure ?q < loop_measure p" using assms(3) by (simp add: loop_measure_def clear_file_info_def)
  ultimately show ?thesis unfolding moves_def by blast
qed

lemma progress_headers:
  assumes "buf_ok p" "mp_boundary p = b" "mp_state p = 2" "buf_size p > 0" "list_all good_line ls"
    "part_header_lines ls (mp_file p) = Some f" "no_delim b c" "list_all (part_ok b) ps" "out = u @ (f, c) # map part_out ps"
    "pending p @ unread = lines_text ls @ crlf @ c @ delim b @ tail_text b ps"
  shows "stops b out unread p u \<or> moves b out unread p u"
proof -
  let ?R = "c @ delim b @ tail_text b ps"
  note t = part_headers_track [OF assms(5,6,1,3,10) refl, of u]
  have e: "parse_form p u = (case part_headers take_header (buf_find crlf p) p u of
      (Some r, p, u) \<Rightarrow> (r, p, u) | (None, p, u) \<Rightarrow> if mp_state p \<noteq> 3 then (True, p, u) else parse_form p u)"
    using t assms(3,4) by (subst parse_loop.simps) (simp add: Let_def)
  from t show ?thesis
  proof (elim conjE disjE exE)
    fix p' assume p': "part_headers take_header (buf_find crlf p) p u = (None, p', u @ [(f, [])])" "mp_state p' = 3" "buf_ok p'"
      "mp_boundary p' = mp_boundary p" "pending p' @ unread = ?R"
    have "on_track b out 3 (mp_is_valid p') (mp_file p') ?R (u @ [(f, [])])"
      using assms(7,8,9) by (intro on_track.content) simp_all
    then have "track b out unread p' (u @ [(f, [])])" using p' assms(2) by (simp add: track_def)
    moreover have "parse_form p u = parse_form p' (u @ [(f, [])])" using e p'(1,2) by simp
    moreover have "loop_measure p' < loop_measure p"
      using part_headers_state3 [OF p'(1,2)] assms(3) p'(2) by (simp add: loop_measure_def)
    ultimately show ?thesis unfolding moves_def by blast
  next
    fix p' ls' assume p': "part_headers take_header (buf_find crlf p) p u = (None, p', u)" "mp_state p' = 2" "buf_ok p'"
      "mp_boundary p' = mp_boundary p" "unread \<noteq> []" "list_all good_line ls'" "part_header_lines ls' (mp_file p') = Some f"
      "pending p' @ unread = lines_text ls' @ crlf @ ?R"
    have "on_track b out 2 (mp_is_valid p') (mp_file p') (lines_text ls' @ crlf @ ?R) u"
      using on_track.headers [OF p'(6,7) assms(7,8,9)] by simp
    then have "track b out unread p' u" using p' assms(2) by (simp add: track_def)
    moreover have "parse_form p u = (True, p', u)" using e p'(1,2) by simp
    ultimately show ?thesis using p'(5) unfolding stops_def by blast
  qed
qed

lemma no_delim_suffix: "no_delim b (d @ c) \<Longrightarrow> no_delim b c"
proof -
  assume a: "no_delim b (d @ c)"
  have "occurs (delim b) c j \<Longrightarrow> occurs (delim b) (d @ c) (length d + j)" for j by (simp add: occurs_def)
  then show ?thesis using a by (auto simp: no_delim_def)
qed

lemma progress_content:
  assumes "buf_ok p" "mp_boundary p = b" "mp_state p = 3" "buf_size p > 0" "CR \<notin> set b" "no_delim b c"
    "list_all (part_ok b) ps" "out = u @ (f, c0 @ c) # map part_out ps" "pending p @ unread = c @ delim b @ tail_text b ps"
  shows "stops b out unread p (u @ [(f, c0)]) \<or> moves b out unread p (u @ [(f, c0)])"
proof -
  let ?u = "u @ [(f, c0)]" and ?d = "delim b"
  have d: "crlf_dash_boundary p = ?d" "?d \<noteq> []" using assms(2) by (simp_all add: crlf_dash_boundary_def delim_def)
  have pos: "buf_find ?d p = (if length c + length ?d \<le> buf_size p then length c else buf_size p)"
    by (rule buf_find_first [OF assms(1) d(2) delim_first [OF assms(5,6)] assms(9)])
  have tr: "track b out unread p ?u"
    using on_track.content [OF assms(6,7,8), of "mp_is_valid p" "mp_file p"] assms(1,2,3,9) by (simp add: track_def)
  consider (found) "length c + length ?d \<le> buf_size p"
    | (wait) "buf_size p \<le> length ?d" "\<not> length c + length ?d \<le> buf_size p"
    | (some) "length ?d < buf_size p" "\<not> length c + length ?d \<le> buf_size p" by linarith
  then show ?thesis
  proof cases
    case found
    let ?q = "(buf_erase (length c + length ?d) p)\<lparr>mp_state := 4\<rparr>"
    have q: "pending ?q @ unread = tail_text b ps" "buf_ok ?q" "take (length c + length ?d) (pending p) = c @ ?d"
      using pending_split [OF assms(1), of unread "c @ ?d" "tail_text b ps"] assms(9) found by simp_all
    have "buf_head (length c) p = c"
      using found take_first [OF q(3)] by (simp add: buf_head_pending)
    moreover have "length c < buf_size p" using found d(2) by (cases ?d) simp_all
    ultimately have "parse_form p ?u = parse_form ?q (u @ [(f, c0 @ c)])"
      using found pos assms(3,4) d by (subst parse_loop.simps) (simp add: Let_def take_content_def)
    moreover have "track b out unread ?q (u @ [(f, c0 @ c)])"
      using on_track.boundary [OF assms(7), of out "u @ [(f, c0 @ c)]" "mp_is_valid p" "mp_file p"] q(1,2) assms(2,8)
      by (simp add: track_def)
    moreover have "loop_measure ?q < loop_measure p"
      using erase_shrinks [of "length c + length ?d" p] d(2) assms(3,4) by (simp add: loop_measure_def)
    ultimately show ?thesis unfolding moves_def by blast
  next
    case wait
    have "parse_form p ?u = (True, p, ?u)"
      using wait pos assms(3,4) d by (subst parse_loop.simps) (simp add: Let_def)
    moreover have "unread \<noteq> []" using unread_nonempty [OF assms(1,9)] wait by simp
    ultimately show ?thesis using stops_here [OF tr] by blast
  next
    case some
    let ?n = "buf_size p - length ?d"
    have n: "0 < ?n" "?n < length c" "?n \<le> buf_size p" using some by auto
    have c: "c = take ?n c @ drop ?n c" by simp
    have q: "pending (buf_erase ?n p) @ unread = drop ?n c @ ?d @ tail_text b ps" "buf_ok (buf_erase ?n p)" "take ?n (pending p) = take ?n c"
      using pending_split [OF assms(1), of unread "take ?n c" "drop ?n c @ ?d @ tail_text b ps"] assms(9) n by simp_all
    let ?u' = "u @ [(f, c0 @ take ?n c)]"
    have "parse_form p ?u = (True, buf_erase ?n p, ?u')"
      using some n pos assms(3,4) d q(3) by (subst parse_loop.simps) (simp add: Let_def take_content_def buf_head_pending)
    moreover have "out = u @ (f, (c0 @ take ?n c) @ drop ?n c) # map part_out ps" using assms(8) by simp
    then have "track b out unread (buf_erase ?n p) ?u'"
      using on_track.content [OF no_delim_suffix assms(7), of "take ?n c" "drop ?n c" out u f "c0 @ take ?n c" "mp_is_valid p" "mp_file p"]
        assms(2,3,6) c q(1,2) by (simp add: track_def)
    moreover have "unread \<noteq> []" using unread_nonempty [OF assms(1,9)] some by simp
    ultimately show ?thesis unfolding stops_def by blast
  qed
qed

lemma two_bytes_left: "t @ r = ''--'' @ crlf \<Longrightarrow> take 2 t = ''--'' \<Longrightarrow> r \<in> {crlf, [LF], []}"
  by (auto simp: append_eq_Cons_conv)

lemma progress_boundary:
  assumes "buf_ok p" "mp_boundary p = b" "mp_state p = 4" "buf_size p > 0" "list_all (part_ok b) ps" "out = u @ map part_out ps"
    "pending p @ unread = tail_text b ps"
  shows "stops b out unread p u \<or> moves b out unread p u"
proof -
  have tr: "track b out unread p u"
    using on_track.boundary [OF assms(5,6), of "mp_is_valid p" "mp_file p"] assms(1,2,3,7) by (simp add: track_def)
  have two: "2 \<le> length (tail_text b ps)" by (cases ps) auto
  show ?thesis
  proof (cases "2 \<le> buf_size p")
    case False
    then have "parse_form p u = (True, p, u)" using assms(3,4) by (subst parse_loop.simps) simp
    moreover have "unread \<noteq> []" using unread_nonempty [OF assms(1,7)] False two by simp
    ultimately show ?thesis using stops_here [OF tr] by blast
  next
    case True
    show ?thesis
    proof (cases ps)
      case Nil
      have r: "pending p @ unread = ''--'' @ crlf" using assms(7) Nil by simp
      have p: "take 2 (pending p) = ''--''" "prefix ''--'' (pending p)"
        using pending_split [OF assms(1) r] True by (auto simp: numeral_2_eq_2 intro: prefixI) (metis take_is_prefix)
      then have np: "\<not> prefix crlf (pending p)" by (auto simp: prefix_def)
      let ?q = "(buf_erase 2 p)\<lparr>mp_is_valid := True\<rparr>" let ?e = "buf_erase (buf_size ?q) ?q"
      have "parse_form p u = parse_form ?e u"
        using True assms(1,3,4) p(2) np by (subst parse_loop.simps) (simp add: buf_start_with_pending Let_def)
      moreover have "pending ?e = []" "buf_ok ?e" "buf_size ?e = 0"
        using assms(1) True by (auto simp: pending_def buf_erase_def buf_size_def buf_ok_def)
      moreover have "unread \<in> {crlf, [LF], []}" using two_bytes_left [OF r p(1)] .
      moreover have "mp_state ?e = 4" "mp_is_valid ?e" "mp_boundary ?e = b" "out = u" using assms(2,3,6) Nil by simp_all
      ultimately have "track b out unread ?e u" "parse_form p u = parse_form ?e u"
        using on_track.epilogue [of unread b out "mp_file ?e"] by (simp_all add: track_def)
      moreover have "loop_measure ?e < loop_measure p" using \<open>buf_size ?e = 0\<close> assms(3,4) by (simp add: loop_measure_def)
      ultimately show ?thesis unfolding moves_def by blast
    next
      case (Cons part ps')
      obtain ls f c where part: "part = (ls, f, c)" by (cases part)
      let ?r = "lines_text ls @ crlf @ c @ delim b @ tail_text b ps'" let ?q = "(buf_erase 2 p)\<lparr>mp_state := 1\<rparr>"
      have r: "pending p @ unread = crlf @ ?r" using assms(7) Cons part by simp
      have q: "pending ?q @ unread = ?r" "buf_ok ?q" "prefix crlf (pending p)"
        using pending_split [OF assms(1) r] True by (simp_all add: numeral_2_eq_2) (metis take_is_prefix)
      have "parse_form p u = parse_form ?q u"
        using True assms(1,3,4) q(3) by (subst parse_loop.simps) (simp add: buf_start_with_pending numeral_2_eq_2)
      moreover have "track b out unread ?q u"
        using on_track.entry [of b ls f c ps' out u "mp_is_valid p" "mp_file p"] assms(2,5,6) q(1,2) Cons part
        by (simp add: track_def)
      moreover have "loop_measure ?q < loop_measure p"
        using erase_shrinks [of 2 p] assms(3,4) by (simp add: loop_measure_def)
      ultimately show ?thesis unfolding moves_def by blast
    qed
  qed
qed

lemma progress_epilogue:
  assumes "buf_ok p" "mp_boundary p = b" "mp_state p = 4" "mp_is_valid p" "buf_size p > 0" "pending p @ unread \<in> {crlf, [LF], []}"
  shows "stops b out unread p out \<or> moves b out unread p out"
proof (cases "2 \<le> buf_size p")
  case False
  have "track b out unread p out"
    using on_track.epilogue [OF assms(6), of b out "mp_file p"] assms(1-4) by (simp add: track_def)
  moreover have "parse_form p out = (True, p, out)" using False assms(3,5) by (subst parse_loop.simps) simp
  ultimately show ?thesis using stops_here assms(4) by blast
next
  case True
  have "length (pending p) + length unread \<le> 2" using assms(6) by (auto simp flip: length_append)
  moreover have "2 \<le> length (pending p)" using True length_pending [OF assms(1)] by simp
  ultimately have "unread = []" "pending p = crlf" using assms(6) by (auto simp: append_eq_Cons_conv)
  let ?q = "(buf_erase 2 p)\<lparr>mp_state := 1\<rparr>"
  have q: "pending ?q = []" "buf_ok ?q"
    using pending_erase [OF True assms(1)] \<open>pending p = crlf\<close> by simp_all
  have "parse_form p out = parse_form ?q out"
    using True assms(1,3,5) \<open>pending p = crlf\<close> by (subst parse_loop.simps) (simp add: buf_start_with_pending numeral_2_eq_2)
  moreover have "track b out unread ?q out"
    using q \<open>unread = []\<close> assms(2,4) on_track.finished [of b out "mp_file p"] by (simp add: track_def)
  moreover have "loop_measure ?q < loop_measure p" using erase_shrinks [of 2 p] assms(3,5) by (simp add: loop_measure_def)
  ultimately show ?thesis unfolding moves_def by blast
qed

lemma progress:
  assumes "track b out unread p u" "CR \<notin> set b"
  shows "stops b out unread p u \<or> moves b out unread p u"
proof (cases "buf_size p = 0")
  case True
  then show ?thesis using stops_empty [OF assms(1)] by blast
next
  case False
  then have s: "buf_size p > 0" by simp
  have ok: "buf_ok p" "mp_boundary p = b"
    and t: "on_track b out (mp_state p) (mp_is_valid p) (mp_file p) (pending p @ unread) u"
    using assms(1) by (simp_all add: track_def)
  from t show ?thesis
  proof cases
    case (preamble ps)
    then show ?thesis using progress_preamble [OF ok _ s] by simp
  next
    case (entry ls f' c ps)
    then show ?thesis using progress_entry [OF ok _ s] by simp
  next
    case (headers ls f' c ps)
    then show ?thesis using progress_headers [OF ok _ s] by simp
  next
    case (content c ps u' f' c0)
    then show ?thesis using progress_content [OF ok _ s assms(2)] by simp
  next
    case (boundary ps)
    then show ?thesis using progress_boundary [OF ok _ s] by simp
  next
    case epilogue
    then show ?thesis using progress_epilogue [OF ok _ _ s, of unread out] by simp
  next
    case finished
    then show ?thesis using s ok length_pending [OF ok(1)] by simp
  qed
qed

lemma parse_form_stops:
  assumes "track b out unread p u" "CR \<notin> set b"
  shows "stops b out unread p u"
  using assms(1)
proof (induction "loop_measure p" arbitrary: p u rule: less_induct)
  case less
  from progress [OF less.prems assms(2)] show ?case
  proof
    assume "moves b out unread p u"
    then obtain q u' where q: "parse_form p u = parse_form q u'" "loop_measure q < loop_measure p" "track b out unread q u'"
      by (auto simp: moves_def)
    then show ?thesis using less.hyps by (simp add: stops_def)
  qed
qed

text \<open>Feeding a text in portions.\<close>

fun feed :: "bytes list \<Rightarrow> MultipartParser \<Rightarrow> (MultipartFormData \<times> bytes) list \<Rightarrow> bool \<times> MultipartParser \<times> (MultipartFormData \<times> bytes) list" where
  "feed [] p u = (True, p, u)"
| "feed (d # ds) p u =
     (case multipart_parse take_content take_header d p u of (ok, p, u) \<Rightarrow> if ok then feed ds p u else (False, p, u))"

lemma track_append: "track b out (d @ unread) p u \<Longrightarrow> track b out unread (buf_append d p) u"
  using pending_append [of p d] by (auto simp: track_def)

lemma feed_track:
  assumes "track b out (concat ds) p u" "CR \<notin> set b"
  shows "\<exists>p' u'. feed ds p u = (True, p', u') \<and> track b out [] p' u' \<and> (ds \<noteq> [] \<longrightarrow> mp_is_valid p' \<and> u' = out)"
  using assms(1)
proof (induction ds arbitrary: p u)
  case (Cons d ds)
  have "track b out (concat ds) (buf_append d p) u" using Cons.prems by (intro track_append) simp
  from parse_form_stops [OF this assms(2)] obtain p1 u1 where
    p1: "parse_form (buf_append d p) u = (True, p1, u1)" "track b out (concat ds) p1 u1" "concat ds = [] \<longrightarrow> mp_is_valid p1 \<and> u1 = out"
    by (auto simp: stops_def)
  then have f: "feed (d # ds) p u = feed ds p1 u1" by (simp add: multipart_parse_def)
  show ?case
  proof (cases ds)
    case Nil
    then show ?thesis using p1 f by simp
  next
    case (Cons d' ds')
    then show ?thesis using Cons.IH [OF p1(2)] f by simp
  qed
qed simp

subsection \<open>From the items of a form to its parts\<close>

definition dq :: "string \<Rightarrow> string" where
  "dq s = [DQ] @ s @ [DQ]"

definition disposition_value :: "MultipartFormDataForClientInput \<Rightarrow> string" where
  "disposition_value item = ''name='' @ dq (fi_name item) @
     (if fi_filename item \<noteq> [] then ''; filename='' @ dq (fi_filename item) else [])"

definition item_lines :: "MultipartFormDataForClientInput \<Rightarrow> string list" where
  "item_lines item = (''Content-Disposition: form-data; '' @ disposition_value item) #
     (if fi_content_type item \<noteq> [] then [''Content-Type: '' @ fi_content_type item] else [])"

text \<open>What can stand between the quotes, and which items a form can carry.\<close>

definition quotable :: "string \<Rightarrow> bool" where
  "quotable s \<longleftrightarrow> (\<forall>c \<in> set s. (is_field_vchar c \<or> is_space_or_tab c) \<and> c \<noteq> CHR '';'' \<and> c \<noteq> CHR ''='')"

definition item_ok :: "string \<Rightarrow> MultipartFormDataForClientInput \<Rightarrow> bool" where
  "item_ok b item \<longleftrightarrow> quotable (fi_name item) \<and> quotable (fi_filename item) \<and> is_field_value (fi_content_type item) \<and>
     list_all (\<lambda>l. length l < HEADER_MAX_LENGTH) (item_lines item) \<and> no_delim b (fi_content item)"

lemma quotable_dq: "quotable s \<Longrightarrow> CHR '';'' \<notin> set (dq s) \<and> CHR ''='' \<notin> set (dq s)"
  by (auto simp: quotable_def dq_def)

lemma strip_dq: "strip (w @ dq s) = w @ dq s" if "w \<noteq> []" "\<not> is_space_or_tab (hd w)" for w
  using that by (intro strip_id) (auto simp: dq_def is_space_or_tab_def)

lemma strip_dq_blank: "strip (SP # w @ dq s) = w @ dq s" if "w \<noteq> []" "\<not> is_space_or_tab (hd w)" for w
  using strip_middle [of "[SP]" "[]" "w @ dq s"] that by (simp add: dq_def is_space_or_tab_def)

lemma split_pair:
  assumes "quotable s" "k \<noteq> []" "list_all isalpha k"
  shows "split_at (k @ ''='' @ dq s) CHR ''='' = [k, dq s]"
proof -
  have "\<forall>c \<in> set k. c \<noteq> CHR ''='' \<and> \<not> is_space_or_tab c"
    using assms(3) by (auto simp: list_all_iff isalpha_def byte_def is_space_or_tab_def)
  then have k: "CHR ''='' \<notin> set k" "\<not> is_space_or_tab (hd k)" "\<not> is_space_or_tab (last k)"
    using assms(2) by auto
  have "fields_of CHR ''='' (k @ ''='' @ dq s) = [k, dq s]"
    using fields_of_append_delim [OF k(1), of "dq s"] fields_of_no_delim quotable_dq [OF assms(1)] by simp
  moreover have "strip k = k" using assms(2) k(2,3) by (rule strip_id)
  moreover have "strip (dq s) = dq s" by (rule strip_id) (simp_all add: dq_def is_space_or_tab_def)
  ultimately show ?thesis using assms(2) by (simp add: split_at_eq dq_def)
qed

lemma trim_dq [simp]: "trim_double_quotes_copy (dq s) = s"
  by (simp add: trim_double_quotes_copy_def dq_def substr_def)

lemma disposition_params:
  assumes "quotable (fi_name item)" "quotable (fi_filename item)"
  shows "map_of (parse_disposition_params (disposition_value item) []) k =
    (if k = ''name'' then Some (fi_name item)
     else if k = ''filename'' \<and> fi_filename item \<noteq> [] then Some (fi_filename item) else None)"
proof -
  have n: "CHR '';'' \<notin> set (''name='' @ dq (fi_name item))" using quotable_dq [OF assms(1)] by simp
  have f: "CHR '';'' \<notin> set ('' filename='' @ dq (fi_filename item))" using quotable_dq [OF assms(2)] by simp
  have s1: "strip (''name='' @ dq (fi_name item)) = ''name='' @ dq (fi_name item)"
    by (rule strip_dq) (simp_all add: is_space_or_tab_def)
  have s2: "strip ('' filename='' @ dq (fi_filename item)) = ''filename='' @ dq (fi_filename item)"
    using strip_dq_blank [of "''filename=''" "fi_filename item"] by (simp add: is_space_or_tab_def)
  have p1: "split_at (''name='' @ dq (fi_name item)) CHR ''='' = [''name'', dq (fi_name item)]"
    using split_pair [OF assms(1), of "''name''"] by (simp add: isalpha_def byte_def)
  have p2: "split_at (''filename='' @ dq (fi_filename item)) CHR ''='' = [''filename'', dq (fi_filename item)]"
    using split_pair [OF assms(2), of "''filename''"] by (simp add: isalpha_def byte_def)
  show ?thesis
  proof (cases "fi_filename item = []")
    case True
    then have "split_at (disposition_value item) CHR '';'' = [''name='' @ dq (fi_name item)]"
      using fields_of_no_delim [OF n] s1 by (simp add: disposition_value_def split_at_eq)
    then show ?thesis using True p1
      by (simp add: parse_disposition_params_def assign_parts_def params_emplace_def trim_double_quotes_copy_def [of "''name''"])
  next
    case False
    then have "split_at (disposition_value item) CHR '';'' = [''name='' @ dq (fi_name item), ''filename='' @ dq (fi_filename item)]"
      using fields_of_append_delim [OF n] fields_of_no_delim [OF f] s1 s2 by (simp add: disposition_value_def split_at_eq)
    then show ?thesis using False p1 p2
      by (simp add: parse_disposition_params_def assign_parts_def params_emplace_def trim_double_quotes_copy_def [of "''name''"]
          trim_double_quotes_copy_def [of "''filename''"])
  qed
qed
lemma is_field_valueI:
  assumes "is_field_vchar a" "\<forall>c \<in> set m. is_field_vchar c \<or> is_space_or_tab c" "is_field_vchar z"
  shows "is_field_value (a # m @ [z])"
proof -
  have t: "is_field_content_tail (m @ [z])" using assms(2,3)
  proof (induction m)
    case (Cons c m)
    then have "is_field_content_tail (m @ [z])" by simp
    then show ?case using Cons.prems(1) by (cases "m @ [z]") (auto simp: is_space_or_tab_def)
  qed simp
  then show ?thesis using assms(1,3) by (cases m) (auto simp: is_field_value_def is_field_content_def split: list.split)
qed

definition field_char :: "char \<Rightarrow> bool" where
  "field_char c \<longleftrightarrow> is_field_vchar c \<or> is_space_or_tab c"

lemma disposition_value_field:
  assumes "quotable (fi_name item)" "quotable (fi_filename item)"
  shows "is_field_value (''form-data; '' @ disposition_value item)"
proof -
  have v: "is_field_vchar CHR ''f''" "is_field_vchar DQ" by (simp_all add: is_field_vchar_def is_vchar_def byte_def)
  have lit: "list_all field_char (''orm-data; name='' @ [DQ])" "list_all field_char ([DQ] @ ''; filename='' @ [DQ])" by code_simp+
  have q: "list_all field_char (fi_name item)" "list_all field_char (fi_filename item)"
    using assms by (auto simp: quotable_def field_char_def list_all_iff)
  define m where "m = (''orm-data; name='' @ [DQ]) @ fi_name item @
    (if fi_filename item \<noteq> [] then ([DQ] @ ''; filename='' @ [DQ]) @ fi_filename item else [])"
  have "list_all field_char m" unfolding m_def list_all_append using lit q by (cases "fi_filename item = []") simp_all
  then have "\<forall>c \<in> set m. is_field_vchar c \<or> is_space_or_tab c" by (simp add: list_all_iff field_char_def)
  moreover have "''form-data; '' @ disposition_value item = CHR ''f'' # m @ [DQ]" by (simp add: disposition_value_def m_def dq_def)
  ultimately show ?thesis using is_field_valueI [OF v(1) _ v(2)] by simp
qed

lemma match_disposition:
  assumes "quotable (fi_name item)" "quotable (fi_filename item)"
  shows "match_content_disposition (''Content-Disposition: form-data; '' @ disposition_value item) = Some (disposition_value item)"
proof -
  have "CR \<notin> set (disposition_value item)" "LF \<notin> set (disposition_value item)"
    using field_value_facts(3,4) [OF disposition_value_field [OF assms]] by simp_all
  moreover have "dropWhile is_regex_space (disposition_value item) = disposition_value item"
    by (simp add: disposition_value_def is_regex_space_def byte_def)
  ultimately show ?thesis
    by (simp add: match_content_disposition_def numeral_eq_Suc is_regex_space_def byte_def equal_ci_iff)
qed

definition item_file :: "MultipartFormDataForClientInput \<Rightarrow> MultipartFormData" where
  "item_file item = the (part_header_lines (item_lines item) empty_file)"

lemma item_headers:
  assumes "quotable (fi_name item)" "quotable (fi_filename item)" "is_field_value (fi_content_type item)"
  shows "\<exists>f. part_header_lines (item_lines item) empty_file = Some f \<and>
    md_name f = fi_name item \<and> md_filename f = fi_filename item \<and> md_content_type f = fi_content_type item"
proof -
  let ?l = "''Content-Disposition: form-data; '' @ disposition_value item"
  have n: "is_field_name ''Content-Disposition''" "is_field_name ''Content-Type''" by code_simp+
  obtain v where v: "parse_header ?l = Some (''Content-Disposition'', v)"
    using parse_header_value [OF n(1) disposition_value_field [OF assms(1,2)]] by simp
  have ns: "\<not> start_with_case_ignore ?l ''Content-Type:''"
    by (simp add: start_with_case_ignore_def numeral_eq_Suc to_lower_conv lower_nat_def byte_def)
  define f1 where "f1 = empty_file\<lparr>md_headers := [(''Content-Disposition'', v)], md_name := fi_name item, md_filename := fi_filename item\<rparr>"
  have p1: "part_header ?l empty_file = (True, f1)"
    using v ns match_disposition [OF assms(1,2)] disposition_params [OF assms(1,2)]
    by (simp add: part_header_def disposition_header_def headers_emplace_def empty_file_def f1_def)
  show ?thesis
  proof (cases "fi_content_type item = []")
    case True
    then show ?thesis using p1 by (simp add: item_lines_def f1_def empty_file_def)
  next
    case False
    let ?c = "''Content-Type: '' @ fi_content_type item"
    obtain w where w: "parse_header ?c = Some (''Content-Type'', w)"
      using parse_header_value [OF n(2) assms(3)] by simp
    have "start_with_case_ignore ?c ''Content-Type:''" by (simp add: start_with_case_ignore_def numeral_eq_Suc)
    moreover have "trim_copy (drop 13 ?c) = fi_content_type item"
      using strip_middle [of "[SP]" "[]" "fi_content_type item"] field_value_facts [OF assms(3) False] False
      by (simp add: trim_copy_eq is_space_or_tab_def)
    ultimately have "\<exists>f. part_header ?c f1 = (True, f) \<and> md_name f = fi_name item \<and> md_filename f = fi_filename item \<and>
        md_content_type f = fi_content_type item"
      using w by (simp add: part_header_def f1_def)
    then show ?thesis using p1 False by (auto simp: item_lines_def)
  qed
qed


definition item_part :: "MultipartFormDataForClientInput \<Rightarrow> part" where
  "item_part item = (item_lines item, item_file item, fi_content item)"

definition item_values :: "MultipartFormDataForClientInput \<Rightarrow> string \<times> string \<times> string \<times> bytes" where
  "item_values item = (fi_name item, fi_filename item, fi_content_type item, fi_content item)"

definition received_values :: "MultipartFormData \<times> bytes \<Rightarrow> string \<times> string \<times> string \<times> bytes" where
  "received_values = (\<lambda>(f, c). (md_name f, md_filename f, md_content_type f, c))"

lemma item_part_out: "item_ok b item \<Longrightarrow> received_values (part_out (item_part item)) = item_values item"
  using item_headers [of item] by (auto simp: item_ok_def received_values_def part_out_def item_part_def item_file_def item_values_def)

lemma item_part_ok:
  assumes "item_ok b item"
  shows "part_ok b (item_part item)"
proof -
  have i: "quotable (fi_name item)" "quotable (fi_filename item)" "is_field_value (fi_content_type item)"
    "list_all (\<lambda>l. length l < HEADER_MAX_LENGTH) (item_lines item)" "no_delim b (fi_content item)"
    using assms by (simp_all add: item_ok_def)
  obtain f where f: "part_header_lines (item_lines item) empty_file = Some f" using item_headers [OF i(1-3)] by blast
  have "CR \<notin> set (''form-data; '' @ disposition_value item)" using field_value_facts(4) [OF disposition_value_field [OF i(1,2)]] by simp
  moreover have "CR \<notin> set (fi_content_type item)" using field_value_facts(4) [OF i(3)] by (cases "fi_content_type item = []") simp_all
  ultimately have "list_all good_line (item_lines item)" using i(4)
    by (cases "fi_content_type item = []") (simp_all add: item_lines_def good_line_def)
  then show ?thesis using f i(5) by (simp add: part_ok_def item_part_def item_file_def)
qed

lemma serialize_items:
  "serialize_multipart_items items b @ ''--'' @ b @ ''--'' @ crlf = ''--'' @ b @ tail_text b (map item_part items)"
  by (induction items)
    (simp_all add: item_part_def serialize_multipart_formdata_item_begin_def serialize_multipart_formdata_item_end_def
      item_lines_def disposition_value_def dq_def delim_def)

lemma boundary_no_CR: "is_multipart_boundary_chars_valid b \<Longrightarrow> CR \<notin> set b"
  by (auto simp: is_multipart_boundary_chars_valid_def list_all_iff isalnum_def isalpha_def isdigit_def byte_def)

section \<open>Properties\<close>

text \<open>C26 (multipart_roundtrip): a form written by \<open>serialize_multipart_formdata\<close> is read back by
  \<open>MultipartFormDataParser\<close> as the same items, names, file names, types and contents, in order, whatever
  portions the text is fed in: the parser never needs a line, a delimiter or a content to arrive in one
  piece. No content holds the delimiter, and names are free of \<open>;\<close> and \<open>=\<close>, on which the parser splits even
  between quotes.\<close>

theorem multipart_roundtrip:
  assumes "items \<noteq> []" "is_multipart_boundary_chars_valid boundary" "list_all (item_ok boundary) items"
    "concat portions = serialize_multipart_formdata items boundary True"
  shows "\<exists>p u. feed portions (set_boundary boundary new_MultipartParser) [] = (True, p, u) \<and> mp_is_valid p \<and>
    map received_values u = map item_values items"
proof -
  let ?ps = "map item_part items" and ?p = "set_boundary boundary new_MultipartParser"
  have ok: "list_all (part_ok boundary) ?ps" using assms(3) item_part_ok by (auto simp: list_all_iff)
  have t: "concat portions = ''--'' @ boundary @ tail_text boundary ?ps"
    using assms(4) serialize_items [of items boundary]
    by (simp add: serialize_multipart_formdata_def serialize_multipart_formdata_finish_def)
  have "track boundary (map part_out ?ps) (concat portions) ?p []"
    using on_track.preamble [OF ok _ refl] assms(1)
    by (simp add: track_def t set_boundary_def new_MultipartParser_def pending_def buf_size_def buf_ok_def)
  from feed_track [OF this boundary_no_CR [OF assms(2)]] t
  obtain p where "feed portions ?p [] = (True, p, map part_out ?ps)" "mp_is_valid p" by (cases portions) auto
  moreover have "map received_values (map part_out ?ps) = map item_values items"
    using assms(3) item_part_out by (auto simp: list_all_iff)
  ultimately show ?thesis by blast
qed

definition example_items :: "MultipartFormDataForClientInput list" where
  "example_items = [\<lparr>fi_name = ''a'', fi_content = ''x'' @ crlf @ ''y'', fi_filename = ''f.txt'', fi_content_type = ''text/plain''\<rparr>,
     \<lparr>fi_name = ''b'', fi_content = [], fi_filename = [], fi_content_type = []\<rparr>]"

theorem multipart_roundtrip_witness:
  "\<exists>p u. feed (map (\<lambda>c. [c]) (serialize_multipart_formdata example_items ''B'' True)) (set_boundary ''B'' new_MultipartParser) [] =
      (True, p, u) \<and> mp_is_valid p \<and> map received_values u = map item_values example_items"
proof (rule multipart_roundtrip)
  have "no_delim ''B'' (''x'' @ crlf @ ''y'')" "no_delim ''B'' []"
    using occurs_length [of "delim ''B''"] by (auto simp: no_delim_def delim_def dest!: occurs_length)
  then show "list_all (item_ok ''B'') example_items"
    by (simp add: example_items_def item_ok_def quotable_def is_field_value_def is_field_content_def is_field_vchar_def is_vchar_def
        byte_def item_lines_def disposition_value_def dq_def HEADER_MAX_LENGTH_def)
qed (simp_all add: example_items_def is_multipart_boundary_chars_valid_def isalnum_def isalpha_def byte_def)


end
