(* ===== verification/Http_Methods.thy ===== *)
theory Http_Methods
  imports Http_Client Http_Multipart
begin

text \<open>
  The requests with a body of \<open>ClientImpl\<close> (\<^verbatim>\<open>src/CPPTools/include/httplib.h\<close>): \<open>Post\<close>, \<open>Put\<close>, \<open>Patch\<close>,
  \<open>Delete\<close> and \<open>Options\<close> with the overloads that differ in more than an empty \<open>Headers\<close> argument, the content
  provider of a multipart form, and \<open>stop\<close>. The build has no zlib, so no request is compressed.

  On a working connection a body is proved to go out whole after the prepared head, whatever portions the
  system accepts, and the multipart provider is proved to produce the text of
  \<open>serialize_multipart_formdata\<close>.
\<close>

section \<open>Sending a body: \<open>send_with_content_provider\<close>\<close>

text \<open>\<open>content_provider(offset, sink)\<close>, and the adapter that makes a \<open>ContentProvider\<close> of it.\<close>

type_synonym 'u provider_without_length = "nat \<Rightarrow> 'u \<Rightarrow> 'u Provider"

definition ContentProviderAdapter :: "'u provider_without_length \<Rightarrow> 'u provider" where
  "ContentProviderAdapter content_provider offset len = content_provider offset"

definition set_request_content ::
  "string \<Rightarrow> nat \<Rightarrow> 'u provider option \<Rightarrow> 'u provider_without_length option \<Rightarrow> string \<Rightarrow>
     'u Request \<Rightarrow> 'u Request" where
  "set_request_content body content_length content_provider content_provider_without_length content_type req =
     (let req = (if content_type \<noteq> [] then rq_set_header ''Content-Type'' content_type req else req) in
      case content_provider of
        Some f \<Rightarrow>
          req\<lparr>rq_content_length := content_length, rq_content_provider := Some f,
              rq_is_chunked_content_provider := False\<rparr>
      | None \<Rightarrow>
          (case content_provider_without_length of
             Some g \<Rightarrow>
               rq_set_header ''Transfer-Encoding'' ''chunked''
                 (req\<lparr>rq_content_length := 0, rq_content_provider := Some (ContentProviderAdapter g),
                      rq_is_chunked_content_provider := True\<rparr>)
           | None \<Rightarrow> req\<lparr>rq_body := body\<rparr>))"

text \<open>A body given as a pointer and a length is the bytes it designates; \<open>content_length\<close> is the length that
  goes with a provider.\<close>

definition send_with_content_provider ::
  "'w World \<Rightarrow> 'u ClientImpl \<Rightarrow> string \<Rightarrow> string \<Rightarrow> Headers \<Rightarrow> string \<Rightarrow> nat \<Rightarrow> 'u provider option \<Rightarrow>
     'u provider_without_length option \<Rightarrow> string \<Rightarrow> 'u progress option \<Rightarrow> ('u, 'w) call" where
  "send_with_content_provider W cl method path headers body content_length content_provider
     content_provider_without_length content_type progress =
     send_result W cl
       (set_request_content body content_length content_provider content_provider_without_length content_type
          (new_Request\<lparr>rq_method := method, rq_headers := headers, rq_path := path, rq_upload_progress := progress\<rparr>))"

section \<open>Multipart forms with providers\<close>

text \<open>The successive outputs of the random engine are a parameter.\<close>

definition random_data :: string where
  "random_data = ''0123456789ABCDEFGHIJKLMNOPQRSTUVWXYZabcdefghijklmnopqrstuvwxyz''"

definition random_string :: "(nat \<Rightarrow> nat) \<Rightarrow> nat \<Rightarrow> string" where
  "random_string engine len = map (\<lambda>i. random_data ! (engine i mod length random_data)) [0..<len]"

definition make_multipart_data_boundary :: "(nat \<Rightarrow> nat) \<Rightarrow> string" where
  "make_multipart_data_boundary engine = ''--cpp-httplib-multipart-data-'' @ random_string engine 16"

record 'u MultipartFormDataProvider =
  mp_name :: string
  mp_provider :: "'u provider_without_length"
  mp_filename :: string
  mp_content_type :: string

text \<open>The lambda of \<open>get_multipart_content_provider\<close> keeps \<open>cur_item\<close> and \<open>cur_start\<close> between its calls; they
  stand beside the state of the application.\<close>

record 'u multipart_state =
  ms_cur_item :: nat
  ms_cur_start :: nat
  ms_app :: 'u

definition new_multipart_state :: "'u \<Rightarrow> 'u multipart_state" where
  "new_multipart_state u = \<lparr>ms_cur_item = 0, ms_cur_start = 0, ms_app = u\<rparr>"

text \<open>\<open>sink.os << text\<close> writes through \<open>sink.write\<close> and ignores its answer.\<close>

definition sink_os :: "string \<Rightarrow> 'u \<Rightarrow> ('u \<Rightarrow> 'u Provider) \<Rightarrow> 'u Provider" where
  "sink_os t u k = SinkWrite t u (\<lambda>ok u. k u)"

text \<open>A call of an item's provider with \<open>cur_sink\<close>: its \<open>write\<close> is that of the sink, its \<open>done\<close> clears
  \<open>has_data\<close>, and calling another member throws.\<close>

primrec with_cur_sink ::
  "'u Provider \<Rightarrow> bool \<Rightarrow> 'u multipart_state \<Rightarrow> (bool \<Rightarrow> bool \<Rightarrow> 'u multipart_state \<Rightarrow> 'u multipart_state Provider) \<Rightarrow>
     'u multipart_state Provider" where
  "with_cur_sink (Return b u) has_data s k = k b has_data (s\<lparr>ms_app := u\<rparr>)"
| "with_cur_sink (SinkWrite d u p) has_data s k =
     SinkWrite d (s\<lparr>ms_app := u\<rparr>) (\<lambda>ok s. with_cur_sink (p ok (ms_app s)) has_data s k)"
| "with_cur_sink (SinkIsWritable p) has_data s k = Throw Bad_function_call"
| "with_cur_sink (SinkDone p) has_data s k = with_cur_sink p False s k"
| "with_cur_sink (SinkDoneWithTrailer hs p) has_data s k = Throw Bad_function_call"
| "with_cur_sink (Throw e) has_data s k = Throw e"

definition provider_item_begin :: "'u MultipartFormDataProvider \<Rightarrow> string \<Rightarrow> string" where
  "provider_item_begin item boundary =
     serialize_multipart_formdata_item_begin
       \<lparr>fi_name = mp_name item, fi_content = [], fi_filename = mp_filename item, fi_content_type = mp_content_type item\<rparr>
       boundary"

definition provide_item ::
  "'u MultipartFormDataProvider \<Rightarrow> nat \<Rightarrow> 'u multipart_state \<Rightarrow> 'u multipart_state Provider" where
  "provide_item item offset s =
     with_cur_sink (mp_provider item (offset - ms_cur_start s) (ms_app s)) True s
       (\<lambda>ok has_data s.
          if \<not> ok then Return False s
          else if \<not> has_data then
            sink_os serialize_multipart_formdata_item_end s
              (\<lambda>s. Return True (s\<lparr>ms_cur_item := ms_cur_item s + 1, ms_cur_start := 0\<rparr>))
          else Return True s)"

definition get_multipart_content_provider ::
  "string \<Rightarrow> MultipartFormDataForClientInput list \<Rightarrow> 'u MultipartFormDataProvider list \<Rightarrow>
     'u multipart_state provider_without_length" where
  "get_multipart_content_provider boundary items provider_items offset s =
     (if offset = 0 \<and> items \<noteq> [] then
        sink_os (serialize_multipart_formdata items boundary False) s (Return True)
      else if ms_cur_item s < length provider_items then
        let item = provider_items ! ms_cur_item s in
        if ms_cur_start s = 0 then
          let begin_text = provider_item_begin item boundary; offset = offset + length begin_text in
          sink_os begin_text (s\<lparr>ms_cur_start := offset\<rparr>) (provide_item item offset)
        else provide_item item offset s
      else sink_os (serialize_multipart_formdata_finish boundary) s (\<lambda>s. SinkDone (Return True s)))"

section \<open>\<open>Post\<close>, \<open>Put\<close> and \<open>Patch\<close>\<close>

text \<open>Overloads without \<open>Headers\<close> call the one with an empty \<open>Headers\<close>. A boundary that is not given is made with
  the random engine.\<close>

definition Post_body ::
  "'w World \<Rightarrow> 'u ClientImpl \<Rightarrow> string \<Rightarrow> Headers \<Rightarrow> string \<Rightarrow> string \<Rightarrow> 'u progress option \<Rightarrow> ('u, 'w) call" where
  "Post_body W cl path headers body content_type progress =
     send_with_content_provider W cl ''POST'' path headers body 0 None None content_type progress"

definition Post_provider ::
  "'w World \<Rightarrow> 'u ClientImpl \<Rightarrow> string \<Rightarrow> Headers \<Rightarrow> nat \<Rightarrow> 'u provider \<Rightarrow> string \<Rightarrow> 'u progress option \<Rightarrow> ('u, 'w) call" where
  "Post_provider W cl path headers content_length content_provider content_type progress =
     send_with_content_provider W cl ''POST'' path headers [] content_length (Some content_provider) None
       content_type progress"

definition Post_provider_without_length ::
  "'w World \<Rightarrow> 'u ClientImpl \<Rightarrow> string \<Rightarrow> Headers \<Rightarrow> 'u provider_without_length \<Rightarrow> string \<Rightarrow> 'u progress option \<Rightarrow> ('u, 'w) call" where
  "Post_provider_without_length W cl path headers content_provider content_type progress =
     send_with_content_provider W cl ''POST'' path headers [] 0 None (Some content_provider) content_type progress"

definition Post :: "'w World \<Rightarrow> 'u ClientImpl \<Rightarrow> string \<Rightarrow> ('u, 'w) call" where
  "Post W cl path = Post_body W cl path [] [] [] None"

definition Post_headers :: "'w World \<Rightarrow> 'u ClientImpl \<Rightarrow> string \<Rightarrow> Headers \<Rightarrow> ('u, 'w) call" where
  "Post_headers W cl path headers = Post_body W cl path headers [] [] None"

definition Post_params :: "'w World \<Rightarrow> 'u ClientImpl \<Rightarrow> string \<Rightarrow> Headers \<Rightarrow> Params \<Rightarrow> ('u, 'w) call" where
  "Post_params W cl path headers params =
     Post_body W cl path headers (params_to_query_str params) ''application/x-www-form-urlencoded'' None"

definition Post_items ::
  "'w World \<Rightarrow> 'u ClientImpl \<Rightarrow> string \<Rightarrow> Headers \<Rightarrow> MultipartFormDataForClientInput list \<Rightarrow> (nat \<Rightarrow> nat) \<Rightarrow> 'u progress option \<Rightarrow> ('u, 'w) call" where
  "Post_items W cl path headers items engine progress =
     (let boundary = make_multipart_data_boundary engine;
          content_type = serialize_multipart_formdata_get_content_type boundary;
          body = serialize_multipart_formdata items boundary True
      in Post_body W cl path headers body content_type progress)"

definition Post_items_boundary ::
  "'w World \<Rightarrow> 'u ClientImpl \<Rightarrow> string \<Rightarrow> Headers \<Rightarrow> MultipartFormDataForClientInput list \<Rightarrow> string \<Rightarrow> 'u progress option \<Rightarrow> ('u, 'w) call" where
  "Post_items_boundary W cl path headers items boundary progress w u =
     (if \<not> is_multipart_boundary_chars_valid boundary
      then Some (Inr (\<lparr>rt_res = None, rt_err = UnsupportedMultipartBoundaryChars, rt_request_headers = []\<rparr>, cl, w, u))
      else
        let content_type = serialize_multipart_formdata_get_content_type boundary;
            body = serialize_multipart_formdata items boundary True
        in Post_body W cl path headers body content_type progress w u)"

definition Post_provider_items ::
  "'w World \<Rightarrow> 'u multipart_state ClientImpl \<Rightarrow> string \<Rightarrow> Headers \<Rightarrow> MultipartFormDataForClientInput list \<Rightarrow>
     'u MultipartFormDataProvider list \<Rightarrow> (nat \<Rightarrow> nat) \<Rightarrow> 'u multipart_state progress option \<Rightarrow> 'w \<Rightarrow> 'u \<Rightarrow>
     (exn + Result \<times> 'u multipart_state ClientImpl \<times> 'w \<times> 'u multipart_state) option" where
  "Post_provider_items W cl path headers items provider_items engine progress w u =
     (let boundary = make_multipart_data_boundary engine;
          content_type = serialize_multipart_formdata_get_content_type boundary
      in send_with_content_provider W cl ''POST'' path headers [] 0 None
           (Some (get_multipart_content_provider boundary items provider_items)) content_type progress
           w (new_multipart_state u))"

definition Put_body ::
  "'w World \<Rightarrow> 'u ClientImpl \<Rightarrow> string \<Rightarrow> Headers \<Rightarrow> string \<Rightarrow> string \<Rightarrow> 'u progress option \<Rightarrow> ('u, 'w) call" where
  "Put_body W cl path headers body content_type progress =
     send_with_content_provider W cl ''PUT'' path headers body 0 None None content_type progress"

definition Put_provider ::
  "'w World \<Rightarrow> 'u ClientImpl \<Rightarrow> string \<Rightarrow> Headers \<Rightarrow> nat \<Rightarrow> 'u provider \<Rightarrow> string \<Rightarrow> 'u progress option \<Rightarrow> ('u, 'w) call" where
  "Put_provider W cl path headers content_length content_provider content_type progress =
     send_with_content_provider W cl ''PUT'' path headers [] content_length (Some content_provider) None
       content_type progress"

definition Put_provider_without_length ::
  "'w World \<Rightarrow> 'u ClientImpl \<Rightarrow> string \<Rightarrow> Headers \<Rightarrow> 'u provider_without_length \<Rightarrow> string \<Rightarrow> 'u progress option \<Rightarrow> ('u, 'w) call" where
  "Put_provider_without_length W cl path headers content_provider content_type progress =
     send_with_content_provider W cl ''PUT'' path headers [] 0 None (Some content_provider) content_type progress"

definition Put :: "'w World \<Rightarrow> 'u ClientImpl \<Rightarrow> string \<Rightarrow> ('u, 'w) call" where
  "Put W cl path = Put_body W cl path [] [] [] None"

definition Put_headers :: "'w World \<Rightarrow> 'u ClientImpl \<Rightarrow> string \<Rightarrow> Headers \<Rightarrow> ('u, 'w) call" where
  "Put_headers W cl path headers = Put_body W cl path headers [] [] None"

definition Put_params :: "'w World \<Rightarrow> 'u ClientImpl \<Rightarrow> string \<Rightarrow> Headers \<Rightarrow> Params \<Rightarrow> ('u, 'w) call" where
  "Put_params W cl path headers params =
     Put_body W cl path headers (params_to_query_str params) ''application/x-www-form-urlencoded'' None"

definition Put_items ::
  "'w World \<Rightarrow> 'u ClientImpl \<Rightarrow> string \<Rightarrow> Headers \<Rightarrow> MultipartFormDataForClientInput list \<Rightarrow> (nat \<Rightarrow> nat) \<Rightarrow> 'u progress option \<Rightarrow> ('u, 'w) call" where
  "Put_items W cl path headers items engine progress =
     (let boundary = make_multipart_data_boundary engine;
          content_type = serialize_multipart_formdata_get_content_type boundary;
          body = serialize_multipart_formdata items boundary True
      in Put_body W cl path headers body content_type progress)"

definition Put_items_boundary ::
  "'w World \<Rightarrow> 'u ClientImpl \<Rightarrow> string \<Rightarrow> Headers \<Rightarrow> MultipartFormDataForClientInput list \<Rightarrow> string \<Rightarrow> 'u progress option \<Rightarrow> ('u, 'w) call" where
  "Put_items_boundary W cl path headers items boundary progress w u =
     (if \<not> is_multipart_boundary_chars_valid boundary
      then Some (Inr (\<lparr>rt_res = None, rt_err = UnsupportedMultipartBoundaryChars, rt_request_headers = []\<rparr>, cl, w, u))
      else
        let content_type = serialize_multipart_formdata_get_content_type boundary;
            body = serialize_multipart_formdata items boundary True
        in Put_body W cl path headers body content_type progress w u)"

definition Put_provider_items ::
  "'w World \<Rightarrow> 'u multipart_state ClientImpl \<Rightarrow> string \<Rightarrow> Headers \<Rightarrow> MultipartFormDataForClientInput list \<Rightarrow>
     'u MultipartFormDataProvider list \<Rightarrow> (nat \<Rightarrow> nat) \<Rightarrow> 'u multipart_state progress option \<Rightarrow> 'w \<Rightarrow> 'u \<Rightarrow>
     (exn + Result \<times> 'u multipart_state ClientImpl \<times> 'w \<times> 'u multipart_state) option" where
  "Put_provider_items W cl path headers items provider_items engine progress w u =
     (let boundary = make_multipart_data_boundary engine;
          content_type = serialize_multipart_formdata_get_content_type boundary
      in send_with_content_provider W cl ''PUT'' path headers [] 0 None
           (Some (get_multipart_content_provider boundary items provider_items)) content_type progress
           w (new_multipart_state u))"

definition Patch_body ::
  "'w World \<Rightarrow> 'u ClientImpl \<Rightarrow> string \<Rightarrow> Headers \<Rightarrow> string \<Rightarrow> string \<Rightarrow> 'u progress option \<Rightarrow> ('u, 'w) call" where
  "Patch_body W cl path headers body content_type progress =
     send_with_content_provider W cl ''PATCH'' path headers body 0 None None content_type progress"

definition Patch_provider ::
  "'w World \<Rightarrow> 'u ClientImpl \<Rightarrow> string \<Rightarrow> Headers \<Rightarrow> nat \<Rightarrow> 'u provider \<Rightarrow> string \<Rightarrow> 'u progress option \<Rightarrow> ('u, 'w) call" where
  "Patch_provider W cl path headers content_length content_provider content_type progress =
     send_with_content_provider W cl ''PATCH'' path headers [] content_length (Some content_provider) None
       content_type progress"

definition Patch_provider_without_length ::
  "'w World \<Rightarrow> 'u ClientImpl \<Rightarrow> string \<Rightarrow> Headers \<Rightarrow> 'u provider_without_length \<Rightarrow> string \<Rightarrow> 'u progress option \<Rightarrow> ('u, 'w) call" where
  "Patch_provider_without_length W cl path headers content_provider content_type progress =
     send_with_content_provider W cl ''PATCH'' path headers [] 0 None (Some content_provider) content_type progress"

definition Patch :: "'w World \<Rightarrow> 'u ClientImpl \<Rightarrow> string \<Rightarrow> ('u, 'w) call" where
  "Patch W cl path = Patch_body W cl path [] [] [] None"

definition Patch_headers :: "'w World \<Rightarrow> 'u ClientImpl \<Rightarrow> string \<Rightarrow> Headers \<Rightarrow> 'u progress option \<Rightarrow> ('u, 'w) call" where
  "Patch_headers W cl path headers progress = Patch_body W cl path headers [] [] progress"

definition Patch_params :: "'w World \<Rightarrow> 'u ClientImpl \<Rightarrow> string \<Rightarrow> Headers \<Rightarrow> Params \<Rightarrow> ('u, 'w) call" where
  "Patch_params W cl path headers params =
     Patch_body W cl path headers (params_to_query_str params) ''application/x-www-form-urlencoded'' None"

definition Patch_items ::
  "'w World \<Rightarrow> 'u ClientImpl \<Rightarrow> string \<Rightarrow> Headers \<Rightarrow> MultipartFormDataForClientInput list \<Rightarrow> (nat \<Rightarrow> nat) \<Rightarrow> 'u progress option \<Rightarrow> ('u, 'w) call" where
  "Patch_items W cl path headers items engine progress =
     (let boundary = make_multipart_data_boundary engine;
          content_type = serialize_multipart_formdata_get_content_type boundary;
          body = serialize_multipart_formdata items boundary True
      in Patch_body W cl path headers body content_type progress)"

definition Patch_items_boundary ::
  "'w World \<Rightarrow> 'u ClientImpl \<Rightarrow> string \<Rightarrow> Headers \<Rightarrow> MultipartFormDataForClientInput list \<Rightarrow> string \<Rightarrow> 'u progress option \<Rightarrow> ('u, 'w) call" where
  "Patch_items_boundary W cl path headers items boundary progress w u =
     (if \<not> is_multipart_boundary_chars_valid boundary
      then Some (Inr (\<lparr>rt_res = None, rt_err = UnsupportedMultipartBoundaryChars, rt_request_headers = []\<rparr>, cl, w, u))
      else
        let content_type = serialize_multipart_formdata_get_content_type boundary;
            body = serialize_multipart_formdata items boundary True
        in Patch_body W cl path headers body content_type progress w u)"

definition Patch_provider_items ::
  "'w World \<Rightarrow> 'u multipart_state ClientImpl \<Rightarrow> string \<Rightarrow> Headers \<Rightarrow> MultipartFormDataForClientInput list \<Rightarrow>
     'u MultipartFormDataProvider list \<Rightarrow> (nat \<Rightarrow> nat) \<Rightarrow> 'u multipart_state progress option \<Rightarrow> 'w \<Rightarrow> 'u \<Rightarrow>
     (exn + Result \<times> 'u multipart_state ClientImpl \<times> 'w \<times> 'u multipart_state) option" where
  "Patch_provider_items W cl path headers items provider_items engine progress w u =
     (let boundary = make_multipart_data_boundary engine;
          content_type = serialize_multipart_formdata_get_content_type boundary
      in send_with_content_provider W cl ''PATCH'' path headers [] 0 None
           (Some (get_multipart_content_provider boundary items provider_items)) content_type progress
           w (new_multipart_state u))"

section \<open>\<open>Delete\<close>, \<open>Options\<close> and \<open>stop\<close>\<close>

definition Delete_body ::
  "'w World \<Rightarrow> 'u ClientImpl \<Rightarrow> string \<Rightarrow> Headers \<Rightarrow> string \<Rightarrow> string \<Rightarrow> 'u progress option \<Rightarrow> ('u, 'w) call" where
  "Delete_body W cl path headers body content_type progress =
     (let req = new_Request\<lparr>rq_method := ''DELETE'', rq_headers := headers, rq_path := path,
            rq_download_progress := progress\<rparr>;
          req = (if content_type \<noteq> [] then rq_set_header ''Content-Type'' content_type req else req)
      in send_result W cl (req\<lparr>rq_body := body\<rparr>))"

definition Delete :: "'w World \<Rightarrow> 'u ClientImpl \<Rightarrow> string \<Rightarrow> Headers \<Rightarrow> 'u progress option \<Rightarrow> ('u, 'w) call" where
  "Delete W cl path headers progress = Delete_body W cl path headers [] [] progress"

definition Delete_params ::
  "'w World \<Rightarrow> 'u ClientImpl \<Rightarrow> string \<Rightarrow> Headers \<Rightarrow> Params \<Rightarrow> 'u progress option \<Rightarrow> ('u, 'w) call" where
  "Delete_params W cl path headers params progress =
     Delete_body W cl path headers (params_to_query_str params) ''application/x-www-form-urlencoded'' progress"

definition Options :: "'w World \<Rightarrow> 'u ClientImpl \<Rightarrow> string \<Rightarrow> Headers \<Rightarrow> ('u, 'w) call" where
  "Options W cl path headers =
     send_result W cl (new_Request\<lparr>rq_method := ''OPTIONS'', rq_headers := headers, rq_path := path\<rparr>)"

definition stop_client :: "'w World \<Rightarrow> 'u ClientImpl \<Rightarrow> 'w \<Rightarrow> 'u ClientImpl \<times> 'w" where
  "stop_client W cl w =
     (if cl_requests_in_flight cl > 0
      then (cl\<lparr>cl_should_be_closed := True\<rparr>,
            case cl_socket cl of None \<Rightarrow> w | Some n \<Rightarrow> w_shutdown W n w)
      else disconnect W cl w)"

section \<open>Settings\<close>

definition set_connection_timeout :: "int \<Rightarrow> int \<Rightarrow> 'u ClientImpl \<Rightarrow> 'u ClientImpl" where
  "set_connection_timeout sec usec cl = cl\<lparr>cl_connection_timeout_sec := sec, cl_connection_timeout_usec := usec\<rparr>"

definition set_read_timeout :: "int \<Rightarrow> int \<Rightarrow> 'u ClientImpl \<Rightarrow> 'u ClientImpl" where
  "set_read_timeout sec usec cl = cl\<lparr>cl_read_timeout_sec := sec, cl_read_timeout_usec := usec\<rparr>"

definition set_write_timeout :: "int \<Rightarrow> int \<Rightarrow> 'u ClientImpl \<Rightarrow> 'u ClientImpl" where
  "set_write_timeout sec usec cl = cl\<lparr>cl_write_timeout_sec := sec, cl_write_timeout_usec := usec\<rparr>"

definition set_max_timeout :: "int \<Rightarrow> 'u ClientImpl \<Rightarrow> 'u ClientImpl" where
  "set_max_timeout msec cl = cl\<lparr>cl_max_timeout_msec := msec\<rparr>"

definition set_basic_auth :: "string \<Rightarrow> string \<Rightarrow> 'u ClientImpl \<Rightarrow> 'u ClientImpl" where
  "set_basic_auth username password cl = cl\<lparr>cl_basic_auth_username := username, cl_basic_auth_password := password\<rparr>"

definition set_bearer_token_auth :: "string \<Rightarrow> 'u ClientImpl \<Rightarrow> 'u ClientImpl" where
  "set_bearer_token_auth token cl = cl\<lparr>cl_bearer_token_auth_token := token\<rparr>"

definition set_keep_alive :: "bool \<Rightarrow> 'u ClientImpl \<Rightarrow> 'u ClientImpl" where
  "set_keep_alive on cl = cl\<lparr>cl_keep_alive := on\<rparr>"

definition set_follow_location :: "bool \<Rightarrow> 'u ClientImpl \<Rightarrow> 'u ClientImpl" where
  "set_follow_location on cl = cl\<lparr>cl_follow_location := on\<rparr>"

definition set_url_encode :: "bool \<Rightarrow> 'u ClientImpl \<Rightarrow> 'u ClientImpl" where
  "set_url_encode on cl = cl\<lparr>cl_url_encode := on\<rparr>"

definition set_hostname_addr_map :: "(string \<rightharpoonup> string) \<Rightarrow> 'u ClientImpl \<Rightarrow> 'u ClientImpl" where
  "set_hostname_addr_map addr_map cl = cl\<lparr>cl_addr_map := addr_map\<rparr>"

definition set_default_headers :: "Headers \<Rightarrow> 'u ClientImpl \<Rightarrow> 'u ClientImpl" where
  "set_default_headers headers cl = cl\<lparr>cl_default_headers := headers\<rparr>"

definition set_header_writer :: "(Headers \<Rightarrow> BufferStream \<Rightarrow> BufferStream) \<Rightarrow> 'u ClientImpl \<Rightarrow> 'u ClientImpl" where
  "set_header_writer writer cl = cl\<lparr>cl_header_writer := writer\<rparr>"

definition set_address_family :: "int \<Rightarrow> 'u ClientImpl \<Rightarrow> 'u ClientImpl" where
  "set_address_family family cl = cl\<lparr>cl_address_family := family\<rparr>"

definition set_tcp_nodelay :: "bool \<Rightarrow> 'u ClientImpl \<Rightarrow> 'u ClientImpl" where
  "set_tcp_nodelay on cl = cl\<lparr>cl_tcp_nodelay := on\<rparr>"

definition set_ipv6_v6only :: "bool \<Rightarrow> 'u ClientImpl \<Rightarrow> 'u ClientImpl" where
  "set_ipv6_v6only on cl = cl\<lparr>cl_ipv6_v6only := on\<rparr>"

definition set_compress :: "bool \<Rightarrow> 'u ClientImpl \<Rightarrow> 'u ClientImpl" where
  "set_compress on cl = cl\<lparr>cl_compress := on\<rparr>"

definition set_decompress :: "bool \<Rightarrow> 'u ClientImpl \<Rightarrow> 'u ClientImpl" where
  "set_decompress on cl = cl\<lparr>cl_decompress := on\<rparr>"

definition set_interface :: "string \<Rightarrow> 'u ClientImpl \<Rightarrow> 'u ClientImpl" where
  "set_interface intf cl = cl\<lparr>cl_interface := intf\<rparr>"

definition set_proxy :: "string \<Rightarrow> int \<Rightarrow> 'u ClientImpl \<Rightarrow> 'u ClientImpl" where
  "set_proxy host port cl = cl\<lparr>cl_proxy_host := host, cl_proxy_port := port\<rparr>"

definition set_proxy_basic_auth :: "string \<Rightarrow> string \<Rightarrow> 'u ClientImpl \<Rightarrow> 'u ClientImpl" where
  "set_proxy_basic_auth username password cl = cl\<lparr>cl_proxy_basic_auth_username := username, cl_proxy_basic_auth_password := password\<rparr>"

definition set_proxy_bearer_token_auth :: "string \<Rightarrow> 'u ClientImpl \<Rightarrow> 'u ClientImpl" where
  "set_proxy_bearer_token_auth token cl = cl\<lparr>cl_proxy_bearer_token_auth_token := token\<rparr>"

definition set_logger :: "('u Request \<Rightarrow> Response \<Rightarrow> 'u \<Rightarrow> 'u) option \<Rightarrow> 'u ClientImpl \<Rightarrow> 'u ClientImpl" where
  "set_logger logger cl = cl\<lparr>cl_logger := logger\<rparr>"

section \<open>Facts: a body goes out whole\<close>

lemma prepare_headers_upload [simp]: "rq_upload_progress (prepare_headers cl cc req) = rq_upload_progress req"
  using prepare_headers_but [of req cl cc] by (auto simp: but_headers_def)

context duplex_stream
begin

lemma write_request_body:
  assumes "good s" "rq_body req \<noteq> []" "rq_upload_progress req = None"
  shows "\<exists>s'. write_request strm cl cc req error s u = Some (Inr (True, prepare_headers cl cc req, error, s', u)) \<and>
    good s' \<and> pending s' = pending s \<and> written s' = written s @ request_head cl (prepare_headers cl cc req) @ rq_body req"
proof -
  let ?req = "prepare_headers cl cc req"
  note w = writable_stream.write_data_good [OF keeps_pending [of "pending s"]]
  obtain s1 where s1: "write_data strm (request_head cl ?req) s = Some (True, s1)" "good s1" "pending s1 = pending s"
      "written s1 = written s @ request_head cl ?req"
    using w [of s "request_head cl ?req"] assms(1) by auto
  obtain s2 where s2: "write_data strm (rq_body req) s1 = Some (True, s2)" "good s2" "pending s2 = pending s"
      "written s2 = written s1 @ rq_body req"
    using w [of s1 "rq_body req"] s1 by auto
  show ?thesis using s1 s2 assms(2,3) by (simp add: write_request_def Let_def)
qed

end

text \<open>The request that an upload of a string makes, and the bytes of it.\<close>

definition upload_request :: "string \<Rightarrow> string \<Rightarrow> Headers \<Rightarrow> string \<Rightarrow> string \<Rightarrow> 'u Request" where
  "upload_request method path headers body content_type =
     set_request_content body 0 None None content_type
       (new_Request\<lparr>rq_method := method, rq_headers := headers, rq_path := path, rq_upload_progress := None\<rparr>)"

definition upload_bytes :: "'u ClientImpl \<Rightarrow> string \<Rightarrow> string \<Rightarrow> Headers \<Rightarrow> string \<Rightarrow> string \<Rightarrow> bytes" where
  "upload_bytes cl method path headers body content_type =
     request_head cl (prepare_headers cl True (upload_request method path headers body content_type)) @ body"

lemma upload_request_fields [simp]:
  "rq_method (upload_request method path headers body content_type) = method"
  "rq_path (upload_request method path headers body content_type) = path"
  "rq_body (upload_request method path headers body content_type) = body"
  "rq_upload_progress (upload_request method path headers body content_type) = None"
  "rq_response_handler (upload_request method path headers body content_type) = None"
  "rq_download_progress (upload_request method path headers body content_type) = None"
  "rq_content_receiver (upload_request method path headers body content_type) = None"
  "rq_content_provider (upload_request method path headers body content_type) = None"
  "rq_is_chunked_content_provider (upload_request method path headers body content_type) = False"
  "rq_content_length (upload_request method path headers body content_type) = 0"
  "rq_params (upload_request method path headers body content_type) = []"
  by (simp_all add: upload_request_def set_request_content_def Let_def rq_set_header_def new_Request_def)

lemma upload_ok:
  fixes cl :: "'u ClientImpl"
  assumes "os_socket (w_os W sock) up incoming outgoing" "plain_client cl" "path \<noteq> []"
    "create_client_socket W cl w = (Inr sock, w1)" "up w1"
    "incoming w1 = response_wire status reason hs wire @ rest" "valid_response status reason hs rbody wire rest"
    "method \<noteq> ''HEAD''" "method \<noteq> ''CONNECT''"
  shows "\<exists>r w2. send_with_content_provider W cl method path headers body 0 None None content_type None w u =
      Some (Inr (r, cl\<lparr>cl_should_be_closed := False\<rparr>, w_close W sock (w_shutdown W sock w2), u)) \<and>
    rt_res r = Some (the_response status reason hs rbody) \<and> rt_err r = Success \<and>
    rt_request_headers r = rq_headers (prepare_headers cl True (upload_request method path headers body content_type)) \<and>
    outgoing w2 = outgoing w1 @ upload_bytes cl method path headers body content_type"
proof -
  let ?req = "upload_request method path headers body content_type :: 'u Request"
  have d: "duplex_stream (SocketStream (w_os W sock)) (ss_good up) (ss_pending incoming) (ss_written outgoing)"
    using assms(1) by (rule os_socket.socket_stream_duplex)
  have g: "ss_good up (new_SocketStream w1)" using assms(5) by (simp add: ss_good_def new_SocketStream_def)
  have sink: "content_sink (response_receiver (prepare_headers cl True ?req) False) (\<lambda>(body, error, u) bs. (body @ bs, error, u))"
    by (rule body_sink_append) simp
  have sent: "\<exists>s1. write_request (SocketStream (w_os W sock)) (busy_client sock cl) True ?req Success (new_SocketStream w1) u =
        Some (Inr (True, prepare_headers cl True ?req, Success, s1, u)) \<and>
      ss_good up s1 \<and> ss_pending incoming s1 = ss_pending incoming (new_SocketStream w1) \<and>
      ss_written outgoing s1 = ss_written outgoing (new_SocketStream w1) @ upload_bytes cl method path headers body content_type"
  proof (cases "body = []")
    case True
    then have "bodyless ?req" by (simp add: bodyless_def)
    from duplex_stream.write_request_bodyless [OF d g this, of "busy_client sock cl" True Success u] True show ?thesis
      by (simp add: upload_bytes_def)
  next
    case False
    with duplex_stream.write_request_body [OF d g, of ?req "busy_client sock cl" True Success u] show ?thesis
      by (simp add: upload_bytes_def)
  qed
  have "\<exists>w2. send_result W cl ?req w u =
    Some (Inr (\<lparr>rt_res = Some (the_response status reason hs rbody), rt_err = Success,
        rt_request_headers = rq_headers (prepare_headers cl True ?req)\<rparr>,
      cl\<lparr>cl_should_be_closed := False\<rparr>, w_close W sock (w_shutdown W sock w2), u)) \<and>
    outgoing w2 = outgoing w1 @ upload_bytes cl method path headers body content_type"
    using assms(3,8,9) by (intro send_result_sent [OF assms(1,2,4,5,6,7) sent _ _ _ _ _ sink]) simp_all
  then show ?thesis
    unfolding send_with_content_provider_def upload_request_def by (metis Result.select_convs)
qed

section \<open>Facts: the length is declared\<close>

lemma header_values_emplace:
  "header_values (headers_emplace k v hs) key = header_values hs key @ (if equal_ci key k then [v] else [])"
  by (simp add: headers_emplace_def header_values_def)

lemma header_values_set:
  "\<not> equal_ci key k \<Longrightarrow> header_values (rq_headers (rq_set_header k v req)) key = header_values (rq_headers req) key"
  "\<not> equal_ci key k \<Longrightarrow> header_values (rq_headers (set_header_if_absent k v req)) key = header_values (rq_headers req) key"
  "\<not> equal_ci key (fst kv) \<Longrightarrow> header_values (rq_headers (insert_header_if_absent kv req)) key = header_values (rq_headers req) key"
  by (simp_all add: rq_set_header_def set_header_def set_header_if_absent_def insert_header_if_absent_def header_values_emplace)

lemma length_differs: "length a \<noteq> length b \<Longrightarrow> \<not> equal_ci a b"
  by (simp add: equal_ci_def)

lemma general_headers_length:
  "header_values (rq_headers (general_headers cl cc req)) ''Content-Length'' = header_values (rq_headers req) ''Content-Length''"
  by (simp add: general_headers_def Let_def header_values_set length_differs)

lemma auth_headers_length:
  "header_values (rq_headers (auth_headers cl req)) ''Content-Length'' = header_values (rq_headers req) ''Content-Length''"
  by (simp add: auth_headers_def Let_def header_values_set length_differs make_basic_authentication_header_def
      make_bearer_token_authentication_header_def)

lemma digits_field_value: "is_field_value (to_string_nat n)"
proof -
  have "is_field_vchar c" if "c \<in> set (to_string_nat n)" for c
    using that to_string_nat_digits [of n] by (auto simp: is_field_vchar_def is_vchar_def isdigit_def)
  then have v: "list_all is_field_vchar (to_string_nat n)" by (simp add: list_all_iff)
  have "list_all is_field_vchar s \<Longrightarrow> is_field_content_tail s" for s
    by (induction s rule: is_field_content_tail.induct) auto
  with v show ?thesis
    by (cases "to_string_nat n") (auto simp: is_field_value_def is_field_content_def split: list.splits)
qed

lemma content_length_name: "is_field_name ''Content-Length''"
  by code_simp

lemma upload_request_length:
  "header_values (rq_headers (upload_request method path headers body content_type)) ''Content-Length'' =
     header_values headers ''Content-Length''"
  by (simp add: upload_request_def set_request_content_def Let_def header_values_set length_differs new_Request_def
      rq_set_header_def set_header_def header_values_emplace)

lemma header_values_set_absent:
  "\<lbrakk>header_values (rq_headers req) k = []; is_field_name k; is_field_value v\<rbrakk> \<Longrightarrow>
     header_values (rq_headers (set_header_if_absent k v req)) k = [v]"
  by (simp add: set_header_if_absent_def rq_has_header_def has_header_def rq_set_header_def set_header_def
      header_values_emplace)

lemma prepared_length:
  assumes "\<not> has_header headers ''Content-Length''" "method \<in> {''POST'', ''PUT'', ''PATCH''} \<or> body \<noteq> []"
  shows "header_values (rq_headers (prepare_headers cl cc (upload_request method path headers body content_type)))
    ''Content-Length'' = [to_string_nat (length body)]"
proof -
  define req where "req = general_headers cl cc (upload_request method path headers body content_type)"
  have but: "but_headers (upload_request method path headers body content_type) req"
    unfolding req_def by (rule general_headers_but)
  have f: "rq_body req = body" "rq_method req = method" "rq_content_provider req = None"
    using but by (auto simp: but_headers_def)
  have none: "header_values (rq_headers req) ''Content-Length'' = []"
    unfolding req_def using assms(1) by (simp add: general_headers_length upload_request_length has_header_def)
  have zero: "to_string_nat 0 = ''0''" by code_simp
  have "header_values (rq_headers (body_headers req)) ''Content-Length'' = [to_string_nat (length body)]"
  proof (cases "body = []")
    case True
    with assms(2) f none zero digits_field_value [of 0] show ?thesis
      by (auto simp: body_headers_def rq_set_header_def set_header_def content_length_name header_values_emplace)
  next
    case False
    define req' where "req' = set_header_if_absent ''Content-Type'' ''text/plain'' req"
    have "header_values (rq_headers req') ''Content-Length'' = []"
      unfolding req'_def by (simp add: header_values_set length_differs none)
    from header_values_set_absent [OF this content_length_name digits_field_value] False f show ?thesis
      by (simp add: body_headers_def req'_def)
  qed
  then show ?thesis by (simp add: prepare_headers_def auth_headers_length req_def)
qed

section \<open>Facts: the multipart provider\<close>

text \<open>A provider call that writes the given pieces, says it is done or not, and returns true; and a sequence of
  such calls, up to the one that is done.\<close>

fun writes :: "'u Provider \<Rightarrow> bytes list \<Rightarrow> bool \<Rightarrow> 'u \<Rightarrow> bool" where
  "writes (SinkWrite d u k) (d' # ds) fin u' \<longleftrightarrow> d = d' \<and> d \<noteq> [] \<and> writes (k True u) ds fin u'"
| "writes (Return b u) [] False u' \<longleftrightarrow> b \<and> u = u'"
| "writes (SinkDone (Return b u)) [] True u' \<longleftrightarrow> b \<and> u = u'"
| "writes _ _ _ _ \<longleftrightarrow> False"

inductive plays :: "'u provider_without_length \<Rightarrow> nat \<Rightarrow> 'u \<Rightarrow> bytes list \<Rightarrow> 'u \<Rightarrow> bool" for g where
  plays_last: "writes (g off u) ds True u' \<Longrightarrow> plays g off u ds u'"
| plays_more: "\<lbrakk>writes (g off u) ds False u'; ds \<noteq> []; plays g (off + length (concat ds)) u' ds' u''\<rbrakk> \<Longrightarrow>
    plays g off u (ds @ ds') u''"

context writable_stream
begin

lemma run_sink_chunked_writes:
  "\<lbrakk>writes p ds fin u'; good (sk_strm st); sk_ok st; sk_data_available st\<rbrakk> \<Longrightarrow>
   \<exists>st'. run_sink_chunked strm p st = Some (Inr (True, u', st')) \<and> good (sk_strm st') \<and> sk_ok st' \<and>
     sk_data_available st' = (\<not> fin) \<and> (\<not> fin \<longrightarrow> sk_offset st' = sk_offset st + length (concat ds)) \<and>
     written (sk_strm st') = written (sk_strm st) @ concat (map chunk_of ds) @ (if fin then ''0'' @ crlf @ crlf else [])"
proof (induction p ds fin u' arbitrary: st rule: writes.induct)
  case (1 d u k d' ds fin u')
  from write_data_good [OF 1(3), of "chunk_of d"] obtain s where
    s: "write_data strm (chunk_of d) (sk_strm st) = Some (True, s)" "good s" "written s = written (sk_strm st) @ chunk_of d"
    by blast
  let ?st = "st\<lparr>sk_data_available := True, sk_offset := sk_offset st + length d, sk_strm := s, sk_ok := True\<rparr>"
  from 1(1) [of ?st] 1(2) s(2) obtain st' where
    "run_sink_chunked strm (k True u) ?st = Some (Inr (True, u', st'))" "good (sk_strm st')" "sk_ok st'"
    "sk_data_available st' = (\<not> fin)" "\<not> fin \<longrightarrow> sk_offset st' = sk_offset st + length d + length (concat ds)"
    "written (sk_strm st') = written s @ concat (map chunk_of ds) @ (if fin then ''0'' @ crlf @ crlf else [])"
    by auto
  with 1(2,4) s show ?case
    by (auto simp: nocompressor_compress_def Let_def)
next
  case (3 b u u')
  from done_with_trailer_good [of st "[]"] 3 obtain st' where
    "done_with_trailer strm [] st = Some st'" "sk_ok st'" "\<not> sk_data_available st'" "good (sk_strm st')"
    "written (sk_strm st') = written (sk_strm st) @ ''0'' @ crlf @ header_section []"
    by auto
  with 3 show ?case by auto
qed auto

lemma provider_loop_plays:
  "\<lbrakk>plays g off u ds u'; off = sk_offset st; good (sk_strm st); sk_ok st; sk_data_available st\<rbrakk> \<Longrightarrow>
   \<exists>st'. provider_loop strm (run_sink_chunked strm) (ContentProviderAdapter g) no_shutdown u st =
       Some (Inr (True, Success, u', st')) \<and> good (sk_strm st') \<and>
     written (sk_strm st') = written (sk_strm st) @ chunked_body ds []"
proof (induction arbitrary: st rule: plays.induct)
  case (plays_last off u ds u')
  obtain b s where w: "strm_wait_writable strm (sk_strm st) = (b, s)" by force
  note w' = wait_writable_good [OF plays_last(3) w]
  from run_sink_chunked_writes [OF plays_last(1), of "st\<lparr>sk_strm := s\<rparr>"] plays_last w' obtain st' where
    st': "run_sink_chunked strm (g (sk_offset st) u) (st\<lparr>sk_strm := s\<rparr>) = Some (Inr (True, u', st'))" "good (sk_strm st')"
      "sk_ok st'" "\<not> sk_data_available st'"
      "written (sk_strm st') = written (sk_strm st) @ concat (map chunk_of ds) @ ''0'' @ crlf @ crlf" by auto
  have "provider_loop strm (run_sink_chunked strm) (ContentProviderAdapter g) no_shutdown u' st' =
      Some (Inr (True, Success, u', st'))"
    using st'(4) by (subst provider_loop.simps) simp
  then have "provider_loop strm (run_sink_chunked strm) (ContentProviderAdapter g) no_shutdown u st =
      Some (Inr (True, Success, u', st'))"
    using plays_last w w' st' by (subst provider_loop.simps) (simp add: no_shutdown_def ContentProviderAdapter_def)
  with st' show ?case by (simp add: chunked_body_def)
next
  case (plays_more off u ds u' ds' u'')
  obtain b s where w: "strm_wait_writable strm (sk_strm st) = (b, s)" by force
  note w' = wait_writable_good [OF plays_more(6) w]
  from run_sink_chunked_writes [OF plays_more(1), of "st\<lparr>sk_strm := s\<rparr>"] plays_more w' obtain st1 where
    st1: "run_sink_chunked strm (g (sk_offset st) u) (st\<lparr>sk_strm := s\<rparr>) = Some (Inr (True, u', st1))" "good (sk_strm st1)"
      "sk_ok st1" "sk_data_available st1" "sk_offset st1 = sk_offset st + length (concat ds)"
      "written (sk_strm st1) = written (sk_strm st) @ concat (map chunk_of ds)" by auto
  from plays_more.IH [of st1] plays_more(5) st1 obtain st' where
    st': "provider_loop strm (run_sink_chunked strm) (ContentProviderAdapter g) no_shutdown u' st1 =
        Some (Inr (True, Success, u'', st'))" "good (sk_strm st')"
      "written (sk_strm st') = written (sk_strm st1) @ chunked_body ds' []" by auto
  have "provider_loop strm (run_sink_chunked strm) (ContentProviderAdapter g) no_shutdown u st =
      Some (Inr (True, Success, u'', st'))"
    using plays_more w w' st1 st'(1) by (subst provider_loop.simps) (simp add: no_shutdown_def ContentProviderAdapter_def)
  with st1 st' show ?case by (simp add: chunked_body_def)
qed

end

text \<open>The provider of an item that hands out the given pieces, one per call, and is done with the last one.\<close>

definition hands_out :: "'u provider_without_length \<Rightarrow> bytes list \<Rightarrow> bool" where
  "hands_out g ps \<longleftrightarrow>
     ps \<noteq> [] \<and> (\<forall>p \<in> set ps. p \<noteq> []) \<and>
     (\<forall>i < length ps. \<forall>u. g (length (concat (take i ps))) u =
        SinkWrite (ps ! i) u (\<lambda>ok u. if i + 1 = length ps then SinkDone (Return True u) else Return True u))"

definition filled_item :: "'u MultipartFormDataProvider \<Rightarrow> bytes list \<Rightarrow> MultipartFormDataForClientInput" where
  "filled_item item ps =
     \<lparr>fi_name = mp_name item, fi_content = concat ps, fi_filename = mp_filename item, fi_content_type = mp_content_type item\<rparr>"

lemma item_texts_nonempty [simp]:
  "provider_item_begin item boundary \<noteq> []" "serialize_multipart_formdata_item_end \<noteq> []"
  "serialize_multipart_formdata_finish boundary \<noteq> []"
  by (simp_all add: provider_item_begin_def serialize_multipart_formdata_item_begin_def
      serialize_multipart_formdata_item_end_def serialize_multipart_formdata_finish_def)

text \<open>One call for the piece \<open>i\<close> of an item.\<close>

lemma provide_item_writes:
  assumes "hands_out (mp_provider item) ps" "i < length ps" "ms_cur_start s \<le> offset"
    "offset - ms_cur_start s = length (concat (take i ps))"
  shows "i + 1 < length ps \<Longrightarrow> writes (provide_item item offset s) [ps ! i] False s"
    and "i + 1 = length ps \<Longrightarrow> writes (provide_item item offset s) [ps ! i, serialize_multipart_formdata_item_end] False
      (s\<lparr>ms_cur_item := ms_cur_item s + 1, ms_cur_start := 0\<rparr>)"
proof -
  have p: "mp_provider item (offset - ms_cur_start s) (ms_app s) =
      SinkWrite (ps ! i) (ms_app s) (\<lambda>ok u. if i + 1 = length ps then SinkDone (Return True u) else Return True u)"
    using assms by (simp add: hands_out_def)
  have ne: "ps ! i \<noteq> []" using assms by (simp add: hands_out_def)
  show "i + 1 < length ps \<Longrightarrow> writes (provide_item item offset s) [ps ! i] False s"
    unfolding provide_item_def p using ne by simp
  show "i + 1 = length ps \<Longrightarrow> writes (provide_item item offset s) [ps ! i, serialize_multipart_formdata_item_end] False
      (s\<lparr>ms_cur_item := ms_cur_item s + 1, ms_cur_start := 0\<rparr>)"
    unfolding provide_item_def p using ne by (simp add: sink_os_def)
qed

text \<open>From state \<open>s\<close> on, at any later offset, the provider of the form produces the text \<open>t\<close>.\<close>

definition produces ::
  "string \<Rightarrow> MultipartFormDataForClientInput list \<Rightarrow> 'u MultipartFormDataProvider list \<Rightarrow> nat \<Rightarrow> 'u multipart_state \<Rightarrow>
     bytes \<Rightarrow> bool" where
  "produces boundary items pis off s t \<longleftrightarrow>
     (\<exists>ds. plays (get_multipart_content_provider boundary items pis) off s ds
        \<lparr>ms_cur_item = length pis, ms_cur_start = 0, ms_app = ms_app s\<rparr> \<and> concat ds = t \<and> (\<forall>d \<in> set ds. d \<noteq> []))"

lemma writes_nonempty: "writes p ds fin u' \<Longrightarrow> \<forall>d \<in> set ds. d \<noteq> []"
  by (induction p ds fin u' rule: writes.induct) auto

lemma produces_more:
  assumes "writes (get_multipart_content_provider boundary items pis off s) ds False s'" "ds \<noteq> []"
    "produces boundary items pis (off + length (concat ds)) s' t" "ms_app s' = ms_app s"
  shows "produces boundary items pis off s (concat ds @ t)"
  using assms writes_nonempty [OF assms(1)] unfolding produces_def
  by (metis (no_types, lifting) Un_iff concat_append plays_more set_append)

lemma take_concat_Suc: "i < length ps \<Longrightarrow> length (concat (take (Suc i) ps)) = length (concat (take i ps)) + length (ps ! i)"
  by (simp add: take_Suc_conv_app_nth)

lemma produces_item:
  assumes "hands_out (mp_provider (pis ! j)) ps" "j < length pis"
    and next_item: "\<And>off. off > 0 \<Longrightarrow> produces boundary items pis off \<lparr>ms_cur_item = j + 1, ms_cur_start = 0, ms_app = u\<rparr> t"
  shows "\<lbrakk>0 < c; i < length ps\<rbrakk> \<Longrightarrow>
    produces boundary items pis (c + length (concat (take i ps))) \<lparr>ms_cur_item = j, ms_cur_start = c, ms_app = u\<rparr>
      (concat (drop i ps) @ serialize_multipart_formdata_item_end @ t)"
proof (induction "length ps - i" arbitrary: i)
  case (Suc n)
  let ?s = "\<lparr>ms_cur_item = j, ms_cur_start = c, ms_app = u\<rparr>"
  let ?off = "c + length (concat (take i ps))"
  have call: "get_multipart_content_provider boundary items pis ?off ?s = provide_item (pis ! j) ?off ?s"
    using Suc.prems assms(2) by (simp add: get_multipart_content_provider_def Let_def)
  note w = provide_item_writes [OF assms(1) Suc.prems(2), of ?s ?off, simplified]
  have drop: "concat (drop i ps) = ps ! i @ concat (drop (Suc i) ps)"
    using Suc.prems(2) by (simp add: Cons_nth_drop_Suc [symmetric])
  show ?case
  proof (cases "Suc i = length ps")
    case True
    have "produces boundary items pis ?off ?s (concat [ps ! i, serialize_multipart_formdata_item_end] @ t)"
      by (rule produces_more [OF w(2) [OF True, folded call]]) (simp_all add: next_item [simplified] Suc.prems(1))
    with True show ?thesis by (simp add: drop)
  next
    case False
    with Suc.prems have lt: "Suc i < length ps" by simp
    have IH: "produces boundary items pis (?off + length (concat [ps ! i])) ?s
        (concat (drop (Suc i) ps) @ serialize_multipart_formdata_item_end @ t)"
      using Suc.hyps(1) [of "Suc i"] Suc.hyps(2) Suc.prems lt take_concat_Suc [of i ps] by (simp add: add.assoc)
    have "produces boundary items pis ?off ?s
        (concat [ps ! i] @ concat (drop (Suc i) ps) @ serialize_multipart_formdata_item_end @ t)"
      by (rule produces_more [OF w(1) [OF lt, folded call]]) (use IH in simp_all)
    then show ?thesis by (simp add: drop)
  qed
qed simp

lemma produces_items:
  assumes "list_all2 (\<lambda>it ps. hands_out (mp_provider it) ps) pis pss" "j \<le> length pis" "off > 0 \<or> items = []"
  shows "produces boundary items pis off \<lparr>ms_cur_item = j, ms_cur_start = 0, ms_app = u\<rparr>
    (serialize_multipart_items (map2 filled_item (drop j pis) (drop j pss)) boundary @
     serialize_multipart_formdata_finish boundary)"
  using assms(2,3)
proof (induction "length pis - j" arbitrary: j off)
  case 0
  then have "writes (get_multipart_content_provider boundary items pis off \<lparr>ms_cur_item = j, ms_cur_start = 0, ms_app = u\<rparr>)
      [serialize_multipart_formdata_finish boundary] True \<lparr>ms_cur_item = j, ms_cur_start = 0, ms_app = u\<rparr>"
    by (auto simp: get_multipart_content_provider_def sink_os_def)
  with 0 show ?case unfolding produces_def
    by (intro exI [of _ "[serialize_multipart_formdata_finish boundary]"]) (auto intro: plays_last)
next
  case (Suc n)
  then have j: "j < length pis" by simp
  define ps where "ps = pss ! j"
  define bt where "bt = provider_item_begin (pis ! j) boundary"
  have h: "hands_out (mp_provider (pis ! j)) ps" and lj: "j < length pss"
    using assms(1) j by (auto simp: ps_def list_all2_conv_all_nth)
  then have ps: "ps \<noteq> []" "0 < length ps" by (auto simp: hands_out_def)
  let ?s = "\<lparr>ms_cur_item = j, ms_cur_start = 0, ms_app = u\<rparr>"
  let ?c = "off + length bt"
  let ?s1 = "\<lparr>ms_cur_item = j, ms_cur_start = ?c, ms_app = u\<rparr>"
  define t where "t = serialize_multipart_items (map2 filled_item (drop (Suc j) pis) (drop (Suc j) pss)) boundary @
     serialize_multipart_formdata_finish boundary"
  have next_item: "produces boundary items pis off' \<lparr>ms_cur_item = j + 1, ms_cur_start = 0, ms_app = u\<rparr> t" if "off' > 0" for off'
    unfolding t_def using Suc.hyps(1) [of "Suc j" off'] Suc.hyps(2) j that by simp
  have call: "get_multipart_content_provider boundary items pis off ?s = sink_os bt ?s1 (provide_item (pis ! j) ?c)"
    using Suc.prems j by (auto simp: get_multipart_content_provider_def Let_def bt_def)
  note w = provide_item_writes [OF h ps(2), of ?s1 ?c, simplified]
  have bt: "bt \<noteq> []" by (simp add: bt_def)
  have whole: "serialize_multipart_items (map2 filled_item (drop j pis) (drop j pss)) boundary @
      serialize_multipart_formdata_finish boundary = bt @ concat ps @ serialize_multipart_formdata_item_end @ t"
    using j lj by (simp add: Cons_nth_drop_Suc [symmetric] t_def bt_def ps_def filled_item_def provider_item_begin_def
        serialize_multipart_formdata_item_begin_def)
  show ?case
  proof (cases "length ps = 1")
    case True
    then have one: "concat ps = ps ! 0" by (cases ps) auto
    have w2: "writes (get_multipart_content_provider boundary items pis off ?s)
        [bt, ps ! 0, serialize_multipart_formdata_item_end] False \<lparr>ms_cur_item = j + 1, ms_cur_start = 0, ms_app = u\<rparr>"
      unfolding call sink_os_def using w(2) True bt by simp
    have "produces boundary items pis off ?s (concat [bt, ps ! 0, serialize_multipart_formdata_item_end] @ t)"
      by (rule produces_more [OF w2]) (simp_all add: next_item [simplified] bt)
    then show ?thesis unfolding whole one by simp
  next
    case False
    with ps have lt: "Suc 0 < length ps" by (cases ps) auto
    have w1: "writes (get_multipart_content_provider boundary items pis off ?s) [bt, ps ! 0] False ?s1"
      unfolding call sink_os_def using w(1) lt bt by simp
    have "produces boundary items pis (?c + length (concat (take 1 ps))) ?s1
        (concat (drop 1 ps) @ serialize_multipart_formdata_item_end @ t)"
      by (rule produces_item [OF h j next_item]) (use bt lt in simp_all)
    then have "produces boundary items pis off ?s (concat [bt, ps ! 0] @ concat (drop 1 ps) @ serialize_multipart_formdata_item_end @ t)"
      by (intro produces_more [OF w1]) (use ps in \<open>simp_all add: take_Suc hd_conv_nth add.assoc\<close>)
    moreover have "concat ps = ps ! 0 @ concat (drop 1 ps)" using ps by (cases ps) auto
    ultimately show ?thesis unfolding whole by simp
  qed
qed

lemma produces_form:
  assumes "list_all2 (\<lambda>it ps. hands_out (mp_provider it) ps) pis pss"
  shows "produces boundary items pis 0 (new_multipart_state u)
    (serialize_multipart_formdata (items @ map2 filled_item pis pss) boundary True)"
proof -
  have split: "serialize_multipart_items (xs @ ys) boundary = serialize_multipart_items xs boundary @ serialize_multipart_items ys boundary" for xs ys
    by (induction xs) simp_all
  show ?thesis
  proof (cases "items = []")
    case True
    with produces_items [OF assms, of 0 0 items boundary u] show ?thesis
      by (simp add: new_multipart_state_def serialize_multipart_formdata_def)
  next
    case False
    define t where "t = serialize_multipart_formdata items boundary False"
    have ne: "t \<noteq> []" using False
      by (cases items) (simp_all add: t_def serialize_multipart_formdata_def serialize_multipart_formdata_item_end_def)
    have w: "writes (get_multipart_content_provider boundary items pis 0 (new_multipart_state u)) [t] False (new_multipart_state u)"
      using False ne by (simp add: get_multipart_content_provider_def sink_os_def t_def)
    have "produces boundary items pis 0 (new_multipart_state u)
        (concat [t] @ (serialize_multipart_items (map2 filled_item (drop 0 pis) (drop 0 pss)) boundary @
          serialize_multipart_formdata_finish boundary))"
      using produces_items [OF assms, of 0 "length t" items boundary u] ne
      by (intro produces_more [OF w]) (simp_all add: new_multipart_state_def)
    then show ?thesis by (simp add: t_def serialize_multipart_formdata_def split)
  qed
qed

context duplex_stream
begin

lemma write_request_chunked:
  assumes "good s" "rq_body req = []" "rq_content_provider req = Some (ContentProviderAdapter g)"
    "rq_is_chunked_content_provider req" "plays g 0 u ds u'"
  shows "\<exists>s'. write_request strm cl cc req error s u = Some (Inr (True, prepare_headers cl cc req, Success, s', u')) \<and>
    good s' \<and> pending s' = pending s \<and>
    written s' = written s @ request_head cl (prepare_headers cl cc req) @ chunked_body ds []"
proof -
  let ?req = "prepare_headers cl cc req"
  have shut: "(\<lambda>u. (False, u)) = no_shutdown" by (simp add: no_shutdown_def fun_eq_iff)
  obtain s1 where s1: "write_data strm (request_head cl ?req) s = Some (True, s1)" "good s1" "pending s1 = pending s"
      "written s1 = written s @ request_head cl ?req"
    using writable_stream.write_data_good [OF keeps_pending [of "pending s"], of s "request_head cl ?req"] assms(1) by auto
  from writable_stream.provider_loop_plays [OF keeps_pending [of "pending s"] assms(5), of "new_sink 0 s1"] s1
  obtain st where "provider_loop strm (run_sink_chunked strm) (ContentProviderAdapter g) no_shutdown u (new_sink 0 s1) =
       Some (Inr (True, Success, u', st))" "good (sk_strm st)" "pending (sk_strm st) = pending s"
       "written (sk_strm st) = written s1 @ chunked_body ds []"
    by (auto simp: new_sink_def)
  with s1 assms(2-4) show ?thesis
    by (simp add: write_request_def Let_def write_content_with_provider_def write_content_chunked_def shut)
qed

end

text \<open>The bytes of a streamed request before its body.\<close>

definition streamed_request ::
  "string \<Rightarrow> string \<Rightarrow> Headers \<Rightarrow> 'u provider_without_length \<Rightarrow> string \<Rightarrow> 'u Request" where
  "streamed_request method path headers g content_type =
     set_request_content [] 0 None (Some g) content_type
       (new_Request\<lparr>rq_method := method, rq_headers := headers, rq_path := path, rq_upload_progress := None\<rparr>)"

lemma streamed_request_fields [simp]:
  "rq_method (streamed_request method path headers g content_type) = method"
  "rq_path (streamed_request method path headers g content_type) = path"
  "rq_body (streamed_request method path headers g content_type) = []"
  "rq_response_handler (streamed_request method path headers g content_type) = None"
  "rq_download_progress (streamed_request method path headers g content_type) = None"
  "rq_content_receiver (streamed_request method path headers g content_type) = None"
  "rq_content_provider (streamed_request method path headers g content_type) = Some (ContentProviderAdapter g)"
  "rq_is_chunked_content_provider (streamed_request method path headers g content_type)"
  by (simp_all add: streamed_request_def set_request_content_def Let_def rq_set_header_def new_Request_def)

lemma streamed_ok:
  fixes cl :: "'u ClientImpl"
  assumes "os_socket (w_os W sock) up incoming outgoing" "plain_client cl" "path \<noteq> []"
    "create_client_socket W cl w = (Inr sock, w1)" "up w1"
    "incoming w1 = response_wire status reason hs wire @ rest" "valid_response status reason hs rbody wire rest"
    "method \<noteq> ''HEAD''" "method \<noteq> ''CONNECT''" "plays g 0 u ds u'"
  shows "\<exists>r w2. send_with_content_provider W cl method path headers [] 0 None (Some g) content_type None w u =
      Some (Inr (r, cl\<lparr>cl_should_be_closed := False\<rparr>, w_close W sock (w_shutdown W sock w2), u')) \<and>
    rt_res r = Some (the_response status reason hs rbody) \<and> rt_err r = Success \<and>
    outgoing w2 = outgoing w1 @
      request_head cl (prepare_headers cl True (streamed_request method path headers g content_type)) @ chunked_body ds []"
proof -
  let ?req = "streamed_request method path headers g content_type"
  let ?sent = "request_head cl (prepare_headers cl True ?req) @ chunked_body ds []"
  have d: "duplex_stream (SocketStream (w_os W sock)) (ss_good up) (ss_pending incoming) (ss_written outgoing)"
    using assms(1) by (rule os_socket.socket_stream_duplex)
  have g: "ss_good up (new_SocketStream w1)" using assms(5) by (simp add: ss_good_def new_SocketStream_def)
  have sink: "content_sink (response_receiver (prepare_headers cl True ?req) False) (\<lambda>(body, error, u) bs. (body @ bs, error, u))"
    by (rule body_sink_append) simp
  have sent: "\<exists>s1. write_request (SocketStream (w_os W sock)) (busy_client sock cl) True ?req Success (new_SocketStream w1) u =
        Some (Inr (True, prepare_headers cl True ?req, Success, s1, u')) \<and>
      ss_good up s1 \<and> ss_pending incoming s1 = ss_pending incoming (new_SocketStream w1) \<and>
      ss_written outgoing s1 = ss_written outgoing (new_SocketStream w1) @ ?sent"
    using duplex_stream.write_request_chunked [OF d g _ _ _ assms(10), of ?req "busy_client sock cl" True Success] by simp
  have "\<exists>w2. send_result W cl ?req w u =
    Some (Inr (\<lparr>rt_res = Some (the_response status reason hs rbody), rt_err = Success,
        rt_request_headers = rq_headers (prepare_headers cl True ?req)\<rparr>,
      cl\<lparr>cl_should_be_closed := False\<rparr>, w_close W sock (w_shutdown W sock w2), u')) \<and>
    outgoing w2 = outgoing w1 @ ?sent"
    using assms(3,8,9) by (intro send_result_sent [OF assms(1,2,4,5,6,7) sent _ _ _ _ _ sink]) simp_all
  then show ?thesis
    unfolding send_with_content_provider_def streamed_request_def by (metis Result.select_convs(1,2))
qed

section \<open>Facts: errors and \<open>stop\<close>\<close>

text \<open>The boundary that the client makes itself is one that the check of a given boundary accepts.\<close>

lemma make_multipart_data_boundary_valid: "is_multipart_boundary_chars_valid (make_multipart_data_boundary engine)"
proof -
  have "list_all (\<lambda>c. isalnum c) random_data" by code_simp
  then have "list_all (\<lambda>c. isalnum c) (random_string engine 16)"
    by (simp add: random_string_def list_all_length) (simp add: random_data_def)
  then show ?thesis
    by (simp add: is_multipart_boundary_chars_valid_def make_multipart_data_boundary_def list_all_iff) (code_simp)
qed

text \<open>A boundary with other characters is refused before anything is sent.\<close>

lemma Post_items_bad_boundary:
  "\<not> is_multipart_boundary_chars_valid boundary \<Longrightarrow>
     Post_items_boundary W cl path headers items boundary progress w u =
       Some (Inr (\<lparr>rt_res = None, rt_err = UnsupportedMultipartBoundaryChars, rt_request_headers = []\<rparr>, cl, w, u))"
  by (simp add: Post_items_boundary_def)

text \<open>\<open>stop\<close> during a request only shuts the socket down; the request itself closes it when it is done.\<close>

lemma stop_client_in_flight:
  assumes "cl_requests_in_flight cl > 0"
  shows "cl_socket (fst (stop_client W cl w)) = cl_socket cl \<and> cl_should_be_closed (fst (stop_client W cl w))"
  using assms by (simp add: stop_client_def)

section \<open>Properties\<close>

text \<open>C19 (Post_delivers): on a connection that works, \<open>Post\<close> of a string sends the prepared head and then
  exactly the bytes of the body, in whatever portions the system accepts them, declares the length of the
  body unless the caller has, returns the status, headers and exact body of the response, and closes the
  connection.\<close>

theorem Post_delivers:
  fixes cl :: "'u ClientImpl"
  assumes "os_socket (w_os W sock) up incoming outgoing" "plain_client cl" "path \<noteq> []"
    "create_client_socket W cl w = (Inr sock, w1)" "up w1"
    "incoming w1 = response_wire status reason hs wire @ rest" "valid_response status reason hs rbody wire rest"
    "\<not> has_header headers ''Content-Length''"
  shows "\<exists>r w2. Post_body W cl path headers body content_type None w u =
      Some (Inr (r, cl\<lparr>cl_should_be_closed := False\<rparr>, w_close W sock (w_shutdown W sock w2), u)) \<and>
    rt_res r = Some (the_response status reason hs rbody) \<and> rt_err r = Success \<and>
    outgoing w2 = outgoing w1 @
      request_head cl (prepare_headers cl True (upload_request ''POST'' path headers body content_type)) @ body \<and>
    header_values (rt_request_headers r) ''Content-Length'' = [to_string_nat (length body)]"
proof -
  have "header_values (rq_headers (prepare_headers cl True (upload_request ''POST'' path headers body content_type)))
      ''Content-Length'' = [to_string_nat (length body)]"
    by (rule prepared_length [OF assms(8)]) simp
  with upload_ok [OF assms(1-7), of "''POST''" headers body content_type u] show ?thesis
    unfolding Post_body_def upload_bytes_def by fastforce
qed

theorem Post_delivers_witness:
  "\<exists>r w2. Post_body net_world (new_ClientImpl ''tv'' 30026) ''/screensaverIL'' [] ''abc'' ''text/plain'' None (net_of example_segments) () =
      Some (Inr (r, (new_ClientImpl ''tv'' 30026)\<lparr>cl_should_be_closed := False\<rparr>, w2, ())) \<and>
    rt_res r = Some (the_response 200 ''OK'' [(''Content-Length'', ''5'')] ''hello'')"
  using Post_delivers [OF net_world_socket plain_client_new [of "''tv''" 30026] _
        net_world_connect [of _ "net_of example_segments"] TrueI _ valid_response_example,
      where path = "''/screensaverIL''" and headers = "[]" and body = "''abc''" and content_type = "''text/plain''" and u = "()"] example_segments
  by (auto simp: net_of_def has_header_def header_values_def)

text \<open>C29 (multipart_form_streamed): a form with items that are produced piece by piece is sent with the chunked
  encoding, item after item, as the same text that \<open>serialize_multipart_formdata\<close> gives for the whole form
  at once, between the generated boundaries; the call then returns the response.\<close>

theorem multipart_form_streamed:
  fixes cl :: "'u multipart_state ClientImpl"
  assumes "os_socket (w_os W sock) up incoming outgoing" "plain_client cl" "path \<noteq> []"
    "create_client_socket W cl w = (Inr sock, w1)" "up w1"
    "incoming w1 = response_wire status reason hs wire @ rest" "valid_response status reason hs rbody wire rest"
    "list_all2 (\<lambda>item ps. hands_out (mp_provider item) ps) provider_items pss"
    "boundary = make_multipart_data_boundary engine"
  shows "\<exists>r cl' w2 u' head ds. Post_provider_items W cl path headers items provider_items engine None w u =
      Some (Inr (r, cl', w_close W sock (w_shutdown W sock w2), u')) \<and>
    rt_res r = Some (the_response status reason hs rbody) \<and> rt_err r = Success \<and>
    outgoing w2 = outgoing w1 @ head @ chunked_body ds [] \<and> (\<forall>d \<in> set ds. d \<noteq> []) \<and>
    head = request_head cl (prepare_headers cl True (streamed_request ''POST'' path headers
      (get_multipart_content_provider boundary items provider_items)
      (serialize_multipart_formdata_get_content_type boundary))) \<and>
    concat ds = serialize_multipart_formdata (items @ map2 filled_item provider_items pss) boundary True \<and>
    ms_app u' = u"
proof -
  let ?g = "get_multipart_content_provider boundary items provider_items"
  from produces_form [OF assms(8), of boundary items u] obtain ds u' where
    ds: "plays ?g 0 (new_multipart_state u) ds u'" "ms_app u' = u" "\<forall>d \<in> set ds. d \<noteq> []"
      "concat ds = serialize_multipart_formdata (items @ map2 filled_item provider_items pss) boundary True"
    by (auto simp: produces_def new_multipart_state_def)
  from streamed_ok [OF assms(1-7) _ _ ds(1), of "''POST''" headers "serialize_multipart_formdata_get_content_type boundary"] ds
  show ?thesis unfolding Post_provider_items_def assms(9) Let_def by fastforce
qed

definition two_pieces :: "unit MultipartFormDataProvider" where
  "two_pieces =
     \<lparr>mp_name = ''f'', mp_provider = (\<lambda>off u. if off = 0 then SinkWrite ''ab'' u (\<lambda>ok u. Return True u)
        else SinkWrite ''c'' u (\<lambda>ok u. SinkDone (Return True u))), mp_filename = ''a.txt'', mp_content_type = []\<rparr>"

lemma two_pieces_hands_out: "list_all2 (\<lambda>item ps. hands_out (mp_provider item) ps) [two_pieces] [[''ab'', ''c'']]"
  by (auto simp: hands_out_def two_pieces_def less_Suc_eq numeral_2_eq_2)

theorem multipart_form_streamed_witness:
  "\<exists>r cl' w2 u'. Post_provider_items net_world (new_ClientImpl ''tv'' 30026) ''/form'' [] [] [two_pieces] (\<lambda>i. i) None
      (net_of example_segments) () = Some (Inr (r, cl', w2, u')) \<and>
    rt_res r = Some (the_response 200 ''OK'' [(''Content-Length'', ''5'')] ''hello'')"
  using multipart_form_streamed [OF net_world_socket plain_client_new [of "''tv''" 30026] _
        net_world_connect [of _ "net_of example_segments"] TrueI _ valid_response_example
      two_pieces_hands_out refl, where path = "''/form''" and headers = "[]" and items = "[]" and engine = "\<lambda>i. i" and u = "()"] example_segments
  by (auto simp: net_of_def)

end
