(* ===== verification/Http_Accept.thy ===== *)
theory Http_Accept
  imports Http_Multipart "HOL-Library.Multiset"
begin

text \<open>
  The \<open>Accept\<close> header of a request (\<open>parse_accept_header\<close> of \<^verbatim>\<open>src/CPPTools/include/httplib.h\<close>): the media
  types by descending quality. \<open>std::stod\<close> and \<open>std::sort\<close> are parameters. The result is proved to be the
  stable order by quality when no quality is a NaN; with a NaN the comparison of the code is not an order.
\<close>

section \<open>The \<open>Accept\<close> header\<close>

text \<open>The values of a \<open>double\<close>, as far as comparisons tell them apart; comparisons with \<open>NotANumber\<close> are false.
  Every finite value is a multiple of \<open>2\<^sup>-\<^sup>1\<^sup>0\<^sup>7\<^sup>4\<close>: \<open>Finite n\<close> is the \<open>n\<close>-fold.\<close>

definition double_one :: int where "double_one = 2 ^ 1074"

datatype double_value = Finite int | Infinite bool | NotANumber

fun below_zero :: "double_value \<Rightarrow> bool" where
  "below_zero (Finite q) \<longleftrightarrow> q < 0"
| "below_zero (Infinite positive) \<longleftrightarrow> \<not> positive"
| "below_zero NotANumber \<longleftrightarrow> False"

fun above_one :: "double_value \<Rightarrow> bool" where
  "above_one (Finite q) \<longleftrightarrow> q > double_one"
| "above_one (Infinite positive) \<longleftrightarrow> positive"
| "above_one NotANumber \<longleftrightarrow> False"

record AcceptEntry =
  ae_media_type :: string
  ae_quality :: double_value
  ae_order :: nat

text \<open>The media type and quality of an entry, \<open>None\<close> where it is invalid; \<open>stod\<close> is \<open>std::stod\<close>, \<open>None\<close> when it
  throws.\<close>

definition accept_quality :: "(string \<Rightarrow> double_value option) \<Rightarrow> string \<Rightarrow> (string \<times> double_value) option" where
  "accept_quality stod entry =
     (let q_pos = (case find_sub '';q='' entry of Some p \<Rightarrow> Some p | None \<Rightarrow> find_sub ''; q='' entry) in
      case q_pos of
        None \<Rightarrow> Some (entry, Finite double_one)
      | Some q_pos \<Rightarrow>
          let media_type = trim_copy (take q_pos entry);
              after = drop 1 (dropWhile (\<lambda>c. c \<noteq> CHR ''='') (drop q_pos entry));
              quality_str = trim_copy (takeWhile (\<lambda>c. c \<noteq> CHR '';'') after)
          in if quality_str = [] then None
             else (case stod quality_str of
                     None \<Rightarrow> None
                   | Some q \<Rightarrow> if below_zero q \<or> above_one q then None else Some (media_type, q)))"

definition accept_entry :: "(string \<Rightarrow> double_value option) \<Rightarrow> string \<Rightarrow> nat \<Rightarrow> AcceptEntry option" where
  "accept_entry stod entry order =
     (case accept_quality stod entry of
        None \<Rightarrow> None
      | Some (media_type, quality) \<Rightarrow>
          let media_type = (if CHR '';'' \<in> set media_type
                            then trim_copy (takeWhile (\<lambda>c. c \<noteq> CHR '';'') media_type) else media_type)
          in if media_type = [] then None
             else if media_type \<noteq> ''*'' \<and> CHR ''/'' \<notin> set media_type then None
             else Some \<lparr>ae_media_type = media_type, ae_quality = quality, ae_order = order\<rparr>)"

fun accept_entries ::
  "(string \<Rightarrow> double_value option) \<Rightarrow> string list \<Rightarrow> nat \<Rightarrow> bool \<Rightarrow> AcceptEntry list \<Rightarrow> bool \<times> AcceptEntry list" where
  "accept_entries stod [] order has_invalid_entry entries = (has_invalid_entry, entries)"
| "accept_entries stod (piece # pieces) order has_invalid_entry entries =
     (let entry = trim_copy piece in
      if entry = [] then accept_entries stod pieces order True entries
      else
        (case accept_entry stod entry order of
           None \<Rightarrow> accept_entries stod pieces (order + 1) True entries
         | Some e \<Rightarrow> accept_entries stod pieces (order + 1) has_invalid_entry (entries @ [e])))"

text \<open>The second component is \<open>content_types\<close>; \<open>sort_entries\<close> is \<open>std::sort\<close> with the comparison of the code.\<close>

definition parse_accept_header ::
  "(string \<Rightarrow> double_value option) \<Rightarrow> (AcceptEntry list \<Rightarrow> AcceptEntry list) \<Rightarrow> string \<Rightarrow> bool \<times> string list" where
  "parse_accept_header stod sort_entries s =
     (if s = [] then (True, [])
      else if hd s = CHR '','' \<or> last s = CHR '','' \<or> find_sub '',,'' s \<noteq> None then (False, [])
      else
        (case accept_entries stod (split_at s CHR '','') 0 False [] of
           (has_invalid_entry, entries) \<Rightarrow>
             if has_invalid_entry then (False, []) else (True, map ae_media_type (sort_entries entries))))"

text \<open>The comparison that the code hands to \<open>std::sort\<close>.\<close>

fun greater_quality :: "double_value \<Rightarrow> double_value \<Rightarrow> bool" where
  "greater_quality (Finite p) (Finite q) \<longleftrightarrow> p > q"
| "greater_quality (Infinite a) (Infinite b) \<longleftrightarrow> a \<and> \<not> b"
| "greater_quality (Infinite a) (Finite q) \<longleftrightarrow> a"
| "greater_quality (Finite p) (Infinite b) \<longleftrightarrow> \<not> b"
| "greater_quality _ _ \<longleftrightarrow> False"

definition accept_before :: "AcceptEntry \<Rightarrow> AcceptEntry \<Rightarrow> bool" where
  "accept_before a b \<longleftrightarrow>
     (if ae_quality a \<noteq> ae_quality b \<or> ae_quality a = NotANumber then greater_quality (ae_quality a) (ae_quality b)
      else ae_order a < ae_order b)"

section \<open>Facts\<close>

text \<open>What \<open>std::sort\<close> promises for a comparison that is a strict order of the elements: a permutation in which
  no element is before an earlier one.\<close>

definition sorts_entries :: "(AcceptEntry list \<Rightarrow> AcceptEntry list) \<Rightarrow> bool" where
  "sorts_entries sort_entries \<longleftrightarrow>
     (\<forall>es. (\<forall>e \<in> set es. \<exists>q. ae_quality e = Finite q) \<longrightarrow>
        mset (sort_entries es) = mset es \<and> sorted_wrt (\<lambda>a b. \<not> accept_before b a) (sort_entries es))"

text \<open>The quality as a number, and the reference: the entries by descending quality, those of equal quality
  in the order of the header.\<close>

fun quality_of :: "double_value \<Rightarrow> int" where
  "quality_of (Finite q) = q"
| "quality_of _ = 0"

definition by_quality :: "AcceptEntry list \<Rightarrow> AcceptEntry list" where
  "by_quality es = sort_key (\<lambda>e. - quality_of (ae_quality e)) es"

definition accept_le :: "AcceptEntry \<Rightarrow> AcceptEntry \<Rightarrow> bool" where
  "accept_le a b \<longleftrightarrow> quality_of (ae_quality a) > quality_of (ae_quality b) \<or>
     (quality_of (ae_quality a) = quality_of (ae_quality b) \<and> ae_order a \<le> ae_order b)"

lemma accept_before_finite:
  "\<lbrakk>ae_quality a = Finite p; ae_quality b = Finite q\<rbrakk> \<Longrightarrow> \<not> accept_before b a \<longleftrightarrow> accept_le a b"
  by (auto simp: accept_before_def accept_le_def)

lemma sorted_wrt_unique:
  assumes "mset xs = mset ys" "sorted_wrt P xs" "sorted_wrt P ys" "\<And>x y. x \<in> set xs \<Longrightarrow> y \<in> set xs \<Longrightarrow> P x y \<Longrightarrow> P y x \<Longrightarrow> x = y"
  shows "xs = ys"
  using assms
proof (induction xs arbitrary: ys)
  case (Cons x xs)
  obtain y ys' where ys: "ys = y # ys'" using Cons.prems(1) by (cases ys) auto
  have "x = y"
  proof (rule ccontr)
    assume "x \<noteq> y"
    then have "x \<in> set ys'" "y \<in> set xs"
      using Cons.prems(1) mset_eq_setD [OF Cons.prems(1)] by (auto simp: ys)
    then have "P x y" "P y x" using Cons.prems(2,3) by (auto simp: ys)
    with Cons.prems(4) [of x y] \<open>y \<in> set xs\<close> \<open>x \<noteq> y\<close> show False by auto
  qed
  with Cons ys show ?case by auto
qed simp

lemma by_quality_sorted:
  assumes "sorted (map ae_order es)"
  shows "sorted_wrt accept_le (by_quality es)"
proof -
  define f where "f = (\<lambda>e :: AcceptEntry. - quality_of (ae_quality e))"
  have s: "sorted (map f (sort_key f es))" by simp
  have st: "filter (\<lambda>e. f e = k) (sort_key f es) = filter (\<lambda>e. f e = k) es" for k
    by (rule sort_key_stable)
  have eq: "ae_order a \<le> ae_order b" if "sort_key f es = us @ a # vs @ b # ws" "f a = f b" for us vs ws a b
  proof -
    have "filter (\<lambda>e. f e = f a) es = filter (\<lambda>e. f e = f a) us @ a # filter (\<lambda>e. f e = f a) vs @ b # filter (\<lambda>e. f e = f a) ws"
      using st [of "f a"] that by simp
    moreover have "sorted (map ae_order (filter (\<lambda>e. f e = f a) es))"
      using assms by (simp add: sorted_wrt_map sorted_wrt_filter)
    ultimately show ?thesis by (simp add: sorted_wrt_append)
  qed
  show ?thesis
    unfolding by_quality_def f_def [symmetric] sorted_wrt_iff_nth_less
  proof (intro allI impI)
    fix i j assume ij: "i < j" "j < length (sort_key f es)"
    let ?l = "sort_key f es"
    have le: "f (?l ! i) \<le> f (?l ! j)" using sorted_nth_mono [OF s, of i j] ij by simp
    have split: "?l = take i ?l @ ?l ! i # take (j - Suc i) (drop (Suc i) ?l) @ ?l ! j # drop (Suc j) ?l"
    proof -
      have "drop (Suc i) ?l = take (j - Suc i) (drop (Suc i) ?l) @ drop (j - Suc i) (drop (Suc i) ?l)"
        by (rule append_take_drop_id [symmetric])
      also have "drop (j - Suc i) (drop (Suc i) ?l) = ?l ! j # drop (Suc j) ?l" using ij by (simp add: Cons_nth_drop_Suc)
      finally show ?thesis using ij id_take_nth_drop [of i ?l] by simp
    qed
    show "accept_le (?l ! i) (?l ! j)"
      using le eq [OF split] by (cases "f (?l ! i) = f (?l ! j)") (auto simp: accept_le_def f_def)
  qed
qed

lemma accept_sorted:
  assumes "sorts_entries sort_entries" "\<forall>e \<in> set es. \<exists>q. ae_quality e = Finite q" "sorted_wrt (<) (map ae_order es)"
  shows "sort_entries es = by_quality es"
proof (rule sorted_wrt_unique [where P = accept_le])
  have p: "mset (sort_entries es) = mset es" and s: "sorted_wrt (\<lambda>a b. \<not> accept_before b a) (sort_entries es)"
    using assms(1,2) by (auto simp: sorts_entries_def)
  show "mset (sort_entries es) = mset (by_quality es)" by (simp add: p by_quality_def)
  have set: "set (sort_entries es) = set es" using p by (rule mset_eq_setD)
  show "sorted_wrt accept_le (sort_entries es)"
    by (rule sorted_wrt_mono_rel [OF _ s]) (use accept_before_finite assms(2) set in blast)
  show "sorted_wrt accept_le (by_quality es)" using assms(3) by (intro by_quality_sorted strict_sorted_imp_sorted)
  fix x y assume "x \<in> set (sort_entries es)" "y \<in> set (sort_entries es)" "accept_le x y" "accept_le y x"
  then have "ae_order x = ae_order y" "x \<in> set es" "y \<in> set es" by (auto simp: accept_le_def set)
  moreover have "inj_on ae_order (set es)" using assms(3) strict_sorted_iff by (metis distinct_map)
  ultimately show "x = y" by (simp add: inj_on_def)
qed

text \<open>The entries keep their places in the header, so the orders ascend.\<close>

lemma accept_entries_orders:
  assumes "accept_entries stod ps n bad acc = (b, es)" "sorted_wrt (<) (map ae_order acc)" "\<forall>e \<in> set acc. ae_order e < n"
  shows "sorted_wrt (<) (map ae_order es)"
  using assms
proof (induction ps arbitrary: n bad acc)
  case (Cons p ps)
  show ?case
  proof (cases "trim_copy p = [] \<or> accept_entry stod (trim_copy p) n = None")
    case True
    then show ?thesis
      using Cons.prems Cons.IH [of n True acc] Cons.IH [of "n + 1" True acc]
      by (cases "trim_copy p = []") (auto simp: Let_def less_Suc_eq)
  next
    case False
    then obtain e where e: "accept_entry stod (trim_copy p) n = Some e" by auto
    then have "ae_order e = n" by (auto simp: accept_entry_def Let_def split: option.splits if_splits)
    with False e Cons.prems Cons.IH [of "n + 1" bad "acc @ [e]"] show ?thesis
      by (auto simp: Let_def sorted_wrt_append less_Suc_eq)
  qed
qed simp

text \<open>With a NaN, the comparison is not even transitive in its incomparability: the first and last entry compare,
  but the NaN is equivalent to both, which \<open>std::sort\<close> does not allow.\<close>

lemma accept_before_nan:
  "\<exists>a b c. \<not> accept_before a b \<and> \<not> accept_before b a \<and> \<not> accept_before b c \<and> \<not> accept_before c b \<and> accept_before a c"
  by (rule exI [of _ "\<lparr>ae_media_type = ''a/a'', ae_quality = Finite 1, ae_order = 0\<rparr>"],
      rule exI [of _ "\<lparr>ae_media_type = ''b/b'', ae_quality = NotANumber, ae_order = 1\<rparr>"],
      rule exI [of _ "\<lparr>ae_media_type = ''c/c'', ae_quality = Finite 0, ae_order = 2\<rparr>"])
    (simp add: accept_before_def)

section \<open>Properties\<close>

text \<open>C36 (accept_header_ordered): when the entries of an \<open>Accept\<close> header are well-formed and none has the quality
  NaN, the media types come out by descending quality, and in the order of the header where the qualities are
  equal, whatever \<open>std::sort\<close> does otherwise.\<close>

theorem accept_header_ordered:
  assumes "sorts_entries sort_entries" "s \<noteq> []" "hd s \<noteq> CHR '',''" "last s \<noteq> CHR '',''" "find_sub '',,'' s = None"
    and "accept_entries stod (split_at s CHR '','') 0 False [] = (False, entries)"
    and "\<forall>e \<in> set entries. \<exists>q. ae_quality e = Finite q"
  shows "parse_accept_header stod sort_entries s = (True, map ae_media_type (by_quality entries))"
proof -
  have "sort_entries entries = by_quality entries"
    by (rule accept_sorted [OF assms(1,7)]) (rule accept_entries_orders [OF assms(6)], simp_all)
  then show ?thesis using assms by (simp add: parse_accept_header_def)
qed

text \<open>A sorting function for the witness: by order, then stably by quality.\<close>

definition example_sort :: "AcceptEntry list \<Rightarrow> AcceptEntry list" where
  "example_sort es = by_quality (sort_key ae_order es)"

lemma example_sort_sorts: "sorts_entries example_sort"
  unfolding sorts_entries_def
proof (intro allI impI conjI)
  fix es :: "AcceptEntry list" assume fin: "\<forall>e \<in> set es. \<exists>q. ae_quality e = Finite q"
  show "mset (example_sort es) = mset es" by (simp add: example_sort_def by_quality_def)
  have "sorted_wrt accept_le (example_sort es)" unfolding example_sort_def by (rule by_quality_sorted) simp
  moreover have "set (example_sort es) = set es" by (simp add: example_sort_def by_quality_def)
  ultimately show "sorted_wrt (\<lambda>a b. \<not> accept_before b a) (example_sort es)"
    using accept_before_finite fin by (elim sorted_wrt_mono_rel [rotated]) blast
qed

definition example_stod :: "string \<Rightarrow> double_value option" where
  "example_stod s = (if s = ''0.5'' then Some (Finite (2 ^ 1073)) else None)"

lemma accept_example:
  "accept_entries example_stod (split_at ''a/b;q=0.5, c/d'' CHR '','') 0 False [] =
     (False, [\<lparr>ae_media_type = ''a/b'', ae_quality = Finite (2 ^ 1073), ae_order = 0\<rparr>,
              \<lparr>ae_media_type = ''c/d'', ae_quality = Finite double_one, ae_order = 1\<rparr>])"
  by code_simp

theorem accept_header_ordered_witness:
  "parse_accept_header example_stod example_sort ''a/b;q=0.5, c/d'' = (True, [''c/d'', ''a/b''])"
proof -
  have "find_sub '',,'' ''a/b;q=0.5, c/d'' = None" by code_simp
  from accept_header_ordered [OF example_sort_sorts _ _ _ this accept_example] show ?thesis
    by (simp add: by_quality_def double_one_def)
qed

end
