(* ===== verification/Http_Server.thy ===== *)
theory Http_Server
  imports Http_Ranges Http_Methods Http_Accept
begin

text \<open>
  The server of \<^verbatim>\<open>src/CPPTools/include/httplib.h\<close>: the messages as a server sees them, the two kinds of route
  matchers, reading a request, routing, serving files, ranges, writing the response and the loop over the
  requests of a connection. The build has no compression library.

  Parameters of the model: the file system, \<open>std::regex\<close>, \<open>std::sort\<close>, \<open>std::stod\<close>, the random engine
  and whether the server is being stopped (\<open>srv_env\<close>). Handlers are functions on the response and the state
  \<open>'u\<close> of the application; the ones that the code calls inside its \<open>try\<close> block may throw. A handler with a
  content reader is what it does with the reader, step by step (\<open>Interaction\<close>); its receivers do not throw. The
  resource releasers of content providers do nothing.
\<close>

section \<open>Requests and responses\<close>

abbreviation MovedPermanently_301 :: int where "MovedPermanently_301 \<equiv> 301"
abbreviation UriTooLong_414 :: int where "UriTooLong_414 \<equiv> 414"
abbreviation ExpectationFailed_417 :: int where "ExpectationFailed_417 \<equiv> 417"

text \<open>A file of a multipart form: what the parser reports and the content that is appended to it.\<close>

type_synonym form_file = "MultipartFormData \<times> bytes"

record sRequest =
  sq_method :: string
  sq_path :: string
  sq_matched_route :: string
  sq_params :: Params
  sq_headers :: Headers
  sq_body :: string
  sq_remote_addr :: string
  sq_remote_port :: int
  sq_local_addr :: string
  sq_local_port :: int
  sq_version :: string
  sq_target :: string
  sq_files :: "(string \<times> form_file) list"
  sq_ranges :: Ranges
  sq_matches :: "string list"
  sq_path_params :: "string \<rightharpoonup> string"
  sq_accept_content_types :: "string list"

definition new_sRequest :: sRequest where
  "new_sRequest =
     \<lparr>sq_method = [], sq_path = [], sq_matched_route = [], sq_params = [], sq_headers = [], sq_body = [],
      sq_remote_addr = [], sq_remote_port = - 1, sq_local_addr = [], sq_local_port = - 1, sq_version = [],
      sq_target = [], sq_files = [], sq_ranges = [], sq_matches = [], sq_path_params = Map.empty,
      sq_accept_content_types = []\<rparr>"

record 'u sResponse =
  sp_version :: string
  sp_status :: int
  sp_headers :: Headers
  sp_body :: string
  sp_content_length :: nat
  sp_content_provider :: "'u provider option"
  sp_is_chunked_content_provider :: bool
  sp_content_provider_success :: bool
  sp_file_content_path :: string
  sp_file_content_content_type :: string

definition new_sResponse :: "'u sResponse" where
  "new_sResponse =
     \<lparr>sp_version = [], sp_status = - 1, sp_headers = [], sp_body = [], sp_content_length = 0,
      sp_content_provider = None, sp_is_chunked_content_provider = False, sp_content_provider_success = False,
      sp_file_content_path = [], sp_file_content_content_type = []\<rparr>"

definition sq_set_header :: "string \<Rightarrow> string \<Rightarrow> sRequest \<Rightarrow> sRequest" where
  "sq_set_header key val req = req\<lparr>sq_headers := set_header key val (sq_headers req)\<rparr>"

definition sq_get_header_value :: "sRequest \<Rightarrow> string \<Rightarrow> string" where
  "sq_get_header_value req key = get_header_value (sq_headers req) key [] 0"

definition sq_is_multipart_form_data :: "sRequest \<Rightarrow> bool" where
  "sq_is_multipart_form_data req \<longleftrightarrow> prefix ''multipart/form-data'' (sq_get_header_value req ''Content-Type'')"

definition has_file :: "sRequest \<Rightarrow> string \<Rightarrow> bool" where
  "has_file req key \<longleftrightarrow> key \<in> fst ` set (sq_files req)"

definition get_file_values :: "sRequest \<Rightarrow> string \<Rightarrow> form_file list" where
  "get_file_values req key = map snd (filter (\<lambda>f. fst f = key) (sq_files req))"

definition get_file_value :: "sRequest \<Rightarrow> string \<Rightarrow> form_file" where
  "get_file_value req key = (case get_file_values req key of [] \<Rightarrow> (empty_file, []) | f # fs \<Rightarrow> f)"

definition sp_set_header :: "string \<Rightarrow> string \<Rightarrow> 'u sResponse \<Rightarrow> 'u sResponse" where
  "sp_set_header key val res = res\<lparr>sp_headers := set_header key val (sp_headers res)\<rparr>"

definition set_redirect :: "string \<Rightarrow> int \<Rightarrow> 'u sResponse \<Rightarrow> 'u sResponse" where
  "set_redirect url stat res =
     (if is_field_value url
      then (sp_set_header ''Location'' url res)\<lparr>sp_status := (if 300 \<le> stat \<and> stat < 400 then stat else Found_302)\<rparr>
      else res)"

definition set_content :: "string \<Rightarrow> string \<Rightarrow> 'u sResponse \<Rightarrow> 'u sResponse" where
  "set_content s content_type res =
     sp_set_header ''Content-Type'' content_type
       (res\<lparr>sp_body := s, sp_headers := headers_erase ''Content-Type'' (sp_headers res)\<rparr>)"

definition set_content_provider :: "nat \<Rightarrow> string \<Rightarrow> 'u provider \<Rightarrow> 'u sResponse \<Rightarrow> 'u sResponse" where
  "set_content_provider in_length content_type provider res =
     (let res = sp_set_header ''Content-Type'' content_type res;
          res = res\<lparr>sp_content_length := in_length\<rparr>;
          res = (if in_length > 0 then res\<lparr>sp_content_provider := Some provider\<rparr> else res)
      in res\<lparr>sp_is_chunked_content_provider := False\<rparr>)"

definition set_content_provider_without_length ::
  "string \<Rightarrow> 'u provider_without_length \<Rightarrow> 'u sResponse \<Rightarrow> 'u sResponse" where
  "set_content_provider_without_length content_type provider res =
     (sp_set_header ''Content-Type'' content_type res)
       \<lparr>sp_content_length := 0, sp_content_provider := Some (ContentProviderAdapter provider),
        sp_is_chunked_content_provider := False\<rparr>"

definition set_chunked_content_provider ::
  "string \<Rightarrow> 'u provider_without_length \<Rightarrow> 'u sResponse \<Rightarrow> 'u sResponse" where
  "set_chunked_content_provider content_type provider res =
     (sp_set_header ''Content-Type'' content_type res)
       \<lparr>sp_content_length := 0, sp_content_provider := Some (ContentProviderAdapter provider),
        sp_is_chunked_content_provider := True\<rparr>"

definition set_file_content :: "string \<Rightarrow> string \<Rightarrow> 'u sResponse \<Rightarrow> 'u sResponse" where
  "set_file_content path content_type res =
     res\<lparr>sp_file_content_path := path, sp_file_content_content_type := content_type\<rparr>"

section \<open>Matchers\<close>

datatype Matcher =
    PathParamsMatcher (mt_pattern: string) (mt_static_fragments: "string list") (mt_param_names: "string list")
  | RegexMatcher (mt_pattern: string)

text \<open>The constructor of a \<open>PathParamsMatcher\<close>: \<open>find_from\<close> is \<open>std::string::find\<close> with a start position.\<close>

definition find_from :: "string \<Rightarrow> string \<Rightarrow> nat \<Rightarrow> nat option" where
  "find_from pattern s pos =
     (if pos > length s then None
      else map_option (\<lambda>i. pos + i) (find_sub pattern (drop pos s)))"

lemma find_sub_bound: "find_sub pat s = Some i \<Longrightarrow> i + length pat \<le> length s"
proof (induction s arbitrary: i)
  case (Cons c s)
  show ?case
  proof (cases "take (length pat) (c # s) = pat")
    case True
    then have "length pat \<le> length (c # s)" by (metis length_take min.cobounded1)
    with True Cons.prems show ?thesis by simp
  next
    case False
    with Cons show ?thesis by auto
  qed
qed (auto split: if_splits)

lemma find_from_bound: "find_from pat s pos = Some i \<Longrightarrow> pos \<le> i \<and> i + length pat \<le> length s"
  using find_sub_bound [of pat "drop pos s"] by (force simp: find_from_def split: if_splits)

function path_params_loop ::
  "string \<Rightarrow> nat \<Rightarrow> string list \<Rightarrow> string list \<Rightarrow> exn + nat \<times> string list \<times> string list" where
  "path_params_loop pattern last_param_end static_fragments param_names =
     (case find_from ''/:'' pattern (if last_param_end = 0 then last_param_end else last_param_end - 1) of
        None \<Rightarrow> Inr (last_param_end, static_fragments, param_names)
      | Some marker_pos \<Rightarrow>
          let static_fragments = static_fragments @ [take (marker_pos + 1 - last_param_end) (drop last_param_end pattern)];
              param_name_start = marker_pos + 2;
              param_name = takeWhile (\<lambda>c. c \<noteq> CHR ''/'') (drop param_name_start pattern);
              sep_pos = param_name_start + length param_name
          in if param_name \<in> set param_names then Inl Invalid_argument
             else path_params_loop pattern (sep_pos + 1) static_fragments (param_names @ [param_name]))"
  by pat_completeness auto
termination
proof (relation "measure (\<lambda>(pattern, e, fs, ns). length pattern + 2 - e)", simp, goal_cases)
  case (1 pattern e fs ns pos x xa xb xc)
  then have "pos + 2 \<le> length pattern" "e \<le> pos + 1"
    by (auto dest!: find_from_bound split: if_splits)
  with 1 show ?case by simp
qed

declare path_params_loop.simps [simp del]

definition new_PathParamsMatcher :: "string \<Rightarrow> exn + Matcher" where
  "new_PathParamsMatcher pattern =
     (case path_params_loop pattern 0 [] [] of
        Inl e \<Rightarrow> Inl e
      | Inr (last_param_end, static_fragments, param_names) \<Rightarrow>
          Inr (PathParamsMatcher pattern
            (if last_param_end < length pattern then static_fragments @ [drop last_param_end pattern] else static_fragments)
            param_names))"

text \<open>\<open>strncmp(a, b, n) == 0\<close>.\<close>

definition strncmp_eq :: "string \<Rightarrow> string \<Rightarrow> nat \<Rightarrow> bool" where
  "strncmp_eq a b n \<longleftrightarrow> take n (c_str a) = take n (c_str b)"

text \<open>The loop over the fragments; names run out when a fragment follows the last parameter. A parameter that
  is there already is kept (\<open>emplace\<close>).\<close>

fun match_fragments ::
  "string \<Rightarrow> string list \<Rightarrow> string list \<Rightarrow> nat \<Rightarrow> (string \<rightharpoonup> string) \<Rightarrow> bool \<times> (string \<rightharpoonup> string)" where
  "match_fragments path [] names starting_pos params = (starting_pos \<ge> length path, params)"
| "match_fragments path (fragment # fragments) names starting_pos params =
     (if starting_pos + length fragment > length path then (False, params)
      else if \<not> strncmp_eq (drop starting_pos path) fragment (length fragment) then (False, params)
      else
        let starting_pos = starting_pos + length fragment in
        (case names of
           [] \<Rightarrow> match_fragments path fragments [] starting_pos params
         | param_name # names \<Rightarrow>
             let val = takeWhile (\<lambda>c. c \<noteq> CHR ''/'') (drop starting_pos path);
                 sep_pos = starting_pos + length val in
             match_fragments path fragments names (sep_pos + 1)
               (if params param_name = None then params(param_name \<mapsto> val) else params)))"

section \<open>The environment\<close>

record 'u srv_env =
  env_is_dir :: "string \<Rightarrow> bool"
  env_is_file :: "string \<Rightarrow> bool"
  env_mmap :: "string \<Rightarrow> bytes option"
  env_regex_valid :: "string \<Rightarrow> bool"
  env_regex_match :: "string \<Rightarrow> string \<Rightarrow> string list option"
  env_sort_ranges :: "Ranges \<Rightarrow> Ranges"
  env_sort_entries :: "AcceptEntry list \<Rightarrow> AcceptEntry list"
  env_stod :: "string \<Rightarrow> double_value option"
  env_engine :: "nat \<Rightarrow> nat"
  env_shutting_down :: "'u \<Rightarrow> bool \<times> 'u"

text \<open>The constructor of \<open>RegexMatcher\<close> compiles the expression, which throws if it is not a valid one.\<close>

definition make_matcher :: "'u srv_env \<Rightarrow> string \<Rightarrow> exn + Matcher" where
  "make_matcher env pattern =
     (if find_sub ''/:'' pattern \<noteq> None then new_PathParamsMatcher pattern
      else if env_regex_valid env pattern then Inr (RegexMatcher pattern)
      else Inl Regex_error)"

definition matcher_match :: "'u srv_env \<Rightarrow> Matcher \<Rightarrow> sRequest \<Rightarrow> bool \<times> sRequest" where
  "matcher_match env m req =
     (case m of
        PathParamsMatcher pattern fragments names \<Rightarrow>
          (case match_fragments (sq_path req) fragments names 0 Map.empty of
             (ok, params) \<Rightarrow> (ok, req\<lparr>sq_matches := [], sq_path_params := params\<rparr>))
      | RegexMatcher pattern \<Rightarrow>
          let req = req\<lparr>sq_path_params := Map.empty\<rparr> in
          (case env_regex_match env pattern (sq_path req) of
             None \<Rightarrow> (False, req\<lparr>sq_matches := []\<rparr>)
           | Some groups \<Rightarrow> (True, req\<lparr>sq_matches := groups\<rparr>)))"

section \<open>The server\<close>

text \<open>What a handler may throw: a \<open>std::exception\<close> with its \<open>what()\<close>, or something else.\<close>

datatype thrown = Std_exception string | Other_exception

type_synonym 'u Handler = "sRequest \<Rightarrow> 'u sResponse \<Rightarrow> 'u \<Rightarrow> thrown option \<times> 'u sResponse \<times> 'u"

text \<open>\<open>HandlerWithResponse\<close>; the Boolean is \<open>HandlerResponse::Handled\<close>.\<close>

type_synonym 'u HandlerWithResponse = "sRequest \<Rightarrow> 'u sResponse \<Rightarrow> 'u \<Rightarrow> (thrown + bool) \<times> 'u sResponse \<times> 'u"

type_synonym 'u Handlers = "(Matcher \<times> 'u Handler) list"

text \<open>What a handler with a content reader does: it ends, or it calls the reader with the response and the state it
  has by then and goes on with the result (or an exception) and what the reader has made of them.\<close>

datatype 'u Interaction =
    Finished "thrown option" "'u sResponse" 'u
  | ReadContent "bytes \<Rightarrow> 'u \<Rightarrow> bool \<times> 'u" "'u sResponse" 'u
      "thrown + bool \<Rightarrow> sRequest \<Rightarrow> 'u sResponse \<Rightarrow> 'u \<Rightarrow> 'u Interaction"
  | ReadForm "MultipartFormData \<Rightarrow> 'u \<Rightarrow> bool \<times> 'u" "bytes \<Rightarrow> 'u \<Rightarrow> bool \<times> 'u" "'u sResponse" 'u
      "thrown + bool \<Rightarrow> sRequest \<Rightarrow> 'u sResponse \<Rightarrow> 'u \<Rightarrow> 'u Interaction"

type_synonym 'u HandlerWithContentReader = "sRequest \<Rightarrow> 'u sResponse \<Rightarrow> 'u \<Rightarrow> 'u Interaction"

type_synonym 'u HandlersForContentReader = "(Matcher \<times> 'u HandlerWithContentReader) list"

record MountPointEntry =
  me_mount_point :: string
  me_base_dir :: string
  me_headers :: Headers

record 'u Server =
  sv_get_handlers :: "'u Handlers"
  sv_post_handlers :: "'u Handlers"
  sv_put_handlers :: "'u Handlers"
  sv_patch_handlers :: "'u Handlers"
  sv_delete_handlers :: "'u Handlers"
  sv_options_handlers :: "'u Handlers"
  sv_post_handlers_for_content_reader :: "'u HandlersForContentReader"
  sv_put_handlers_for_content_reader :: "'u HandlersForContentReader"
  sv_patch_handlers_for_content_reader :: "'u HandlersForContentReader"
  sv_delete_handlers_for_content_reader :: "'u HandlersForContentReader"
  sv_base_dirs :: "MountPointEntry list"
  sv_file_extension_and_mimetype_map :: "string \<rightharpoonup> string"
  sv_default_file_mimetype :: string
  sv_file_request_handler :: "'u Handler option"
  sv_error_handler :: "(sRequest \<Rightarrow> 'u sResponse \<Rightarrow> 'u \<Rightarrow> bool \<times> 'u sResponse \<times> 'u) option"
  sv_exception_handler :: "(sRequest \<Rightarrow> 'u sResponse \<Rightarrow> thrown \<Rightarrow> 'u \<Rightarrow> 'u sResponse \<times> 'u) option"
  sv_pre_routing_handler :: "'u HandlerWithResponse option"
  sv_post_routing_handler :: "(sRequest \<Rightarrow> 'u sResponse \<Rightarrow> 'u \<Rightarrow> 'u sResponse \<times> 'u) option"
  sv_pre_request_handler :: "'u HandlerWithResponse option"
  sv_expect_100_continue_handler :: "(sRequest \<Rightarrow> 'u sResponse \<Rightarrow> 'u \<Rightarrow> int \<times> 'u sResponse \<times> 'u) option"
  sv_logger :: "(sRequest \<Rightarrow> 'u sResponse \<Rightarrow> 'u \<Rightarrow> 'u) option"
  sv_default_headers :: Headers
  sv_header_writer :: "Headers \<Rightarrow> BufferStream \<Rightarrow> nat option \<times> BufferStream"
  sv_keep_alive_max_count :: nat
  sv_keep_alive_timeout_sec :: int
  sv_read_timeout :: "int \<times> int"
  sv_write_timeout :: "int \<times> int"
  sv_idle_interval :: "int \<times> int"
  sv_payload_max_length :: nat
  sv_address_family :: int
  sv_tcp_nodelay :: bool
  sv_ipv6_v6only :: bool

definition new_Server :: "'u Server" where
  "new_Server =
     \<lparr>sv_get_handlers = [], sv_post_handlers = [], sv_put_handlers = [], sv_patch_handlers = [],
      sv_delete_handlers = [], sv_options_handlers = [], sv_post_handlers_for_content_reader = [],
      sv_put_handlers_for_content_reader = [], sv_patch_handlers_for_content_reader = [],
      sv_delete_handlers_for_content_reader = [], sv_base_dirs = [],
      sv_file_extension_and_mimetype_map = Map.empty, sv_default_file_mimetype = ''application/octet-stream'',
      sv_file_request_handler = None, sv_error_handler = None, sv_exception_handler = None,
      sv_pre_routing_handler = None, sv_post_routing_handler = None, sv_pre_request_handler = None,
      sv_expect_100_continue_handler = None, sv_logger = None, sv_default_headers = [],
      sv_header_writer = write_headers BufferStream, sv_keep_alive_max_count = 100, sv_keep_alive_timeout_sec = 5,
      sv_read_timeout = (5, 0), sv_write_timeout = (5, 0), sv_idle_interval = (0, 0), sv_payload_max_length = SIZE_T_MAX,
      sv_address_family = AF_UNSPEC, sv_tcp_nodelay = False, sv_ipv6_v6only = False\<rparr>"

text \<open>Registering a handler: the constructor of the matcher may throw.\<close>

definition svr_Get :: "'u srv_env \<Rightarrow> string \<Rightarrow> 'u Handler \<Rightarrow> 'u Server \<Rightarrow> exn + 'u Server" where
  "svr_Get env pattern handler sv =
     map_sum id (\<lambda>m. sv\<lparr>sv_get_handlers := sv_get_handlers sv @ [(m, handler)]\<rparr>) (make_matcher env pattern)"

definition svr_Post :: "'u srv_env \<Rightarrow> string \<Rightarrow> 'u Handler \<Rightarrow> 'u Server \<Rightarrow> exn + 'u Server" where
  "svr_Post env pattern handler sv =
     map_sum id (\<lambda>m. sv\<lparr>sv_post_handlers := sv_post_handlers sv @ [(m, handler)]\<rparr>) (make_matcher env pattern)"

definition svr_Put :: "'u srv_env \<Rightarrow> string \<Rightarrow> 'u Handler \<Rightarrow> 'u Server \<Rightarrow> exn + 'u Server" where
  "svr_Put env pattern handler sv =
     map_sum id (\<lambda>m. sv\<lparr>sv_put_handlers := sv_put_handlers sv @ [(m, handler)]\<rparr>) (make_matcher env pattern)"

definition svr_Patch :: "'u srv_env \<Rightarrow> string \<Rightarrow> 'u Handler \<Rightarrow> 'u Server \<Rightarrow> exn + 'u Server" where
  "svr_Patch env pattern handler sv =
     map_sum id (\<lambda>m. sv\<lparr>sv_patch_handlers := sv_patch_handlers sv @ [(m, handler)]\<rparr>) (make_matcher env pattern)"

definition svr_Delete :: "'u srv_env \<Rightarrow> string \<Rightarrow> 'u Handler \<Rightarrow> 'u Server \<Rightarrow> exn + 'u Server" where
  "svr_Delete env pattern handler sv =
     map_sum id (\<lambda>m. sv\<lparr>sv_delete_handlers := sv_delete_handlers sv @ [(m, handler)]\<rparr>) (make_matcher env pattern)"

definition svr_Options :: "'u srv_env \<Rightarrow> string \<Rightarrow> 'u Handler \<Rightarrow> 'u Server \<Rightarrow> exn + 'u Server" where
  "svr_Options env pattern handler sv =
     map_sum id (\<lambda>m. sv\<lparr>sv_options_handlers := sv_options_handlers sv @ [(m, handler)]\<rparr>) (make_matcher env pattern)"

definition svr_Post_reader :: "'u srv_env \<Rightarrow> string \<Rightarrow> 'u HandlerWithContentReader \<Rightarrow> 'u Server \<Rightarrow> exn + 'u Server" where
  "svr_Post_reader env pattern handler sv =
     map_sum id (\<lambda>m. sv\<lparr>sv_post_handlers_for_content_reader := sv_post_handlers_for_content_reader sv @ [(m, handler)]\<rparr>)
       (make_matcher env pattern)"

definition svr_Put_reader :: "'u srv_env \<Rightarrow> string \<Rightarrow> 'u HandlerWithContentReader \<Rightarrow> 'u Server \<Rightarrow> exn + 'u Server" where
  "svr_Put_reader env pattern handler sv =
     map_sum id (\<lambda>m. sv\<lparr>sv_put_handlers_for_content_reader := sv_put_handlers_for_content_reader sv @ [(m, handler)]\<rparr>)
       (make_matcher env pattern)"

definition svr_Patch_reader :: "'u srv_env \<Rightarrow> string \<Rightarrow> 'u HandlerWithContentReader \<Rightarrow> 'u Server \<Rightarrow> exn + 'u Server" where
  "svr_Patch_reader env pattern handler sv =
     map_sum id (\<lambda>m. sv\<lparr>sv_patch_handlers_for_content_reader := sv_patch_handlers_for_content_reader sv @ [(m, handler)]\<rparr>)
       (make_matcher env pattern)"

definition svr_Delete_reader :: "'u srv_env \<Rightarrow> string \<Rightarrow> 'u HandlerWithContentReader \<Rightarrow> 'u Server \<Rightarrow> exn + 'u Server" where
  "svr_Delete_reader env pattern handler sv =
     map_sum id (\<lambda>m. sv\<lparr>sv_delete_handlers_for_content_reader := sv_delete_handlers_for_content_reader sv @ [(m, handler)]\<rparr>)
       (make_matcher env pattern)"

definition set_mount_point ::
  "'u srv_env \<Rightarrow> string \<Rightarrow> string \<Rightarrow> Headers \<Rightarrow> 'u Server \<Rightarrow> bool \<times> 'u Server" where
  "set_mount_point env mount_point dir headers sv =
     (if env_is_dir env dir then
        let mnt = (if mount_point \<noteq> [] then mount_point else ''/'') in
        if mnt \<noteq> [] \<and> hd mnt = CHR ''/''
        then (True, sv\<lparr>sv_base_dirs := sv_base_dirs sv @
                         [\<lparr>me_mount_point = mnt, me_base_dir = dir, me_headers = headers\<rparr>]\<rparr>)
        else (False, sv)
      else (False, sv))"

fun remove_entry :: "string \<Rightarrow> MountPointEntry list \<Rightarrow> bool \<times> MountPointEntry list" where
  "remove_entry mount_point [] = (False, [])"
| "remove_entry mount_point (e # es) =
     (if me_mount_point e = mount_point then (True, es) else map_prod id (Cons e) (remove_entry mount_point es))"

definition remove_mount_point :: "string \<Rightarrow> 'u Server \<Rightarrow> bool \<times> 'u Server" where
  "remove_mount_point mount_point sv =
     (case remove_entry mount_point (sv_base_dirs sv) of (found, es) \<Rightarrow> (found, sv\<lparr>sv_base_dirs := es\<rparr>))"

text \<open>Settings.\<close>

definition set_base_dir :: "'u srv_env \<Rightarrow> string \<Rightarrow> string \<Rightarrow> 'u Server \<Rightarrow> bool \<times> 'u Server" where
  "set_base_dir env dir mount_point sv = set_mount_point env mount_point dir [] sv"

definition svr_set_file_extension_and_mimetype_mapping :: "string \<Rightarrow> string \<Rightarrow> 'u Server \<Rightarrow> 'u Server" where
  "svr_set_file_extension_and_mimetype_mapping ext mime sv =
     sv\<lparr>sv_file_extension_and_mimetype_map := (sv_file_extension_and_mimetype_map sv)(ext \<mapsto> mime)\<rparr>"

definition svr_set_default_file_mimetype :: "string \<Rightarrow> 'u Server \<Rightarrow> 'u Server" where
  "svr_set_default_file_mimetype mime sv = sv\<lparr>sv_default_file_mimetype := mime\<rparr>"

definition svr_set_file_request_handler :: "'u Handler \<Rightarrow> 'u Server \<Rightarrow> 'u Server" where
  "svr_set_file_request_handler handler sv = sv\<lparr>sv_file_request_handler := Some handler\<rparr>"

text \<open>An error handler with a result, and one without, which handles every error.\<close>

definition svr_set_error_handler ::
  "(sRequest \<Rightarrow> 'u sResponse \<Rightarrow> 'u \<Rightarrow> bool \<times> 'u sResponse \<times> 'u) \<Rightarrow> 'u Server \<Rightarrow> 'u Server" where
  "svr_set_error_handler handler sv = sv\<lparr>sv_error_handler := Some handler\<rparr>"

definition svr_set_plain_error_handler ::
  "(sRequest \<Rightarrow> 'u sResponse \<Rightarrow> 'u \<Rightarrow> 'u sResponse \<times> 'u) \<Rightarrow> 'u Server \<Rightarrow> 'u Server" where
  "svr_set_plain_error_handler handler sv = sv\<lparr>sv_error_handler := Some (\<lambda>req res u. (True, handler req res u))\<rparr>"

definition svr_set_exception_handler ::
  "(sRequest \<Rightarrow> 'u sResponse \<Rightarrow> thrown \<Rightarrow> 'u \<Rightarrow> 'u sResponse \<times> 'u) \<Rightarrow> 'u Server \<Rightarrow> 'u Server" where
  "svr_set_exception_handler handler sv = sv\<lparr>sv_exception_handler := Some handler\<rparr>"

definition svr_set_pre_routing_handler :: "'u HandlerWithResponse \<Rightarrow> 'u Server \<Rightarrow> 'u Server" where
  "svr_set_pre_routing_handler handler sv = sv\<lparr>sv_pre_routing_handler := Some handler\<rparr>"

definition svr_set_post_routing_handler ::
  "(sRequest \<Rightarrow> 'u sResponse \<Rightarrow> 'u \<Rightarrow> 'u sResponse \<times> 'u) \<Rightarrow> 'u Server \<Rightarrow> 'u Server" where
  "svr_set_post_routing_handler handler sv = sv\<lparr>sv_post_routing_handler := Some handler\<rparr>"

definition svr_set_pre_request_handler :: "'u HandlerWithResponse \<Rightarrow> 'u Server \<Rightarrow> 'u Server" where
  "svr_set_pre_request_handler handler sv = sv\<lparr>sv_pre_request_handler := Some handler\<rparr>"

definition svr_set_logger :: "(sRequest \<Rightarrow> 'u sResponse \<Rightarrow> 'u \<Rightarrow> 'u) \<Rightarrow> 'u Server \<Rightarrow> 'u Server" where
  "svr_set_logger logger sv = sv\<lparr>sv_logger := Some logger\<rparr>"

definition svr_set_expect_100_continue_handler ::
  "(sRequest \<Rightarrow> 'u sResponse \<Rightarrow> 'u \<Rightarrow> int \<times> 'u sResponse \<times> 'u) \<Rightarrow> 'u Server \<Rightarrow> 'u Server" where
  "svr_set_expect_100_continue_handler handler sv = sv\<lparr>sv_expect_100_continue_handler := Some handler\<rparr>"

definition svr_set_address_family :: "int \<Rightarrow> 'u Server \<Rightarrow> 'u Server" where
  "svr_set_address_family family sv = sv\<lparr>sv_address_family := family\<rparr>"

definition svr_set_tcp_nodelay :: "bool \<Rightarrow> 'u Server \<Rightarrow> 'u Server" where
  "svr_set_tcp_nodelay b sv = sv\<lparr>sv_tcp_nodelay := b\<rparr>"

definition svr_set_ipv6_v6only :: "bool \<Rightarrow> 'u Server \<Rightarrow> 'u Server" where
  "svr_set_ipv6_v6only b sv = sv\<lparr>sv_ipv6_v6only := b\<rparr>"

definition svr_set_default_headers :: "Headers \<Rightarrow> 'u Server \<Rightarrow> 'u Server" where
  "svr_set_default_headers headers sv = sv\<lparr>sv_default_headers := headers\<rparr>"

definition svr_set_header_writer ::
  "(Headers \<Rightarrow> BufferStream \<Rightarrow> nat option \<times> BufferStream) \<Rightarrow> 'u Server \<Rightarrow> 'u Server" where
  "svr_set_header_writer writer sv = sv\<lparr>sv_header_writer := writer\<rparr>"

definition svr_set_keep_alive_max_count :: "nat \<Rightarrow> 'u Server \<Rightarrow> 'u Server" where
  "svr_set_keep_alive_max_count n sv = sv\<lparr>sv_keep_alive_max_count := n\<rparr>"

definition svr_set_keep_alive_timeout :: "int \<Rightarrow> 'u Server \<Rightarrow> 'u Server" where
  "svr_set_keep_alive_timeout sec sv = sv\<lparr>sv_keep_alive_timeout_sec := sec\<rparr>"

definition svr_set_read_timeout :: "int \<Rightarrow> int \<Rightarrow> 'u Server \<Rightarrow> 'u Server" where
  "svr_set_read_timeout sec usec sv = sv\<lparr>sv_read_timeout := (sec, usec)\<rparr>"

definition svr_set_write_timeout :: "int \<Rightarrow> int \<Rightarrow> 'u Server \<Rightarrow> 'u Server" where
  "svr_set_write_timeout sec usec sv = sv\<lparr>sv_write_timeout := (sec, usec)\<rparr>"

definition svr_set_idle_interval :: "int \<Rightarrow> int \<Rightarrow> 'u Server \<Rightarrow> 'u Server" where
  "svr_set_idle_interval sec usec sv = sv\<lparr>sv_idle_interval := (sec, usec)\<rparr>"

definition svr_set_payload_max_length :: "nat \<Rightarrow> 'u Server \<Rightarrow> 'u Server" where
  "svr_set_payload_max_length n sv = sv\<lparr>sv_payload_max_length := n\<rparr>"

section \<open>Reading a request\<close>

definition request_methods :: "string list" where
  "request_methods =
     [''GET'', ''HEAD'', ''POST'', ''PUT'', ''DELETE'', ''CONNECT'', ''OPTIONS'', ''TRACE'', ''PATCH'', ''PRI'']"

text \<open>The members are assigned as the pieces come, also when the line is refused later; an absent piece leaves
  its member as it was.\<close>

definition assign_request_line :: "string list \<Rightarrow> sRequest \<Rightarrow> sRequest" where
  "assign_request_line ps req =
     req\<lparr>sq_method := (if length ps > 0 then ps ! 0 else sq_method req),
         sq_target := (if length ps > 1 then ps ! 1 else sq_target req),
         sq_version := (if length ps > 2 then ps ! 2 else sq_version req)\<rparr>"

definition parse_request_line :: "string \<Rightarrow> sRequest \<Rightarrow> bool \<times> sRequest" where
  "parse_request_line line req =
     (let s = c_str line; len = length s in
      if len < 2 \<or> drop (len - 2) s \<noteq> [CR, LF] then (False, req)
      else
        let ps = split_at (take (len - 2) s) SP;
            req = assign_request_line ps req
        in if length ps \<noteq> 3 then (False, req)
           else if sq_method req \<notin> set request_methods then (False, req)
           else if sq_version req \<noteq> ''HTTP/1.1'' \<and> sq_version req \<noteq> ''HTTP/1.0'' then (False, req)
           else
             let target = takeWhile (\<lambda>c. c \<noteq> CHR ''#'') (sq_target req);
                 (lhs, rhs) = divide_at target CHR ''?''
             in (True, req\<lparr>sq_target := target, sq_path := decode_url lhs False,
                           sq_params := parse_query_text rhs (sq_params req)\<rparr>))"

definition FORM_URL_ENCODED_PAYLOAD_MAX_LENGTH :: nat where "FORM_URL_ENCODED_PAYLOAD_MAX_LENGTH = 8192"
definition MULTIPART_FORM_DATA_FILE_MAX_COUNT :: nat where "MULTIPART_FORM_DATA_FILE_MAX_COUNT = 1024"
definition REQUEST_URI_MAX_LENGTH :: nat where "REQUEST_URI_MAX_LENGTH = 8192"

text \<open>What the callbacks of \<open>Server::read_content\<close> write to: \<open>req.body\<close>, \<open>req.files\<close> (a \<open>std::multimap\<close>: in key
  order, a new entry after those with an equal key), the index of \<open>cur\<close> in it and \<open>file_count\<close>.\<close>

record content_state =
  ct_body :: string
  ct_files :: "(string \<times> form_file) list"
  ct_cur :: nat
  ct_file_count :: nat

definition regular_receiver :: "bytes \<Rightarrow> content_state \<Rightarrow> bool \<times> content_state" where
  "regular_receiver buf st =
     (if length (ct_body st) + length buf > STRING_MAX_SIZE then (False, st)
      else (True, st\<lparr>ct_body := ct_body st @ buf\<rparr>))"

definition multipart_header :: "MultipartFormData \<Rightarrow> content_state \<Rightarrow> bool \<times> content_state" where
  "multipart_header file st =
     (let n = ct_file_count st; st = st\<lparr>ct_file_count := n + 1\<rparr> in
      if n = MULTIPART_FORM_DATA_FILE_MAX_COUNT then (False, st)
      else
        let i = length (filter (\<lambda>f. fst f \<le> md_name file) (ct_files st)) in
        (True, st\<lparr>ct_files := take i (ct_files st) @ (md_name file, file, []) # drop i (ct_files st), ct_cur := i\<rparr>))"

definition multipart_content :: "bytes \<Rightarrow> content_state \<Rightarrow> bool \<times> content_state" where
  "multipart_content buf st =
     (case ct_files st ! ct_cur st of (name, file, content) \<Rightarrow>
        if length content + length buf > STRING_MAX_SIZE then (False, st)
        else (True, st\<lparr>ct_files := (ct_files st)[ct_cur st := (name, file, content @ buf)]\<rparr>))"

text \<open>\<open>out\<close> of \<open>read_content_core\<close>: the parser is part of the state that it works on.\<close>

definition content_out ::
  "bool \<Rightarrow> (bytes \<Rightarrow> 'c \<Rightarrow> bool \<times> 'c) \<Rightarrow> (MultipartFormData \<Rightarrow> 'c \<Rightarrow> bool \<times> 'c) \<Rightarrow> (bytes \<Rightarrow> 'c \<Rightarrow> bool \<times> 'c) \<Rightarrow>
     ('c \<times> MultipartParser) receiver" where
  "content_out multipart receiver header multipart_receiver buf off len st =
     (case st of (c, p) \<Rightarrow>
        if multipart
        then (case multipart_parse multipart_receiver header buf p c of (ok, p, c) \<Rightarrow> (ok, c, p))
        else (case receiver buf c of (ok, c) \<Rightarrow> (ok, c, p)))"

text \<open>What a request in progress works on.\<close>

record ('s, 'u) Exchange =
  ex_req :: sRequest
  ex_res :: "'u sResponse"
  ex_strm :: 's
  ex_u :: 'u

definition read_content_core ::
  "'s Stream \<Rightarrow> 'u Server \<Rightarrow> (bytes \<Rightarrow> 'c \<Rightarrow> bool \<times> 'c) \<Rightarrow> (MultipartFormData \<Rightarrow> 'c \<Rightarrow> bool \<times> 'c) \<Rightarrow>
     (bytes \<Rightarrow> 'c \<Rightarrow> bool \<times> 'c) \<Rightarrow> 'c \<Rightarrow> ('s, 'u) Exchange \<Rightarrow> (bool \<times> 'c \<times> ('s, 'u) Exchange) option" where
  "read_content_core strm sv receiver header multipart_receiver c ex =
     (let req = ex_req ex;
          multipart = sq_is_multipart_form_data req;
          boundary = parse_multipart_boundary (sq_get_header_value req ''Content-Type'')
      in if multipart \<and> boundary = None
         then Some (False, c, ex\<lparr>ex_res := (ex_res ex)\<lparr>sp_status := BadRequest_400\<rparr>\<rparr>)
         else
           let p = (if multipart then set_boundary (the boundary) new_MultipartParser else new_MultipartParser)
           in if sq_method req = ''DELETE'' \<and> \<not> has_header (sq_headers req) ''Content-Length'' then Some (True, c, ex)
              else do {
                (ok, status, hs, s, (c, p)) \<leftarrow>
                  read_content strm (sq_headers req) (sv_payload_max_length sv) (sp_status (ex_res ex)) None
                    (content_out multipart receiver header multipart_receiver) True (ex_strm ex) (c, p);
                let ex = ex\<lparr>ex_req := req\<lparr>sq_headers := hs\<rparr>, ex_res := (ex_res ex)\<lparr>sp_status := status\<rparr>, ex_strm := s\<rparr>
                in if \<not> ok then Some (False, c, ex)
                   else if sq_is_multipart_form_data (ex_req ex) \<and> \<not> mp_is_valid p
                   then Some (False, c, ex\<lparr>ex_res := (ex_res ex)\<lparr>sp_status := BadRequest_400\<rparr>\<rparr>)
                   else Some (True, c, ex)
              })"

definition srv_read_content ::
  "'s Stream \<Rightarrow> 'u Server \<Rightarrow> ('s, 'u) Exchange \<Rightarrow> (bool \<times> ('s, 'u) Exchange) option" where
  "srv_read_content strm sv ex = do {
     (ok, st, ex) \<leftarrow> read_content_core strm sv regular_receiver multipart_header multipart_content
       \<lparr>ct_body = sq_body (ex_req ex), ct_files = sq_files (ex_req ex), ct_cur = 0, ct_file_count = 0\<rparr> ex;
     let ex = ex\<lparr>ex_req := (ex_req ex)\<lparr>sq_body := ct_body st, sq_files := ct_files st\<rparr>\<rparr>
     in if ok then
          (if prefix ''application/x-www-form-urlencoded'' (sq_get_header_value (ex_req ex) ''Content-Type'') then
             (if length (sq_body (ex_req ex)) > FORM_URL_ENCODED_PAYLOAD_MAX_LENGTH
              then Some (False, ex\<lparr>ex_res := (ex_res ex)\<lparr>sp_status := PayloadTooLarge_413\<rparr>\<rparr>)
              else Some (True, ex\<lparr>ex_req := (ex_req ex)\<lparr>sq_params :=
                     parse_query_text (sq_body (ex_req ex)) (sq_params (ex_req ex))\<rparr>\<rparr>))
           else Some (True, ex))
        else Some (False, ex)
   }"

subsection \<open>The content reader\<close>

text \<open>The callbacks that a handler passes, or \<open>nullptr\<close>: calling that throws \<open>std::bad_function_call\<close>, which ends
  the reading.\<close>

record 'u reader_state =
  rd_u :: 'u
  rd_thrown :: bool

definition call_receiver :: "('a \<Rightarrow> 'u \<Rightarrow> bool \<times> 'u) option \<Rightarrow> 'a \<Rightarrow> 'u reader_state \<Rightarrow> bool \<times> 'u reader_state" where
  "call_receiver f x st =
     (case f of
        None \<Rightarrow> (False, st\<lparr>rd_thrown := True\<rparr>)
      | Some f \<Rightarrow> (case f x (rd_u st) of (ok, u) \<Rightarrow> (ok, st\<lparr>rd_u := u\<rparr>)))"

definition read_content_with_content_receiver ::
  "'s Stream \<Rightarrow> 'u Server \<Rightarrow> (bytes \<Rightarrow> 'u \<Rightarrow> bool \<times> 'u) option \<Rightarrow> (MultipartFormData \<Rightarrow> 'u \<Rightarrow> bool \<times> 'u) option \<Rightarrow>
     (bytes \<Rightarrow> 'u \<Rightarrow> bool \<times> 'u) option \<Rightarrow> ('s, 'u) Exchange \<Rightarrow> ((thrown + bool) \<times> ('s, 'u) Exchange) option" where
  "read_content_with_content_receiver strm sv receiver header multipart_receiver ex = do {
     (ok, st, ex') \<leftarrow> read_content_core strm sv (call_receiver receiver) (call_receiver header)
       (call_receiver multipart_receiver) \<lparr>rd_u = ex_u ex, rd_thrown = False\<rparr> ex;
     Some (if rd_thrown st
           then (Inl (Std_exception ''bad_function_call''), ex\<lparr>ex_strm := ex_strm ex', ex_u := rd_u st\<rparr>)
           else (Inr ok, ex'\<lparr>ex_u := rd_u st\<rparr>))
   }"

text \<open>A handler with a content reader, until it ends: it may call the reader for the plain content or for a form.\<close>

primrec run_interaction ::
  "'s Stream \<Rightarrow> 'u Server \<Rightarrow> 'u Interaction \<Rightarrow> ('s, 'u) Exchange \<Rightarrow> (thrown option \<times> ('s, 'u) Exchange) option" where
  "run_interaction strm sv (Finished thr res u) ex = Some (thr, ex\<lparr>ex_res := res, ex_u := u\<rparr>)"
| "run_interaction strm sv (ReadContent receiver res u k) ex = do {
     (r, ex) \<leftarrow> read_content_with_content_receiver strm sv (Some receiver) None None (ex\<lparr>ex_res := res, ex_u := u\<rparr>);
     run_interaction strm sv (k r (ex_req ex) (ex_res ex) (ex_u ex)) ex
   }"
| "run_interaction strm sv (ReadForm header receiver res u k) ex = do {
     (r, ex) \<leftarrow> read_content_with_content_receiver strm sv None (Some header) (Some receiver)
       (ex\<lparr>ex_res := res, ex_u := u\<rparr>);
     run_interaction strm sv (k r (ex_req ex) (ex_res ex) (ex_u ex)) ex
   }"

section \<open>Routing\<close>

text \<open>The provider of a mapped file.\<close>

definition file_provider :: "bytes \<Rightarrow> 'u provider" where
  "file_provider data offset len u = SinkWrite (take len (drop offset data)) u (\<lambda>ok u. Return True u)"

definition file_path :: "MountPointEntry \<Rightarrow> string \<Rightarrow> string" where
  "file_path entry sub_path =
     (let path = me_base_dir entry @ sub_path in if last path = CHR ''/'' then path @ ''index.html'' else path)"

text \<open>The result of a file request: whether it was handled, or what the file request handler threw.\<close>

fun handle_file_request_loop ::
  "'u srv_env \<Rightarrow> 'u Server \<Rightarrow> MountPointEntry list \<Rightarrow> sRequest \<Rightarrow> 'u sResponse \<Rightarrow> 'u \<Rightarrow>
     (thrown + bool) \<times> 'u sResponse \<times> 'u" where
  "handle_file_request_loop env sv [] req res u = (Inr False, res, u)"
| "handle_file_request_loop env sv (entry # entries) req res u =
     (let sub_path = CHR ''/'' # drop (length (me_mount_point entry)) (sq_path req);
          path = file_path entry sub_path
      in if \<not> prefix (me_mount_point entry) (sq_path req) \<or> \<not> is_valid_path sub_path
         then handle_file_request_loop env sv entries req res u
         else if env_is_dir env (c_str path)
         then (Inr True, set_redirect (sub_path @ ''/'') MovedPermanently_301 res, u)
         else if env_is_file env (c_str path) then
           let res = fold (\<lambda>(k, v). sp_set_header k v) (me_headers entry) res in
           (case env_mmap env (c_str path) of
              None \<Rightarrow> (Inr False, res, u)
            | Some data \<Rightarrow>
                let res = set_content_provider (length data)
                      (find_content_type path (sv_file_extension_and_mimetype_map sv) (sv_default_file_mimetype sv))
                      (file_provider data) res
                in (case sv_file_request_handler sv of
                      Some h \<Rightarrow>
                        if sq_method req \<noteq> ''HEAD''
                        then (case h req res u of
                                (Some e, res, u) \<Rightarrow> (Inl e, res, u)
                              | (None, res, u) \<Rightarrow> (Inr True, res, u))
                        else (Inr True, res, u)
                    | None \<Rightarrow> (Inr True, res, u)))
         else handle_file_request_loop env sv entries req res u)"

definition handle_file_request ::
  "'u srv_env \<Rightarrow> 'u Server \<Rightarrow> sRequest \<Rightarrow> 'u sResponse \<Rightarrow> 'u \<Rightarrow> (thrown + bool) \<times> 'u sResponse \<times> 'u" where
  "handle_file_request env sv req res u = handle_file_request_loop env sv (sv_base_dirs sv) req res u"

definition call_with_response ::
  "'u HandlerWithResponse option \<Rightarrow> ('s, 'u) Exchange \<Rightarrow> (thrown + bool) \<times> ('s, 'u) Exchange" where
  \<comment> \<open>an empty handler does not handle the request\<close>
  "call_with_response h ex =
     (case h of
        None \<Rightarrow> (Inr False, ex)
      | Some h \<Rightarrow> (case h (ex_req ex) (ex_res ex) (ex_u ex) of (r, res, u) \<Rightarrow> (r, ex\<lparr>ex_res := res, ex_u := u\<rparr>)))"

fun dispatch_request ::
  "'u srv_env \<Rightarrow> 'u Server \<Rightarrow> 'u Handlers \<Rightarrow> ('s, 'u) Exchange \<Rightarrow> (thrown + bool) \<times> ('s, 'u) Exchange" where
  "dispatch_request env sv [] ex = (Inr False, ex)"
| "dispatch_request env sv ((matcher, handler) # handlers) ex =
     (case matcher_match env matcher (ex_req ex) of
        (False, req) \<Rightarrow> dispatch_request env sv handlers (ex\<lparr>ex_req := req\<rparr>)
      | (True, req) \<Rightarrow>
          let ex = ex\<lparr>ex_req := req\<lparr>sq_matched_route := mt_pattern matcher\<rparr>\<rparr> in
          (case call_with_response (sv_pre_request_handler sv) ex of
             (Inl e, ex) \<Rightarrow> (Inl e, ex)
           | (Inr True, ex) \<Rightarrow> (Inr True, ex)
           | (Inr False, ex) \<Rightarrow>
               (case handler (ex_req ex) (ex_res ex) (ex_u ex) of (thr, res, u) \<Rightarrow>
                  let ex = ex\<lparr>ex_res := res, ex_u := u\<rparr> in
                  case thr of Some e \<Rightarrow> (Inl e, ex) | None \<Rightarrow> (Inr True, ex))))"

fun dispatch_request_for_content_reader ::
  "'u srv_env \<Rightarrow> 's Stream \<Rightarrow> 'u Server \<Rightarrow> 'u HandlersForContentReader \<Rightarrow> ('s, 'u) Exchange \<Rightarrow>
     ((thrown + bool) \<times> ('s, 'u) Exchange) option" where
  "dispatch_request_for_content_reader env strm sv [] ex = Some (Inr False, ex)"
| "dispatch_request_for_content_reader env strm sv ((matcher, handler) # handlers) ex =
     (case matcher_match env matcher (ex_req ex) of
        (False, req) \<Rightarrow> dispatch_request_for_content_reader env strm sv handlers (ex\<lparr>ex_req := req\<rparr>)
      | (True, req) \<Rightarrow>
          let ex = ex\<lparr>ex_req := req\<lparr>sq_matched_route := mt_pattern matcher\<rparr>\<rparr> in
          (case call_with_response (sv_pre_request_handler sv) ex of
             (Inl e, ex) \<Rightarrow> Some (Inl e, ex)
           | (Inr True, ex) \<Rightarrow> Some (Inr True, ex)
           | (Inr False, ex) \<Rightarrow>
               map_option (\<lambda>(thr, ex). (case thr of Some e \<Rightarrow> Inl e | None \<Rightarrow> Inr True, ex))
                 (run_interaction strm sv (handler (ex_req ex) (ex_res ex) (ex_u ex)) ex)))"

definition srv_expect_content :: "sRequest \<Rightarrow> bool" where
  "srv_expect_content req \<longleftrightarrow>
     sq_method req = ''POST'' \<or> sq_method req = ''PUT'' \<or> sq_method req = ''PATCH'' \<or>
     sq_method req = ''DELETE'' \<or>
     (has_header (sq_headers req) ''Content-Length'' \<and>
      fst (get_header_value_u64 (sq_headers req) ''Content-Length'' 0 0) > 0) \<or>
     is_chunked_transfer_encoding (sq_headers req)"

text \<open>The last part of \<open>routing\<close>: the regular handlers.\<close>

definition route_regular ::
  "'u srv_env \<Rightarrow> 'u Server \<Rightarrow> ('s, 'u) Exchange \<Rightarrow> (thrown + bool) \<times> ('s, 'u) Exchange" where
  "route_regular env sv ex =
     (let m = sq_method (ex_req ex) in
      if m = ''GET'' \<or> m = ''HEAD'' then dispatch_request env sv (sv_get_handlers sv) ex
      else if m = ''POST'' then dispatch_request env sv (sv_post_handlers sv) ex
      else if m = ''PUT'' then dispatch_request env sv (sv_put_handlers sv) ex
      else if m = ''DELETE'' then dispatch_request env sv (sv_delete_handlers sv) ex
      else if m = ''OPTIONS'' then dispatch_request env sv (sv_options_handlers sv) ex
      else if m = ''PATCH'' then dispatch_request env sv (sv_patch_handlers sv) ex
      else (Inr False, ex\<lparr>ex_res := (ex_res ex)\<lparr>sp_status := BadRequest_400\<rparr>\<rparr>))"

text \<open>The handlers with a content reader, by method.\<close>

definition content_reader_handlers :: "'u Server \<Rightarrow> string \<Rightarrow> 'u HandlersForContentReader" where
  "content_reader_handlers sv m =
     (if m = ''POST'' then sv_post_handlers_for_content_reader sv
      else if m = ''PUT'' then sv_put_handlers_for_content_reader sv
      else if m = ''PATCH'' then sv_patch_handlers_for_content_reader sv
      else if m = ''DELETE'' then sv_delete_handlers_for_content_reader sv
      else [])"

definition routing ::
  "'u srv_env \<Rightarrow> 's Stream \<Rightarrow> 'u Server \<Rightarrow> ('s, 'u) Exchange \<Rightarrow> ((thrown + bool) \<times> ('s, 'u) Exchange) option" where
  "routing env strm sv ex =
     (case call_with_response (sv_pre_routing_handler sv) ex of
        (Inl e, ex) \<Rightarrow> Some (Inl e, ex)
      | (Inr True, ex) \<Rightarrow> Some (Inr True, ex)
      | (Inr False, ex) \<Rightarrow>
          let (r, ex) =
                (if sq_method (ex_req ex) = ''GET'' \<or> sq_method (ex_req ex) = ''HEAD''
                 then (case handle_file_request env sv (ex_req ex) (ex_res ex) (ex_u ex) of
                         (r, res, u) \<Rightarrow> (r, ex\<lparr>ex_res := res, ex_u := u\<rparr>))
                 else (Inr False, ex))
          in (case r of
                Inl e \<Rightarrow> Some (Inl e, ex)
              | Inr True \<Rightarrow> Some (Inr True, ex)
              | Inr False \<Rightarrow>
                  if srv_expect_content (ex_req ex) then do {
                    (r, ex) \<leftarrow> dispatch_request_for_content_reader env strm sv
                      (content_reader_handlers sv (sq_method (ex_req ex))) ex;
                    (if r \<noteq> Inr False then Some (r, ex)
                     else do {
                       (ok, ex) \<leftarrow> srv_read_content strm sv ex;
                       Some (if \<not> ok then (Inr False, ex) else route_regular env sv ex)
                     })
                  }
                  else Some (route_regular env sv ex)))"

section \<open>Writing the response\<close>

datatype EncodingType = EncNone | Gzip | Brotli | Zstd

definition encoding_type :: "sRequest \<Rightarrow> 'u sResponse \<Rightarrow> EncodingType" where
  \<comment> \<open>none of the libraries is compiled in\<close>
  "encoding_type req res =
     (if \<not> can_compress_content_type (get_header_value (sp_headers res) ''Content-Type'' [] 0) then EncNone else EncNone)"

fun headers_erase_one :: "string \<Rightarrow> Headers \<Rightarrow> Headers" where
  "headers_erase_one key [] = []"
| "headers_erase_one key (kv # hs) = (if equal_ci key (fst kv) then hs else kv # headers_erase_one key hs)"

text \<open>The response, \<open>content_type\<close> and \<open>boundary\<close>.\<close>

definition multipart_content_type :: "(nat \<Rightarrow> nat) \<Rightarrow> sRequest \<Rightarrow> 'u sResponse \<Rightarrow> 'u sResponse \<times> string \<times> string" where
  "multipart_content_type engine req res =
     (if length (sq_ranges req) > 1 \<and> sp_status res = PartialContent_206 then
        let (content_type, hs) =
              (case header_values (sp_headers res) ''Content-Type'' of
                 [] \<Rightarrow> ([], sp_headers res)
               | v # vs \<Rightarrow> (v, headers_erase_one ''Content-Type'' (sp_headers res)));
            boundary = make_multipart_data_boundary engine
        in (sp_set_header ''Content-Type'' (''multipart/byteranges; boundary='' @ boundary) (res\<lparr>sp_headers := hs\<rparr>),
            content_type, boundary)
      else (res, [], []))"

text \<open>For a provider with a length: the headers that announce it.\<close>

definition apply_ranges_provider ::
  "sRequest \<Rightarrow> 'u sResponse \<Rightarrow> string \<Rightarrow> string \<Rightarrow> (range_fault + 'u sResponse) option" where
  "apply_ranges_provider req res content_type boundary =
     (if sq_ranges req = [] \<or> sp_status res \<noteq> PartialContent_206
      then Some (Inr (sp_set_header ''Content-Length'' (to_string_nat (sp_content_length res)) res))
      else if length (sq_ranges req) = 1 then
        (case get_range_offset_and_length (sq_ranges req ! 0) (sp_content_length res) of
           Inl e \<Rightarrow> Some (Inl e)
         | Inr ol \<Rightarrow>
             Some (Inr (sp_set_header ''Content-Length'' (to_string_nat (snd ol))
               (sp_set_header ''Content-Range'' (make_content_range_header_field ol (sp_content_length res)) res))))
      else
        (case get_multipart_ranges_data_length (sq_ranges req) boundary content_type (sp_content_length res) of
           None \<Rightarrow> None
         | Some (Inl e) \<Rightarrow> Some (Inl e)
         | Some (Inr (ok, len)) \<Rightarrow> Some (Inr (sp_set_header ''Content-Length'' (to_string_nat len) res))))"

text \<open>For a body: the part of it that is sent.\<close>

definition apply_ranges_body ::
  "sRequest \<Rightarrow> 'u sResponse \<Rightarrow> string \<Rightarrow> string \<Rightarrow> (range_fault + 'u sResponse) option" where
  "apply_ranges_body req res content_type boundary =
     (if sq_ranges req = [] \<or> sp_status res \<noteq> PartialContent_206 then Some (Inr res)
      else if length (sq_ranges req) = 1 then
        (case get_range_offset_and_length (sq_ranges req ! 0) (length (sp_body res)) of
           Inl e \<Rightarrow> Some (Inl e)
         | Inr (offset, len) \<Rightarrow>
             let res = sp_set_header ''Content-Range'' (make_content_range_header_field (offset, len) (length (sp_body res))) res
             in if \<not> offset + len \<le> length (sp_body res) then Some (Inl Assertion_failed)
                else Some (case body_substr (sp_body res) offset len of
                             Inl e \<Rightarrow> Inl (Throws e)
                           | Inr t \<Rightarrow> Inr (res\<lparr>sp_body := t\<rparr>)))
      else
        (case make_multipart_ranges_data (sq_ranges req) (sp_body res) boundary content_type (length (sp_body res)) [] of
           None \<Rightarrow> None
         | Some (Inl e) \<Rightarrow> Some (Inl e)
         | Some (Inr (ok, data)) \<Rightarrow> Some (Inr (res\<lparr>sp_body := data\<rparr>))))"

definition apply_ranges ::
  "(nat \<Rightarrow> nat) \<Rightarrow> sRequest \<Rightarrow> 'u sResponse \<Rightarrow> (range_fault + 'u sResponse \<times> string \<times> string) option" where
  "apply_ranges engine req res =
     (case multipart_content_type engine req res of (res, content_type, boundary) \<Rightarrow>
        if sp_body res = [] then
          (if sp_content_length res > 0 then
             map_option (map_sum id (\<lambda>res. (res, content_type, boundary)))
               (apply_ranges_provider req res content_type boundary)
           else if sp_content_provider res \<noteq> None \<and> sp_is_chunked_content_provider res then
             let type = encoding_type req res;
                 res = sp_set_header ''Transfer-Encoding'' ''chunked'' res;
                 res = (case type of
                          Gzip \<Rightarrow> sp_set_header ''Content-Encoding'' ''gzip'' res
                        | Brotli \<Rightarrow> sp_set_header ''Content-Encoding'' ''br'' res
                        | Zstd \<Rightarrow> sp_set_header ''Content-Encoding'' ''zstd'' res
                        | EncNone \<Rightarrow> res)
             in Some (Inr (res, content_type, boundary))
           else Some (Inr (res, content_type, boundary)))
        else
          map_option (map_sum id (\<lambda>res.
              (sp_set_header ''Content-Length'' (to_string_nat (length (sp_body res))) res, content_type, boundary)))
            (apply_ranges_body req res content_type boundary))"

definition srv_write_content_with_provider ::
  "'u srv_env \<Rightarrow> 's Stream \<Rightarrow> sRequest \<Rightarrow> 'u sResponse \<Rightarrow> 'u provider \<Rightarrow> string \<Rightarrow> string \<Rightarrow> 's \<Rightarrow> 'u \<Rightarrow>
     (range_fault + bool \<times> 's \<times> 'u) option" where
  "srv_write_content_with_provider env strm req res provider boundary content_type s u =
     (let finish = map_option (map_sum Throws (\<lambda>(ok, err, u, st). (ok, sk_strm st, u)));
          down = env_shutting_down env in
      if sp_content_length res > 0 then
        (if sq_ranges req = [] then finish (write_content strm provider 0 (sp_content_length res) down s u)
         else if length (sq_ranges req) = 1 then
           (case get_range_offset_and_length (sq_ranges req ! 0) (sp_content_length res) of
              Inl e \<Rightarrow> Some (Inl e)
            | Inr (offset, len) \<Rightarrow> finish (write_content strm provider offset len down s u))
         else
           write_multipart_ranges_data strm (sq_ranges req) provider boundary content_type (sp_content_length res) down s u)
      else if sp_is_chunked_content_provider res then finish (write_content_chunked strm provider down s u)
      else finish (write_content_without_length strm provider down s u))"

text \<open>The headers that every response gets.\<close>

definition response_headers :: "'u Server \<Rightarrow> bool \<Rightarrow> sRequest \<Rightarrow> 'u sResponse \<Rightarrow> 'u sResponse" where
  "response_headers sv close_connection req res =
     (let res = (if close_connection \<or> sq_get_header_value req ''Connection'' = ''close''
                 then sp_set_header ''Connection'' ''close'' res
                 else sp_set_header ''Keep-Alive'' (''timeout='' @ to_string_int (sv_keep_alive_timeout_sec sv) @
                        '', max='' @ to_string_nat (sv_keep_alive_max_count sv)) res);
          res = (if (sp_body res \<noteq> [] \<or> sp_content_length res > 0 \<or> sp_content_provider res \<noteq> None) \<and>
                    \<not> has_header (sp_headers res) ''Content-Type''
                 then sp_set_header ''Content-Type'' ''text/plain'' res else res);
          res = (if sp_body res = [] \<and> sp_content_length res = 0 \<and> sp_content_provider res = None \<and>
                    \<not> has_header (sp_headers res) ''Content-Length''
                 then sp_set_header ''Content-Length'' ''0'' res else res)
      in (if sq_method req = ''HEAD'' \<and> \<not> has_header (sp_headers res) ''Accept-Ranges''
          then sp_set_header ''Accept-Ranges'' ''bytes'' res else res))"

text \<open>The response line and the headers, collected in a buffer; \<open>None\<close> when the header writer returns 0.\<close>

definition response_head :: "'u Server \<Rightarrow> 'u sResponse \<Rightarrow> bytes option" where
  "response_head sv res =
     (case write_response_line BufferStream (sp_status res) new_BufferStream of (n, b) \<Rightarrow>
        if n = Some 0 then None
        else (case sv_header_writer sv (sp_headers res) b of (n, b) \<Rightarrow> if n = Some 0 then None else Some (bs_buffer b)))"

text \<open>The body part of \<open>write_response_core\<close>.\<close>

definition response_body ::
  "'u srv_env \<Rightarrow> 's Stream \<Rightarrow> sRequest \<Rightarrow> 'u sResponse \<Rightarrow> string \<Rightarrow> string \<Rightarrow> 's \<Rightarrow> 'u \<Rightarrow>
     (range_fault + bool \<times> 'u sResponse \<times> 's \<times> 'u) option" where
  "response_body env strm req res boundary content_type s u =
     (if sq_method req = ''HEAD'' then Some (Inr (True, res, s, u))
      else if sp_body res \<noteq> [] then
        map_option (\<lambda>(ok, s). Inr (ok, res, s, u)) (write_data strm (sp_body res) s)
      else
        (case sp_content_provider res of
           None \<Rightarrow> Some (Inr (True, res, s, u))
         | Some provider \<Rightarrow>
             map_option (map_sum id (\<lambda>(ok, s, u). (ok, if ok then res\<lparr>sp_content_provider_success := True\<rparr> else res, s, u)))
               (srv_write_content_with_provider env strm req res provider boundary content_type s u)))"

definition write_response_core ::
  "'u srv_env \<Rightarrow> 's Stream \<Rightarrow> 'u Server \<Rightarrow> bool \<Rightarrow> bool \<Rightarrow> ('s, 'u) Exchange \<Rightarrow> (range_fault + bool \<times> 's \<times> 'u) option" where
  "write_response_core env strm sv close_connection need_apply_ranges ex =
     (let req = ex_req ex in
      if sp_status (ex_res ex) = - 1 then Some (Inl Assertion_failed)
      else
        case (case sv_error_handler sv of
                Some h \<Rightarrow> if 400 \<le> sp_status (ex_res ex) then h req (ex_res ex) (ex_u ex) else (False, ex_res ex, ex_u ex)
              | None \<Rightarrow> (False, ex_res ex, ex_u ex)) of (handled, res, u) \<Rightarrow> do {
          ranged \<leftarrow> (if need_apply_ranges \<or> handled then apply_ranges (env_engine env) req res else Some (Inr (res, [], [])));
          (case ranged of
             Inl e \<Rightarrow> Some (Inl e)
           | Inr (res, content_type, boundary) \<Rightarrow>
               let res = response_headers sv close_connection req res;
                   (res, u) = (case sv_post_routing_handler sv of None \<Rightarrow> (res, u) | Some h \<Rightarrow> h req res u)
               in (case response_head sv res of
                     None \<Rightarrow> Some (Inr (False, ex_strm ex, u))
                   | Some head \<Rightarrow> do {
                       (ok, s) \<leftarrow> write_data strm head (ex_strm ex);
                       r \<leftarrow> response_body env strm req res boundary content_type s u;
                       Some (map_sum id (\<lambda>(ret, res, s, u).
                         (ret, s, case sv_logger sv of None \<Rightarrow> u | Some log \<Rightarrow> log req res u)) r)
                     }))
        })"

definition write_response ::
  "'u srv_env \<Rightarrow> 's Stream \<Rightarrow> 'u Server \<Rightarrow> bool \<Rightarrow> ('s, 'u) Exchange \<Rightarrow> (range_fault + bool \<times> 's \<times> 'u) option" where
  "write_response env strm sv close_connection ex =
     write_response_core env strm sv close_connection False (ex\<lparr>ex_req := (ex_req ex)\<lparr>sq_ranges := []\<rparr>\<rparr>)"

definition write_response_with_content ::
  "'u srv_env \<Rightarrow> 's Stream \<Rightarrow> 'u Server \<Rightarrow> bool \<Rightarrow> ('s, 'u) Exchange \<Rightarrow> (range_fault + bool \<times> 's \<times> 'u) option" where
  "write_response_with_content env strm sv close_connection ex =
     write_response_core env strm sv close_connection True ex"

section \<open>Processing a request\<close>

text \<open>The text of an exception in a header: line breaks are escaped.\<close>

definition escape_what :: "string \<Rightarrow> string" where
  "escape_what s = concat (map (\<lambda>c. if c = CR then [BSL, CHR ''r''] else if c = LF then [BSL, CHR ''n''] else [c]) (c_str s))"

text \<open>\<open>routing\<close> inside its \<open>try\<close> block.\<close>

definition guarded_routing ::
  "'u srv_env \<Rightarrow> 's Stream \<Rightarrow> 'u Server \<Rightarrow> ('s, 'u) Exchange \<Rightarrow> (bool \<times> ('s, 'u) Exchange) option" where
  "guarded_routing env strm sv ex = do {
     (r, ex) \<leftarrow> routing env strm sv ex;
     (case r of
        Inr routed \<Rightarrow> Some (routed, ex)
      | Inl e \<Rightarrow>
          (case sv_exception_handler sv of
             Some h \<Rightarrow> (case h (ex_req ex) (ex_res ex) e (ex_u ex) of (res, u) \<Rightarrow> Some (True, ex\<lparr>ex_res := res, ex_u := u\<rparr>))
           | None \<Rightarrow>
               let res = (ex_res ex)\<lparr>sp_status := InternalServerError_500\<rparr>;
                   val = (case e of Std_exception what \<Rightarrow> escape_what what | Other_exception \<Rightarrow> ''UNKNOWN'')
               in Some (False, ex\<lparr>ex_res := sp_set_header ''EXCEPTION_WHAT'' val res\<rparr>)))
   }"

text \<open>The response without its content.\<close>

definition without_content :: "int \<Rightarrow> ('s, 'u) Exchange \<Rightarrow> ('s, 'u) Exchange" where
  "without_content status ex =
     ex\<lparr>ex_res := (ex_res ex)\<lparr>sp_body := [], sp_content_length := 0, sp_content_provider := None, sp_status := status\<rparr>\<rparr>"

text \<open>What \<open>process_request\<close> does once the request has been routed.\<close>

definition answer_request ::
  "'u srv_env \<Rightarrow> 's Stream \<Rightarrow> 'u Server \<Rightarrow> bool \<Rightarrow> bool \<Rightarrow> ('s, 'u) Exchange \<Rightarrow> (range_fault + bool \<times> 's \<times> 'u) option" where
  "answer_request env strm sv close_connection routed ex =
     (let status = sp_status (ex_res ex) in
      if \<not> routed
      then write_response env strm sv close_connection
             (ex\<lparr>ex_res := (ex_res ex)\<lparr>sp_status := (if status = - 1 then NotFound_404 else status)\<rparr>\<rparr>)
      else
        let ex = ex\<lparr>ex_res := (ex_res ex)\<lparr>sp_status :=
                   (if status = - 1 then if sq_ranges (ex_req ex) = [] then OK_200 else PartialContent_206 else status)\<rparr>\<rparr>;
            path = sp_file_content_path (ex_res ex);
            file = (if path = [] then Some None else map_option Some (env_mmap env (c_str path)))
        in case file of
             None \<Rightarrow> write_response env strm sv close_connection (without_content NotFound_404 ex)
           | Some file \<Rightarrow>
               let ex = (case file of
                           None \<Rightarrow> ex
                         | Some data \<Rightarrow>
                             let content_type = sp_file_content_content_type (ex_res ex);
                                 content_type = (if content_type = []
                                   then find_content_type path (sv_file_extension_and_mimetype_map sv) (sv_default_file_mimetype sv)
                                   else content_type)
                             in ex\<lparr>ex_res := set_content_provider (length data) content_type (file_provider data) (ex_res ex)\<rparr>)
               in (case range_error (env_sort_ranges env) (sq_ranges (ex_req ex)) (sp_status (ex_res ex))
                          (sp_content_length (ex_res ex)) (length (sp_body (ex_res ex))) of
                     (refused, ranges) \<Rightarrow>
                       let ex = ex\<lparr>ex_req := (ex_req ex)\<lparr>sq_ranges := ranges\<rparr>\<rparr> in
                       if refused then write_response env strm sv close_connection (without_content RangeNotSatisfiable_416 ex)
                       else write_response_with_content env strm sv close_connection ex))"

text \<open>The addresses of the two ends.\<close>

record Addresses =
  ad_remote_addr :: string
  ad_remote_port :: int
  ad_local_addr :: string
  ad_local_port :: int

definition set_addresses :: "Addresses \<Rightarrow> sRequest \<Rightarrow> sRequest" where
  "set_addresses ad req =
     (let req = req\<lparr>sq_remote_addr := ad_remote_addr ad, sq_remote_port := ad_remote_port ad\<rparr>;
          req = sq_set_header ''REMOTE_ADDR'' (ad_remote_addr ad) req;
          req = sq_set_header ''REMOTE_PORT'' (to_string_int (ad_remote_port ad)) req;
          req = req\<lparr>sq_local_addr := ad_local_addr ad, sq_local_port := ad_local_port ad\<rparr>;
          req = sq_set_header ''LOCAL_ADDR'' (ad_local_addr ad) req
      in sq_set_header ''LOCAL_PORT'' (to_string_int (ad_local_port ad)) req)"

text \<open>The \<open>Expect\<close> header: \<open>None\<close> is to go on, \<open>Some\<close> the status of an answer that ends the request. The interim
  response is written without regard to the result.\<close>

definition expect_100_continue ::
  "'s Stream \<Rightarrow> 'u Server \<Rightarrow> ('s, 'u) Exchange \<Rightarrow> bool \<times> ('s, 'u) Exchange" where
  "expect_100_continue strm sv ex =
     (if sq_get_header_value (ex_req ex) ''Expect'' = ''100-continue'' then
        case (case sv_expect_100_continue_handler sv of
                None \<Rightarrow> (Continue_100, ex_res ex, ex_u ex)
              | Some h \<Rightarrow> h (ex_req ex) (ex_res ex) (ex_u ex)) of
          (status, res, u) \<Rightarrow>
            let ex = ex\<lparr>ex_res := res, ex_u := u\<rparr> in
            if status = Continue_100 \<or> status = ExpectationFailed_417
            then (True, ex\<lparr>ex_strm := snd (strm_write strm (snd (write_response_line strm status (ex_strm ex))) crlf)\<rparr>)
            else (False, ex)
      else (True, ex))"

text \<open>\<open>Server::process_request\<close>: the result, \<open>connection_closed\<close>, and what the stream and the application are
  left in.\<close>

definition srv_process_request ::
  "'u srv_env \<Rightarrow> 's Stream \<Rightarrow> 'u Server \<Rightarrow> Addresses \<Rightarrow> bool \<Rightarrow> 's \<Rightarrow> 'u \<Rightarrow>
     (range_fault + bool \<times> bool \<times> 's \<times> 'u) option" where
  "srv_process_request env strm sv ad close_connection s u =
     (case getline strm (new_line_reader 2048) s of (ok, line_reader, s) \<Rightarrow>
        if \<not> ok then Some (Inr (False, False, s, u))
        else
          let res = new_sResponse\<lparr>sp_version := ''HTTP/1.1'', sp_headers := sv_default_headers sv\<rparr>;
              (ok, req) = parse_request_line (lr_ptr line_reader) new_sRequest;
              ex = \<lparr>ex_req = req, ex_res = res, ex_strm = s, ex_u = u\<rparr>;
              reply = (\<lambda>closed. map_option (map_sum id (\<lambda>(ret, s, u). (ret, closed, s, u))));
              refuse = (\<lambda>closed status ex. reply closed (write_response env strm sv close_connection
                          (ex\<lparr>ex_res := (ex_res ex)\<lparr>sp_status := status\<rparr>\<rparr>)))
          in if \<not> ok then refuse False BadRequest_400 ex
             else do {
               (ok, hs, s) \<leftarrow> read_headers strm (sq_headers req) s;
               let req = req\<lparr>sq_headers := hs\<rparr>; ex = ex\<lparr>ex_req := req, ex_strm := s\<rparr>
               in if \<not> ok then refuse False BadRequest_400 ex
                  else if length (sq_target req) > REQUEST_URI_MAX_LENGTH then do {
                    (ok, dummy, s) \<leftarrow> read_headers strm [] s;
                    refuse False UriTooLong_414 (ex\<lparr>ex_strm := s\<rparr>)
                  }
                  else
                    let closed = (sq_get_header_value req ''Connection'' = ''close'' \<or>
                          (sq_version req = ''HTTP/1.0'' \<and> sq_get_header_value req ''Connection'' \<noteq> ''Keep-Alive''));
                        req = set_addresses ad req;
                        (ok, types) = (if has_header (sq_headers req) ''Accept''
                          then parse_accept_header (env_stod env) (env_sort_entries env) (sq_get_header_value req ''Accept'')
                          else (True, []));
                        req = req\<lparr>sq_accept_content_types := types\<rparr>
                    in if \<not> ok then refuse closed BadRequest_400 (ex\<lparr>ex_req := req\<rparr>)
                       else
                         let (ok, ranges) = (if has_header (sq_headers req) ''Range''
                               then parse_range_header (sq_get_header_value req ''Range'') [] else (True, []));
                             ex = ex\<lparr>ex_req := req\<lparr>sq_ranges := ranges\<rparr>\<rparr>
                         in if \<not> ok then refuse closed RangeNotSatisfiable_416 ex
                            else
                              (case expect_100_continue strm sv ex of
                                 (False, ex) \<Rightarrow> reply True (write_response env strm sv True ex)
                               | (True, ex) \<Rightarrow> do {
                                   (routed, ex) \<leftarrow> guarded_routing env strm sv ex;
                                   reply closed (answer_request env strm sv close_connection routed ex)
                                 })
             })"

section \<open>The requests of a connection\<close>

definition KEEPALIVE_TIMEOUT_CHECK_INTERVAL_USECOND :: int where
  "KEEPALIVE_TIMEOUT_CHECK_INTERVAL_USECOND = 10000"

text \<open>The system as the loop sees it: whether the server socket is closed, \<open>select_read\<close> and the clock, in
  microseconds.\<close>

record 'k KeepAlive =
  ka_svr_sock_closed :: "'k \<Rightarrow> bool"
  ka_select_read :: "'k \<Rightarrow> int \<times> 'k"
  ka_now :: "'k \<Rightarrow> int \<times> 'k"

partial_function (option) keep_alive_loop :: "'k KeepAlive \<Rightarrow> int \<Rightarrow> int \<Rightarrow> 'k \<Rightarrow> (bool \<times> 'k) option" where
  "keep_alive_loop ka start timeout k =
     (if ka_svr_sock_closed ka k then Some (False, k)
      else
        (case ka_select_read ka k of (val, k) \<Rightarrow>
           if val < 0 then Some (False, k)
           else if val = 0 then
             (case ka_now ka k of (t, k) \<Rightarrow>
                if t - start > timeout then Some (False, k) else keep_alive_loop ka start timeout k)
           else Some (True, k)))"

definition keep_alive :: "'k KeepAlive \<Rightarrow> int \<Rightarrow> 'k \<Rightarrow> (bool \<times> 'k) option" where
  "keep_alive ka keep_alive_timeout_sec k =
     (case ka_select_read ka k of (val, k) \<Rightarrow>
        if val > 0 then Some (True, k)
        else
          (case ka_now ka k of (t, k) \<Rightarrow>
             keep_alive_loop ka (t - KEEPALIVE_TIMEOUT_CHECK_INTERVAL_USECOND) (keep_alive_timeout_sec * 1000000) k))"

text \<open>The loop over the requests; \<open>callback\<close> gets \<open>close_connection\<close> and returns \<open>ret\<close> and \<open>connection_closed\<close>.\<close>

fun server_socket_loop ::
  "'k KeepAlive \<Rightarrow> int \<Rightarrow> (bool \<Rightarrow> 'k \<Rightarrow> 'u \<Rightarrow> (range_fault + bool \<times> bool \<times> 'k \<times> 'u) option) \<Rightarrow> nat \<Rightarrow> bool \<Rightarrow> 'k \<Rightarrow> 'u \<Rightarrow>
     (range_fault + bool \<times> 'k \<times> 'u) option" where
  "server_socket_loop ka timeout callback 0 ret k u = Some (Inr (ret, k, u))"
| "server_socket_loop ka timeout callback (Suc n) ret k u = do {
     (alive, k) \<leftarrow> keep_alive ka timeout k;
     (if \<not> alive then Some (Inr (ret, k, u))
      else do {
        r \<leftarrow> callback (Suc n = 1) k u;
        (case r of
           Inl e \<Rightarrow> Some (Inl e)
         | Inr (ret, connection_closed, k, u) \<Rightarrow>
             if \<not> ret \<or> connection_closed then Some (Inr (ret, k, u))
             else server_socket_loop ka timeout callback n ret k u)
      })
   }"

definition process_server_socket_core ::
  "'k KeepAlive \<Rightarrow> nat \<Rightarrow> int \<Rightarrow> (bool \<Rightarrow> 'k \<Rightarrow> 'u \<Rightarrow> (range_fault + bool \<times> bool \<times> 'k \<times> 'u) option) \<Rightarrow> 'k \<Rightarrow> 'u \<Rightarrow>
     (range_fault + bool \<times> 'k \<times> 'u) option" where
  "process_server_socket_core ka keep_alive_max_count timeout callback k u =
     (if \<not> keep_alive_max_count > 0 then Some (Inl Assertion_failed)
      else server_socket_loop ka timeout callback keep_alive_max_count False k u)"

text \<open>Every request gets a stream of its own, with an empty read buffer.\<close>

definition process_server_socket ::
  "'u srv_env \<Rightarrow> 'k Os \<Rightarrow> 'k KeepAlive \<Rightarrow> 'u Server \<Rightarrow> Addresses \<Rightarrow> 'k \<Rightarrow> 'u \<Rightarrow>
     (range_fault + bool \<times> 'k \<times> 'u) option" where
  "process_server_socket env os ka sv ad k u =
     process_server_socket_core ka (sv_keep_alive_max_count sv) (sv_keep_alive_timeout_sec sv)
       (\<lambda>close_connection k u.
          map_option (map_sum id (\<lambda>(ret, closed, s, u). (ret, closed, ss_sock s, u)))
            (srv_process_request env (SocketStream os) sv ad close_connection (new_SocketStream k) u))
       k u"

text \<open>The job of a worker: it serves the connection and closes it. \<open>ad\<close> are the addresses of the socket, \<open>close\<close> is
  \<open>shutdown_socket\<close> and \<open>close_socket\<close>.\<close>

definition process_and_close_socket ::
  "'u srv_env \<Rightarrow> 'k Os \<Rightarrow> 'k KeepAlive \<Rightarrow> ('k \<Rightarrow> 'k) \<Rightarrow> 'u Server \<Rightarrow> Addresses \<Rightarrow> 'k \<Rightarrow> 'u \<Rightarrow>
     (range_fault + bool \<times> 'k \<times> 'u) option" where
  "process_and_close_socket env os ka close sv ad k u =
     map_option (map_sum id (\<lambda>(ret, k, u). (ret, close k, u))) (process_server_socket env os ka sv ad k u)"

end
