(* ===== verification/Http_Service.thy ===== *)
theory Http_Service
  imports Http_Server
begin

text \<open>
  What the server of \<^verbatim>\<open>src/CPPTools/include/httplib.h\<close> does with a request that arrives whole: the request
  line, the headers and the content are read back as they were sent, the first matching handler is called
  with them, and what it answers goes out as a response that the client accepts. The last part puts the
  client's and the server's half of an exchange together.
\<close>

section \<open>Facts: the request line\<close>

text \<open>A path that the client's encoding and the server's decoding leave as it is.\<close>

definition plain_path :: "string \<Rightarrow> bool" where
  "plain_path path \<longleftrightarrow> path \<noteq> [] \<and> list_all (\<lambda>c. c \<notin> {NUL, TAB, CHR ''%'', CHR ''#'', CHR ''?''}) path \<and>
     length (encode_url path) \<le> REQUEST_URI_MAX_LENGTH"

lemma percent_byte_chars: "x \<in> set (percent_byte c) \<Longrightarrow> x \<notin> {NUL, TAB, CHR ''#'', CHR ''?''}"
proof -
  have "list_all (\<lambda>n. hex_upper n \<notin> {NUL, TAB, CHR ''#'', CHR ''?''}) [0..<16]" by code_simp
  then have h: "n < 16 \<Longrightarrow> hex_upper n \<notin> {NUL, TAB, CHR ''#'', CHR ''?''}" for n by (simp add: list_all_iff)
  have "byte c div 16 < 16" using byte_less [of c] by (simp add: less_mult_imp_div_less del: byte_less)
  then show "x \<in> set (percent_byte c) \<Longrightarrow> ?thesis"
    using h [of "byte c div 16"] h [of "byte c mod 16"] by (auto simp: percent_byte_def)
qed

lemma encode_url_chars:
  assumes "list_all (\<lambda>c. c \<notin> {NUL, TAB, CHR ''%'', CHR ''#'', CHR ''?''}) path" "x \<in> set (encode_url path)"
  shows "x \<notin> {NUL, TAB, CHR ''#'', CHR ''?'', SP, CR, LF}"
proof -
  have c: "x \<in> set (encode_url_char c) \<Longrightarrow> x \<notin> {NUL, TAB, CHR ''#'', CHR ''?''}"
    if "c \<notin> {NUL, TAB, CHR ''%'', CHR ''#'', CHR ''?''}" for c
    using that percent_byte_chars [of x c] by (auto simp: encode_url_char_def split: if_splits)
  have "x \<notin> {NUL, TAB, CHR ''#'', CHR ''?''}"
    using assms
  proof (induction path)
    case (Cons a path)
    then have "x \<in> set (encode_url_char a) \<or> x \<in> set (encode_url path)" by (auto split: if_splits)
    then show ?case
    proof
      assume "x \<in> set (encode_url_char a)"
      then show ?thesis by (rule c [rotated]) (use Cons.prems(1) in simp)
    next
      assume "x \<in> set (encode_url path)"
      then show ?thesis by (rule Cons.IH [rotated]) (use Cons.prems(1) in simp)
    qed
  qed simp
  with encode_url_no_crlf [OF assms(2)] show ?thesis by auto
qed

lemma encode_url_nonempty: "path \<noteq> [] \<Longrightarrow> hd path \<noteq> NUL \<Longrightarrow> encode_url path \<noteq> []"
  by (cases path) (auto simp: encode_url_char_def percent_byte_def)

lemma plain_path_facts:
  assumes "plain_path path"
  shows "path \<noteq> []" "NUL \<notin> set path" "CHR ''%'' \<notin> set path"
  using assms unfolding plain_path_def list_all_iff by blast+

lemma plain_path_encoded:
  assumes "plain_path path"
  shows "NUL \<notin> set (encode_url path)" "TAB \<notin> set (encode_url path)" "CHR ''#'' \<notin> set (encode_url path)"
    "CHR ''?'' \<notin> set (encode_url path)" "SP \<notin> set (encode_url path)" "LF \<notin> set (encode_url path)" "encode_url path \<noteq> []"
proof -
  have p: "list_all (\<lambda>c. c \<notin> {NUL, TAB, CHR ''%'', CHR ''#'', CHR ''?''}) path"
    using assms unfolding plain_path_def by blast
  show "NUL \<notin> set (encode_url path)" "TAB \<notin> set (encode_url path)" "CHR ''#'' \<notin> set (encode_url path)"
    "CHR ''?'' \<notin> set (encode_url path)" "SP \<notin> set (encode_url path)" "LF \<notin> set (encode_url path)"
    using encode_url_chars [OF p] by blast+
  have "hd path \<in> set path" using plain_path_facts(1) [OF assms] by simp
  then have "hd path \<noteq> NUL" using plain_path_facts(2) [OF assms] by metis
  with plain_path_facts(1) [OF assms] show "encode_url path \<noteq> []" by (intro encode_url_nonempty)
qed

lemma fields_three:
  assumes "d \<notin> set a" "d \<notin> set b" "d \<notin> set c"
  shows "fields_of d (a @ d # b @ d # c) = [a, b, c]"
  using assms by (simp add: fields_of_append_delim fields_of_no_delim)

lemma strip_no_blank: "\<lbrakk>s \<noteq> []; SP \<notin> set s; TAB \<notin> set s\<rbrakk> \<Longrightarrow> strip s = s"
  by (rule strip_id) (metis hd_in_set last_in_set is_space_or_tab_def)+

definition request_line :: "string \<Rightarrow> string \<Rightarrow> string" where
  "request_line method path = method @ '' '' @ encode_url path @ '' HTTP/1.1''"

definition parsed_line :: "string \<Rightarrow> string \<Rightarrow> sRequest" where
  "parsed_line method path =
     new_sRequest\<lparr>sq_method := method, sq_target := encode_url path, sq_version := ''HTTP/1.1'', sq_path := path, sq_params := []\<rparr>"

lemma plain_method:
  assumes "method \<in> set request_methods"
  shows "method \<noteq> []" "NUL \<notin> set method" "SP \<notin> set method" "TAB \<notin> set method" "LF \<notin> set method" "length method \<le> 7"
proof -
  have "list_all (\<lambda>m. m \<noteq> [] \<and> NUL \<notin> set m \<and> SP \<notin> set m \<and> TAB \<notin> set m \<and> LF \<notin> set m \<and> length m \<le> 7) request_methods"
    by code_simp
  with assms show "method \<noteq> []" "NUL \<notin> set method" "SP \<notin> set method" "TAB \<notin> set method" "LF \<notin> set method" "length method \<le> 7"
    unfolding list_all_iff by blast+
qed

lemma split_request_line:
  assumes "method \<in> set request_methods" "plain_path path"
  shows "split_at (request_line method path) SP = [method, encode_url path, ''HTTP/1.1'']"
proof -
  note plain_method [OF assms(1)]
  moreover note plain_path_encoded [OF assms(2)]
  ultimately show ?thesis
    using fields_three [of SP "method" "encode_url path" "''HTTP/1.1''"] strip_no_blank [of "''HTTP/1.1''"]
    by (simp add: split_at_eq request_line_def strip_no_blank)
qed

lemma takeWhile_notin: "d \<notin> set s \<Longrightarrow> takeWhile (\<lambda>c. c \<noteq> d) s = s"
  by (induction s) auto

lemma parse_request_line_ok:
  assumes "method \<in> set request_methods" "plain_path path"
  shows "parse_request_line (request_line method path @ crlf) new_sRequest = (True, parsed_line method path)"
proof -
  note p = plain_path_encoded [OF assms(2)]
  have "NUL \<notin> set method" by (rule plain_method(2) [OF assms(1)])
  then have nul: "NUL \<notin> set (request_line method path @ crlf)" using p(1) by (simp add: request_line_def)
  have tgt: "takeWhile (\<lambda>c. c \<noteq> CHR ''#'') (encode_url path) = encode_url path"
    using p(3) by (rule takeWhile_notin)
  have div: "divide_at (encode_url path) CHR ''?'' = (encode_url path, [])"
    using p(4) by (simp add: divide_at_def Let_def takeWhile_notin)
  have "c_str path = path" using plain_path_facts(2) [OF assms(2)] by (rule c_str_id)
  then have dec: "decode_url (encode_url path) False = path"
    using decode_encode_url_c_str [of path] plain_path_facts(3) [OF assms(2)] by metis
  have q: "parse_query_text [] [] = []" by (simp add: parse_query_text_def split_at_def split_loop.simps)
  show ?thesis
    unfolding parse_request_line_def c_str_id [OF nul] Let_def
    using split_request_line [OF assms] assms(1)
    by (simp add: assign_request_line_def parsed_line_def new_sRequest_def tgt div dec q nth_Cons')
qed


section \<open>Facts: the content of a request\<close>

text \<open>The regular receiver takes a body that fits into a string, whatever portions it comes in.\<close>

abbreviation regular_out :: "(content_state \<times> MultipartParser) receiver" where
  "regular_out \<equiv> content_out False regular_receiver multipart_header multipart_content"

context readable_stream
begin

lemma read_with_length_regular:
  "\<lbrakk>good s; pending s = d @ rest; length d = len - r; r \<le> len; length (ct_body st) + length d \<le> STRING_MAX_SIZE\<rbrakk> \<Longrightarrow>
     \<exists>s'. read_with_length_loop strm len None regular_out r s (st, p) = (True, s', st\<lparr>ct_body := ct_body st @ d\<rparr>, p) \<and>
       good s' \<and> pending s' = rest"
proof (induction "len - r" arbitrary: r s st d rule: less_induct)
  case less
  show ?case
  proof (cases "r < len")
    case False
    with less.prems show ?thesis by (subst read_with_length_loop.simps) simp
  next
    case True
    let ?n = "min (len - r) RECV_BUFSIZ"
    have n: "0 < ?n" using True by (simp add: RECV_BUFSIZ_def)
    obtain rr s1 where rd: "strm_read strm s ?n = (rr, s1)" by force
    from read_good [OF \<open>good s\<close> n rd] obtain bs where
      bs: "rr = Some bs" "good s1" "pending s = bs @ pending s1" "length bs \<le> ?n" "bs = [] \<longrightarrow> pending s = []" by blast
    have ne: "bs \<noteq> []" using bs(5) less.prems(2,3) True by auto
    obtain d' where d': "d = bs @ d'" "pending s1 = d' @ rest"
      using bs(3,4) less.prems(2,3) by (metis append_eq_append_conv_if append_take_drop_id append_assoc same_append_eq min.boundedE)
    let ?st = "st\<lparr>ct_body := ct_body st @ bs\<rparr>"
    have lt: "len - (r + length bs) < len - r" using ne True by (cases bs) auto
    have len': "length d' = len - (r + length bs)" "r + length bs \<le> len"
      using less.prems(3) d'(1) bs(4) True by auto
    obtain s' where s': "read_with_length_loop strm len None regular_out (r + length bs) s1 (?st, p) =
        (True, s', ?st\<lparr>ct_body := ct_body ?st @ d'\<rparr>, p)" "good s'" "pending s' = rest"
      using less.hyps [OF lt bs(2) d'(2) len', of ?st] less.prems(5) d'(1) by auto
    have "read_with_length_loop strm len None regular_out r s (st, p) =
        read_with_length_loop strm len None regular_out (r + length bs) s1 (?st, p)"
      using rd bs(1) ne True less.prems(5) d'(1)
      by (subst read_with_length_loop.simps) (cases bs; simp add: content_out_def regular_receiver_def call_progress_def)
    then show ?thesis using s' d'(1) by simp
  qed
qed

end

text \<open>The fields of a request that its content depends on.\<close>

definition declares :: "Headers \<Rightarrow> bytes \<Rightarrow> bool" where
  "declares hs body \<longleftrightarrow>
     header_values hs ''Content-Length'' = [to_string_nat (length body)] \<and> header_values hs ''Transfer-Encoding'' = [] \<and>
     header_values hs ''Content-Encoding'' = [] \<and>
     \<not> prefix ''multipart/form-data'' (get_header_value hs ''Content-Type'' [] 0) \<and>
     \<not> prefix ''application/x-www-form-urlencoded'' (get_header_value hs ''Content-Type'' [] 0)"

lemma declares_facts:
  assumes "declares hs body"
  shows "has_header hs ''Content-Length''" "\<not> is_chunked_transfer_encoding hs"
    "get_header_value hs ''Content-Encoding'' [] 0 = []"
  using assms by (simp_all add: declares_def has_header_def is_chunked_transfer_encoding_def get_header_value_def equal_ci_def)

context readable_stream
begin

lemma srv_read_content_ok:
  assumes "good (ex_strm ex)" "pending (ex_strm ex) = body @ rest" "declares (sq_headers (ex_req ex)) body"
    "length body \<le> STRING_MAX_SIZE" "length body \<le> sv_payload_max_length sv" "sq_body (ex_req ex) = []"
  shows "\<exists>s'. srv_read_content strm sv ex =
      Some (True, ex\<lparr>ex_req := (ex_req ex)\<lparr>sq_body := body\<rparr>, ex_strm := s'\<rparr>) \<and> good s' \<and> pending s' = rest"
proof -
  let ?hs = "sq_headers (ex_req ex)"
  let ?st = "\<lparr>ct_body = [], ct_files = sq_files (ex_req ex), ct_cur = 0, ct_file_count = 0\<rparr>"
  note d = declares_facts [OF assms(3)]
  have m: "\<not> sq_is_multipart_form_data (ex_req ex)"
    using assms(3) by (simp add: sq_is_multipart_form_data_def sq_get_header_value_def declares_def)
  have le: "length body \<le> UINT64_MAX" using assms(4) by (simp add: STRING_MAX_SIZE_def UINT64_MAX_def)
  have len: "get_header_value_u64 ?hs ''Content-Length'' UINT64_MAX 0 = (length body, False)"
    by (rule content_length_value [OF d(1) _ le]) (use assms(3) in \<open>simp add: declares_def\<close>)
  obtain s' where s': "read_with_length_loop strm (length body) None regular_out 0 (ex_strm ex) (?st, new_MultipartParser) =
      (True, s', ?st\<lparr>ct_body := body\<rparr>, new_MultipartParser)" "good s'" "pending s' = rest"
    using read_with_length_regular [OF assms(1,2), of "length body" 0 ?st] assms(4) by auto
  have "\<exists>s'. read_content strm ?hs (sv_payload_max_length sv) (sp_status (ex_res ex)) None regular_out True (ex_strm ex) (?st, new_MultipartParser) =
      Some (True, sp_status (ex_res ex), ?hs, s', ?st\<lparr>ct_body := body\<rparr>, new_MultipartParser) \<and> good s' \<and> pending s' = rest"
  proof (cases "body = []")
    case True
    with assms(1,2) d len show ?thesis
      by (auto simp: read_content_def prepare_content_receiver_def encoding_unsupported_def)
  next
    case False
    with s' d len assms(5) show ?thesis
      by (auto simp: read_content_def prepare_content_receiver_def read_content_with_length_def encoding_unsupported_def)
  qed
  then obtain s'' where s'': "read_content strm ?hs (sv_payload_max_length sv) (sp_status (ex_res ex)) None regular_out True
      (ex_strm ex) (?st, new_MultipartParser) = Some (True, sp_status (ex_res ex), ?hs, s'', ?st\<lparr>ct_body := body\<rparr>, new_MultipartParser)" "good s''" "pending s'' = rest"
    by blast
  have "read_content_core strm sv regular_receiver multipart_header multipart_content ?st ex = Some (True, ?st\<lparr>ct_body := body\<rparr>, ex\<lparr>ex_strm := s''\<rparr>)"
    using m d(1) s''(1) by (simp add: read_content_core_def Let_def)
  moreover have "(ex_req ex)\<lparr>sq_body := body, sq_files := sq_files (ex_req ex)\<rparr> = (ex_req ex)\<lparr>sq_body := body\<rparr>"
    by (cases "ex_req ex") simp
  moreover have "ex\<lparr>ex_strm := s'', ex_req := (ex_req ex)\<lparr>sq_body := body\<rparr>\<rparr> = ex\<lparr>ex_req := (ex_req ex)\<lparr>sq_body := body\<rparr>, ex_strm := s''\<rparr>"
    by (cases ex) simp
  ultimately show ?thesis
    using s'' assms(3,6) by (intro exI [of _ s'']) (simp add: srv_read_content_def sq_get_header_value_def declares_def)
qed

end


section \<open>Facts: the response\<close>

text \<open>A server with regular handlers and default headers only.\<close>

definition plain_server :: "'u Server \<Rightarrow> bool" where
  "plain_server sv \<longleftrightarrow> sv_pre_routing_handler sv = None \<and> sv_base_dirs sv = [] \<and> sv_pre_request_handler sv = None \<and>
     sv_post_routing_handler sv = None \<and> sv_error_handler sv = None \<and> sv_expect_100_continue_handler sv = None \<and>
     sv_logger sv = None \<and> sv_header_writer sv = write_headers BufferStream \<and>
     sv_post_handlers_for_content_reader sv = [] \<and> sv_put_handlers_for_content_reader sv = [] \<and>
     sv_patch_handlers_for_content_reader sv = [] \<and> sv_delete_handlers_for_content_reader sv = []"

text \<open>A response with a body that a handler has set, and the headers it is sent with.\<close>

definition plain_answer :: "'u sResponse \<Rightarrow> bool" where
  "plain_answer res \<longleftrightarrow> sp_body res \<noteq> [] \<and> length (sp_body res) \<le> STRING_MAX_SIZE \<and> sp_content_length res = 0 \<and>
     sp_content_provider res = None \<and> sp_file_content_path res = [] \<and>
     (sp_status res = - 1 \<or> 200 \<le> sp_status res \<and> sp_status res < 600 \<and> sp_status res \<notin> {204, 304}) \<and>
     (\<forall>kv \<in> set (sp_headers res). plain_field kv) \<and> length (sp_headers res) \<le> 97 \<and>
     header_values (sp_headers res) ''Content-Length'' = [] \<and> header_values (sp_headers res) ''Transfer-Encoding'' = [] \<and>
     header_values (sp_headers res) ''Content-Encoding'' = []"

definition answer_status :: "'u sResponse \<Rightarrow> int" where
  "answer_status res = (if sp_status res = - 1 then OK_200 else sp_status res)"

definition answer_headers :: "Headers \<Rightarrow> bytes \<Rightarrow> Headers" where
  "answer_headers hs body =
     (let hs = hs @ [(''Content-Length'', to_string_nat (length body)), (''Connection'', ''close'')]
      in if has_header hs ''Content-Type'' then hs else hs @ [(''Content-Type'', ''text/plain'')])"

lemma header_values_append: "header_values (hs @ hs') key = header_values hs key @ header_values hs' key"
  by (simp add: header_values_def)

lemma header_values_single: "header_values [(k, v)] key = (if equal_ci key k then [v] else [])"
  by (simp add: header_values_def)

lemma fixed_fields:
  "is_field_name ''Content-Length''" "is_field_name ''Connection''" "is_field_value ''close''"
  "is_field_name ''Content-Type''" "is_field_value ''text/plain''"
  by code_simp+

lemma fixed_plain_fields: "plain_field (''Connection'', ''close'')" "plain_field (''Content-Type'', ''text/plain'')"
  by code_simp+

lemma content_length_plain:
  assumes "n \<le> STRING_MAX_SIZE"
  shows "plain_field (''Content-Length'', to_string_nat n)"
proof -
  have len: "length (to_string_nat n) \<le> Suc k" if "n < 10 ^ Suc k" for k n
    using that
  proof (induction k arbitrary: n)
    case 0
    then show ?case by (subst to_string_nat.simps) simp
  next
    case (Suc k)
    have "n div 10 < 10 ^ Suc k" using Suc.prems by (simp add: less_mult_imp_div_less mult.commute)
    with Suc.IH show ?case by (subst to_string_nat.simps) simp
  qed
  have "length (to_string_nat n) \<le> 20" using len [of n 19] assms by (simp add: STRING_MAX_SIZE_def)
  moreover have "CHR ''%'' \<notin> set (to_string_nat n)"
    using to_string_nat_digits [of n] by (auto simp: isdigit_def byte_def)
  ultimately show ?thesis
    using fixed_fields(1) digits_field_value [of n]
    by (simp add: plain_field_def field_line_def HEADER_MAX_LENGTH_def)
qed

lemma header_names_differ:
  "\<not> equal_ci ''Content-Length'' ''Connection''" "\<not> equal_ci ''Content-Length'' ''Content-Type''"
  "\<not> equal_ci ''Transfer-Encoding'' ''Connection''" "\<not> equal_ci ''Transfer-Encoding'' ''Content-Length''"
  "\<not> equal_ci ''Transfer-Encoding'' ''Content-Type''" "\<not> equal_ci ''Content-Encoding'' ''Connection''"
  "\<not> equal_ci ''Content-Encoding'' ''Content-Length''" "\<not> equal_ci ''Content-Encoding'' ''Content-Type''"
  "\<not> equal_ci ''Content-Type'' ''Content-Length''" "\<not> equal_ci ''Content-Type'' ''Connection''"
  by (simp_all add: equal_ci_def)

lemma status_message_plain: "plain_reason (status_message st)"
proof -
  have "list_all (\<lambda>kv. plain_reason (snd kv)) status_messages" "plain_reason ''Internal Server Error''" by code_simp+
  then show ?thesis
    by (auto simp: status_message_def list_all_iff dest!: map_of_SomeD split: option.splits)
qed

lemma answer_valid:
  assumes "plain_answer res"
  shows "valid_response (nat (answer_status res)) (status_message (answer_status res))
    (answer_headers (sp_headers res) (sp_body res)) (sp_body res) (sp_body res) []"
proof -
  let ?hs = "answer_headers (sp_headers res) (sp_body res)"
  note a = assms [unfolded plain_answer_def]
  have cl: "header_values ?hs ''Content-Length'' = [to_string_nat (length (sp_body res))]"
    using a by (simp add: answer_headers_def Let_def header_values_append header_values_def header_names_differ)
  have te: "header_values ?hs ''Transfer-Encoding'' = []" and ce: "header_values ?hs ''Content-Encoding'' = []"
    using a by (simp_all add: answer_headers_def Let_def header_values_append header_values_def header_names_differ)
  have plain: "\<forall>kv \<in> set ?hs. plain_field kv"
    using a fixed_plain_fields content_length_plain [of "length (sp_body res)"]
    by (auto simp: answer_headers_def Let_def)
  have cnt: "length ?hs \<le> HEADER_MAX_COUNT" using a by (simp add: answer_headers_def Let_def HEADER_MAX_COUNT_def)
  have st: "100 < nat (answer_status res)" "nat (answer_status res) < 1000"
      "nat (answer_status res) \<noteq> 204" "nat (answer_status res) \<noteq> 304"
    using a by (auto simp: answer_status_def)
  have chunk: "\<not> is_chunked_transfer_encoding ?hs"
    using te by (simp add: is_chunked_transfer_encoding_def get_header_value_def equal_ci_def)
  have enc: "\<not> encoding_unsupported (get_header_value ?hs ''Content-Encoding'' [] 0)"
    using ce by (simp add: get_header_value_def encoding_unsupported_def)
  show ?thesis
    unfolding valid_response_def framed_def using st status_message_plain plain cnt chunk enc a cl
    by (simp add: has_header_def)
qed

lemma write_headers_loop_more:
  "fst (write_headers_loop BufferStream hs m b) = Some k \<Longrightarrow> m < k"
proof (induction hs arbitrary: m b)
  case Nil
  then show ?case by (simp add: BufferStream_def bs_write_def)
next
  case (Cons kv hs)
  obtain b' where b': "strm_write BufferStream b (field_line kv) = (Some (length (field_line kv)), b')"
    by (simp add: BufferStream_def bs_write_def)
  with Cons.prems have "fst (write_headers_loop BufferStream hs (m + length (field_line kv)) b') = Some k" by simp
  from Cons.IH [OF this] show ?case by simp
qed

lemma response_head_ok:
  assumes "plain_server sv" "0 \<le> sp_status res"
  shows "response_head sv res =
    Some (response_line (nat (sp_status res)) (status_message (sp_status res)) @ crlf @ header_section (sp_headers res))"
proof -
  let ?b = "\<lparr>bs_buffer = response_line (nat (sp_status res)) (status_message (sp_status res)) @ crlf, bs_position = 0\<rparr>"
  obtain n where n: "write_headers_loop BufferStream (sp_headers res) 0 ?b =
      (Some n, ?b\<lparr>bs_buffer := bs_buffer ?b @ header_section (sp_headers res)\<rparr>)"
    using write_headers_buffer [of "sp_headers res" 0 ?b] by blast
  have "n \<noteq> 0" using write_headers_loop_more [of "sp_headers res" 0 ?b n] n by simp
  note pos = this
  have "write_response_line BufferStream (sp_status res) new_BufferStream =
      (Some (length (bs_buffer ?b)), ?b)"
    using assms(2) by (simp add: write_response_line_def BufferStream_def bs_write_def new_BufferStream_def response_line_def
        to_string_int_def)
  then show ?thesis
    using assms(1) n pos by (simp add: response_head_def plain_server_def write_headers_def response_line_def)
qed

context duplex_stream
begin

lemma answer_request_ok:
  assumes "good (ex_strm ex)" "plain_server sv" "plain_answer (ex_res ex)" "sq_ranges (ex_req ex) = []"
    "sq_method (ex_req ex) \<noteq> ''HEAD''" "sq_get_header_value (ex_req ex) ''Connection'' = ''close''"
  shows "\<exists>s'. answer_request env strm sv cc True ex = Some (Inr (True, s', ex_u ex)) \<and> good s' \<and>
    written s' = written (ex_strm ex) @ response_wire (nat (answer_status (ex_res ex))) (status_message (answer_status (ex_res ex)))
      (answer_headers (sp_headers (ex_res ex)) (sp_body (ex_res ex))) (sp_body (ex_res ex)) \<and>
    pending s' = pending (ex_strm ex)"
proof -
  note a = assms(3) [unfolded plain_answer_def] and p = assms(2) [unfolded plain_server_def]
  define res where "res = (ex_res ex)\<lparr>sp_status := answer_status (ex_res ex)\<rparr>"
  define hs where "hs = answer_headers (sp_headers (ex_res ex)) (sp_body (ex_res ex))"
  have st: "sp_status res = answer_status (ex_res ex)" "0 \<le> answer_status (ex_res ex)" "answer_status (ex_res ex) \<noteq> - 1"
    using a by (auto simp: res_def answer_status_def)
  let ?res1 = "sp_set_header ''Content-Length'' (to_string_nat (length (sp_body res))) res"
  have ranges: "apply_ranges engine (ex_req ex) res = Some (Inr (?res1, [], []))" for engine
    using a assms(4) by (simp add: apply_ranges_def multipart_content_type_def apply_ranges_body_def res_def)
  have headers: "response_headers sv cc (ex_req ex) ?res1 = res\<lparr>sp_headers := hs\<rparr>"
    using a assms(5,6) fixed_fields digits_field_value
    by (simp add: response_headers_def Let_def sp_set_header_def set_header_def headers_emplace_def res_def hs_def answer_headers_def)
  let ?head = "response_line (nat (answer_status (ex_res ex))) (status_message (answer_status (ex_res ex))) @ crlf @ header_section hs"
  have head: "response_head sv (res\<lparr>sp_headers := hs\<rparr>) = Some ?head"
    using response_head_ok [OF assms(2), of "res\<lparr>sp_headers := hs\<rparr>"] st by simp
  note w = writable_stream.write_data_good [OF keeps_pending [of "pending (ex_strm ex)"]]
  obtain s1 where s1: "write_data strm ?head (ex_strm ex) = Some (True, s1)" "good s1" "pending s1 = pending (ex_strm ex)"
      "written s1 = written (ex_strm ex) @ ?head"
    using w [of "ex_strm ex" ?head] assms(1) by auto
  obtain s2 where s2: "write_data strm (sp_body (ex_res ex)) s1 = Some (True, s2)" "good s2" "pending s2 = pending (ex_strm ex)"
      "written s2 = written s1 @ sp_body (ex_res ex)"
    using w [of s1 "sp_body (ex_res ex)"] s1 by auto
  have body: "response_body env strm (ex_req ex) (res\<lparr>sp_headers := hs\<rparr>) [] [] s1 (ex_u ex) =
      Some (Inr (True, res\<lparr>sp_headers := hs\<rparr>, s2, ex_u ex))"
    using a assms(5) s2(1) by (simp add: response_body_def res_def)
  have "write_response_with_content env strm sv cc (ex\<lparr>ex_res := res\<rparr>) = Some (Inr (True, s2, ex_u ex))"
    using st p ranges headers head s1(1) body
    by (simp add: write_response_with_content_def write_response_core_def Let_def)
  moreover have same: "(ex_req ex)\<lparr>sq_ranges := []\<rparr> = ex_req ex" using assms(4) by (cases "ex_req ex") simp
  have same': "ex\<lparr>ex_res := r, ex_req := ex_req ex\<rparr> = ex\<lparr>ex_res := r\<rparr>" for r by (cases ex) simp
  have "answer_request env strm sv cc True ex = write_response_with_content env strm sv cc (ex\<lparr>ex_res := res\<rparr>)"
    using a assms(4) by (simp add: answer_request_def Let_def range_error_def res_def answer_status_def same same')
  ultimately show ?thesis using s1 s2 by (simp add: response_wire_def hs_def)
qed

end

section \<open>Facts: routing\<close>

text \<open>Whether a matcher accepts a path, and the request with what it captures.\<close>

definition accepts :: "'u srv_env \<Rightarrow> string \<Rightarrow> Matcher \<Rightarrow> bool" where
  "accepts env path m \<longleftrightarrow> fst (matcher_match env m (new_sRequest\<lparr>sq_path := path\<rparr>))"

definition captured :: "'u srv_env \<Rightarrow> Matcher \<Rightarrow> sRequest \<Rightarrow> sRequest" where
  "captured env m req = (snd (matcher_match env m req))\<lparr>sq_matched_route := mt_pattern m\<rparr>"

lemma accepts_iff: "fst (matcher_match env m req) \<longleftrightarrow> accepts env (sq_path req) m"
  by (auto simp: accepts_def matcher_match_def Let_def split: Matcher.splits option.splits prod.splits)

text \<open>What a failed matcher leaves in the request does not reach the next one.\<close>

lemma captured_after: "captured env m (snd (matcher_match env m' req)) = captured env m req"
  by (cases req) (auto simp: captured_def matcher_match_def Let_def split: Matcher.splits option.splits prod.splits)

lemma matcher_match_path: "sq_path (snd (matcher_match env m req)) = sq_path req"
  by (auto simp: matcher_match_def Let_def split: Matcher.splits option.splits prod.splits)

definition first_match :: "'u srv_env \<Rightarrow> 'u Handlers \<Rightarrow> string \<Rightarrow> (Matcher \<times> 'u Handler) option" where
  "first_match env hs path = find (\<lambda>mh. accepts env path (fst mh)) hs"

lemma dispatch_request_first:
  assumes "sv_pre_request_handler sv = None" "first_match env hs (sq_path (ex_req ex)) = Some (m, h)"
    "h (captured env m (ex_req ex)) (ex_res ex) (ex_u ex) = (thr, res, u)"
  shows "dispatch_request env sv hs ex =
    (case thr of Some e \<Rightarrow> Inl e | None \<Rightarrow> Inr True,
     ex\<lparr>ex_req := captured env m (ex_req ex), ex_res := res, ex_u := u\<rparr>)"
  using assms(2,3)
proof (induction hs arbitrary: ex)
  case Nil
  then show ?case by (simp add: first_match_def)
next
  case (Cons mh hs)
  obtain m' h' where mh: "mh = (m', h')" by force
  obtain ok req where mm: "matcher_match env m' (ex_req ex) = (ok, req)" by force
  have ok: "ok = accepts env (sq_path (ex_req ex)) m'" using accepts_iff [of env m' "ex_req ex"] mm by simp
  show ?case
  proof (cases ok)
    case True
    with Cons.prems mh ok have eq: "m' = m" "h' = h" by (simp_all add: first_match_def)
    have "req\<lparr>sq_matched_route := mt_pattern m\<rparr> = captured env m (ex_req ex)" using mm eq by (simp add: captured_def)
    with Cons.prems(2) mm True mh eq assms(1) show ?thesis
      by (simp add: call_with_response_def Let_def split: option.splits)
  next
    case False
    have path: "sq_path req = sq_path (ex_req ex)" using matcher_match_path [of env m' "ex_req ex"] mm by simp
    have cap: "captured env m req = captured env m (ex_req ex)" using captured_after [of env m m' "ex_req ex"] mm by simp
    have "first_match env hs (sq_path (ex_req (ex\<lparr>ex_req := req\<rparr>))) = Some (m, h)"
      using Cons.prems(1) False ok mh path by (simp add: first_match_def)
    from Cons.IH [OF this] Cons.prems(2) cap have
      "dispatch_request env sv hs (ex\<lparr>ex_req := req\<rparr>) = (case thr of Some e \<Rightarrow> Inl e | None \<Rightarrow> Inr True,
         (ex\<lparr>ex_req := req\<rparr>)\<lparr>ex_req := captured env m (ex_req ex), ex_res := res, ex_u := u\<rparr>)" by simp
    then show ?thesis using mm False mh by simp
  qed
qed

lemma dispatch_request_none:
  "first_match env hs (sq_path (ex_req ex)) = None \<Longrightarrow>
     \<exists>req. dispatch_request env sv hs ex = (Inr False, ex\<lparr>ex_req := req\<rparr>)"
proof (induction hs arbitrary: ex)
  case Nil
  then show ?case by (intro exI [of _ "ex_req ex"]) simp
next
  case (Cons mh hs)
  obtain m' h' where mh: "mh = (m', h')" by force
  obtain ok req where mm: "matcher_match env m' (ex_req ex) = (ok, req)" by force
  have no: "\<not> ok" using accepts_iff [of env m' "ex_req ex"] mm Cons.prems mh by (auto simp: first_match_def split: if_splits)
  have path: "sq_path req = sq_path (ex_req ex)" using matcher_match_path [of env m' "ex_req ex"] mm by simp
  have "first_match env hs (sq_path (ex_req (ex\<lparr>ex_req := req\<rparr>))) = None"
    using Cons.prems mh path by (simp add: first_match_def split: if_splits)
  from Cons.IH [OF this] show ?case using mm no mh by simp
qed

definition handlers_of :: "'u Server \<Rightarrow> string \<Rightarrow> 'u Handlers" where
  "handlers_of sv method =
     (if method = ''GET'' then sv_get_handlers sv else if method = ''POST'' then sv_post_handlers sv
      else if method = ''PUT'' then sv_put_handlers sv else if method = ''DELETE'' then sv_delete_handlers sv
      else if method = ''OPTIONS'' then sv_options_handlers sv else if method = ''PATCH'' then sv_patch_handlers sv
      else [])"

lemma handlers_of_method: "handlers_of sv method \<noteq> [] \<Longrightarrow> method \<in> set request_methods \<and> method \<noteq> ''HEAD''"
  by (auto simp: handlers_of_def request_methods_def split: if_splits)

lemma route_regular_handlers:
  "handlers_of sv (sq_method (ex_req ex)) \<noteq> [] \<Longrightarrow>
     route_regular env sv ex = dispatch_request env sv (handlers_of sv (sq_method (ex_req ex))) ex"
  by (auto simp: route_regular_def handlers_of_def split: if_splits)

text \<open>A body that comes with the request: declared, or none at all.\<close>

definition carries :: "string \<Rightarrow> Headers \<Rightarrow> bytes \<Rightarrow> bool" where
  "carries method hs body \<longleftrightarrow> declares hs body \<or>
     body = [] \<and> method \<notin> {''POST'', ''PUT'', ''PATCH'', ''DELETE''} \<and>
     header_values hs ''Content-Length'' = [] \<and> header_values hs ''Transfer-Encoding'' = []"

context readable_stream
begin

lemma routing_ok:
  assumes "good (ex_strm ex)" "pending (ex_strm ex) = body @ rest" "carries (sq_method (ex_req ex)) (sq_headers (ex_req ex)) body"
    "length body \<le> STRING_MAX_SIZE" "length body \<le> sv_payload_max_length sv" "sq_body (ex_req ex) = []" "plain_server sv"
    "first_match env (handlers_of sv (sq_method (ex_req ex))) (sq_path (ex_req ex)) = Some (m, h)"
    "h (captured env m ((ex_req ex)\<lparr>sq_body := body\<rparr>)) (ex_res ex) (ex_u ex) = (None, res, u)"
  shows "\<exists>s'. guarded_routing env strm sv ex =
      Some (True, ex\<lparr>ex_req := captured env m ((ex_req ex)\<lparr>sq_body := body\<rparr>), ex_res := res, ex_strm := s', ex_u := u\<rparr>) \<and>
    good s' \<and> pending s' = rest"
proof -
  let ?m = "sq_method (ex_req ex)"
  define ex' where "ex' s = ex\<lparr>ex_req := (ex_req ex)\<lparr>sq_body := body\<rparr>, ex_strm := s\<rparr>" for s
  have ne: "handlers_of sv ?m \<noteq> []" using assms(8) by (auto simp: first_match_def)
  have regular: "route_regular env sv (ex' s) =
      (Inr True, ex\<lparr>ex_req := captured env m ((ex_req ex)\<lparr>sq_body := body\<rparr>), ex_res := res, ex_strm := s, ex_u := u\<rparr>)" for s
  proof -
    have "route_regular env sv (ex' s) = dispatch_request env sv (handlers_of sv ?m) (ex' s)"
      using route_regular_handlers [of sv "ex' s" env] ne by (simp add: ex'_def)
    also have "\<dots> = (Inr True, (ex' s)\<lparr>ex_req := captured env m (ex_req (ex' s)), ex_res := res, ex_u := u\<rparr>)"
      using dispatch_request_first [of sv env "handlers_of sv ?m" "ex' s" m h None res u] assms(7,8,9)
      by (simp add: ex'_def plain_server_def)
    finally show ?thesis by (simp add: ex'_def)
  qed
  have nofile: "handle_file_request env sv (ex_req ex) (ex_res ex) (ex_u ex) = (Inr False, ex_res ex, ex_u ex)"
    using assms(7) by (simp add: handle_file_request_def plain_server_def)
  have same: "ex\<lparr>ex_res := ex_res ex, ex_u := ex_u ex\<rparr> = ex" by (cases ex) simp
  have read: "\<exists>s'. srv_expect_content (ex_req ex) \<and> srv_read_content strm sv ex = Some (True, ex' s') \<and> good s' \<and> pending s' = rest \<or>
      \<not> srv_expect_content (ex_req ex) \<and> ex = ex' s' \<and> good s' \<and> pending s' = rest"
  proof (cases "srv_expect_content (ex_req ex)")
    case True
    then have "declares (sq_headers (ex_req ex)) body"
      using assms(3) by (auto simp: carries_def srv_expect_content_def has_header_def is_chunked_transfer_encoding_def
          get_header_value_def equal_ci_def)
    from srv_read_content_ok [OF assms(1,2) this assms(4,5,6)] True show ?thesis by (auto simp: ex'_def)
  next
    case False
    have "body = []"
    proof (cases "declares (sq_headers (ex_req ex)) body")
      case True
      have "length body \<le> UINT64_MAX" using assms(4) by (simp add: STRING_MAX_SIZE_def UINT64_MAX_def)
      then have "get_header_value_u64 (sq_headers (ex_req ex)) ''Content-Length'' 0 0 = (length body, False)"
        by (rule content_length_value [OF declares_facts(1) [OF True], rotated]) (use True in \<open>simp add: declares_def\<close>)
      with False declares_facts(1) [OF True] show ?thesis by (simp add: srv_expect_content_def)
    next
      case False
      with assms(3) show ?thesis by (simp add: carries_def)
    qed
    moreover have "(ex_req ex)\<lparr>sq_body := []\<rparr> = ex_req ex" using assms(6) by (cases "ex_req ex") simp
    ultimately have "ex = ex' (ex_strm ex)" by (cases ex) (simp add: ex'_def)
    with False assms(1,2) \<open>body = []\<close> show ?thesis by auto
  qed
  then obtain s' where s': "srv_expect_content (ex_req ex) \<and> srv_read_content strm sv ex = Some (True, ex' s') \<or>
      \<not> srv_expect_content (ex_req ex) \<and> ex = ex' s'" "good s'" "pending s' = rest" by blast
  have noreader: "content_reader_handlers sv k = []" for k
    using assms(7) by (simp add: content_reader_handlers_def plain_server_def)
  have "routing env strm sv ex = Some (route_regular env sv (ex' s'))"
    using s'(1) assms(7) nofile same noreader by (auto simp: routing_def plain_server_def call_with_response_def Let_def)
  with regular s' show ?thesis by (auto simp: guarded_routing_def)
qed

end

section \<open>Facts: processing a request\<close>

lemma set_header_other:
  "\<not> equal_ci key k \<Longrightarrow> header_values (set_header k v hs) key = header_values hs key"
  by (simp add: set_header_def headers_emplace_def header_values_append header_values_single)

text \<open>The fields that the processing of a request looks at.\<close>

definition request_keys :: "string list" where
  "request_keys = [''Content-Length'', ''Transfer-Encoding'', ''Content-Encoding'', ''Content-Type'', ''Connection'', ''Accept'',
     ''Range'', ''Expect'']"

lemma address_names_differ:
  assumes "k \<in> set request_keys"
  shows "\<not> equal_ci k ''REMOTE_ADDR''" "\<not> equal_ci k ''REMOTE_PORT''" "\<not> equal_ci k ''LOCAL_ADDR''" "\<not> equal_ci k ''LOCAL_PORT''"
proof -
  have "list_all (\<lambda>k. \<not> equal_ci k ''REMOTE_ADDR'' \<and> \<not> equal_ci k ''REMOTE_PORT'' \<and> \<not> equal_ci k ''LOCAL_ADDR'' \<and>
      \<not> equal_ci k ''LOCAL_PORT'') request_keys"
    by code_simp
  with assms show "\<not> equal_ci k ''REMOTE_ADDR''" "\<not> equal_ci k ''REMOTE_PORT''" "\<not> equal_ci k ''LOCAL_ADDR''" "\<not> equal_ci k ''LOCAL_PORT''"
    unfolding list_all_iff by blast+
qed

lemma set_addresses_values:
  assumes "k \<in> set request_keys"
  shows "header_values (sq_headers (set_addresses ad req)) k = header_values (sq_headers req) k"
  using address_names_differ [OF assms] by (simp add: set_addresses_def sq_set_header_def Let_def set_header_other)

lemma set_addresses_get:
  assumes "k \<in> set request_keys"
  shows "get_header_value (sq_headers (set_addresses ad req)) k d i = get_header_value (sq_headers req) k d i"
    "has_header (sq_headers (set_addresses ad req)) k = has_header (sq_headers req) k"
  using set_addresses_values [OF assms, of ad req] by (simp_all add: get_header_value_def has_header_def)

lemma set_addresses_fields [simp]:
  "sq_method (set_addresses ad req) = sq_method req" "sq_path (set_addresses ad req) = sq_path req"
  "sq_body (set_addresses ad req) = sq_body req" "sq_ranges (set_addresses ad req) = sq_ranges req"
  by (simp_all add: set_addresses_def sq_set_header_def Let_def)

lemma set_addresses_carries:
  "carries method (sq_headers (set_addresses ad req)) body = carries method (sq_headers req) body"
  by (simp add: carries_def declares_def set_addresses_values set_addresses_get request_keys_def)

lemma captured_fields [simp]:
  "sq_method (captured env m req) = sq_method req" "sq_headers (captured env m req) = sq_headers req"
  "sq_ranges (captured env m req) = sq_ranges req" "sq_path (captured env m req) = sq_path req"
  "sq_body (captured env m req) = sq_body req"
  by (auto simp: captured_def matcher_match_def Let_def split: Matcher.splits option.splits prod.splits)

text \<open>A request on the wire, and the media types that its \<open>Accept\<close> field names.\<close>

definition request_wire :: "string \<Rightarrow> string \<Rightarrow> Headers \<Rightarrow> bytes \<Rightarrow> bytes" where
  "request_wire method path hs body = request_line method path @ crlf @ header_section hs @ body"

definition accepted :: "'u srv_env \<Rightarrow> Headers \<Rightarrow> string list \<Rightarrow> bool" where
  "accepted env hs types \<longleftrightarrow>
     (if has_header hs ''Accept''
      then parse_accept_header (env_stod env) (env_sort_entries env) (get_header_value hs ''Accept'' [] 0) = (True, types)
      else types = [])"

text \<open>A request that the server takes for what it says, and whose connection is not kept.\<close>

definition valid_request :: "'u Server \<Rightarrow> string \<Rightarrow> string \<Rightarrow> Headers \<Rightarrow> bytes \<Rightarrow> bool" where
  "valid_request sv method path hs body \<longleftrightarrow>
     plain_path path \<and> (\<forall>kv \<in> set hs. plain_field kv) \<and> length hs \<le> HEADER_MAX_COUNT \<and>
     carries method hs body \<and> length body \<le> STRING_MAX_SIZE \<and> length body \<le> sv_payload_max_length sv \<and>
     get_header_value hs ''Connection'' [] 0 = ''close'' \<and> header_values hs ''Range'' = [] \<and> header_values hs ''Expect'' = []"

text \<open>The request that the handler gets.\<close>

definition seen_request :: "'u srv_env \<Rightarrow> Addresses \<Rightarrow> Matcher \<Rightarrow> string \<Rightarrow> string \<Rightarrow> Headers \<Rightarrow> bytes \<Rightarrow> string list \<Rightarrow> sRequest" where
  "seen_request env ad m method path hs body types =
     captured env m ((set_addresses ad ((parsed_line method path)\<lparr>sq_headers := hs\<rparr>))
       \<lparr>sq_accept_content_types := types, sq_body := body\<rparr>)"

definition fresh_response :: "'u Server \<Rightarrow> 'u sResponse" where
  "fresh_response sv = new_sResponse\<lparr>sp_version := ''HTTP/1.1'', sp_headers := sv_default_headers sv\<rparr>"

definition answer_wire :: "'u sResponse \<Rightarrow> bytes" where
  "answer_wire res = response_wire (nat (answer_status res)) (status_message (answer_status res))
     (answer_headers (sp_headers res) (sp_body res)) (sp_body res)"

context duplex_stream
begin

lemma read_request_head:
  assumes "good s" "pending s = request_wire method path hs body @ rest" "method \<in> set request_methods"
    "valid_request sv method path hs body"
  shows "\<exists>r s1 s2. getline strm (new_line_reader 2048) s = (True, r, s1) \<and>
    parse_request_line (lr_ptr r) new_sRequest = (True, parsed_line method path) \<and>
    read_headers strm [] s1 = Some (True, hs, s2) \<and> good s2 \<and> pending s2 = body @ rest \<and> written s2 = written s"
proof -
  note v = assms(4) [unfolded valid_request_def]
  have pp: "plain_path path" using v by blast
  have lf: "LF \<notin> set (request_line method path)"
    using plain_path_encoded(6) [OF pp] plain_method(5) [OF assms(3)] by (simp add: request_line_def)
  have len: "length (request_line method path) + 2 \<le> MAX_LINE_LENGTH"
    using pp plain_method(6) [OF assms(3)]
    by (simp add: request_line_def plain_path_def REQUEST_URI_MAX_LENGTH_def MAX_LINE_LENGTH_def)
  have p: "pending s = request_line method path @ crlf @ header_section hs @ body @ rest"
    using assms(2) by (simp add: request_wire_def)
  from readable_stream.getline_text [OF keeps_written [of "written s"] _ p lf len, of "new_line_reader 2048"] assms(1)
  obtain r s1 where r: "getline strm (new_line_reader 2048) s = (True, r, s1)" "good s1" "written s1 = written s"
      "lr_ptr r = request_line method path @ crlf" "pending s1 = header_section hs @ body @ rest" by auto
  from read_headers_section [OF keeps_written [of "written s"] _ r(5)] v r(2,3)
  obtain s2 where "read_headers strm [] s1 = Some (True, hs, s2)" "good s2" "pending s2 = body @ rest" "written s2 = written s"
    by auto
  with r parse_request_line_ok [OF assms(3) pp] show ?thesis by auto
qed

lemma srv_process_request_ok:
  fixes sv :: "'u Server" and env :: "'u srv_env"
  assumes "good s" "pending s = request_wire method path hs body @ rest" "plain_server sv"
    "valid_request sv method path hs body" "accepted env hs types"
    "first_match env (handlers_of sv method) path = Some (m, h)"
    "h (seen_request env ad m method path hs body types) (fresh_response sv) u = (None, res, u')" "plain_answer res"
  shows "\<exists>s'. srv_process_request env strm sv ad cc s u = Some (Inr (True, True, s', u')) \<and> good s' \<and>
    pending s' = rest \<and> written s' = written s @ answer_wire res"
proof -
  note v = assms(4) [unfolded valid_request_def]
  have "handlers_of sv method \<noteq> []" using assms(6) by (auto simp: first_match_def)
  then have meth: "method \<in> set request_methods" "method \<noteq> ''HEAD''" using handlers_of_method by blast+
  from read_request_head [OF assms(1,2) meth(1) assms(4)]
  obtain r s1 s2 where r: "getline strm (new_line_reader 2048) s = (True, r, s1)"
      "parse_request_line (lr_ptr r) new_sRequest = (True, parsed_line method path)"
      "read_headers strm [] s1 = Some (True, hs, s2)" "good s2" "pending s2 = body @ rest" "written s2 = written s"
    by blast
  define req where "req = (set_addresses ad ((parsed_line method path)\<lparr>sq_headers := hs\<rparr>))\<lparr>sq_accept_content_types := types\<rparr>"
  define ex where "ex = \<lparr>ex_req = req, ex_res = fresh_response sv, ex_strm = s2, ex_u = u\<rparr>"
  have f: "sq_method req = method" "sq_path req = path" "sq_body req = []" "sq_ranges req = []"
      "carries method (sq_headers req) body" "get_header_value (sq_headers req) ''Connection'' [] 0 = ''close''"
      "\<not> has_header (sq_headers req) ''Range''" "get_header_value (sq_headers req) ''Expect'' [] 0 \<noteq> ''100-continue''"
    using v by (simp_all add: req_def parsed_line_def new_sRequest_def set_addresses_carries set_addresses_get request_keys_def)
      (simp_all add: has_header_def get_header_value_def)
  have seen: "captured env m (req\<lparr>sq_body := body\<rparr>) = seen_request env ad m method path hs body types"
    by (simp add: req_def seen_request_def)
  from readable_stream.routing_ok [OF keeps_written [of "written s"], of ex body rest sv env m h res u'] r v f assms seen
  obtain s3 where s3: "guarded_routing env strm sv ex =
      Some (True, ex\<lparr>ex_req := seen_request env ad m method path hs body types, ex_res := res, ex_strm := s3, ex_u := u'\<rparr>)"
      "good s3" "pending s3 = rest" "written s3 = written s"
    by (auto simp: ex_def)
  let ?ex = "ex\<lparr>ex_req := seen_request env ad m method path hs body types, ex_res := res, ex_strm := s3, ex_u := u'\<rparr>"
  have "sq_ranges (ex_req ?ex) = []" "sq_method (ex_req ?ex) \<noteq> ''HEAD''" "sq_get_header_value (ex_req ?ex) ''Connection'' = ''close''"
    using f meth(2) seen [symmetric] by (simp_all add: sq_get_header_value_def)
  from answer_request_ok [OF _ assms(3) _ this] s3 assms(8)
  obtain s4 where s4: "answer_request env strm sv cc True ?ex = Some (Inr (True, s4, u'))" "good s4" "pending s4 = rest"
      "written s4 = written s @ answer_wire res"
    by (auto simp: answer_wire_def)
  have acc: "(if has_header (sq_headers (set_addresses ad ((parsed_line method path)\<lparr>sq_headers := hs\<rparr>))) ''Accept''
      then parse_accept_header (env_stod env) (env_sort_entries env)
        (sq_get_header_value (set_addresses ad ((parsed_line method path)\<lparr>sq_headers := hs\<rparr>)) ''Accept'')
      else (True, [])) = (True, types)"
    using assms(5) by (auto simp: accepted_def sq_get_header_value_def set_addresses_get request_keys_def split: if_splits)
  have close: "sq_get_header_value ((parsed_line method path)\<lparr>sq_headers := hs\<rparr>) ''Connection'' = ''close''"
    using v by (simp add: sq_get_header_value_def)
  have target: "\<not> length (sq_target ((parsed_line method path)\<lparr>sq_headers := hs\<rparr>)) > REQUEST_URI_MAX_LENGTH"
    using v by (simp add: parsed_line_def new_sRequest_def plain_path_def)
  have nohs: "sq_headers (parsed_line method path) = []" by (simp add: parsed_line_def new_sRequest_def)
  have same: "req\<lparr>sq_ranges := []\<rparr> = req" using f(4) by (cases req) simp
  have exp: "expect_100_continue strm sv ex = (True, ex)"
    using f(8) by (simp add: expect_100_continue_def ex_def sq_get_header_value_def)
  have norange: "\<not> has_header (sq_headers (set_addresses ad ((parsed_line method path)\<lparr>sq_headers := hs\<rparr>))) ''Range''"
    using f(7) by (simp add: req_def)
  have "srv_process_request env strm sv ad cc s u =
      map_option (map_sum id (\<lambda>(ret, s, u). (ret, True, s, u))) (answer_request env strm sv cc True ?ex)"
    unfolding srv_process_request_def r(1)
    using r(2,3) target close acc norange same exp s3(1)
    by (simp add: nohs Let_def req_def [symmetric] fresh_response_def [symmetric] ex_def [symmetric])
  with s4 show ?thesis by auto
qed

end

section \<open>Facts: the client's request\<close>

definition host_field :: "'u ClientImpl \<Rightarrow> string" where
  "host_field cl = (if cl_port cl = 80 then cl_host cl else cl_host_and_port cl)"

definition client_headers :: "'u ClientImpl \<Rightarrow> Headers" where
  "client_headers cl =
     [(''Connection'', ''close''), (''Host'', host_field cl), (''Accept'', ''*/*''), (''Accept-Encoding'', []),
      (''User-Agent'', ''cpp-httplib/0.22.0'')]"

text \<open>The headers of a GET, and of a POST with a content type.\<close>

definition post_headers :: "'u ClientImpl \<Rightarrow> string \<Rightarrow> bytes \<Rightarrow> Headers" where
  "post_headers cl content_type body =
     (''Content-Type'', content_type) # client_headers cl @ [(''Content-Length'', to_string_nat (length body))]"

lemma client_fields:
  "is_field_name ''Host''" "is_field_name ''Accept''" "is_field_name ''Accept-Encoding''" "is_field_name ''User-Agent''"
  "is_field_value ''*/*''" "is_field_value []" "is_field_value ''cpp-httplib/0.22.0''"
  by code_simp+

lemma client_plain_fields:
  "plain_field (''Accept'', ''*/*'')" "plain_field (''Accept-Encoding'', [])" "plain_field (''User-Agent'', ''cpp-httplib/0.22.0'')"
  by code_simp+

text \<open>The names that the client uses are different.\<close>

lemma client_names_differ:
  "\<not> equal_ci ''Host'' ''Connection''" "\<not> equal_ci ''Accept'' ''Connection''" "\<not> equal_ci ''Accept-Encoding'' ''Connection''"
  "\<not> equal_ci ''User-Agent'' ''Connection''" "\<not> equal_ci ''Connection'' ''Host''" "\<not> equal_ci ''Accept'' ''Host''"
  "\<not> equal_ci ''Accept-Encoding'' ''Host''" "\<not> equal_ci ''User-Agent'' ''Host''" "\<not> equal_ci ''Accept-Encoding'' ''Accept''"
  "\<not> equal_ci ''User-Agent'' ''Accept''" "\<not> equal_ci ''User-Agent'' ''Accept-Encoding''" "\<not> equal_ci ''Connection'' ''Content-Type''"
  "\<not> equal_ci ''Host'' ''Content-Type''" "\<not> equal_ci ''Accept'' ''Content-Type''" "\<not> equal_ci ''Accept-Encoding'' ''Content-Type''"
  "\<not> equal_ci ''User-Agent'' ''Content-Type''" "\<not> equal_ci ''Content-Length'' ''Content-Type''" "\<not> equal_ci ''Content-Length'' ''Connection''"
  "\<not> equal_ci ''Content-Length'' ''Host''" "\<not> equal_ci ''Content-Length'' ''Accept''" "\<not> equal_ci ''Content-Length'' ''Accept-Encoding''"
  "\<not> equal_ci ''Content-Length'' ''User-Agent''"
  by code_simp+

lemma client_names_other:
  "list_all (\<lambda>k. list_all (\<lambda>n. \<not> equal_ci k n) [''Connection'', ''Host'', ''Accept'', ''Accept-Encoding'', ''User-Agent'', ''Content-Length'', ''Content-Type''])
     [''Range'', ''Expect'', ''Transfer-Encoding'', ''Content-Encoding'']"
  "list_all (\<lambda>n. \<not> equal_ci ''Content-Type'' n) [''Connection'', ''Host'', ''Accept'', ''Accept-Encoding'', ''User-Agent'', ''Content-Length'']"
  "list_all (\<lambda>n. \<not> equal_ci ''Accept'' n) [''Connection'', ''Host'', ''Accept-Encoding'', ''User-Agent'', ''Content-Length'', ''Content-Type'']"
  "list_all (\<lambda>n. \<not> equal_ci ''Connection'' n) [''Accept'', ''Host'', ''Accept-Encoding'', ''User-Agent'', ''Content-Length'', ''Content-Type'']"
  by code_simp+

lemma new_client_settings:
  "cl_url_encode (new_ClientImpl host port)" "cl_basic_auth_username (new_ClientImpl host port) = []"
  "cl_basic_auth_password (new_ClientImpl host port) = []" "cl_proxy_basic_auth_username (new_ClientImpl host port) = []"
  "cl_proxy_basic_auth_password (new_ClientImpl host port) = []" "cl_bearer_token_auth_token (new_ClientImpl host port) = []"
  "cl_proxy_bearer_token_auth_token (new_ClientImpl host port) = []"
  "cl_header_writer (new_ClientImpl host port) = (\<lambda>hs s. snd (write_headers BufferStream hs s))"
  by (simp_all add: new_ClientImpl_def new_ClientImpl_cert_def Let_def)

lemma request_head_wire:
  fixes host :: string and port :: int
  assumes "rq_params req = []"
  shows "request_head (new_ClientImpl host port) req =
    request_line (rq_method req) (rq_path req) @ crlf @ header_section (rq_headers req)"
proof -
  let ?b = "\<lparr>bs_buffer = request_line (rq_method req) (rq_path req) @ crlf, bs_position = 0\<rparr>"
  have "snd (write_request_line BufferStream (rq_method req) (encode_url (rq_path req)) new_BufferStream) = ?b"
    by (simp add: write_request_line_def BufferStream_def bs_write_def new_BufferStream_def request_line_def)
  moreover obtain n where "write_headers BufferStream (rq_headers req) ?b =
      (Some n, ?b\<lparr>bs_buffer := bs_buffer ?b @ header_section (rq_headers req)\<rparr>)"
    using write_headers_buffer [of "rq_headers req" 0 ?b] by (auto simp: write_headers_def)
  ultimately show ?thesis using assms by (simp add: request_head_def new_client_settings)
qed

lemma prepared_params: "rq_params (prepare_headers cl cc req) = rq_params req"
  using prepare_headers_but [of req cl cc] by (auto simp: but_headers_def)

lemma get_headers_prepared:
  fixes cl :: "'u ClientImpl"
  assumes "cl = new_ClientImpl host port" "is_field_value (host_field cl)"
  shows "rq_headers (prepare_headers cl True
      (new_Request\<lparr>rq_method := ''GET'', rq_path := path, rq_headers := [], rq_download_progress := None\<rparr>)) = client_headers cl"
  using assms(2) client_fields fixed_fields
  by (simp add: prepare_headers_def auth_headers_def assms(1) new_client_settings body_headers_def general_headers_def
      set_header_if_absent_def rq_has_header_def rq_set_header_def set_header_def headers_emplace_def has_header_def
      header_values_def client_headers_def client_names_differ host_field_def Let_def CPPHTTPLIB_VERSION_def new_Request_def)

lemma post_headers_prepared:
  fixes cl :: "'u ClientImpl"
  assumes "cl = new_ClientImpl host port" "is_field_value (host_field cl)" "content_type \<noteq> []" "is_field_value content_type"
  shows "rq_headers (prepare_headers cl True (upload_request ''POST'' path [] body content_type)) = post_headers cl content_type body"
proof -
  have zero: "to_string_nat 0 = ''0''" by code_simp
  show ?thesis
  using assms(2-) client_fields fixed_fields digits_field_value [of "length body"] digits_field_value [of 0] zero
  by (simp add: prepare_headers_def auth_headers_def assms(1) new_client_settings body_headers_def general_headers_def
      set_header_if_absent_def rq_has_header_def rq_set_header_def set_header_def headers_emplace_def has_header_def
      header_values_def client_headers_def post_headers_def client_names_differ host_field_def Let_def CPPHTTPLIB_VERSION_def new_Request_def
      upload_request_def set_request_content_def)
qed

lemma client_headers_values:
  "header_values (client_headers cl) ''Connection'' = [''close'']" "header_values (client_headers cl) ''Accept'' = [''*/*'']"
  "k \<in> {''Range'', ''Expect'', ''Transfer-Encoding'', ''Content-Encoding'', ''Content-Length'', ''Content-Type''} \<Longrightarrow>
     header_values (client_headers cl) k = []"
  using client_names_other by (auto simp: header_values_def client_headers_def client_names_differ)

lemma post_headers_values:
  "header_values (post_headers cl content_type body) ''Connection'' = [''close'']"
  "header_values (post_headers cl content_type body) ''Accept'' = [''*/*'']"
  "header_values (post_headers cl content_type body) ''Content-Type'' = [content_type]"
  "header_values (post_headers cl content_type body) ''Content-Length'' = [to_string_nat (length body)]"
  "k \<in> {''Range'', ''Expect'', ''Transfer-Encoding'', ''Content-Encoding''} \<Longrightarrow>
     header_values (post_headers cl content_type body) k = []"
  using client_names_other client_names_differ
  by (auto simp: header_values_def client_headers_def post_headers_def)

lemma accept_all:
  assumes "sorts_entries (env_sort_entries env)" "header_values hs ''Accept'' = [''*/*'']"
  shows "accepted env hs [''*/*'']"
proof -
  let ?e = "\<lparr>ae_media_type = ''*/*'', ae_quality = Finite double_one, ae_order = 0\<rparr>"
  have "mset (env_sort_entries env [?e]) = mset [?e]" using assms(1) unfolding sorts_entries_def by fastforce
  then have sorted: "env_sort_entries env [?e] = [?e]" by simp
  have split: "split_at ''*/*'' CHR '','' = [''*/*'']" and none: "find_sub '',,'' ''*/*'' = None" and trim: "trim_copy ''*/*'' = ''*/*''"
    and q: "find_sub '';q='' ''*/*'' = None" "find_sub ''; q='' ''*/*'' = None"
    by code_simp+
  have "accept_entries (env_stod env) [''*/*''] 0 False [] = (False, [?e])"
    by (simp add: trim accept_entry_def accept_quality_def q)
  then have "parse_accept_header (env_stod env) (env_sort_entries env) ''*/*'' = (True, [''*/*''])"
    using sorted split none by (simp add: parse_accept_header_def)
  then show ?thesis using assms(2) by (simp add: accepted_def has_header_def get_header_value_def)
qed

lemma get_valid_request:
  assumes "plain_path path" "plain_field (''Host'', host_field cl)"
  shows "valid_request sv ''GET'' path (client_headers cl) []"
  unfolding valid_request_def carries_def
  using assms client_plain_fields fixed_plain_fields
  by (auto simp: client_headers_values get_header_value_def) (auto simp: client_headers_def HEADER_MAX_COUNT_def)

definition plain_content_type :: "string \<Rightarrow> bool" where
  "plain_content_type content_type \<longleftrightarrow> content_type \<noteq> [] \<and> plain_field (''Content-Type'', content_type) \<and>
     \<not> prefix ''multipart/form-data'' content_type \<and> \<not> prefix ''application/x-www-form-urlencoded'' content_type"

lemma post_valid_request:
  assumes "plain_path path" "plain_field (''Host'', host_field cl)" "plain_content_type content_type"
    "length body \<le> STRING_MAX_SIZE" "length body \<le> sv_payload_max_length sv"
  shows "valid_request sv ''POST'' path (post_headers cl content_type body) body"
proof -
  have "prefix p (c_str content_type) \<Longrightarrow> prefix p content_type" for p
    unfolding c_str_def using takeWhile_is_prefix prefix_order.order_trans by blast
  then have d: "declares (post_headers cl content_type body) body"
    using assms(3) by (auto simp: post_headers_values declares_def plain_content_type_def get_header_value_def)
  have f: "\<forall>kv \<in> set (post_headers cl content_type body). plain_field kv" "length (post_headers cl content_type body) \<le> HEADER_MAX_COUNT"
    using assms(2,3) client_plain_fields fixed_plain_fields content_length_plain [OF assms(4)]
    by (auto simp: post_headers_def client_headers_def plain_content_type_def HEADER_MAX_COUNT_def)
  show ?thesis
    unfolding valid_request_def carries_def using assms d f
    by (simp add: post_headers_values get_header_value_def)
qed

text \<open>A handler for \<open>Expect: 100-continue\<close> that refuses with a status other than 417 but leaves \<open>res.status\<close> as it is
  makes the assertion of \<open>write_response_core\<close> fail.\<close>

lemma expect_other_status_fails:
  assumes "sq_get_header_value (ex_req ex) ''Expect'' = ''100-continue''" "sp_status (ex_res ex) = - 1"
    "sv_expect_100_continue_handler sv = Some (\<lambda>req res u. (status, res, u))" "status \<noteq> 100" "status \<noteq> 417"
  shows "expect_100_continue strm sv ex = (False, ex)"
    and "write_response env strm sv True ex = Some (Inl Assertion_failed)"
  using assms by (simp_all add: expect_100_continue_def write_response_def write_response_core_def Let_def)

section \<open>A request and its answer\<close>

text \<open>The server's half of an exchange over a socket.\<close>

lemma socket_request_ok:
  fixes sv :: "'u Server" and env :: "'u srv_env"
  assumes "os_socket os up incoming outgoing" "up k" "incoming k = request_wire method path hs body" "plain_server sv"
    "valid_request sv method path hs body" "accepted env hs types"
    "first_match env (handlers_of sv method) path = Some (m, h)"
    "h (seen_request env ad m method path hs body types) (fresh_response sv) u = (None, res, u')" "plain_answer res"
  shows "\<exists>s'. srv_process_request env (SocketStream os) sv ad cc (new_SocketStream k) u = Some (Inr (True, True, s', u')) \<and>
    outgoing (ss_sock s') = outgoing k @ answer_wire res"
proof -
  have d: "duplex_stream (SocketStream os) (ss_good up) (ss_pending incoming) (ss_written outgoing)"
    by (rule os_socket.socket_stream_duplex [OF assms(1)])
  from duplex_stream.srv_process_request_ok [OF d _ _ assms(4-9), of "new_SocketStream k" "[]" cc] assms(2,3)
  show ?thesis by (auto simp: ss_good_def ss_pending_def ss_written_def new_SocketStream_def)
qed

text \<open>C4 (get_answered): a GET of the client, read by the server, calls the first GET handler that accepts the
  path, with the path as the caller gave it to the client, the client's headers and the server's view of the
  connection; the bytes that the server then writes make \<open>Get\<close> return exactly the status, headers and body
  of that handler's response. The server has regular handlers only, and the connection is closed after it.\<close>

theorem get_answered:
  fixes sv :: "'u Server" and env :: "'u srv_env" and cl :: "'v ClientImpl"
  assumes "cl = new_ClientImpl host port" "plain_path path" "plain_field (''Host'', host_field cl)"
    "os_socket os s_up s_in s_out" "s_up k" "s_in k = get_request_bytes cl path"
    "plain_server sv" "sorts_entries (env_sort_entries env)"
    "first_match env (sv_get_handlers sv) path = Some (m, h)"
    "h (seen_request env ad m ''GET'' path (client_headers cl) [] [''*/*'']) (fresh_response sv) u = (None, res, u')" "plain_answer res"
    "os_socket (w_os W sock) up incoming outgoing"
  shows "\<exists>s' wire. srv_process_request env (SocketStream os) sv ad cc (new_SocketStream k) u = Some (Inr (True, True, s', u')) \<and>
    s_out (ss_sock s') = s_out k @ wire \<and>
    (\<forall>w w1 v. create_client_socket W cl w = (Inr sock, w1) \<longrightarrow> up w1 \<longrightarrow> incoming w1 = wire \<longrightarrow>
      (\<exists>r cl' w2. Get W cl path None w v = Some (Inr (r, cl', w_close W sock (w_shutdown W sock w2), v)) \<and>
         outgoing w2 = outgoing w1 @ s_in k \<and> rt_err r = Success \<and>
         rt_res r = Some (the_response (nat (answer_status res)) (status_message (answer_status res))
           (answer_headers (sp_headers res) (sp_body res)) (sp_body res))))"
proof -
  have hv: "is_field_value (host_field cl)" using assms(3) by (simp add: plain_field_def)
  have bytes: "get_request_bytes cl path = request_wire ''GET'' path (client_headers cl) []"
    using request_head_wire [of "prepare_headers cl True (new_Request\<lparr>rq_method := ''GET'', rq_path := path, rq_headers := [],
        rq_download_progress := None\<rparr>)" host port] get_headers_prepared [OF assms(1) hv, of path]
    by (simp add: get_request_bytes_def request_wire_def assms(1) prepared_params new_Request_def)
  have fm: "first_match env (handlers_of sv ''GET'') path = Some (m, h)" using assms(9) by (simp add: handlers_of_def)
  from socket_request_ok [OF assms(4,5) _ assms(7) get_valid_request [OF assms(2,3)]
      accept_all [OF assms(8) client_headers_values(2)] fm assms(10,11), of cc] assms(6) bytes
  obtain s' where s': "srv_process_request env (SocketStream os) sv ad cc (new_SocketStream k) u = Some (Inr (True, True, s', u'))"
      "s_out (ss_sock s') = s_out k @ answer_wire res" by auto
  have ne: "path \<noteq> []" by (rule plain_path_facts(1) [OF assms(2)])
  have pc: "plain_client cl" using assms(1) by simp
  show ?thesis
  proof (intro exI [of _ s'] exI [of _ "answer_wire res"] conjI allI impI)
    fix w w1 v
    assume c: "create_client_socket W cl w = (Inr sock, w1)" "up w1" "incoming w1 = answer_wire res"
    from Get_ok [OF assms(12) pc ne c(1,2) _ answer_valid [OF assms(11)], of v] c(3) assms(6)
    show "\<exists>r cl' w2. Get W cl path None w v = Some (Inr (r, cl', w_close W sock (w_shutdown W sock w2), v)) \<and>
         outgoing w2 = outgoing w1 @ s_in k \<and> rt_err r = Success \<and>
         rt_res r = Some (the_response (nat (answer_status res)) (status_message (answer_status res))
           (answer_headers (sp_headers res) (sp_body res)) (sp_body res))"
      by (fastforce simp: answer_wire_def)
  qed (use s' in simp_all)
qed

text \<open>C3 (post_answered): a POST of the client, read by the server, calls the first POST handler that accepts the
  path, with the body byte for byte; the bytes that the server then writes make \<open>Post\<close> return exactly the
  status, headers and body of that handler's response.\<close>

theorem post_answered:
  fixes sv :: "'u Server" and env :: "'u srv_env" and cl :: "'v ClientImpl"
  assumes "cl = new_ClientImpl host port" "plain_path path" "plain_field (''Host'', host_field cl)"
    "plain_content_type content_type" "length body \<le> STRING_MAX_SIZE" "length body \<le> sv_payload_max_length sv"
    "os_socket os s_up s_in s_out" "s_up k" "s_in k = upload_bytes cl ''POST'' path [] body content_type"
    "plain_server sv" "sorts_entries (env_sort_entries env)"
    "first_match env (sv_post_handlers sv) path = Some (m, h)"
    "h (seen_request env ad m ''POST'' path (post_headers cl content_type body) body [''*/*'']) (fresh_response sv) u = (None, res, u')"
    "plain_answer res" "os_socket (w_os W sock) up incoming outgoing"
  shows "\<exists>s' wire. srv_process_request env (SocketStream os) sv ad cc (new_SocketStream k) u = Some (Inr (True, True, s', u')) \<and>
    s_out (ss_sock s') = s_out k @ wire \<and>
    (\<forall>w w1 v. create_client_socket W cl w = (Inr sock, w1) \<longrightarrow> up w1 \<longrightarrow> incoming w1 = wire \<longrightarrow>
      (\<exists>r cl' w2. Post_body W cl path [] body content_type None w v =
           Some (Inr (r, cl', w_close W sock (w_shutdown W sock w2), v)) \<and>
         outgoing w2 = outgoing w1 @ s_in k \<and> rt_err r = Success \<and>
         rt_res r = Some (the_response (nat (answer_status res)) (status_message (answer_status res))
           (answer_headers (sp_headers res) (sp_body res)) (sp_body res))))"
proof -
  have hv: "is_field_value (host_field cl)" using assms(3) by (simp add: plain_field_def)
  have ct: "content_type \<noteq> []" "is_field_value content_type" using assms(4) by (simp_all add: plain_content_type_def plain_field_def)
  have bytes: "upload_bytes cl ''POST'' path [] body content_type = request_wire ''POST'' path (post_headers cl content_type body) body"
    using request_head_wire [of "prepare_headers cl True (upload_request ''POST'' path [] body content_type)" host port]
      post_headers_prepared [OF assms(1) hv ct, of path body]
    by (simp add: upload_bytes_def request_wire_def assms(1) prepared_params upload_request_def set_request_content_def new_Request_def
        rq_set_header_def)
  have fm: "first_match env (handlers_of sv ''POST'') path = Some (m, h)" using assms(12) by (simp add: handlers_of_def)
  from socket_request_ok [OF assms(7,8) _ assms(10) post_valid_request [OF assms(2-6)]
      accept_all [OF assms(11) post_headers_values(2)] fm assms(13,14), of cc] assms(9) bytes
  obtain s' where s': "srv_process_request env (SocketStream os) sv ad cc (new_SocketStream k) u = Some (Inr (True, True, s', u'))"
      "s_out (ss_sock s') = s_out k @ answer_wire res" by auto
  have ne: "path \<noteq> []" by (rule plain_path_facts(1) [OF assms(2)])
  have pc: "plain_client cl" using assms(1) by simp
  show ?thesis
  proof (intro exI [of _ s'] exI [of _ "answer_wire res"] conjI allI impI)
    fix w w1 v
    assume c: "create_client_socket W cl w = (Inr sock, w1)" "up w1" "incoming w1 = answer_wire res"
    from upload_ok [OF assms(15) pc ne c(1,2) _ answer_valid [OF assms(14)], of "''POST''" "[]" body content_type v] c(3) assms(9)
    show "\<exists>r cl' w2. Post_body W cl path [] body content_type None w v =
           Some (Inr (r, cl', w_close W sock (w_shutdown W sock w2), v)) \<and>
         outgoing w2 = outgoing w1 @ s_in k \<and> rt_err r = Success \<and>
         rt_res r = Some (the_response (nat (answer_status res)) (status_message (answer_status res))
           (answer_headers (sp_headers res) (sp_body res)) (sp_body res))"
      unfolding Post_body_def by (fastforce simp: answer_wire_def)
  qed (use s' in simp_all)
qed

section \<open>Examples\<close>

definition example_env :: "'u srv_env" where
  "example_env =
     \<lparr>env_is_dir = (\<lambda>p. p = ''/srv''), env_is_file = (\<lambda>p. p = ''/srv/a.txt''), env_mmap = (\<lambda>p. if p = ''/srv/a.txt'' then Some ''abc'' else None),
      env_regex_valid = (\<lambda>pat. True), env_regex_match = (\<lambda>pat s. if pat = s then Some [s] else None), env_sort_ranges = sort_key fst, env_sort_entries = example_sort,
      env_stod = example_stod, env_engine = (\<lambda>i. i), env_shutting_down = (\<lambda>u. (False, u))\<rparr>"

definition example_addresses :: Addresses where
  "example_addresses = \<lparr>ad_remote_addr = ''127.0.0.1'', ad_remote_port = 50000, ad_local_addr = ''127.0.0.1'', ad_local_port = 30026\<rparr>"

text \<open>A handler that answers with the path and the body, for paths under \<open>/echo/\<close>.\<close>

definition echo :: "unit Handler" where
  "echo req res u = (None, set_content (sq_path req @ '':'' @ sq_body req) ''text/plain'' res, u)"

definition example_matcher :: Matcher where
  "example_matcher = PathParamsMatcher ''/echo/:id'' [''/echo/''] [''id'']"

definition echo_server :: "unit Server" where
  "echo_server = new_Server\<lparr>sv_get_handlers := [(RegexMatcher ''/'', echo), (example_matcher, echo)],
     sv_post_handlers := [(RegexMatcher ''/'', echo), (example_matcher, echo)]\<rparr>"

lemma echo_server_plain: "plain_server echo_server" "sorts_entries (env_sort_entries example_env)"
    "3 \<le> sv_payload_max_length echo_server"
  by (simp_all add: plain_server_def echo_server_def new_Server_def example_env_def example_sort_sorts SIZE_T_MAX_def)

lemma echo_first:
  "first_match example_env (sv_get_handlers echo_server) ''/echo/7'' = Some (example_matcher, echo)"
  "first_match example_env (sv_post_handlers echo_server) ''/echo/7'' = Some (example_matcher, echo)"
proof -
  have "accepts (example_env :: unit srv_env) ''/echo/7'' example_matcher"
    "\<not> accepts (example_env :: unit srv_env) ''/echo/7'' (RegexMatcher ''/'')" by code_simp+
  then show "first_match example_env (sv_get_handlers echo_server) ''/echo/7'' = Some (example_matcher, echo)"
    "first_match example_env (sv_post_handlers echo_server) ''/echo/7'' = Some (example_matcher, echo)"
    by (simp_all add: first_match_def echo_server_def)
qed

lemma example_plain:
  "plain_path ''/echo/7''" "plain_content_type ''text/plain''"
  "plain_field (''Host'', host_field (new_ClientImpl ''tv'' 30026 :: unit ClientImpl))"
proof -
  show "plain_path ''/echo/7''" by code_simp
  show "plain_content_type ''text/plain''" unfolding plain_content_type_def using fixed_plain_fields(2) by simp
  have "adjust_host_string (escape_abstract_namespace_unix_domain ''tv'') = ''tv''" by code_simp
  moreover have "to_string_int 30026 = ''30026''" by (simp add: to_string_int_def to_string_nat.simps) code_simp
  ultimately have "host_field (new_ClientImpl ''tv'' 30026 :: unit ClientImpl) = ''tv:30026''"
    by (simp add: host_field_def new_ClientImpl_def new_ClientImpl_cert_def Let_def)
  moreover have "plain_field (''Host'', ''tv:30026'')" by code_simp
  ultimately show "plain_field (''Host'', host_field (new_ClientImpl ''tv'' 30026 :: unit ClientImpl))" by simp
qed

definition echo_answer :: "string \<Rightarrow> unit sResponse" where
  "echo_answer t = set_content t ''text/plain'' (fresh_response echo_server)"

lemma echo_answer_plain: "t \<noteq> [] \<Longrightarrow> length t \<le> STRING_MAX_SIZE \<Longrightarrow> plain_answer (echo_answer t)"
  using fixed_plain_fields(2) fixed_fields(4,5)
  by (simp add: plain_answer_def echo_answer_def set_content_def sp_set_header_def set_header_def headers_emplace_def
      headers_erase_def fresh_response_def new_sResponse_def echo_server_def new_Server_def header_values_def header_names_differ)

lemma seen_fields:
  "sq_path (seen_request env ad m method path hs body types) = path" "sq_body (seen_request env ad m method path hs body types) = body"
  by (simp_all add: seen_request_def parsed_line_def)

lemma echo_answers:
  "echo (seen_request example_env ad m method path hs body types) (fresh_response echo_server) () =
     (None, echo_answer (path @ '':'' @ body), ())"
  by (simp add: echo_def seen_fields echo_answer_def)

lemma echo_answer_content:
  "answer_status (echo_answer t) = 200" "sp_body (echo_answer t) = t"
  by (simp_all add: answer_status_def echo_answer_def set_content_def sp_set_header_def fresh_response_def new_sResponse_def)

lemma net_server: "os_socket net_os (\<lambda>k. True) (\<lambda>k. concat (net_in k)) net_out"
  by unfold_locales

theorem get_answered_witness:
  "\<exists>r cl' w2 hs segs. Get net_world (new_ClientImpl ''tv'' 30026) ''/echo/7'' None (net_of segs) () = Some (Inr (r, cl', w2, ())) \<and>
     rt_res r = Some (the_response 200 ''OK'' hs ''/echo/7:'')"
proof -
  let ?cl = "new_ClientImpl ''tv'' 30026 :: unit ClientImpl"
  have msg: "status_message 200 = ''OK''" by code_simp
  have ans: "plain_answer (echo_answer ''/echo/7:'')" by (rule echo_answer_plain) (simp_all add: STRING_MAX_SIZE_def)
  have h: "echo (seen_request example_env example_addresses example_matcher ''GET'' ''/echo/7'' (client_headers ?cl) [] [''*/*''])
      (fresh_response echo_server) () = (None, echo_answer ''/echo/7:'', ())"
    using echo_answers [where path = "''/echo/7''" and body = "[]"] by simp
  from get_answered [OF refl example_plain(1,3) net_server TrueI _ echo_server_plain(1,2) echo_first(1) h ans net_world_socket,
      of "net_of [get_request_bytes ?cl ''/echo/7'']" True 0]
  obtain wire where w: "\<forall>w w1 v. create_client_socket net_world ?cl w = (Inr 0, w1) \<longrightarrow> True \<longrightarrow> concat (net_in w1) = wire \<longrightarrow>
      (\<exists>r cl' w2. Get net_world ?cl ''/echo/7'' None w v = Some (Inr (r, cl', w_close net_world 0 (w_shutdown net_world 0 w2), v)) \<and>
         net_out w2 = net_out w1 @ get_request_bytes ?cl ''/echo/7'' \<and> rt_err r = Success \<and>
         rt_res r = Some (the_response (nat (answer_status (echo_answer ''/echo/7:''))) (status_message (answer_status (echo_answer ''/echo/7:'')))
           (answer_headers (sp_headers (echo_answer ''/echo/7:'')) (sp_body (echo_answer ''/echo/7:''))) (sp_body (echo_answer ''/echo/7:''))))"
    by (auto simp: net_of_def)
  have "concat (net_in (net_of [wire])) = wire" by (simp add: net_of_def)
  with w [rule_format, of "net_of [wire]" "net_of [wire]" "()"] show ?thesis
    using msg by (auto simp: echo_answer_content)
qed

theorem post_answered_witness:
  "\<exists>r cl' w2 hs segs. Post_body net_world (new_ClientImpl ''tv'' 30026) ''/echo/7'' [] ''abc'' ''text/plain'' None (net_of segs) () =
       Some (Inr (r, cl', w2, ())) \<and> rt_res r = Some (the_response 200 ''OK'' hs ''/echo/7:abc'')"
proof -
  let ?cl = "new_ClientImpl ''tv'' 30026 :: unit ClientImpl"
  let ?bytes = "upload_bytes ?cl ''POST'' ''/echo/7'' [] ''abc'' ''text/plain''"
  have msg: "status_message 200 = ''OK''" by code_simp
  have ans: "plain_answer (echo_answer ''/echo/7:abc'')" by (rule echo_answer_plain) (simp_all add: STRING_MAX_SIZE_def)
  have h: "echo (seen_request example_env example_addresses example_matcher ''POST'' ''/echo/7'' (post_headers ?cl ''text/plain'' ''abc'') ''abc'' [''*/*''])
      (fresh_response echo_server) () = (None, echo_answer ''/echo/7:abc'', ())"
    using echo_answers [where path = "''/echo/7''" and body = "''abc''"] by simp
  have len: "length ''abc'' \<le> STRING_MAX_SIZE" "length ''abc'' \<le> sv_payload_max_length echo_server"
    using echo_server_plain(3) by (simp_all add: STRING_MAX_SIZE_def)
  from post_answered [OF refl example_plain(1,3,2) len net_server TrueI _ echo_server_plain(1,2) echo_first(2) h ans net_world_socket,
      of "net_of [?bytes]" True 0]
  obtain wire where w: "\<forall>w w1 v. create_client_socket net_world ?cl w = (Inr 0, w1) \<longrightarrow> True \<longrightarrow> concat (net_in w1) = wire \<longrightarrow>
      (\<exists>r cl' w2. Post_body net_world ?cl ''/echo/7'' [] ''abc'' ''text/plain'' None w v =
           Some (Inr (r, cl', w_close net_world 0 (w_shutdown net_world 0 w2), v)) \<and>
         net_out w2 = net_out w1 @ ?bytes \<and> rt_err r = Success \<and>
         rt_res r = Some (the_response (nat (answer_status (echo_answer ''/echo/7:abc''))) (status_message (answer_status (echo_answer ''/echo/7:abc'')))
           (answer_headers (sp_headers (echo_answer ''/echo/7:abc'')) (sp_body (echo_answer ''/echo/7:abc''))) (sp_body (echo_answer ''/echo/7:abc''))))"
    by (auto simp: net_of_def)
  have "concat (net_in (net_of [wire])) = wire" by (simp add: net_of_def)
  with w [rule_format, of "net_of [wire]" "net_of [wire]" "()"] show ?thesis
    using msg by (auto simp: echo_answer_content)
qed

text \<open>A handler that sets the status 200 itself and hands out a provider with a length: for a request with one
  range the headers announce the whole length, but only the range is sent.\<close>

lemma explicit_status_range:
  fixes res :: "unit sResponse"
  assumes "req = new_sRequest\<lparr>sq_method := ''GET'', sq_ranges := [(0, 0)]\<rparr>"
    "res = (set_content_provider 3 ''text/plain'' (file_provider ''abc'') new_sResponse)\<lparr>sp_status := 200\<rparr>"
  shows "apply_ranges_provider req res [] [] = Some (Inr (sp_set_header ''Content-Length'' (to_string_nat 3) res))"
    and "\<exists>b. srv_write_content_with_provider example_env BufferStream req res (file_provider ''abc'') [] [] new_BufferStream () =
      Some (Inr (True, b, ())) \<and> bs_buffer b = ''a''"
proof -
  show "apply_ranges_provider req res [] [] = Some (Inr (sp_set_header ''Content-Length'' (to_string_nat 3) res))"
    using assms by (simp add: apply_ranges_provider_def set_content_provider_def sp_set_header_def new_sRequest_def Let_def)
  have r: "sq_ranges req = [(0, 0)]" "sp_content_length res = 3"
    using assms by (simp_all add: new_sRequest_def set_content_provider_def Let_def)
  obtain b where b: "write_data BufferStream ''a'' new_BufferStream = Some (True, b)" "bs_buffer b = ''a''"
    using bs_out.write_data_good [of new_BufferStream "''a''"] by (auto simp: new_BufferStream_def)
  let ?st = "new_sink 0 new_BufferStream"
  have wait: "strm_wait_writable BufferStream new_BufferStream = (True, new_BufferStream)" by (simp add: BufferStream_def)
  have "write_content_loop BufferStream (file_provider ''abc'') 0 1 (env_shutting_down example_env) None () ?st =
      Some (Inr (True, Success, (), ?st\<lparr>sk_strm := b, sk_offset := 1\<rparr>))"
    using b wait by (subst write_content_loop.simps)
      (simp add: example_env_def new_sink_def file_provider_def call_progress_def write_content_loop.simps)
  with r b(2) show "\<exists>b. srv_write_content_with_provider example_env BufferStream req res (file_provider ''abc'') [] [] new_BufferStream () =
      Some (Inr (True, b, ())) \<and> bs_buffer b = ''a''"
    by (simp add: srv_write_content_with_provider_def get_range_offset_and_length_def Let_def write_content_def
        write_content_with_progress_def)
qed

section \<open>Handlers that read the content themselves\<close>

text \<open>A receiver that takes everything, called through the content reader.\<close>

lemma reader_sink:
  assumes "content_sink (\<lambda>buf off len. f buf) absorb"
  shows "content_sink (content_out False (call_receiver (Some f)) h m)
    (\<lambda>(st, p) bs. (st\<lparr>rd_u := absorb (rd_u st) bs\<rparr>, p))"
proof
  fix bs :: bytes and off len :: nat and u :: "'a reader_state \<times> MultipartParser" and a b :: bytes
  note f = content_sink.out_absorbs [OF assms]
  show "content_out False (call_receiver (Some f)) h m bs off len u =
      (True, (case u of (st, p) \<Rightarrow> \<lambda>bs. (st\<lparr>rd_u := absorb (rd_u st) bs\<rparr>, p)) bs)"
    by (cases u) (simp add: content_out_def call_receiver_def f)
  show "(case (case u of (st, p) \<Rightarrow> \<lambda>bs. (st\<lparr>rd_u := absorb (rd_u st) bs\<rparr>, p)) a of
        (st, p) \<Rightarrow> \<lambda>bs. (st\<lparr>rd_u := absorb (rd_u st) bs\<rparr>, p)) b =
      (case u of (st, p) \<Rightarrow> \<lambda>bs. (st\<lparr>rd_u := absorb (rd_u st) bs\<rparr>, p)) (a @ b)"
    by (cases u) (simp add: content_sink.absorb_append [OF assms])
  show "(case u of (st, p) \<Rightarrow> \<lambda>bs. (st\<lparr>rd_u := absorb (rd_u st) bs\<rparr>, p)) [] = u"
    by (cases u) (simp add: content_sink.absorb_empty [OF assms])
qed

lemma content_reader_reads:
  assumes "readable_stream strm good unread" "content_sink (\<lambda>buf off len. f buf) absorb"
    "good (ex_strm ex)" "unread (ex_strm ex) = wire @ rest" "framed (sq_headers (ex_req ex)) body wire rest"
    "\<not> encoding_unsupported (get_header_value (sq_headers (ex_req ex)) ''Content-Encoding'' [] 0)"
    "length body \<le> sv_payload_max_length sv" "length body \<le> UINT64_MAX"
    "\<not> sq_is_multipart_form_data (ex_req ex)" "sq_method (ex_req ex) \<noteq> ''DELETE''"
  shows "\<exists>s'. read_content_with_content_receiver strm sv (Some f) None None ex =
      Some (Inr True, ex\<lparr>ex_strm := s', ex_u := absorb (ex_u ex) body\<rparr>) \<and> good s' \<and> unread s' = rest"
proof -
  let ?out = "content_out False (call_receiver (Some f)) (call_receiver None) (call_receiver None)"
  have br: "body_reader strm good unread ?out (\<lambda>(st, p) bs. (st\<lparr>rd_u := absorb (rd_u st) bs\<rparr>, p))"
    using assms(1) reader_sink [OF assms(2)] by (simp add: body_reader_def)
  obtain s' where s': "read_content strm (sq_headers (ex_req ex)) (sv_payload_max_length sv) (sp_status (ex_res ex)) None ?out True
      (ex_strm ex) (\<lparr>rd_u = ex_u ex, rd_thrown = False\<rparr>, new_MultipartParser) =
      Some (True, sp_status (ex_res ex), sq_headers (ex_req ex), s',
        \<lparr>rd_u = absorb (ex_u ex) body, rd_thrown = False\<rparr>, new_MultipartParser)" "good s'" "unread s' = rest"
    using body_reader.read_content_framed [OF br assms(3,4,5) quiet_None, of True "sv_payload_max_length sv"
        "sp_status (ex_res ex)" "(\<lparr>rd_u = ex_u ex, rd_thrown = False\<rparr>, new_MultipartParser)"] assms(6,7,8)
    by auto
  have "ex\<lparr>ex_strm := s', ex_u := u\<rparr> = ex\<lparr>ex_req := ex_req ex, ex_res := ex_res ex, ex_strm := s', ex_u := u\<rparr>" for u by (cases ex) simp
  with s' assms(9,10) show ?thesis
    by (intro exI [of _ s']) (simp add: read_content_with_content_receiver_def read_content_core_def Let_def)
qed

lemma dispatch_reader_first:
  assumes "sv_pre_request_handler sv = None"
    "find (\<lambda>mh. accepts env (sq_path (ex_req ex)) (fst mh)) hs = Some (m, h)"
  shows "dispatch_request_for_content_reader env strm sv hs ex =
    map_option (\<lambda>(thr, ex). (case thr of Some e \<Rightarrow> Inl e | None \<Rightarrow> Inr True, ex))
      (run_interaction strm sv (h (captured env m (ex_req ex)) (ex_res ex) (ex_u ex)) (ex\<lparr>ex_req := captured env m (ex_req ex)\<rparr>))"
  using assms(2)
proof (induction hs arbitrary: ex)
  case (Cons mh hs)
  obtain m' h' where mh: "mh = (m', h')" by force
  obtain ok req where mm: "matcher_match env m' (ex_req ex) = (ok, req)" by force
  have ok: "ok = accepts env (sq_path (ex_req ex)) m'" using accepts_iff [of env m' "ex_req ex"] mm by simp
  show ?case
  proof (cases ok)
    case True
    with Cons.prems mh ok have eq: "m' = m" "h' = h" by simp_all
    have "req\<lparr>sq_matched_route := mt_pattern m\<rparr> = captured env m (ex_req ex)" using mm eq by (simp add: captured_def)
    with mm True mh eq assms(1) show ?thesis by (simp add: call_with_response_def Let_def)
  next
    case False
    have path: "sq_path req = sq_path (ex_req ex)" using matcher_match_path [of env m' "ex_req ex"] mm by simp
    have cap: "captured env m req = captured env m (ex_req ex)" using captured_after [of env m m' "ex_req ex"] mm by simp
    have "find (\<lambda>mh. accepts env (sq_path (ex_req (ex\<lparr>ex_req := req\<rparr>))) (fst mh)) hs = Some (m, h)"
      using Cons.prems False ok mh path by simp
    from Cons.IH [OF this] cap mm False mh show ?thesis by simp
  qed
qed simp

text \<open>C13 (content_reader_gets_body): a handler with a content reader that is the first to accept the path and reads
  the plain content is handed the body exactly, in whatever framing and portions it comes, and nothing of what
  follows it; then it goes on with the result \<open>true\<close>.\<close>

theorem content_reader_gets_body:
  assumes "readable_stream strm good unread" "content_sink (\<lambda>buf off len. f buf) absorb"
    "good (ex_strm ex)" "unread (ex_strm ex) = wire @ rest" "framed (sq_headers (ex_req ex)) body wire rest"
    "\<not> encoding_unsupported (get_header_value (sq_headers (ex_req ex)) ''Content-Encoding'' [] 0)"
    "length body \<le> sv_payload_max_length sv" "length body \<le> UINT64_MAX"
    "\<not> sq_is_multipart_form_data (ex_req ex)" "sq_method (ex_req ex) \<noteq> ''DELETE''" "sv_pre_request_handler sv = None"
    "find (\<lambda>mh. accepts env (sq_path (ex_req ex)) (fst mh)) hs = Some (m, h)"
    "h (captured env m (ex_req ex)) (ex_res ex) (ex_u ex) = ReadContent f res u k"
    "k (Inr True) (captured env m (ex_req ex)) res (absorb u body) = Finished thr res' u'"
  shows "\<exists>s'. dispatch_request_for_content_reader env strm sv hs ex =
      Some (case thr of Some e \<Rightarrow> Inl e | None \<Rightarrow> Inr True,
        ex\<lparr>ex_req := captured env m (ex_req ex), ex_res := res', ex_strm := s', ex_u := u'\<rparr>) \<and>
    good s' \<and> unread s' = rest"
proof -
  let ?ex = "ex\<lparr>ex_req := captured env m (ex_req ex), ex_res := res, ex_u := u\<rparr>"
  have "\<not> sq_is_multipart_form_data (captured env m (ex_req ex))"
    using assms(9) by (simp add: sq_is_multipart_form_data_def sq_get_header_value_def)
  then obtain s' where s': "read_content_with_content_receiver strm sv (Some f) None None ?ex =
      Some (Inr True, ?ex\<lparr>ex_strm := s', ex_u := absorb u body\<rparr>)" "good s'" "unread s' = rest"
    using content_reader_reads [OF assms(1,2), of ?ex wire rest body sv] assms(3-8,10) by auto
  then show ?thesis
    using dispatch_reader_first [OF assms(11,12), of strm] assms(13,14) by (intro exI [of _ s']) simp
qed

text \<open>A handler that collects the content through the reader and answers with it.\<close>

definition collect :: "bytes HandlerWithContentReader" where
  "collect req res u = ReadContent (\<lambda>buf u. (True, u @ buf)) res u (\<lambda>r req res u. Finished None (res\<lparr>sp_body := u\<rparr>) u)"

definition example_exchange :: "(BufferStream, bytes) Exchange" where
  "example_exchange =
     \<lparr>ex_req = new_sRequest\<lparr>sq_method := ''POST'', sq_path := ''/echo/7'', sq_headers := [(''Content-Length'', ''3'')]\<rparr>,
      ex_res = new_sResponse, ex_strm = \<lparr>bs_buffer = ''abcGET'', bs_position = 0\<rparr>, ex_u = []\<rparr>"

theorem content_reader_gets_body_witness:
  "\<exists>ex. dispatch_request_for_content_reader example_env BufferStream new_Server [(example_matcher, collect)] example_exchange =
      Some (Inr True, ex) \<and> sp_body (ex_res ex) = ''abc'' \<and> bs_pending (ex_strm ex) = ''GET''"
proof -
  have three: "to_string_nat (Suc (Suc (Suc 0))) = ''3''" by code_simp
  have ci: "\<not> equal_ci ''Transfer-Encoding'' ''Content-Length''" "\<not> equal_ci ''Content-Encoding'' ''Content-Length''"
    "\<not> equal_ci ''Content-Type'' ''Content-Length''" "\<not> equal_ci [] ''chunked''" by code_simp+
  have frm: "framed (sq_headers (ex_req example_exchange)) ''abc'' ''abc'' ''GET''"
    using three ci by (simp add: framed_def example_exchange_def has_header_def header_values_def
        is_chunked_transfer_encoding_def get_header_value_def)
  have acc: "find (\<lambda>mh. accepts example_env (sq_path (ex_req example_exchange)) (fst mh)) [(example_matcher, collect)] =
      Some (example_matcher, collect)"
  proof -
    have "accepts example_env ''/echo/7'' example_matcher" by code_simp
    then show ?thesis by (simp add: example_exchange_def)
  qed
  have enc: "\<not> encoding_unsupported (get_header_value (sq_headers (ex_req example_exchange)) ''Content-Encoding'' [] 0)"
    using ci by (simp add: example_exchange_def get_header_value_def header_values_def encoding_unsupported_def)
  have mp: "\<not> sq_is_multipart_form_data (ex_req example_exchange)"
    using ci by (simp add: example_exchange_def sq_is_multipart_form_data_def sq_get_header_value_def get_header_value_def header_values_def)
  have col: "collect req res u = ReadContent (\<lambda>buf u. (True, u @ buf)) res u (\<lambda>r req res u. Finished None (res\<lparr>sp_body := u\<rparr>) u)" for req res u
    by (simp add: collect_def)
  have len: "length ''abc'' \<le> sv_payload_max_length (new_Server :: bytes Server)" "length ''abc'' \<le> UINT64_MAX"
    by (simp_all add: new_Server_def SIZE_T_MAX_def UINT64_MAX_def)
  have pend: "bs_pending (ex_strm example_exchange) = ''abc'' @ ''GET''" by (simp add: example_exchange_def bs_pending_def)
  have "sq_method (ex_req example_exchange) \<noteq> ''DELETE''" "sv_pre_request_handler (new_Server :: bytes Server) = None"
    by (simp_all add: example_exchange_def new_Server_def)
  from content_reader_gets_body [OF bs_in.readable_stream_axioms append_sink.content_sink_axioms TrueI pend frm enc len mp this acc col refl]
  show ?thesis by (auto simp: example_exchange_def)
qed

end
