(* ===== verification/Http_Routes.thy ===== *)
theory Http_Routes
  imports Http_Server
begin

text \<open>
  Two properties of the routing of \<^verbatim>\<open>src/CPPTools/include/httplib.h\<close>: the matcher of a pattern with path
  parameters captures from every path of the pattern's form exactly the values that were put there, and a
  request for a file touches the file system only below the directories that are mounted.
\<close>

section \<open>Patterns with path parameters\<close>

text \<open>A route as a list of segments, its pattern, and the path that has \<open>vs\<close> for its parameters.\<close>

datatype segment = Fixed string | Param string

fun route_pattern :: "segment list \<Rightarrow> string" where
  "route_pattern [] = []"
| "route_pattern (Fixed s # segs) = CHR ''/'' # s @ route_pattern segs"
| "route_pattern (Param n # segs) = ''/:'' @ n @ route_pattern segs"

fun route_path :: "segment list \<Rightarrow> string list \<Rightarrow> string" where
  "route_path [] vs = []"
| "route_path (Fixed s # segs) vs = CHR ''/'' # s @ route_path segs vs"
| "route_path (Param n # segs) vs = CHR ''/'' # hd vs @ route_path segs (tl vs)"

fun route_names :: "segment list \<Rightarrow> string list" where
  "route_names [] = []"
| "route_names (Fixed s # segs) = route_names segs"
| "route_names (Param n # segs) = n # route_names segs"

fun proper_segment :: "segment \<Rightarrow> bool" where
  "proper_segment (Fixed s) \<longleftrightarrow> CHR ''/'' \<notin> set s \<and> (s = [] \<or> hd s \<noteq> CHR '':'')"
| "proper_segment (Param n) \<longleftrightarrow> CHR ''/'' \<notin> set n"

text \<open>The static fragments that the constructor cuts out: \<open>cur\<close> is the text since the last parameter, of which
  the first \<open>k\<close> characters (the slash after a parameter) do not count.\<close>

fun route_fragments :: "nat \<Rightarrow> string \<Rightarrow> segment list \<Rightarrow> string list" where
  "route_fragments k cur [] = (if drop k cur = [] then [] else [drop k cur])"
| "route_fragments k cur (Fixed s # segs) = route_fragments k (cur @ CHR ''/'' # s) segs"
| "route_fragments k cur (Param n # segs) = drop k (cur @ ''/'') # route_fragments 1 [] segs"

lemma route_pattern_hd: "segs = [] \<or> (\<exists>t. route_pattern segs = CHR ''/'' # t)"
  by (cases segs rule: route_pattern.cases) auto

lemma find_sub_marker_other: "c \<noteq> CHR ''/'' \<Longrightarrow> find_sub ''/:'' (c # s) = map_option Suc (find_sub ''/:'' s)"
  by (cases "find_sub ''/:'' s") auto

lemma find_sub_marker_skip: "CHR ''/'' \<notin> set t \<Longrightarrow> find_sub ''/:'' (t @ s) = map_option (\<lambda>i. length t + i) (find_sub ''/:'' s)"
proof (induction t)
  case (Cons c t)
  then have "find_sub ''/:'' ((c # t) @ s) = map_option Suc (find_sub ''/:'' (t @ s))"
    by (simp only: append_Cons find_sub_marker_other) auto
  with Cons show ?case by (cases "find_sub ''/:'' s") auto
qed (cases "find_sub ''/:'' s"; simp)

lemma find_sub_fixed:
  assumes "proper_segment (Fixed s)"
  shows "find_sub ''/:'' (CHR ''/'' # s @ route_pattern segs) = map_option (\<lambda>i. Suc (length s) + i) (find_sub ''/:'' (route_pattern segs))"
proof -
  have no: "take 2 (CHR ''/'' # s @ route_pattern segs) \<noteq> ''/:''"
    using assms(1) route_pattern_hd [of segs] by (cases s; cases "route_pattern segs") auto
  have "find_sub ''/:'' (CHR ''/'' # s @ route_pattern segs) = map_option Suc (find_sub ''/:'' (s @ route_pattern segs))"
    using no by (cases "find_sub ''/:'' (s @ route_pattern segs)") (auto simp: numeral_2_eq_2)
  then show ?thesis
    using find_sub_marker_skip [of s "route_pattern segs"] assms(1)
    by (cases "find_sub ''/:'' (route_pattern segs)") auto
qed

text \<open>The leading fixed segments of a route, and the next parameter with what follows it.\<close>

fun fixed_text :: "segment list \<Rightarrow> string" where
  "fixed_text (Fixed s # segs) = CHR ''/'' # s @ fixed_text segs"
| "fixed_text _ = []"

fun next_param :: "segment list \<Rightarrow> (string \<times> segment list) option" where
  "next_param [] = None"
| "next_param (Fixed s # segs) = next_param segs"
| "next_param (Param n # segs) = Some (n, segs)"

lemma find_sub_route:
  "list_all proper_segment segs \<Longrightarrow>
     find_sub ''/:'' (route_pattern segs) = (if next_param segs = None then None else Some (length (fixed_text segs)))"
proof (induction segs rule: route_pattern.induct)
  case (2 s segs)
  then show ?case using find_sub_fixed [of s segs] by auto
qed auto

lemma route_split:
  "next_param segs = Some (n, rest) \<Longrightarrow>
     route_pattern segs = fixed_text segs @ ''/:'' @ n @ route_pattern rest \<and> route_names segs = n # route_names rest \<and>
     route_fragments k cur segs = drop k (cur @ fixed_text segs @ ''/'') # route_fragments 1 [] rest \<and>
     (list_all proper_segment segs \<longrightarrow> CHR ''/'' \<notin> set n \<and> list_all proper_segment rest)"
  by (induction segs arbitrary: cur rule: route_pattern.induct) (auto simp del: drop_append)

lemma next_param_shorter: "next_param segs = Some (n, rest) \<Longrightarrow> length rest < length segs"
  by (induction segs rule: route_pattern.induct) auto

lemma drop_slash: "k \<le> 1 \<Longrightarrow> drop k (cur @ CHR ''/'' # t) = drop k (cur @ ''/'') @ t"
  by (cases cur; cases k) auto

lemma route_no_param:
  "next_param segs = None \<Longrightarrow> route_names segs = [] \<and> route_fragments k cur segs = route_fragments k (cur @ route_pattern segs) []"
  by (induction segs arbitrary: cur rule: route_pattern.induct) (auto simp del: drop_append)

lemma takeWhile_name:
  "CHR ''/'' \<notin> set n \<Longrightarrow> takeWhile (\<lambda>c. c \<noteq> CHR ''/'') (n @ route_pattern segs) = n"
  using route_pattern_hd [of segs] by (induction n) auto

lemma drop_length_append: "drop (length xs + k) (xs @ ys) = drop k ys"
  by simp

text \<open>What the constructor is left with: the position after the last parameter, the fragments and names.\<close>

lemma constructor_fragments:
  assumes "list_all proper_segment segs" "distinct (ns @ route_names segs)" "k \<le> 1" "k = 1 \<or> pre = []"
  shows "\<exists>e fs'. path_params_loop (pre @ route_pattern segs) (length pre + k) fs ns = Inr (e, fs', ns @ route_names segs) \<and>
    (if e < length (pre @ route_pattern segs) then fs' @ [drop e (pre @ route_pattern segs)] else fs') =
      fs @ route_fragments k [] segs"
  using assms
proof (induction "length segs" arbitrary: segs pre k fs ns rule: less_induct)
  case less
  let ?pat = "pre @ route_pattern segs"
  have start: "(if length pre + k = 0 then length pre + k else length pre + k - 1) = length pre"
    using less.prems(3,4) by auto
  have mark: "find_from ''/:'' ?pat (length pre) =
      (if next_param segs = None then None else Some (length pre + length (fixed_text segs)))"
    using find_sub_route [OF less.prems(1)] by (simp add: find_from_def)
  show ?case
  proof (cases "next_param segs")
    case None
    have "path_params_loop ?pat (length pre + k) fs ns = Inr (length pre + k, fs, ns)"
      using mark start None by (subst path_params_loop.simps) simp
    then show ?thesis using route_no_param [OF None, of k "[]"] by auto
  next
    case (Some nr)
    obtain n rest where nr: "nr = (n, rest)" by force
    note sp = route_split [OF Some [unfolded nr], of k "[]"]
    have pat: "?pat = (pre @ fixed_text segs @ ''/:'' @ n) @ route_pattern rest" using sp by simp
    have frag: "take (length pre + length (fixed_text segs) + 1 - (length pre + k)) (drop (length pre + k) ?pat) =
        drop k (fixed_text segs @ ''/'')"
    proof -
      have "drop (length pre + k) ?pat = drop k (fixed_text segs @ ''/'') @ '':'' @ n @ route_pattern rest"
        using less.prems(3) pat drop_slash [of k "fixed_text segs" "CHR '':'' # n @ route_pattern rest"] by (simp del: drop_append add: drop_length_append)
      then show ?thesis by simp
    qed
    have name: "takeWhile (\<lambda>c. c \<noteq> CHR ''/'') (drop (length pre + length (fixed_text segs) + 2) ?pat) = n"
      using takeWhile_name [of n rest] sp less.prems(1) pat by simp
    have new: "n \<notin> set ns" using less.prems(2) sp by simp
    have len: "length pre + length (fixed_text segs) + 2 + length n + 1 = length (pre @ fixed_text segs @ ''/:'' @ n) + 1" by simp
    have "path_params_loop ?pat (length pre + k) fs ns =
        path_params_loop ?pat (length (pre @ fixed_text segs @ ''/:'' @ n) + 1) (fs @ [drop k (fixed_text segs @ ''/'')]) (ns @ [n])"
      using mark start Some nr frag name new len by (subst path_params_loop.simps) (simp add: Let_def add.assoc del: drop_append)
    moreover have "\<exists>e fs'. path_params_loop ((pre @ fixed_text segs @ ''/:'' @ n) @ route_pattern rest)
        (length (pre @ fixed_text segs @ ''/:'' @ n) + 1) (fs @ [drop k (fixed_text segs @ ''/'')]) (ns @ [n]) =
          Inr (e, fs', (ns @ [n]) @ route_names rest) \<and>
        (if e < length ((pre @ fixed_text segs @ ''/:'' @ n) @ route_pattern rest)
         then fs' @ [drop e ((pre @ fixed_text segs @ ''/:'' @ n) @ route_pattern rest)] else fs') =
        (fs @ [drop k (fixed_text segs @ ''/'')]) @ route_fragments 1 [] rest"
      by (rule less.hyps) (use sp next_param_shorter [OF Some [unfolded nr]] less.prems in auto)
    ultimately show ?thesis unfolding pat using sp by (simp del: drop_append)
  qed
qed

lemma constructor_of_route:
  assumes "list_all proper_segment segs" "distinct (route_names segs)"
  shows "new_PathParamsMatcher (route_pattern segs) =
    Inr (PathParamsMatcher (route_pattern segs) (route_fragments 0 [] segs) (route_names segs))"
  using constructor_fragments [of segs "[]" 0 "[]" "[]"] assms by (auto simp: new_PathParamsMatcher_def)

text \<open>Matching.\<close>

lemma strncmp_eq_prefix: "strncmp_eq (f @ s) f (length f)"
proof -
  have "NUL \<in> set f \<Longrightarrow> c_str (f @ s) = c_str f" unfolding c_str_def by (intro takeWhile_append1) auto
  moreover have "NUL \<notin> set f \<Longrightarrow> take (length f) (c_str (f @ s)) = f \<and> c_str f = f"
    unfolding c_str_def by (simp add: takeWhile_append takeWhile_eq_all_conv)
  ultimately show ?thesis unfolding strncmp_eq_def by fastforce
qed

lemma match_route:
  assumes "path = pre @ cur @ route_path segs vs" "k \<le> 1" "length vs = length (route_names segs)"
    "\<forall>v \<in> set vs. CHR ''/'' \<notin> set v" "distinct (route_names segs)" "set (route_names segs) \<inter> dom ps = {}"
  shows "match_fragments path (route_fragments k cur segs) (route_names segs) (length pre + k) ps =
    (True, ps ++ map_of (zip (route_names segs) vs))"
  using assms
proof (induction segs arbitrary: pre cur vs k ps rule: route_pattern.induct)
  case 1
  have drp: "drop (length pre + k) path = drop k cur" using "1.prems"(1) by simp
  show ?case
  proof (cases "drop k cur = []")
    case True
    with 1 show ?thesis by simp
  next
    case False
    with 1 drp strncmp_eq_prefix [of "drop k cur" "[]"] show ?thesis by simp
  qed
next
  case (2 s segs)
  from "2.IH" [of pre "cur @ CHR ''/'' # s" vs k ps] "2.prems" show ?case by simp
next
  case (3 n segs)
  obtain v vs' where vs: "vs = v # vs'" using "3.prems"(3) by (cases vs) auto
  let ?f = "drop k (cur @ ''/'')"
  have path: "path = (pre @ cur @ CHR ''/'' # v) @ [] @ route_path segs vs'" using "3.prems"(1) vs by simp
  have drp: "drop (length pre + k) path = ?f @ v @ route_path segs vs'"
    using "3.prems"(1,2) vs drop_slash [of k cur "v @ route_path segs vs'"] by (simp del: drop_append add: drop_length_append)
  have len: "length pre + k + length ?f = length pre + length cur + 1" using "3.prems"(2) by simp
  have le: "\<not> length pre + k + length ?f > length path" unfolding len using path by simp
  have cmp: "strncmp_eq (drop (length pre + k) path) ?f (length ?f)" unfolding drp by (rule strncmp_eq_prefix)
  have drp': "drop (length pre + k + length ?f) path = v @ route_path segs vs'" unfolding len using path by simp
  have hd: "route_path segs vs' = [] \<or> (\<exists>t. route_path segs vs' = CHR ''/'' # t)" by (cases segs rule: route_pattern.cases) auto
  have "CHR ''/'' \<notin> set v" using "3.prems"(4) vs by simp
  then have val: "takeWhile (\<lambda>c. c \<noteq> CHR ''/'') (v @ route_path segs vs') = v"
    using hd by (induction v) auto
  have fresh: "ps n = None" using "3.prems"(6) by (auto simp: domIff)
  have pos: "length pre + k + length ?f + length v + 1 = length (pre @ cur @ CHR ''/'' # v) + 1" unfolding len by simp
  have "match_fragments path (route_fragments k cur (Param n # segs)) (route_names (Param n # segs)) (length pre + k) ps =
      match_fragments path (route_fragments 1 [] segs) (route_names segs) (length pre + k + length ?f + length v + 1) (ps(n \<mapsto> v))"
    using le cmp drp' val fresh by (simp add: Let_def del: drop_append length_drop)
  also have "\<dots> = match_fragments path (route_fragments 1 [] segs) (route_names segs) (length (pre @ cur @ CHR ''/'' # v) + 1) (ps(n \<mapsto> v))"
    unfolding pos ..
  also have "\<dots> = (True, (ps(n \<mapsto> v)) ++ map_of (zip (route_names segs) vs'))"
    by (rule "3.IH" [OF path])
      (use "3.prems" vs in \<open>auto simp: disjoint_iff domIff split: if_splits\<close>)
  also have "(ps(n \<mapsto> v)) ++ map_of (zip (route_names segs) vs') = ps ++ map_of (zip (route_names (Param n # segs)) vs)"
    using "3.prems"(3,5) vs by (simp add: map_add_upd_left)
  finally show ?case .
qed

lemma path_params_ok:
  assumes "list_all proper_segment segs" "distinct (route_names segs)" "route_names segs \<noteq> []"
    "length vs = length (route_names segs)" "\<forall>v \<in> set vs. CHR ''/'' \<notin> set v" "sq_path req = route_path segs vs"
  shows "\<exists>m. make_matcher env (route_pattern segs) = Inr m \<and>
    matcher_match env m req = (True, req\<lparr>sq_matches := [], sq_path_params := map_of (zip (route_names segs) vs)\<rparr>)"
proof -
  obtain n rest where "next_param segs = Some (n, rest)"
    using assms(3) route_no_param [of segs 0 "[]"] by (cases "next_param segs") auto
  then have "make_matcher env (route_pattern segs) = new_PathParamsMatcher (route_pattern segs)"
    using find_sub_route [OF assms(1)] by (auto simp: make_matcher_def)
  moreover have "match_fragments (sq_path req) (route_fragments 0 [] segs) (route_names segs) 0 Map.empty =
      (True, map_of (zip (route_names segs) vs))"
    using match_route [of "sq_path req" "[]" "[]" segs vs 0 Map.empty] assms by simp
  ultimately show ?thesis using constructor_of_route [OF assms(1,2)] by (simp add: matcher_match_def)
qed

text \<open>The path in the comment of \<open>PathParamsMatcher\<close>: what is captured is \<open>:1\<close> and \<open>:2\<close>, not \<open>1\<close> and \<open>2\<close>.\<close>

lemma documented_capture:
  "\<exists>m. make_matcher env ''/path/fragments/:capture/more/fragments/:second_capture'' = Inr m \<and>
     sq_path_params (snd (matcher_match env m (new_sRequest\<lparr>sq_path := ''/path/fragments/:1/more/fragments/:2''\<rparr>))) =
       [''capture'' \<mapsto> '':1'', ''second_capture'' \<mapsto> '':2'']"
  using path_params_ok [of "[Fixed ''path'', Fixed ''fragments'', Param ''capture'', Fixed ''more'', Fixed ''fragments'', Param ''second_capture'']"
      "['':1'', '':2'']" "new_sRequest\<lparr>sq_path := ''/path/fragments/:1/more/fragments/:2''\<rparr>" env]
  by (auto simp: fun_eq_iff)

text \<open>A file system for the examples.\<close>

definition example_files :: "string \<Rightarrow> unit srv_env" where
  "example_files secret =
     \<lparr>env_is_dir = (\<lambda>p. False), env_is_file = (\<lambda>p. p \<in> {''/srv/a.txt'', ''/secret'', ''/srv2/secret''}),
      env_mmap = [''/srv/a.txt'' \<mapsto> ''abc'', ''/secret'' \<mapsto> secret, ''/srv2/secret'' \<mapsto> secret], env_regex_valid = (\<lambda>pat. True),
      env_regex_match = (\<lambda>pat s. None),
      env_sort_ranges = (\<lambda>rs. rs), env_sort_entries = (\<lambda>es. es), env_stod = (\<lambda>s. None), env_engine = (\<lambda>i. i),
      env_shutting_down = (\<lambda>u. (False, u))\<rparr>"

text \<open>C28 (path_params_captured): a pattern whose parameter names are different makes a matcher, and the matcher
  accepts the path with any values in the place of the parameters and captures exactly these values under
  their names. A value has no slash, where a capture ends, and does not begin with a colon: of such a value the comment on the class
  says that the capture leaves out the colon, which is not what the code does (\<open>documented_capture\<close>).\<close>

theorem path_params_captured:
  assumes "list_all proper_segment segs" "distinct (route_names segs)" "route_names segs \<noteq> []"
    "length vs = length (route_names segs)" "\<forall>v \<in> set vs. CHR ''/'' \<notin> set v \<and> \<not> prefix '':'' v"
    "sq_path req = route_path segs vs"
  shows "\<exists>m. make_matcher env (route_pattern segs) = Inr m \<and>
    matcher_match env m req = (True, req\<lparr>sq_matches := [], sq_path_params := map_of (zip (route_names segs) vs)\<rparr>)"
  using path_params_ok [OF assms(1-4) _ assms(6)] assms(5) by blast

theorem path_params_captured_witness:
  "\<exists>m req. make_matcher (example_files []) ''/users/:id/posts/:n'' = Inr m \<and>
     matcher_match (example_files []) m (new_sRequest\<lparr>sq_path := ''/users/7/posts/12''\<rparr>) = (True, req) \<and>
     sq_path_params req = [''id'' \<mapsto> ''7'', ''n'' \<mapsto> ''12'']"
  using path_params_captured [of "[Fixed ''users'', Param ''id'', Fixed ''posts'', Param ''n'']" "[''7'', ''12'']"
      "new_sRequest\<lparr>sq_path := ''/users/7/posts/12''\<rparr>" "example_files []"]
  by (auto simp: fun_eq_iff)

section \<open>Requests for files\<close>

text \<open>The names that lead, followed from a directory component by component, never out of it.\<close>

definition inside :: "string \<Rightarrow> bool" where
  "inside sub \<longleftrightarrow> NUL \<notin> set sub \<and> (\<forall>n. ups (take n (components sub)) \<le> downs (take n (components sub)))"

text \<open>The names below a mounted directory: its own name, a slash, and a name that stays inside.\<close>

definition mounted :: "MountPointEntry list \<Rightarrow> string \<Rightarrow> bool" where
  "mounted entries p \<longleftrightarrow> (\<exists>e \<in> set entries. \<exists>sub. inside sub \<and> p = c_str (me_base_dir e @ CHR ''/'' # sub))"

lemma fields_of_slash: "fields_of d (s @ d # t) = fields_of d s @ fields_of d t"
proof (induction s)
  case (Cons c s)
  then show ?case by (cases "fields_of d s") auto
qed simp

lemma inside_index:
  assumes "inside sub" "sub \<noteq> []" "last sub = CHR ''/''"
  shows "inside (sub @ ''index.html'')"
proof -
  obtain t where t: "sub = t @ ''/''" using assms(2,3) by (metis append_butlast_last_id)
  have c: "components sub = components t" "components (sub @ ''index.html'') = components t @ [''index.html'']"
    using fields_of_slash [of "CHR ''/''" t "[]"] fields_of_slash [of "CHR ''/''" t "''index.html''"]
    by (simp_all add: t components_def)
  have "ups (take n (components t @ [''index.html''])) \<le> downs (take n (components t @ [''index.html'']))" for n
  proof (cases "n \<le> length (components t)")
    case True
    with assms(1) c show ?thesis by (simp add: inside_def)
  next
    case False
    then have "take n (components t @ [''index.html'']) = components t @ [''index.html'']" by simp
    moreover have "ups (components t) \<le> downs (components t)"
      using assms(1) c by (metis inside_def order_refl take_all)
    ultimately show ?thesis by (simp add: ups_def downs_def)
  qed
  with assms(1) c show ?thesis by (simp add: inside_def)
qed

lemma inside_slash: "inside (CHR ''/'' # sub) \<longleftrightarrow> inside sub"
proof -
  have "components (CHR ''/'' # sub) = components sub"
    using fields_of_slash [of "CHR ''/''" "[]" sub] by (simp add: components_def)
  then show ?thesis by (simp add: inside_def)
qed

lemma file_path_mounted:
  assumes "entry \<in> set entries" "is_valid_path (CHR ''/'' # sub)"
  shows "mounted entries (c_str (file_path entry (CHR ''/'' # sub)))"
proof -
  have i: "inside (CHR ''/'' # sub)" using assms(2) by (simp add: is_valid_path_iff inside_def)
  define sub' where "sub' = (if last (CHR ''/'' # sub) = CHR ''/'' then sub @ ''index.html'' else sub)"
  have "file_path entry (CHR ''/'' # sub) = me_base_dir entry @ CHR ''/'' # sub'"
    by (simp add: file_path_def sub'_def Let_def)
  moreover have "inside sub'"
    using inside_index [OF i] i inside_slash [of "sub @ ''index.html''"] inside_slash [of sub] by (simp add: sub'_def)
  ultimately show ?thesis using assms(1) unfolding mounted_def by metis
qed

text \<open>Two file systems that look the same below the mounted directories.\<close>

definition same_files :: "MountPointEntry list \<Rightarrow> 'u srv_env \<Rightarrow> 'u srv_env \<Rightarrow> bool" where
  "same_files entries env env' \<longleftrightarrow> (\<forall>p. mounted entries p \<longrightarrow>
     env_is_dir env p = env_is_dir env' p \<and> env_is_file env p = env_is_file env' p \<and> env_mmap env p = env_mmap env' p)"

lemma handle_file_request_loop_same:
  assumes "same_files entries env env'" "set es \<subseteq> set entries"
  shows "handle_file_request_loop env sv es req res u = handle_file_request_loop env' sv es req res u"
  using assms(2)
proof (induction es)
  case (Cons e es)
  let ?sub = "CHR ''/'' # drop (length (me_mount_point e)) (sq_path req)"
  have IH: "handle_file_request_loop env sv es req res u = handle_file_request_loop env' sv es req res u"
    using Cons by simp
  show ?case
  proof (cases "prefix (me_mount_point e) (sq_path req) \<and> is_valid_path ?sub")
    case False
    with IH show ?thesis by simp
  next
    case True
    then have "mounted entries (c_str (file_path e ?sub))" using Cons.prems by (intro file_path_mounted) simp_all
    then have "env_is_dir env (c_str (file_path e ?sub)) = env_is_dir env' (c_str (file_path e ?sub))"
      "env_is_file env (c_str (file_path e ?sub)) = env_is_file env' (c_str (file_path e ?sub))"
      "env_mmap env (c_str (file_path e ?sub)) = env_mmap env' (c_str (file_path e ?sub))"
      using assms(1) unfolding same_files_def by blast+
    with IH show ?thesis by (simp add: Let_def)
  qed
qed simp

text \<open>C12 (file_requests_confined): whatever path is requested, the answer of \<open>handle_file_request\<close> (its result, the
  response and the state after it) depends on the file system only at names that lead from a mounted directory
  downwards: the name of the directory, a slash, and components that never climb out of it. This also holds when the path has
  dots, doubled slashes, backslashes or NUL characters in it, and for directories whose name begins with that of a
  mounted one.\<close>

theorem file_requests_confined:
  assumes "same_files (sv_base_dirs sv) env env'"
  shows "handle_file_request env sv req res u = handle_file_request env' sv req res u"
  unfolding handle_file_request_def by (rule handle_file_request_loop_same [OF assms order_refl])

definition example_mount :: "unit Server" where
  "example_mount = new_Server\<lparr>sv_base_dirs := [\<lparr>me_mount_point = ''/'', me_base_dir = ''/srv'', me_headers = []\<rparr>]\<rparr>"

lemma secrets_not_mounted:
  "\<not> mounted (sv_base_dirs example_mount) ''/secret''" "\<not> mounted (sv_base_dirs example_mount) ''/srv2/secret''"
proof -
  have "c_str (''/srv'' @ CHR ''/'' # sub) = ''/srv/'' @ c_str sub" for sub by (simp add: c_str_def)
  then show "\<not> mounted (sv_base_dirs example_mount) ''/secret''" "\<not> mounted (sv_base_dirs example_mount) ''/srv2/secret''"
    by (auto simp: mounted_def example_mount_def)
qed

text \<open>Neither \<open>/../secret\<close> nor \<open>/2/secret\<close>, with \<open>/srv\<close> mounted, tells anything of the files \<open>/secret\<close> and
  \<open>/srv2/secret\<close>.\<close>

theorem file_requests_confined_witness:
  "list_all (\<lambda>path.
     handle_file_request (example_files ''one'') example_mount (new_sRequest\<lparr>sq_method := ''GET'', sq_path := path\<rparr>) new_sResponse () =
     handle_file_request (example_files ''two'') example_mount (new_sRequest\<lparr>sq_method := ''GET'', sq_path := path\<rparr>) new_sResponse ())
   [''/../secret'', ''/2/secret'', ''/a.txt'']"
proof -
  have "same_files (sv_base_dirs example_mount) (example_files ''one'') (example_files ''two'')"
    unfolding same_files_def
  proof (intro allI impI)
    fix p assume "mounted (sv_base_dirs example_mount) p"
    then have "p \<noteq> ''/secret''" "p \<noteq> ''/srv2/secret''" using secrets_not_mounted by blast+
    then show "env_is_dir (example_files ''one'') p = env_is_dir (example_files ''two'') p \<and>
        env_is_file (example_files ''one'') p = env_is_file (example_files ''two'') p \<and>
        env_mmap (example_files ''one'') p = env_mmap (example_files ''two'') p"
      by (simp add: example_files_def)
  qed
  from file_requests_confined [OF this] show ?thesis by simp
qed

end
