(* ===== verification/Http_Pool.thy ===== *)
theory Http_Pool
  imports Main "HOL-Library.Multiset"
begin

text \<open>
  The threads of the server of \<^verbatim>\<open>src/CPPTools/include/httplib.h\<close>: the thread pool with its queue, mutex and
  condition variable, and the accept loop (\<open>Server::listen_internal\<close>) that feeds it, as a step relation in which
  the listener, the workers and a thread that calls \<open>stop\<close> interleave. A step is what happens under one lock,
  or one call that other threads can see.

  What the operating system decides is left open: what \<open>accept\<close> returns, which blocked worker
  \<open>notify_one\<close> wakes, spurious wake-ups, and when a connection has been served. That serving a connection
  comes to an end is an assumption: it is one step (\<open>worker_finish\<close>).
\<close>

section \<open>The thread pool\<close>

text \<open>Where a worker is: about to look at the queue with the lock held, blocked in \<open>wait\<close>, running a job, or
  returned.\<close>

datatype 'j worker = Checking | Blocked | Running 'j | Exited

record 'j ThreadPool =
  tp_threads :: "'j worker list"
  tp_jobs :: "'j list"
  tp_shutdown :: bool
  tp_max_queued_requests :: nat

definition new_ThreadPool :: "nat \<Rightarrow> nat \<Rightarrow> 'j ThreadPool" where
  "new_ThreadPool n mqr =
     \<lparr>tp_threads = replicate n Checking, tp_jobs = [], tp_shutdown = False, tp_max_queued_requests = mqr\<rparr>"

text \<open>\<open>enqueue\<close> under its lock; \<open>notify_one\<close> follows when it has accepted the job.\<close>

definition tp_enqueue :: "'j \<Rightarrow> 'j ThreadPool \<Rightarrow> bool \<times> 'j ThreadPool" where
  "tp_enqueue fn p =
     (if tp_max_queued_requests p > 0 \<and> length (tp_jobs p) \<ge> tp_max_queued_requests p then (False, p)
      else (True, p\<lparr>tp_jobs := tp_jobs p @ [fn]\<rparr>))"

definition set_worker :: "nat \<Rightarrow> 'j worker \<Rightarrow> 'j ThreadPool \<Rightarrow> 'j ThreadPool" where
  "set_worker i w p = p\<lparr>tp_threads := (tp_threads p)[i := w]\<rparr>"

text \<open>A worker that has the lock: the predicate of \<open>wait\<close>, the test for the end, taking the first job.\<close>

definition worker_check :: "nat \<Rightarrow> 'j ThreadPool \<Rightarrow> 'j ThreadPool" where
  "worker_check i p =
     (if \<not> (tp_jobs p \<noteq> [] \<or> tp_shutdown p) then set_worker i Blocked p
      else if tp_shutdown p \<and> tp_jobs p = [] then set_worker i Exited p
      else set_worker i (Running (hd (tp_jobs p))) (p\<lparr>tp_jobs := tl (tp_jobs p)\<rparr>))"

fun wake :: "'j worker \<Rightarrow> 'j worker" where
  "wake Blocked = Checking"
| "wake w = w"

text \<open>\<open>notify_one\<close> for the blocked worker \<open>i\<close>, and \<open>notify_all\<close>.\<close>

definition notify_one :: "nat \<Rightarrow> 'j ThreadPool \<Rightarrow> 'j ThreadPool" where
  "notify_one i p = set_worker i (wake (tp_threads p ! i)) p"

definition notify_all :: "'j ThreadPool \<Rightarrow> 'j ThreadPool" where
  "notify_all p = p\<lparr>tp_threads := map wake (tp_threads p)\<rparr>"

section \<open>The accept loop\<close>

text \<open>Where \<open>listen_internal\<close> is: in the loop, between pushing a job and \<open>notify_one\<close>, before \<open>shutdown\<close>, in it
  before \<open>notify_all\<close>, joining the workers, returned.\<close>

datatype phase = Accepting | Notifying | Closing | Waking | Joining | Returned

text \<open>\<open>ls_open\<close>: \<open>svr_sock_\<close> is not \<open>INVALID_SOCKET\<close>. The last five fields record what has happened: the
  connections accepted, refused (closed by the listener because the queue was full), queued, taken by a worker
  and served to the end.\<close>

record 'j Listener =
  ls_pool :: "'j ThreadPool"
  ls_phase :: phase
  ls_open :: bool
  ls_running :: bool
  ls_decommissioned :: bool
  ls_ret :: bool
  ls_accepted :: "'j list"
  ls_refused :: "'j list"
  ls_queued :: "'j list"
  ls_taken :: "'j list"
  ls_served :: "'j list"

text \<open>\<open>listen_internal\<close> on a server socket that is open and a server that is not decommissioned.\<close>

definition start_listening :: "nat \<Rightarrow> nat \<Rightarrow> 'j Listener" where
  "start_listening n mqr =
     \<lparr>ls_pool = new_ThreadPool n mqr, ls_phase = Accepting, ls_open = True, ls_running = True,
      ls_decommissioned = False, ls_ret = True, ls_accepted = [], ls_refused = [], ls_queued = [], ls_taken = [],
      ls_served = []\<rparr>"

text \<open>A connection has been accepted: it is queued, or shut down and closed when the queue is full.\<close>

definition accept_connection :: "'j \<Rightarrow> 'j Listener \<Rightarrow> 'j Listener" where
  "accept_connection sock s =
     (case tp_enqueue sock (ls_pool s) of
        (True, p) \<Rightarrow> s\<lparr>ls_pool := p, ls_phase := Notifying, ls_accepted := ls_accepted s @ [sock],
                       ls_queued := ls_queued s @ [sock]\<rparr>
      | (False, p) \<Rightarrow> s\<lparr>ls_accepted := ls_accepted s @ [sock], ls_refused := ls_refused s @ [sock]\<rparr>)"

text \<open>\<open>accept\<close> fails for good: whether somebody has closed the socket decides the result.\<close>

definition accept_failed :: "'j Listener \<Rightarrow> 'j Listener" where
  "accept_failed s = s\<lparr>ls_phase := Closing, ls_ret := (if ls_open s then False else ls_ret s)\<rparr>"

definition finish_listening :: "'j Listener \<Rightarrow> 'j Listener" where
  "finish_listening s = s\<lparr>ls_phase := Returned, ls_decommissioned := \<not> ls_ret s, ls_running := False\<rparr>"

text \<open>\<open>Server::stop\<close>; on a running server the socket must not be closed already (an assertion of the code).\<close>

definition svr_stop :: "'j Listener \<Rightarrow> 'j Listener" where
  "svr_stop s = (if ls_running s then s\<lparr>ls_open := False, ls_decommissioned := False\<rparr> else s\<lparr>ls_decommissioned := False\<rparr>)"

definition taken_by :: "'j worker \<Rightarrow> 'j list" where
  "taken_by w = (case w of Running j \<Rightarrow> [j] | _ \<Rightarrow> [])"

definition worker_turn :: "nat \<Rightarrow> 'j Listener \<Rightarrow> 'j Listener" where
  "worker_turn i s =
     (let p = worker_check i (ls_pool s) in s\<lparr>ls_pool := p, ls_taken := ls_taken s @ taken_by (tp_threads p ! i)\<rparr>)"

definition worker_finish :: "nat \<Rightarrow> 'j Listener \<Rightarrow> 'j Listener" where
  "worker_finish i s =
     s\<lparr>ls_pool := set_worker i Checking (ls_pool s), ls_served := ls_served s @ taken_by (tp_threads (ls_pool s) ! i)\<rparr>"

abbreviation worker_at :: "'j Listener \<Rightarrow> nat \<Rightarrow> 'j worker \<Rightarrow> bool" where
  "worker_at s i w \<equiv> i < length (tp_threads (ls_pool s)) \<and> tp_threads (ls_pool s) ! i = w"

inductive listen_step :: "'j Listener \<Rightarrow> 'j Listener \<Rightarrow> bool" where
  accept: "\<lbrakk>ls_phase s = Accepting; ls_open s\<rbrakk> \<Longrightarrow> listen_step s (accept_connection sock s)"
| closed: "\<lbrakk>ls_phase s = Accepting; \<not> ls_open s\<rbrakk> \<Longrightarrow> listen_step s (s\<lparr>ls_phase := Closing\<rparr>)"
| failed: "ls_phase s = Accepting \<Longrightarrow> listen_step s (accept_failed s)"
| notify: "\<lbrakk>ls_phase s = Notifying; worker_at s i Blocked\<rbrakk> \<Longrightarrow>
     listen_step s (s\<lparr>ls_phase := Accepting, ls_pool := notify_one i (ls_pool s)\<rparr>)"
| notify_none: "\<lbrakk>ls_phase s = Notifying; Blocked \<notin> set (tp_threads (ls_pool s))\<rbrakk> \<Longrightarrow>
     listen_step s (s\<lparr>ls_phase := Accepting\<rparr>)"
| shutdown: "ls_phase s = Closing \<Longrightarrow>
     listen_step s (s\<lparr>ls_phase := Waking, ls_pool := (ls_pool s)\<lparr>tp_shutdown := True\<rparr>\<rparr>)"
| notify_all: "ls_phase s = Waking \<Longrightarrow> listen_step s (s\<lparr>ls_phase := Joining, ls_pool := notify_all (ls_pool s)\<rparr>)"
| joined: "\<lbrakk>ls_phase s = Joining; set (tp_threads (ls_pool s)) \<subseteq> {Exited}\<rbrakk> \<Longrightarrow> listen_step s (finish_listening s)"
| check: "worker_at s i Checking \<Longrightarrow> listen_step s (worker_turn i s)"
| wake: "worker_at s i Blocked \<Longrightarrow> listen_step s (s\<lparr>ls_pool := notify_one i (ls_pool s)\<rparr>)"
| finish: "worker_at s i (Running j) \<Longrightarrow> listen_step s (worker_finish i s)"
| stop: "\<lbrakk>ls_running s; ls_open s\<rbrakk> \<Longrightarrow> listen_step s (svr_stop s)"

inductive listens :: "nat \<Rightarrow> nat \<Rightarrow> 'j Listener \<Rightarrow> bool" for n mqr where
  start: "listens n mqr (start_listening n mqr)"
| step: "\<lbrakk>listens n mqr s; listen_step s s'\<rbrakk> \<Longrightarrow> listens n mqr s'"

inductive_cases listen_stepE: "listen_step s s'"

section \<open>The invariant\<close>

text \<open>Nothing is lost or done twice, the queue is bounded and served in order, and a job in the queue is never
  left behind by sleeping workers: a worker sleeps only while every queued job has a worker that is about to look
  at the queue, or a notification under way.\<close>

definition running :: "'j worker list \<Rightarrow> 'j list" where
  "running ws = concat (map taken_by ws)"

definition lookers :: "'j worker list \<Rightarrow> nat" where
  "lookers ws = length (filter (\<lambda>w. w = Checking) ws)"

definition listen_inv :: "nat \<Rightarrow> nat \<Rightarrow> 'j Listener \<Rightarrow> bool" where
  "listen_inv n mqr s \<longleftrightarrow>
     (let p = ls_pool s; ws = tp_threads p in
      length ws = n \<and> tp_max_queued_requests p = mqr \<and> (mqr > 0 \<longrightarrow> length (tp_jobs p) \<le> mqr) \<and>
      ls_queued s = ls_taken s @ tp_jobs p \<and> mset (ls_accepted s) = mset (ls_refused s) + mset (ls_queued s) \<and>
      mset (ls_taken s) = mset (ls_served s) + mset (running ws) \<and>
      (tp_shutdown p \<longleftrightarrow> ls_phase s \<in> {Waking, Joining, Returned}) \<and>
      (Blocked \<in> set ws \<longrightarrow> length (tp_jobs p) \<le> (if ls_phase s = Notifying then 1 else 0) + lookers ws) \<and>
      (ls_phase s \<in> {Joining, Returned} \<longrightarrow> Blocked \<notin> set ws) \<and>
      (Exited \<in> set ws \<longrightarrow> tp_shutdown p \<and> tp_jobs p = []) \<and>
      (ls_phase s = Returned \<longrightarrow> set ws \<subseteq> {Exited}) \<and>
      (ls_running s \<longleftrightarrow> ls_phase s \<noteq> Returned))"

lemma worker_split:
  assumes "i < length ws"
  obtains as bs where "ws = as @ (ws ! i) # bs" "\<And>v. ws[i := v] = as @ v # bs" "\<And>v. (as @ v # bs) ! i = v"
proof
  show "ws = take i ws @ ws ! i # drop (Suc i) ws" using assms by (rule id_take_nth_drop)
  show "ws[i := v] = take i ws @ v # drop (Suc i) ws" for v using assms by (simp add: upd_conv_take_nth_drop)
  show "(take i ws @ v # drop (Suc i) ws) ! i = v" for v using assms by (simp add: nth_append)
qed

lemma running_simps [simp]:
  "running [] = []" "running (w # ws) = taken_by w @ running ws" "running (as @ bs) = running as @ running bs"
  by (simp_all add: running_def)

lemma lookers_simps [simp]:
  "lookers [] = 0" "lookers (w # ws) = (if w = Checking then Suc (lookers ws) else lookers ws)"
  "lookers (as @ bs) = lookers as + lookers bs"
  by (simp_all add: lookers_def)

lemma taken_by_simps [simp]:
  "taken_by Checking = []" "taken_by Blocked = []" "taken_by Exited = []" "taken_by (Running j) = [j]"
  by (simp_all add: taken_by_def)

lemma taken_by_wake [simp]: "taken_by (wake w) = taken_by w"
  by (cases w) auto

lemma wake_facts [simp]: "wake w \<noteq> Blocked" "wake w = Exited \<longleftrightarrow> w = Exited" "Blocked \<noteq> wake w"
  by (cases w; simp)+

lemma running_wake [simp]: "running (map wake ws) = running ws"
  by (induction ws) auto

lemma not_blocked_wake [simp]: "Blocked \<notin> wake ` A"
  by (metis imageE wake_facts(3))

lemma exited_wake [simp]: "Exited \<in> wake ` A \<longleftrightarrow> Exited \<in> A"
  by (metis (no_types, lifting) image_iff wake_facts(2))

lemma running_checking [simp]: "running (replicate n Checking) = []"
  by (induction n) auto

lemma start_inv: "listen_inv n mqr (start_listening n mqr)"
  by (simp add: listen_inv_def start_listening_def new_ThreadPool_def)

lemma accept_inv:
  assumes "listen_inv n mqr s" "ls_phase s = Accepting"
  shows "listen_inv n mqr (accept_connection sock s)"
  using assms by (auto simp: listen_inv_def accept_connection_def tp_enqueue_def Let_def)

lemma notify_inv:
  assumes "listen_inv n mqr s" "worker_at s i Blocked" "ph = ls_phase s \<or> ls_phase s = Notifying \<and> ph = Accepting"
  shows "listen_inv n mqr (s\<lparr>ls_phase := ph, ls_pool := notify_one i (ls_pool s)\<rparr>)"
proof -
  have i: "i < length (tp_threads (ls_pool s))" "tp_threads (ls_pool s) ! i = Blocked" using assms(2) by auto
  obtain as bs where "tp_threads (ls_pool s) = as @ Blocked # bs" "\<And>v. (tp_threads (ls_pool s))[i := v] = as @ v # bs"
    using worker_split [OF i(1)] i(2) by metis
  with assms show ?thesis by (auto simp: listen_inv_def notify_one_def set_worker_def Let_def)
qed

lemma check_inv:
  assumes "listen_inv n mqr s" "worker_at s i Checking"
  shows "listen_inv n mqr (worker_turn i s)"
proof -
  have i: "i < length (tp_threads (ls_pool s))" "tp_threads (ls_pool s) ! i = Checking" using assms(2) by auto
  obtain as bs where ws: "tp_threads (ls_pool s) = as @ Checking # bs" "\<And>v. (tp_threads (ls_pool s))[i := v] = as @ v # bs"
      "\<And>v. (as @ v # bs) ! i = v"
    using worker_split [OF i(1)] i(2) by metis
  show ?thesis
  proof (cases "tp_jobs (ls_pool s)")
    case Nil
    with assms(1) ws show ?thesis by (auto simp: listen_inv_def worker_turn_def worker_check_def set_worker_def Let_def)
  next
    case (Cons j js)
    with assms(1) ws show ?thesis by (auto simp: listen_inv_def worker_turn_def worker_check_def set_worker_def Let_def)
  qed
qed

lemma finish_inv:
  assumes "listen_inv n mqr s" "worker_at s i (Running j)"
  shows "listen_inv n mqr (worker_finish i s)"
proof -
  have i: "i < length (tp_threads (ls_pool s))" "tp_threads (ls_pool s) ! i = Running j" using assms(2) by auto
  obtain as bs where ws: "tp_threads (ls_pool s) = as @ Running j # bs" "\<And>v. (tp_threads (ls_pool s))[i := v] = as @ v # bs"
    using worker_split [OF i(1)] i(2) by metis
  with assms(1) i(2) show ?thesis by (auto simp: listen_inv_def worker_finish_def set_worker_def Let_def)
qed

lemma listen_step_inv:
  assumes "listen_step s s'" "listen_inv n mqr s"
  shows "listen_inv n mqr s'"
  using assms
proof (cases rule: listen_step.cases)
  case (notify i)
  then show ?thesis using notify_inv [OF assms(2), of i Accepting] by simp
next
  case (wake i)
  have "s\<lparr>ls_phase := ls_phase s, ls_pool := notify_one i (ls_pool s)\<rparr> = s'" using wake by (cases s) simp
  then show ?thesis using notify_inv [OF assms(2), of i "ls_phase s"] wake by simp
next
  case (notify_all)
  with assms(2) show ?thesis by (auto simp: listen_inv_def notify_all_def Let_def)
next
  case (accept sock)
  then show ?thesis using accept_inv [OF assms(2)] by simp
next
  case (check i)
  then show ?thesis using check_inv [OF assms(2)] by simp
next
  case (finish i j)
  then show ?thesis using finish_inv [OF assms(2)] by simp
qed (use assms(2) in \<open>auto simp: listen_inv_def accept_failed_def finish_listening_def svr_stop_def Let_def\<close>)

lemma listens_inv: "listens n mqr s \<Longrightarrow> listen_inv n mqr s"
  by (induction rule: listens.induct) (blast intro: start_inv listen_step_inv)+

section \<open>What the threads do together\<close>

text \<open>C10 (connections_served): when \<open>listen_internal\<close> has returned, every connection that was accepted has been
  served to the end exactly once or was refused because the queue was full, the queue is empty, and the workers
  took the connections in the order in which they came; at any time the queue holds at most
  \<open>max_queued_requests\<close> of them. This holds for every interleaving of the listener, at least one worker and
  the thread that stops the server.\<close>

theorem connections_served:
  assumes "listens n mqr s" "0 < n"
  shows "(mqr > 0 \<longrightarrow> length (tp_jobs (ls_pool s)) \<le> mqr) \<and> ls_queued s = ls_taken s @ tp_jobs (ls_pool s) \<and>
    (ls_phase s = Returned \<longrightarrow>
       tp_jobs (ls_pool s) = [] \<and> mset (ls_served s) + mset (ls_refused s) = mset (ls_accepted s))"
proof -
  note i = listens_inv [OF assms(1), unfolded listen_inv_def Let_def]
  have "tp_jobs (ls_pool s) = [] \<and> running (tp_threads (ls_pool s)) = []" if r: "ls_phase s = Returned"
  proof -
    have ex: "set (tp_threads (ls_pool s)) \<subseteq> {Exited}" and len: "length (tp_threads (ls_pool s)) = n" using i r by auto
    then have "Exited \<in> set (tp_threads (ls_pool s))" using assms(2) by (cases "tp_threads (ls_pool s)") auto
    moreover have "set ws \<subseteq> {Exited} \<Longrightarrow> running ws = []" for ws :: "'a worker list" by (induction ws) auto
    ultimately show ?thesis using i ex by blast
  qed
  with i show ?thesis by (auto simp: add.commute)
qed

text \<open>C17 (no_lost_wakeup): while a connection is queued, the workers are never all asleep without a notification
  under way: some worker is about to look at the queue or is busy, or the listener is about to notify one.\<close>

theorem no_lost_wakeup:
  assumes "listens n mqr s" "0 < n" "tp_jobs (ls_pool s) \<noteq> []"
  shows "ls_phase s = Notifying \<or> Checking \<in> set (tp_threads (ls_pool s)) \<or> (\<exists>j. Running j \<in> set (tp_threads (ls_pool s)))"
proof -
  note i = listens_inv [OF assms(1), unfolded listen_inv_def Let_def]
  have look: "lookers ws > 0 \<Longrightarrow> Checking \<in> set ws" for ws :: "'a worker list"
    unfolding lookers_def by (metis (mono_tags, lifting) filter_False length_greater_0_conv)
  obtain w where w: "w \<in> set (tp_threads (ls_pool s))" using i assms(2) by (cases "tp_threads (ls_pool s)") auto
  show ?thesis
  proof (cases w)
    case Blocked
    with w i have "length (tp_jobs (ls_pool s)) \<le> (if ls_phase s = Notifying then 1 else 0) + lookers (tp_threads (ls_pool s))"
      by blast
    then have "ls_phase s = Notifying \<or> length (tp_jobs (ls_pool s)) \<le> lookers (tp_threads (ls_pool s))" by (simp split: if_splits)
    moreover have "0 < length (tp_jobs (ls_pool s))" using assms(3) by simp
    ultimately have "ls_phase s = Notifying \<or> 0 < lookers (tp_threads (ls_pool s))" by linarith
    with look show ?thesis by blast
  next
    case Exited
    with w i assms(3) show ?thesis by auto
  qed (use w in auto)
qed

text \<open>The number of steps that are left once the pool is being shut down.\<close>

fun worker_weight :: "'j worker \<Rightarrow> nat" where
  "worker_weight Exited = 0"
| "worker_weight Checking = 1"
| "worker_weight Blocked = 2"
| "worker_weight (Running j) = 2"

fun phase_weight :: "phase \<Rightarrow> nat" where
  "phase_weight Returned = 0"
| "phase_weight Joining = 1"
| "phase_weight _ = 2"

definition steps_left :: "'j Listener \<Rightarrow> nat" where
  "steps_left s = 2 * length (tp_jobs (ls_pool s)) + sum_list (map worker_weight (tp_threads (ls_pool s))) +
     phase_weight (ls_phase s) + (if ls_open s then 1 else 0)"

lemma worker_weight_wake: "sum_list (map (worker_weight \<circ> wake) ws) \<le> sum_list (map worker_weight ws)"
proof (induction ws)
  case (Cons w ws)
  then show ?case by (cases w) auto
qed simp

lemma set_worker_weight:
  assumes "i < length ws" "worker_weight w + k < worker_weight (ws ! i) + m"
  shows "sum_list (map worker_weight (ws[i := w])) + k < sum_list (map worker_weight ws) + m"
proof -
  obtain as bs where "ws = as @ (ws ! i) # bs" "\<And>v. ws[i := v] = as @ v # bs" using worker_split [OF assms(1)] by metis
  then have "sum_list (map worker_weight ws) = sum_list (map worker_weight as) + worker_weight (ws ! i) + sum_list (map worker_weight bs)"
    "sum_list (map worker_weight (ws[i := w])) = sum_list (map worker_weight as) + worker_weight w + sum_list (map worker_weight bs)"
    by (metis map_append list.simps(9) sum_list.append sum_list.Cons add.assoc)+
  with assms(2) show ?thesis by linarith
qed

lemma shutdown_step:
  assumes "listen_step s s'" "listen_inv n mqr s" "tp_shutdown (ls_pool s)"
  shows "tp_shutdown (ls_pool s') \<and> steps_left s' < steps_left s"
proof -
  have ph: "ls_phase s \<in> {Waking, Joining, Returned}" using assms(2,3) by (simp add: listen_inv_def Let_def)
  from assms(1) show ?thesis
  proof (cases rule: listen_step.cases)
    case (check i)
    show ?thesis
    proof (cases "tp_jobs (ls_pool s)")
      case Nil
      with check assms(3) set_worker_weight [of i "tp_threads (ls_pool s)" Exited 0 0] show ?thesis
        by (simp add: worker_turn_def worker_check_def set_worker_def steps_left_def Let_def)
    next
      case (Cons j js)
      with check assms(3) set_worker_weight [of i "tp_threads (ls_pool s)" "Running j" 0 2] show ?thesis
        by (simp add: worker_turn_def worker_check_def set_worker_def steps_left_def Let_def)
    qed
  next
    case (wake i)
    with assms(3) set_worker_weight [of i "tp_threads (ls_pool s)" Checking 0 0] show ?thesis
      by (simp add: notify_one_def set_worker_def steps_left_def)
  next
    case (finish i j)
    with assms(3) set_worker_weight [of i "tp_threads (ls_pool s)" Checking 0 0] show ?thesis
      by (simp add: worker_finish_def set_worker_def steps_left_def)
  next
    case notify_all
    with assms(3) worker_weight_wake [of "tp_threads (ls_pool s)"] show ?thesis
      by (simp add: notify_all_def steps_left_def)
  qed (use ph assms(3) in \<open>auto simp: finish_listening_def svr_stop_def steps_left_def\<close>)
qed

lemma shutdown_not_stuck:
  assumes "listen_inv n mqr s" "tp_shutdown (ls_pool s)" "ls_phase s \<noteq> Returned"
  shows "\<exists>s'. listen_step s s'"
proof (cases "ls_phase s = Waking")
  case True
  then show ?thesis by (blast intro: listen_step.notify_all)
next
  case False
  with assms have ph: "ls_phase s = Joining" by (auto simp: listen_inv_def Let_def)
  show ?thesis
  proof (cases "set (tp_threads (ls_pool s)) \<subseteq> {Exited}")
    case True
    with ph show ?thesis by (blast intro: listen_step.joined)
  next
    case False
    then obtain w where w: "w \<in> set (tp_threads (ls_pool s))" "w \<noteq> Exited" by blast
    then obtain i where i: "i < length (tp_threads (ls_pool s))" "tp_threads (ls_pool s) ! i = w" by (metis in_set_conv_nth)
    have "w \<noteq> Blocked" using assms(1) ph w(1) by (auto simp: listen_inv_def Let_def)
    with w(2) i show ?thesis by (cases w) (blast intro: listen_step.check listen_step.finish)+
  qed
qed

text \<open>C11 (shutdown_completes): from the moment the pool is being shut down, in every interleaving only a bounded
  number of steps is possible, and as long as \<open>listen_internal\<close> has not returned there is a next one: the
  workers drain the queue and leave, and \<open>join\<close> returns.\<close>

theorem shutdown_completes:
  assumes "listens n mqr s" "tp_shutdown (ls_pool s)" "(listen_step ^^ k) s s'"
  shows "k \<le> steps_left s \<and> (ls_phase s' = Returned \<or> (\<exists>s''. listen_step s' s''))"
proof -
  have "listens n mqr s' \<and> tp_shutdown (ls_pool s') \<and> k + steps_left s' \<le> steps_left s"
    using assms(3)
  proof (induction k arbitrary: s')
    case 0
    with assms(1,2) show ?case by simp
  next
    case (Suc k)
    then obtain t where t: "(listen_step ^^ k) s t" "listen_step t s'" by auto
    with Suc.IH [OF t(1)] shutdown_step [OF t(2) listens_inv] listens.step show ?case by fastforce
  qed
  then show ?thesis using shutdown_not_stuck [OF listens_inv] by fastforce
qed

section \<open>An example run\<close>

text \<open>One worker; a connection is accepted and served, then the server is stopped.\<close>

definition example_busy :: "nat Listener" where
  "example_busy = (accept_connection 7 (start_listening 1 0))\<lparr>ls_phase := Accepting\<rparr>"

definition example_stopping :: "nat Listener" where
  "example_stopping =
     (let s = (svr_stop (worker_finish 0 (worker_turn 0 example_busy)))\<lparr>ls_phase := Closing\<rparr>
      in s\<lparr>ls_phase := Waking, ls_pool := (ls_pool s)\<lparr>tp_shutdown := True\<rparr>\<rparr>)"

definition example_returned :: "nat Listener" where
  "example_returned =
     finish_listening (worker_turn 0 (example_stopping\<lparr>ls_phase := Joining, ls_pool := notify_all (ls_pool example_stopping)\<rparr>))"

lemmas example_run_defs = example_busy_def example_stopping_def example_returned_def start_listening_def new_ThreadPool_def
  accept_connection_def tp_enqueue_def worker_turn_def worker_finish_def worker_check_def set_worker_def svr_stop_def
  finish_listening_def notify_all_def Let_def

lemma example_busy_listens: "listens 1 0 example_busy"
proof -
  have "listens 1 0 (accept_connection 7 (start_listening 1 0))"
    by (rule listens.step [OF listens.start listen_step.accept]) (simp_all add: example_run_defs)
  then show ?thesis unfolding example_busy_def
    by (rule listens.step [OF _ listen_step.notify_none]) (simp_all add: example_run_defs)
qed

lemma example_stopping_listens: "listens 1 0 example_stopping"
proof -
  have "listens 1 0 (worker_turn 0 example_busy)"
    by (rule listens.step [OF example_busy_listens listen_step.check]) (simp add: example_run_defs)
  then have "listens 1 0 (worker_finish 0 (worker_turn 0 example_busy))"
    by (rule listens.step [OF _ listen_step.finish [where i = 0 and j = 7]]) (simp add: example_run_defs)
  then have "listens 1 0 (svr_stop (worker_finish 0 (worker_turn 0 example_busy)))"
    by (rule listens.step [OF _ listen_step.stop]) (simp_all add: example_run_defs)
  then have "listens 1 0 ((svr_stop (worker_finish 0 (worker_turn 0 example_busy)))\<lparr>ls_phase := Closing\<rparr>)"
    by (rule listens.step [OF _ listen_step.closed]) (simp_all add: example_run_defs)
  then show ?thesis unfolding example_stopping_def Let_def
    by (rule listens.step [OF _ listen_step.shutdown]) simp
qed

lemma example_rest:
  "listen_step example_stopping (example_stopping\<lparr>ls_phase := Joining, ls_pool := notify_all (ls_pool example_stopping)\<rparr>)"
  "listen_step (example_stopping\<lparr>ls_phase := Joining, ls_pool := notify_all (ls_pool example_stopping)\<rparr>)
     (worker_turn 0 (example_stopping\<lparr>ls_phase := Joining, ls_pool := notify_all (ls_pool example_stopping)\<rparr>))"
  "listen_step (worker_turn 0 (example_stopping\<lparr>ls_phase := Joining, ls_pool := notify_all (ls_pool example_stopping)\<rparr>)) example_returned"
    apply (rule listen_step.notify_all, simp add: example_run_defs)
   apply (rule listen_step.check, simp add: example_run_defs)
  unfolding example_returned_def
  apply (rule listen_step.joined; simp add: example_run_defs)
  done

theorem connections_served_witness:
  "ls_phase example_returned = Returned \<and> mset (ls_served example_returned) + mset (ls_refused example_returned) = {#7#}"
proof -
  have "listens 1 0 example_returned"
    by (blast intro: listens.step example_stopping_listens example_rest)
  from connections_served [OF this zero_less_one] show ?thesis by (simp add: example_run_defs)
qed

theorem no_lost_wakeup_witness:
  "tp_jobs (ls_pool example_busy) = [7] \<and> (ls_phase example_busy = Notifying \<or>
     Checking \<in> set (tp_threads (ls_pool example_busy)) \<or> (\<exists>j. Running j \<in> set (tp_threads (ls_pool example_busy))))"
proof -
  have "tp_jobs (ls_pool example_busy) = [7]" by (simp add: example_run_defs)
  then show ?thesis using no_lost_wakeup [OF example_busy_listens zero_less_one] by simp
qed

theorem shutdown_completes_witness:
  "(listen_step ^^ 3) example_stopping example_returned \<and> 3 \<le> steps_left example_stopping"
proof -
  have k: "(listen_step ^^ 3) example_stopping example_returned"
    using example_rest by (auto simp: numeral_3_eq_3)
  have "tp_shutdown (ls_pool example_stopping)" by (simp add: example_run_defs)
  from shutdown_completes [OF example_stopping_listens this k] k show ?thesis by simp
qed

end
