(* ===== verification/Spec2Isabelle.thy ===== *)
theory Spec2Isabelle
  imports Desktop Mobile Http_Service Http_Routes Http_Pool
begin

text \<open>
  \<^bold>\<open>The C++ tools of the launcher.\<close> The repository is an Android TV launcher around Jellyfin. Its native part,
  \<open>src/CPPTools\<close>, consists of two programs that talk to each other over HTTP and of the libraries compiled
  into them from headers. On the desktop (\<open>main.cpp\<close>, \<open>src/desktop\<close>) a web server lists the images of a folder
  (\<open>/screensaverIL\<close>), serves them, and passes on the weather (\<open>/queryWeather\<close>), which it gets from a public
  service; an MQTT client talks to the home automation. On the phone (\<open>jni.cpp\<close>, \<open>src/mobile\<close>) functions called
  from Java fetch the list, download the images with several threads, and cache the weather in a file. Both
  sides use the HTTP client \<open>include/httplib.h\<close> and the JSON library \<open>include/nlohmann\<close>.

  \<^bold>\<open>Theories.\<close> Each opens with a text on what it holds; definitions keep the names of the source.

  \<^item> \<open>Prelude\<close>: bytes, the character functions of C, generic lemmas.
  \<^item> \<open>Http_Text\<close>, \<open>Http_Status\<close>: the text utilities of \<open>httplib.h\<close> (percent and base64 encoding, splitting and
    trimming, path check, query strings, case-insensitive hashing and equality), status codes, error codes and
    the MIME table.
  \<^item> \<open>Http_Stream\<close>: the class \<open>Stream\<close> as a record of operations, \<open>BufferStream\<close>, \<open>SocketStream\<close> with its read
    buffer over the operating system's socket, line reading. The interfaces are locales: \<open>readable_stream\<close>,
    \<open>writable_stream\<close>, \<open>duplex_stream\<close>, and \<open>os_socket\<close> for what a connection that works promises; a sublocale
    shows that \<open>SocketStream\<close> over such a socket is a duplex stream.
  \<^item> \<open>Http_Headers\<close>, \<open>Http_Content\<close>, \<open>Http_Message\<close>: header fields, bodies (with length, until the end of the
    connection, chunked) in both directions, requests and responses, start lines, URLs and locations. A
    receiver of a body is the locale \<open>content_sink\<close>.
  \<^item> \<open>Http_Multipart\<close>: writing a form and the parser that is fed one in portions, with its buffer.
  \<^item> \<open>Http_Client\<close>: \<open>ClientImpl\<close> with its settings, \<open>send\<close> with sockets, retries and redirects, \<open>Get\<close> and \<open>Head\<close>.
  \<^item> \<open>Http_Methods\<close>: the other methods of the client (\<open>Post\<close>, \<open>Put\<close>, \<open>Patch\<close>, \<open>Delete\<close>, \<open>Options\<close>) with bodies that are
    strings, forms or produced by content providers, and its settings.
  \<^item> \<open>Http_Ranges\<close>, \<open>Http_Accept\<close>: the \<open>Range\<close> field with the check of the ranges and the bodies made of them,
    and the \<open>Accept\<close> field.
  \<^item> \<open>Http_Server\<close>: the server (\<open>httplib::Server\<close>): matchers, reading and routing a request, files, the response, the
    requests of a connection. \<open>Http_Routes\<close> and \<open>Http_Service\<close> have what is shown of it, the latter also the
    exchange between client and server. \<open>Http_Pool\<close>: its accept loop and thread pool, as a step relation.
  \<^item> \<open>Json_Float\<close>, \<open>Json_Value\<close>, \<open>Json_Dump\<close>: printing of doubles (Grisu2), values with access and modification,
    the serializer with its 512-byte buffer and its UTF-8 automaton.
  \<^item> \<open>Json_Lexer\<close>, \<open>Json_Parser\<close>, \<open>Json_Roundtrip\<close>: the scanner with its state, the iterative parser with its stack
    of states and the SAX consumer with its stack of pointers, and how reading and printing fit together.
  \<^item> \<open>Platform\<close>, \<open>Tools\<close>: files, paths and the logging class; exceptions, the weather record, and the locale
    \<open>json_message\<close> of what the two programs send each other, interpreted for the weather and for the list.
  \<^item> \<open>Desktop\<close>, \<open>Mobile\<close>: the two programs. This theory has the properties that span them.

  \<^bold>\<open>State and effects.\<close> Objects are records, passed and returned. A call with sockets returns a value of type
  \<^typ>\<open>(exn + 'a) option\<close>: \<^term>\<open>None\<close> if it never returns, \<^term>\<open>Inl e\<close> if it throws. Exceptions, failed assertions,
  null pointers, divisions by zero and uncaught exceptions of threads are values of \<open>exn\<close>, \<open>json_exn\<close> and
  \<open>app_exn\<close>. Integers of the JSON library have their 64 bits; sizes are natural numbers where they cannot reach
  the bound. The download threads are the step relation \<open>thread_step\<close>; the functions that run them take the
  order of the threads as an argument, and the properties hold for every order. The listener and the workers of
  the server are the step relation \<open>listen_step\<close>, whose states record what has been accepted, taken and served.

  \<^bold>\<open>Parameters.\<close> Code outside the sources is an argument: the sockets (record \<open>World\<close>), the values of the YAML
  file, the MQTT library, the file system's permissions, the number of processors, and for the server
  the record \<open>srv_env\<close> (files, regular expressions, \<open>std::sort\<close>, \<open>std::stod\<close>, the random engine). The properties name what
  they rely on: \<open>os_socket\<close> for a connection, \<open>network_works\<close> for all of them, both inhabited by the scripted
  network \<open>net_world\<close>, which the witnesses use.

  \<^bold>\<open>What is shown.\<close>
  For the HTTP client: a well-formed response is delivered exactly, in every framing and however the network
  cuts it; every call returns, whatever the peer sends; a body cut short and a failed connection are reported; a
  result without error has a response; redirects come to an end; chunked bodies, forms (fed in any portions) and
  query strings read back as they were written, headers up to the percent-decoding of values; encoding, splitting and hashing agree with reference definitions;
  \<open>Post\<close> sends its body with the right length, and a form that is streamed is the form that is sent at once.
  For the HTTP server: what the client sends for \<open>Get\<close> and \<open>Post\<close> reaches the first matching handler unchanged and
  the client gets exactly what the handler answered; path parameters are captured as they were put in; requests
  for files cannot leave the mounted directories; the ranges that are sent are the ones asked for and have the
  announced length; every accepted connection is served once or refused, no wake-up is lost, and the shutdown
  of the threads completes.
  For JSON: the iterative parser accepts exactly the language of a recursive grammar and builds its values, no
  assertion on its pointers fails, the variant without exceptions agrees; the serializer writes the reference
  text, never past its buffer, and throws exactly for invalid UTF-8; parsing after printing gives the value
  back, and a parsed value always prints; the modifiers of objects are operations on finite maps and keep the keys
  sorted; the parts of the Grisu2 printer
  compute exact products and stay in their table.
  For the programs: in every interleaving the downloaded files are exactly the received bytes, the threads end,
  the images are dealt out evenly; the cache file is replaced by the text of the answer or left alone; the
  weather record gets from the desktop to the phone unchanged, through printing, HTTP, parsing and the cache, and so would
  the list of images, but the function that asks for it goes through a null pointer; the handlers' errors are as stated.

  \<^bold>\<open>Loops and bounds.\<close> Loops whose end depends on the peer are partial functions into \<open>option\<close>; that they
  return is proved from the locales (\<open>Get_returns\<close>). All others are total, with measures where the recursion is
  not structural; the lexer and the parser use the bytes left. \<open>send\<close> is defined by recursion on the redirects
  left (20 at the start); \<open>redirects_end\<close> shows that this is the recursion of the code, whose calls cannot be
  nested deeper, and that it ends. No fuel is used.

  \<^bold>\<open>Not modelled.\<close> Digest authentication, TLS and compression, which are not compiled in; of the server, receivers of
  a content reader that throw; name resolution and the creation of sockets, which are system calls. Of the JSON library the binary formats,
  iterators, comparison, JSON Pointer and JSON Patch, the parser callback and the correctness of the digits that
  Grisu2 chooses. Log output and time stamps. Two different paths are taken to name different files, and writing
  to an open file does not fail. The headers of OpenSSL, drogon, trantor and the MQTT libraries have no
  implementation in the repository; the Android application itself is written in Kotlin.
\<close>

section \<open>Examples\<close>

lemma valid_response_until_close: "length body \<le> STRING_MAX_SIZE \<Longrightarrow> valid_response 200 ''OK'' [] body body []"
  by (simp add: valid_response_def plain_reason_def HEADER_MAX_COUNT_def framed_def has_header_def header_values_def
      is_chunked_transfer_encoding_def get_header_value_def encoding_unsupported_def equal_ci_def)

definition example_weather :: WeatherData where
  "example_weather = \<lparr>city = ''B'', weather = ''W'', temperature = ''30'', temperatureFloat = ''30.0'', humidity = ''5'',
     humidityFloat = ''5.0'', winddirection = ''N'', windpower = ''3'', reporttime = ''T''\<rparr>"

definition example_answer :: json where
  "example_answer = JObject [(''lives'', JArray [JObject [(''city'', JString ''B''), (''humidity'', JString ''5''),
     (''humidity_float'', JString ''5.0''), (''reporttime'', JString ''T''), (''temperature'', JString ''30''),
     (''temperature_float'', JString ''30.0''), (''weather'', JString ''W''), (''winddirection'', JString ''N''),
     (''windpower'', JString ''3'')]]), (''status'', JString ''1'')]"

lemma example_answer_weather: "weather_of_body (dump_text example_answer) = Inr (Some example_weather)"
proof -
  have "json_ok example_answer" by code_simp
  moreover have "utf8_strings example_answer" by code_simp
  moreover have "printable example_answer" "reread example_answer = example_answer" by (simp_all add: example_answer_def)
  ultimately have p: "json_parse (dump_text example_answer) = Inr example_answer" using json_parse_dump_text by simp
  show ?thesis
    unfolding weather_of_body_def parse_weather_def p
    by (simp add: example_answer_def example_weather_def json_string_member_def json_key_const_def get_string_value_def
        is_array_def json_size_def json_index_const_def live_weather_def)
qed

lemma presentable_example: "presentable example_weather"
  by code_simp

definition example_entries :: "(string \<times> bool) list" where
  "example_entries = [(''/d/a.png'', True), (''/d/sub'', False)]"

section \<open>Properties\<close>

text \<open>
  C8 (weather_reaches_phone): the weather record that the desktop got from the service arrives at the
  phone. The handler's response, sent over a working connection in any framing, is stored in the cache and
  \<open>getCacheWeather\<close> returns the same nine fields. The record has no zero bytes, which a C string cannot
  hold, and does not look like a missing one; the cache file can be written.
\<close>

theorem weather_reaches_phone:
  assumes "weather_of_body answer = Inr (Some d)" "presentable d" "weather_response (Some d) = Inr t"
    "new_Client (mobileServerUrl m) = Inr (cl :: unit ClientImpl)"
    "os_socket (w_os W sock) up incoming outgoing" "create_client_socket W cl w = (Inr sock, w1)" "up w1"
    "incoming w1 = response_wire status reason hs wire @ left" "valid_response status reason hs t wire left"
    "fs_writable (mobileFs m) (weather_file m)"
  shows "\<exists>m' w'. JNICommon_queryWeather W m w = Some (Inr (0, m', w')) \<and> JNICommon_getCacheWeather m' = Inr (Some d)"
proof -
  have u: "list_all utf8 (weather_fields d)" using assms(1) by (rule weather_of_body_utf8)
  have t: "t = dump_text (to_json d)" using weather_response_text [OF u] assms(3) by simp
  let ?m = "m\<lparr>mobileFs := put_file (weather_file m) t (mobileFs m)\<rparr>"
  obtain r cl' w' where "Get W cl ''/queryWeather'' None w () = Some (Inr (r, cl', w', ()))" "rt_err r = Success"
    "result_body r = Inr t" "json_parse t = Inr (to_json d)"
    using weather_message.delivered [OF u assms(5) new_Client_plain [OF assms(4)] _ assms(6-8), of "''/queryWeather''" "()"]
      assms(9) unfolding t by auto
  then have "JNICommon_queryWeather W m w = Some (Inr (0, ?m, w'))"
    using assms(4,10) t by (simp add: JNICommon_queryWeather_def store_weather_eq)
  moreover have "JNICommon_getCacheWeather ?m = Inr (Some d)"
    using assms(2) t by (intro getCacheWeather_stored) (simp_all add: weather_file_def)
  ultimately show ?thesis by blast
qed

theorem weather_reaches_phone_witness:
  "\<exists>m' w'. JNICommon_queryWeather net_world example_mobile
       (net_of [response_wire 200 ''OK'' [] (dump_text (to_json example_weather))]) = Some (Inr (0, m', w')) \<and>
     JNICommon_getCacheWeather m' = Inr (Some example_weather)"
proof (rule weather_reaches_phone [OF example_answer_weather presentable_example _ example_mobile_client net_world_socket
      net_world_connect TrueI])
  show "weather_response (Some example_weather) = Inr (dump_text (to_json example_weather))"
    using weather_response_text presentable_example by (simp add: presentable_def list_all_iff)
  show "concat (net_in (net_of [response_wire 200 ''OK'' [] (dump_text (to_json example_weather))])) =
      response_wire 200 ''OK'' [] (dump_text (to_json example_weather)) @ []" by (simp add: net_of_def)
  show "valid_response 200 ''OK'' [] (dump_text (to_json example_weather)) (dump_text (to_json example_weather)) []"
  proof (rule valid_response_until_close)
    have "length (dump_text (to_json example_weather)) \<le> 1000" by code_simp
    then show "length (dump_text (to_json example_weather)) \<le> STRING_MAX_SIZE" by (simp add: STRING_MAX_SIZE_def)
  qed
  show "fs_writable (mobileFs example_mobile) (weather_file example_mobile)" by (simp add: example_mobile_def)
qed

text \<open>
  C9 (image_list_reaches_phone): the query of the list of images. The function that Java calls fails as it is written, whatever
  the network does: it calls the query through the null pointer that \<open>newInstance\<close> returns. The query itself is
  right: called on an object, over a working connection, the same function receives the names of the image
  files of the desktop's folder and stores them, and both ways in which the phone reads the stored list, the one for
  Java and the one for the download, give exactly the names, in order. The names are valid UTF-8 without zero bytes.
\<close>

theorem image_list_reaches_phone:
  assumes "list_all (\<lambda>s. utf8 s \<and> NUL \<notin> set s) (image_names entries)" "image_list_body entries = t"
    "os_socket (w_os W sock) up incoming outgoing"
    "create_client_socket W (new_ClientImpl host port :: unit ClientImpl) w = (Inr sock, w1)" "up w1"
    "incoming w1 = response_wire status reason hs wire @ left" "valid_response status reason hs t wire left"
  shows "JNICommon_queryScreensaverImageUrlList W host port m w = Some (Inl Null_result) \<and>
    (\<exists>m' w'. query_image_url_list W (Some this) host port m w = Some (Inr (t, m', w')) \<and>
      JNICommon_getScreensaverRemoteImageList m' = Inr (image_names entries) \<and>
      (\<exists>j. json_parse (screensaverRemoteImageList m') = Inr j \<and> get_string_vector j = Inr (image_names entries)))"
proof -
  let ?ns = "image_names entries"
  let ?j = "json_of_strings ?ns"
  have u: "list_all utf8 ?ns" and z: "\<forall>s \<in> set ?ns. NUL \<notin> set s" using assms(1) by (auto simp: list_all_iff)
  then have t: "t = dump_text ?j"
    using assms(2) dump_default_iff [of ?j "dump_text ?j"] by (simp add: image_list_body_def json_of_strings_def list_all_iff)
  have c: "c_str t = t" using c_str_id [OF NUL_notin_string_array [of ?ns]] t by (simp add: json_of_strings_def)
  have a: "snd (add_strings (map JString ss) acc) = acc @ ss" if "\<forall>s \<in> set ss. NUL \<notin> set s" for ss acc
    using that by (induction ss arbitrary: acc) (simp_all add: get_string_value_def)
  have v: "get_strings (map JString ss) = Inr ss" for ss by (induction ss) (simp_all add: get_string_value_def)
  obtain r cl' w2 where "Get W (new_ClientImpl host port) ''/screensaverIL'' None w () = Some (Inr (r, cl', w2, ()))"
    "rt_err r = Success" "result_body r = Inr t" and p: "json_parse t = Inr ?j"
    using list_message.delivered [OF u assms(3) plain_client_new _ assms(4-6), of "''/screensaverIL''" "()"]
      assms(7) unfolding t by auto
  then have "query_image_url_list W (Some this) host port m w =
      Some (Inr (t, updateScreensaverRemoteImageList t m, w2))"
    by (simp add: query_image_url_list_def queryScreensaverImageList_def c)
  moreover have "JNICommon_getScreensaverRemoteImageList (updateScreensaverRemoteImageList t m) = Inr ?ns"
    using a [OF z, of "[]"]
    by (simp add: JNICommon_getScreensaverRemoteImageList_def updateScreensaverRemoteImageList_def c p elements_def json_of_strings_def)
  moreover have "json_parse (screensaverRemoteImageList (updateScreensaverRemoteImageList t m)) = Inr ?j"
    "get_string_vector ?j = Inr ?ns"
    by (simp_all add: updateScreensaverRemoteImageList_def p get_string_vector_def v json_of_strings_def)
  moreover have "JNICommon_queryScreensaverImageUrlList W host port m w = Some (Inl Null_result)"
    by (simp add: JNICommon_queryScreensaverImageUrlList_def query_image_url_list_def HttpGQScreensaver_newInstance_def)
  ultimately show ?thesis by blast
qed

theorem image_list_reaches_phone_witness:
  "\<exists>m' w'. query_image_url_list net_world (Some HttpGQScreensaver) ''tv'' 80 example_mobile
       (net_of [response_wire 200 ''OK'' [] (image_list_body example_entries)]) =
       Some (Inr (image_list_body example_entries, m', w')) \<and>
     JNICommon_getScreensaverRemoteImageList m' = Inr [''a.png'']"
proof -
  let ?b = "image_list_body example_entries"
  have n: "image_names example_entries = [''a.png'']" by (simp add: image_names_def filename_def example_entries_def)
  have u: "list_all (\<lambda>s. utf8 s \<and> NUL \<notin> set s) (image_names example_entries)" unfolding n by code_simp
  have "length ?b \<le> 1000" by code_simp
  then have v: "valid_response 200 ''OK'' [] ?b ?b []" by (intro valid_response_until_close) (simp add: STRING_MAX_SIZE_def)
  have c: "concat (net_in (net_of [response_wire 200 ''OK'' [] ?b])) = response_wire 200 ''OK'' [] ?b @ []" by (simp add: net_of_def)
  have "\<exists>m' w'. query_image_url_list net_world (Some HttpGQScreensaver) ''tv'' 80 example_mobile (net_of [response_wire 200 ''OK'' [] ?b]) =
      Some (Inr (?b, m', w')) \<and> JNICommon_getScreensaverRemoteImageList m' = Inr (image_names example_entries) \<and>
    (\<exists>j. json_parse (screensaverRemoteImageList m') = Inr j \<and> get_string_vector j = Inr (image_names example_entries))"
    using image_list_reaches_phone [OF u refl net_world_socket net_world_connect TrueI c v] by blast
  then show ?thesis unfolding n by (elim exE conjE) (intro exI conjI)
qed

end
